(* ===== verification/Manox_Prelude.thy ===== *)
theory Manox_Prelude
  imports Main "HOL-Library.Word" "HOL-Library.Multiset"
begin

text \<open>
  Shared vocabulary of the development: Rust strings, slices and integers as the
  sources under \<^verbatim>\<open>src/crates\<close> use them, and the generic lemmas the component theories
  rely on.

  A Rust \<^verbatim>\<open>str\<close> is its UTF-8 byte sequence, so it is a \<open>string\<close> (a list of 8-bit
  characters) and \<^verbatim>\<open>str::len\<close> is \<open>length\<close>. A Unicode scalar outside ASCII is the
  several bytes of its encoding; \<^verbatim>\<open>trim\<close>, which strips Unicode white space, is written
  over these encodings. A \<^verbatim>\<open>usize\<close> is a \<open>nat\<close>; parsing one rejects what does not fit
  64 bits. A \<^verbatim>\<open>Result<T, E>\<close> is \<open>E + T\<close> with \<open>Inl\<close> the error.
\<close>

named_theorems str_simps \<open>evaluation of the string operations\<close>
named_theorems line_lems \<open>line splitting and joining\<close>

type_synonym str = string
type_synonym ('e, 'a) result = "'e + 'a"

section \<open>Results\<close>

text \<open>The \<^verbatim>\<open>?\<close> operator: continue on \<^verbatim>\<open>Ok\<close>, return the error otherwise.\<close>

definition try_then :: "('e, 'a) result \<Rightarrow> ('a \<Rightarrow> ('e, 'b) result) \<Rightarrow> ('e, 'b) result" where
  "try_then r f = (case r of Inl e \<Rightarrow> Inl e | Inr a \<Rightarrow> f a)"

lemma try_then_simps [simp]:
  "try_then (Inl e) f = Inl e"
  "try_then (Inr a) f = f a"
  by (simp_all add: try_then_def)

lemma try_then_Inr_iff: "try_then r f = Inr b \<longleftrightarrow> (\<exists>a. r = Inr a \<and> f a = Inr b)"
  by (cases r) auto

lemma try_then_Inl_iff:
  "try_then r f = Inl e \<longleftrightarrow> r = Inl e \<or> (\<exists>a. r = Inr a \<and> f a = Inl e)"
  by (cases r) auto

text \<open>A loop that pushes the result of a fallible call per element and stops at the first error.\<close>

fun try_map :: "('a \<Rightarrow> ('e, 'b) result) \<Rightarrow> 'a list \<Rightarrow> ('e, 'b list) result" where
  "try_map f [] = Inr []"
| "try_map f (x # xs) = try_then (f x) (\<lambda>y. try_then (try_map f xs) (\<lambda>ys. Inr (y # ys)))"

lemma try_map_Inr_iff:
  "try_map f xs = Inr ys \<longleftrightarrow> list_all2 (\<lambda>x y. f x = Inr y) xs ys"
proof (induction xs arbitrary: ys)
  case Nil
  then show ?case by auto
next
  case (Cons x xs)
  then show ?case by (cases ys) (auto simp: try_then_Inr_iff)
qed

lemma try_map_Inr_iff_all: "(\<exists>ys. try_map f xs = Inr ys) \<longleftrightarrow> (\<forall>x \<in> set xs. \<exists>y. f x = Inr y)"
  by (induction xs) (auto simp: try_then_Inr_iff)

text \<open>A loop that threads a state through a fallible body and stops at the first error.\<close>

fun try_fold :: "('a \<Rightarrow> 's \<Rightarrow> ('e, 's) result) \<Rightarrow> 'a list \<Rightarrow> 's \<Rightarrow> ('e, 's) result" where
  "try_fold f [] s = Inr s"
| "try_fold f (x # xs) s = try_then (f x s) (\<lambda>s'. try_fold f xs s')"

lemma try_fold_append:
  "try_fold f (xs @ ys) s = try_then (try_fold f xs s) (\<lambda>s'. try_fold f ys s')"
proof (induction xs arbitrary: s)
  case (Cons x xs)
  then show ?case by (cases "f x s") auto
qed simp

text \<open>
  The contract of a loop body: it keeps an invariant whenever it returns. A client proves it
  for one step and reads off the whole loop.
\<close>

locale loop_body =
  fixes step :: "'a \<Rightarrow> 's \<Rightarrow> ('e, 's) result" and inv :: "'s \<Rightarrow> bool"
  assumes step_keeps: "inv s \<Longrightarrow> step x s = Inr s' \<Longrightarrow> inv s'"
begin

lemma loop_keeps: "inv s \<Longrightarrow> try_fold step xs s = Inr s' \<Longrightarrow> inv s'"
proof (induction xs arbitrary: s)
  case (Cons x xs)
  then obtain t where "step x s = Inr t" "try_fold step xs t = Inr s'"
    by (auto simp: try_then_Inr_iff)
  with Cons step_keeps show ?case by blast
qed simp

end

section \<open>Prefixes and suffixes\<close>

fun strip_prefix :: "str \<Rightarrow> str \<Rightarrow> str option" where
  "strip_prefix [] s = Some s"
| "strip_prefix (p # ps) [] = None"
| "strip_prefix (p # ps) (c # cs) = (if p = c then strip_prefix ps cs else None)"

definition starts_with :: "str \<Rightarrow> str \<Rightarrow> bool" where
  "starts_with s p = (strip_prefix p s \<noteq> None)"

definition strip_suffix :: "str \<Rightarrow> str \<Rightarrow> str option" where
  "strip_suffix q s = map_option rev (strip_prefix (rev q) (rev s))"

definition ends_with :: "str \<Rightarrow> str \<Rightarrow> bool" where
  "ends_with s q = (strip_suffix q s \<noteq> None)"

lemma strip_prefix_Some_iff: "strip_prefix p s = Some r \<longleftrightarrow> s = p @ r"
  by (induction p s rule: strip_prefix.induct) auto

lemma strip_prefix_append [simp]: "strip_prefix p (p @ r) = Some r"
  by (simp add: strip_prefix_Some_iff)

lemma strip_prefix_None_iff: "strip_prefix p s = None \<longleftrightarrow> (\<forall>r. s \<noteq> p @ r)"
  using strip_prefix_Some_iff [of p s] by (cases "strip_prefix p s") auto

lemma strip_suffix_Some_iff: "strip_suffix q s = Some r \<longleftrightarrow> s = r @ q"
proof -
  have "strip_suffix q s = Some r \<longleftrightarrow> strip_prefix (rev q) (rev s) = Some (rev r)"
    by (auto simp: strip_suffix_def)
  then show ?thesis
    by (metis strip_prefix_Some_iff rev_append rev_rev_ident)
qed

lemma starts_with_iff: "starts_with s p \<longleftrightarrow> (\<exists>r. s = p @ r)"
  by (auto simp: starts_with_def strip_prefix_None_iff)

lemma ends_with_iff: "ends_with s q \<longleftrightarrow> (\<exists>r. s = r @ q)"
  using strip_suffix_Some_iff [of q s] by (auto simp: ends_with_def)

text \<open>\<^verbatim>\<open>trim_start_matches\<close> and \<^verbatim>\<open>trim_end_matches\<close> with a set of single characters.\<close>

definition trim_start_matches :: "char list \<Rightarrow> str \<Rightarrow> str" where
  "trim_start_matches cs s = dropWhile (\<lambda>c. c \<in> set cs) s"

definition trim_end_matches :: "char list \<Rightarrow> str \<Rightarrow> str" where
  "trim_end_matches cs s = rev (dropWhile (\<lambda>c. c \<in> set cs) (rev s))"

lemma trim_end_matches_idem [simp]:
  "trim_end_matches cs (trim_end_matches cs s) = trim_end_matches cs s"
  by (simp add: trim_end_matches_def)

lemma trim_end_matches_append:
  assumes "set t \<subseteq> set cs"
  shows "trim_end_matches cs (s @ t) = trim_end_matches cs s"
proof -
  from assms have "\<And>x. x \<in> set (rev t) \<Longrightarrow> x \<in> set cs" by auto
  then have "dropWhile (\<lambda>c. c \<in> set cs) (rev t @ rev s) = dropWhile (\<lambda>c. c \<in> set cs) (rev s)"
    by (rule dropWhile_append2)
  then show ?thesis by (simp add: trim_end_matches_def)
qed

lemma trim_end_matches_keep:
  assumes "s \<noteq> []" and "last s \<notin> set cs"
  shows "trim_end_matches cs s = s"
proof -
  from assms have "rev s = last s # rev (butlast s)"
    by (metis append_butlast_last_id rev.simps(2) rev_rev_ident rev_swap)
  then have "dropWhile (\<lambda>c. c \<in> set cs) (rev s) = rev s"
    using assms(2) by (metis dropWhile.simps(2))
  then show ?thesis by (simp add: trim_end_matches_def)
qed

text \<open>\<^verbatim>\<open>str::contains\<close> and \<^verbatim>\<open>str::find\<close> of a string pattern.\<close>

fun str_find :: "str \<Rightarrow> str \<Rightarrow> nat option" where
  "str_find pat [] = (if pat = [] then Some 0 else None)"
| "str_find pat (c # cs) =
     (if starts_with (c # cs) pat then Some 0 else map_option Suc (str_find pat cs))"

definition str_contains :: "str \<Rightarrow> str \<Rightarrow> bool" where
  "str_contains s pat = (str_find pat s \<noteq> None)"

text \<open>Position of the last occurrence of a character (\<^verbatim>\<open>str::rfind\<close>).\<close>

definition rsplit_at_char :: "char \<Rightarrow> str \<Rightarrow> (str \<times> str) option" where
  "rsplit_at_char c s =
     (if c \<in> set s
      then Some (rev (tl (dropWhile (\<lambda>x. x \<noteq> c) (rev s))), rev (takeWhile (\<lambda>x. x \<noteq> c) (rev s)))
      else None)"

lemma rsplit_at_char_app:
  assumes "c \<notin> set t"
  shows "rsplit_at_char c (s @ c # t) = Some (s, t)"
proof -
  from assms have t: "\<And>x. x \<in> set (rev t) \<Longrightarrow> x \<noteq> c" by auto
  have "takeWhile (\<lambda>x. x \<noteq> c) (rev t @ c # rev s) = rev t"
    using takeWhile_append2 [of "rev t" "\<lambda>x. x \<noteq> c", OF t] by simp
  moreover have "dropWhile (\<lambda>x. x \<noteq> c) (rev t @ c # rev s) = c # rev s"
    using dropWhile_append2 [of "rev t" "\<lambda>x. x \<noteq> c", OF t] by simp
  ultimately show ?thesis by (simp add: rsplit_at_char_def)
qed

section \<open>White space\<close>

text \<open>
  The UTF-8 encodings of the scalars with the \<^verbatim>\<open>White_Space\<close> property, which
  \<^verbatim>\<open>char::is_whitespace\<close> (and so \<^verbatim>\<open>trim\<close>) accepts: U+0009..U+000D, U+0020, U+0085, U+00A0,
  U+1680, U+2000..U+200A, U+2028, U+2029, U+202F, U+205F, U+3000.
\<close>

definition ws_seqs :: "str list" where
  "ws_seqs =
     [[CHR 0x20], [CHR 0x09], [CHR 0x0A], [CHR 0x0B], [CHR 0x0C], [CHR 0x0D],
      [CHR 0xC2, CHR 0x85], [CHR 0xC2, CHR 0xA0], [CHR 0xE1, CHR 0x9A, CHR 0x80],
      [CHR 0xE2, CHR 0x80, CHR 0x80], [CHR 0xE2, CHR 0x80, CHR 0x81],
      [CHR 0xE2, CHR 0x80, CHR 0x82], [CHR 0xE2, CHR 0x80, CHR 0x83],
      [CHR 0xE2, CHR 0x80, CHR 0x84], [CHR 0xE2, CHR 0x80, CHR 0x85],
      [CHR 0xE2, CHR 0x80, CHR 0x86], [CHR 0xE2, CHR 0x80, CHR 0x87],
      [CHR 0xE2, CHR 0x80, CHR 0x88], [CHR 0xE2, CHR 0x80, CHR 0x89],
      [CHR 0xE2, CHR 0x80, CHR 0x8A], [CHR 0xE2, CHR 0x80, CHR 0xA8],
      [CHR 0xE2, CHR 0x80, CHR 0xA9], [CHR 0xE2, CHR 0x80, CHR 0xAF],
      [CHR 0xE2, CHR 0x81, CHR 0x9F], [CHR 0xE3, CHR 0x80, CHR 0x80]]"

fun strip_any :: "str list \<Rightarrow> str \<Rightarrow> str option" where
  "strip_any [] s = None"
| "strip_any (p # ps) s = (case strip_prefix p s of Some r \<Rightarrow> Some r | None \<Rightarrow> strip_any ps s)"

function strip_all :: "str list \<Rightarrow> str \<Rightarrow> str" where
  "strip_all ps s =
     (case strip_any ps s of
        None \<Rightarrow> s
      | Some r \<Rightarrow> if length r < length s then strip_all ps r else s)"
  by pat_completeness auto
termination
  by (relation "measure (\<lambda>(ps, s). length s)") auto

declare strip_all.simps [simp del]

definition trim_start :: "str \<Rightarrow> str" where
  "trim_start s = strip_all ws_seqs s"

definition trim_end :: "str \<Rightarrow> str" where
  "trim_end s = rev (strip_all (map rev ws_seqs) (rev s))"

definition trim :: "str \<Rightarrow> str" where
  "trim s = trim_end (trim_start s)"

lemma strip_any_None_iff: "strip_any ps s = None \<longleftrightarrow> (\<forall>p \<in> set ps. \<not> starts_with s p)"
  by (induction ps) (auto simp: starts_with_def split: option.splits)

lemma strip_all_id: "strip_any ps s = None \<Longrightarrow> strip_all ps s = s"
  by (simp add: strip_all.simps)

lemma strip_any_suffix: "strip_any ps s = Some r \<Longrightarrow> \<exists>u. s = u @ r"
  by (induction ps) (auto simp: strip_prefix_Some_iff split: option.splits)

lemma strip_all_suffix: "\<exists>u. s = u @ strip_all ps s"
proof (induction ps s rule: strip_all.induct)
  case (1 ps s)
  show ?case
  proof (cases "strip_any ps s")
    case None
    then show ?thesis by (simp add: strip_all_id)
  next
    case (Some r)
    then obtain u where u: "s = u @ r" using strip_any_suffix by blast
    show ?thesis
    proof (cases "length r < length s")
      case True
      with "1.IH" [OF Some] obtain v where "r = v @ strip_all ps r" by blast
      with u have "s = (u @ v) @ strip_all ps r" by simp
      moreover from Some True have "strip_all ps s = strip_all ps r"
        by (simp add: strip_all.simps [of ps s])
      ultimately show ?thesis by metis
    next
      case False
      with Some show ?thesis by (simp add: strip_all.simps [of ps s])
    qed
  qed
qed

text \<open>No white-space encoding starts with a printable ASCII byte, and none ends with one.\<close>

definition solid :: "char \<Rightarrow> bool" where
  "solid c \<longleftrightarrow> (\<forall>p \<in> set ws_seqs. hd p \<noteq> c \<and> last p \<noteq> c)"

lemma ws_seqs_nonempty: "p \<in> set ws_seqs \<Longrightarrow> p \<noteq> []"
  by (auto simp: ws_seqs_def)

lemma trim_start_solid: "solid c \<Longrightarrow> trim_start (c # s) = c # s"
proof -
  assume c: "solid c"
  have "strip_any ws_seqs (c # s) = None"
    unfolding strip_any_None_iff
  proof
    fix p assume p: "p \<in> set ws_seqs"
    then have "hd p \<noteq> c" "p \<noteq> []" using c by (auto simp: solid_def ws_seqs_nonempty)
    then show "\<not> starts_with (c # s) p" by (cases p) (auto simp: starts_with_def)
  qed
  then show ?thesis by (simp add: trim_start_def strip_all_id)
qed

lemma trim_end_solid: "solid c \<Longrightarrow> trim_end (s @ [c]) = s @ [c]"
proof -
  assume c: "solid c"
  have "strip_any (map rev ws_seqs) (c # rev s) = None"
    unfolding strip_any_None_iff
  proof
    fix q assume "q \<in> set (map rev ws_seqs)"
    then obtain p where p: "p \<in> set ws_seqs" "q = rev p" by auto
    then have "last p \<noteq> c" "p \<noteq> []" using c by (auto simp: solid_def ws_seqs_nonempty)
    with p have "q \<noteq> []" "hd q \<noteq> c" by (simp_all add: hd_rev)
    then show "\<not> starts_with (c # rev s) q" by (cases q) (auto simp: starts_with_def)
  qed
  then show ?thesis by (simp add: trim_end_def strip_all_id)
qed

lemma trim_solid:
  assumes "s \<noteq> []" and "solid (hd s)" and "solid (last s)"
  shows "trim s = s"
proof -
  have "trim_start s = s" using assms(1,2) by (cases s) (simp_all add: trim_start_solid)
  moreover have "trim_end s = s"
    using assms(1,3) trim_end_solid [of "last s" "butlast s"] by simp
  ultimately show ?thesis by (simp add: trim_def)
qed

lemma solid_ascii [str_simps]:
  "0x21 \<le> (of_char c :: nat) \<Longrightarrow> (of_char c :: nat) \<le> 0x7E \<Longrightarrow> solid c"
  by (auto simp: solid_def ws_seqs_def)

lemma trim_Nil [simp]: "trim [] = []" "trim_start [] = []" "trim_end [] = []"
proof -
  have "strip_any ps [] = None" if "\<forall>p \<in> set ps. p \<noteq> []" for ps
    using that by (auto simp: strip_any_None_iff starts_with_iff)
  then have "strip_all ws_seqs [] = []" "strip_all (map rev ws_seqs) [] = []"
    by (simp_all add: strip_all_id ws_seqs_nonempty)
  then show "trim [] = []" "trim_start [] = []" "trim_end [] = []"
    by (simp_all add: trim_def trim_start_def trim_end_def)
qed

lemma strip_all_last:
  assumes "\<And>p. p \<in> set ps \<Longrightarrow> p = [] \<or> last p \<noteq> c" and "s \<noteq> []" and "last s = c"
  shows "strip_all ps s \<noteq> [] \<and> last (strip_all ps s) = c"
  using assms
proof (induction ps s rule: strip_all.induct)
  case (1 ps s)
  show ?case
  proof (cases "\<exists>r. strip_any ps s = Some r \<and> length r < length s")
    case False
    then have "strip_all ps s = s" by (auto simp: strip_all.simps [of ps s] split: option.splits)
    with "1.prems" show ?thesis by simp
  next
    case True
    then obtain r where r: "strip_any ps s = Some r" "length r < length s" by blast
    then obtain p where p: "p \<in> set ps" "s = p @ r"
      by (induction ps) (auto simp: strip_prefix_Some_iff split: option.splits)
    have "r \<noteq> []"
    proof
      assume "r = []"
      with p r(2) have "p \<noteq> []" "last p = last s" by auto
      with "1.prems" p(1) show False by auto
    qed
    with p "1.prems"(3) have "last r = c" by simp
    with \<open>r \<noteq> []\<close> have "strip_all ps r \<noteq> [] \<and> last (strip_all ps r) = c"
      using "1.IH" [OF r(1,2) "1.prems"(1)] by simp
    then show ?thesis using r by (simp add: strip_all.simps [of ps s])
  qed
qed

text \<open>Trimming keeps a first character that is not white space.\<close>

lemma trim_hd:
  assumes "solid c"
  shows "\<exists>r. trim (c # s) = c # r"
proof -
  let ?z = "strip_all (map rev ws_seqs) (rev (c # s))"
  have z: "?z \<noteq> [] \<and> last ?z = c"
    using assms by (intro strip_all_last) (auto simp: solid_def last_rev ws_seqs_nonempty)
  have "trim (c # s) = rev ?z"
    using assms by (simp only: trim_def trim_start_solid trim_end_def)
  also have "rev ?z = c # rev (butlast ?z)"
    using z by (metis append_butlast_last_id rev_eq_Cons_iff rev_rev_ident)
  finally show ?thesis by blast
qed

text \<open>Trimming twice is trimming once.\<close>

lemma strip_all_stuck:
  assumes "[] \<notin> set ps"
  shows "strip_any ps (strip_all ps s) = None"
  using assms
proof (induction ps s rule: strip_all.induct)
  case (1 ps s)
  show ?case
  proof (cases "strip_any ps s")
    case None
    then show ?thesis by (simp add: strip_all_id)
  next
    case (Some r)
    have "length r < length s"
      using Some "1.prems" by (induction ps) (auto simp: strip_prefix_Some_iff split: option.splits)
    then show ?thesis
      using Some "1.IH" [OF Some] "1.prems" by (simp add: strip_all.simps [of ps s])
  qed
qed

lemma trim_idem [simp]: "trim (trim s) = trim s"
proof -
  let ?t = "trim_start s" and ?qs = "map rev ws_seqs"
  have ne: "[] \<notin> set ws_seqs" "[] \<notin> set ?qs" using ws_seqs_nonempty by auto
  have start: "strip_any ws_seqs ?t = None" by (simp add: trim_start_def strip_all_stuck [OF ne(1)])
  obtain u where u: "rev ?t = u @ strip_all ?qs (rev ?t)" using strip_all_suffix by blast
  then have "?t = trim_end ?t @ rev u" by (metis rev_append rev_rev_ident trim_end_def)
  then have "starts_with ?t p" if "starts_with (trim_end ?t) p" for p
    using that by (metis append.assoc starts_with_iff)
  then have "strip_any ws_seqs (trim_end ?t) = None" using start by (auto simp: strip_any_None_iff)
  moreover have "trim_end (trim_end ?t) = trim_end ?t"
    using strip_all_stuck [OF ne(2), of "rev ?t"] by (simp add: trim_end_def strip_all_id)
  ultimately show ?thesis by (simp add: trim_def trim_start_def strip_all_id)
qed

text \<open>\<^verbatim>\<open>char_indices\<close>: the offsets of the bytes that are no UTF-8 continuation.\<close>

definition is_continuation :: "char \<Rightarrow> bool" where
  "is_continuation c \<longleftrightarrow> 128 \<le> (of_char c :: nat) \<and> (of_char c :: nat) < 192"

definition char_indices :: "str \<Rightarrow> nat list" where
  "char_indices s = filter (\<lambda>i. \<not> is_continuation (s ! i)) [0..<length s]"

text \<open>\<^verbatim>\<open>char_indices().nth(n)\<close>.\<close>

definition nth_char :: "str \<Rightarrow> nat \<Rightarrow> nat option" where
  "nth_char s n = (if n < length (char_indices s) then Some (char_indices s ! n) else None)"

section \<open>Splitting and joining\<close>

abbreviation NL :: char where "NL \<equiv> CHR 0x0A"
abbreviation CR :: char where "CR \<equiv> CHR 0x0D"

text \<open>\<^verbatim>\<open>str::split(c)\<close>: always at least one piece.\<close>

fun split_on :: "char \<Rightarrow> str \<Rightarrow> str list" where
  "split_on c [] = [[]]"
| "split_on c (x # xs) =
     (if x = c then [] # split_on c xs
      else case split_on c xs of [] \<Rightarrow> [[x]] | l # ls \<Rightarrow> (x # l) # ls)"

text \<open>\<^verbatim>\<open>[&str]::join\<close>.\<close>

fun join :: "str \<Rightarrow> str list \<Rightarrow> str" where
  "join sep [] = []"
| "join sep [x] = x"
| "join sep (x # y # zs) = x @ sep @ join sep (y # zs)"

definition strip_cr :: "str \<Rightarrow> str" where
  "strip_cr s = (if s \<noteq> [] \<and> last s = CR then butlast s else s)"

text \<open>
  \<^verbatim>\<open>str::lines\<close>: pieces ended by a newline lose it and one carriage return before it; a last
  piece without a newline is a line when it is not empty, and keeps a carriage return.
\<close>

definition str_lines :: "str \<Rightarrow> str list" where
  "str_lines s =
     (let ps = split_on NL s
      in map strip_cr (butlast ps) @ (if last ps = [] then [] else [last ps]))"

lemma split_on_nonempty [simp]: "split_on c s \<noteq> []"
  by (induction c s rule: split_on.induct) (auto split: list.splits)

lemma join_split_on: "join [c] (split_on c s) = s"
proof (induction c s rule: split_on.induct)
  case (2 c x xs)
  then show ?case
    by (cases "split_on c xs"; cases "tl (split_on c xs)") (auto split: list.splits)
qed simp

lemma split_on_no_sep: "p \<in> set (split_on c s) \<Longrightarrow> c \<notin> set p"
proof (induction c s arbitrary: p rule: split_on.induct)
  case (2 c x xs)
  then show ?case by (cases "split_on c xs") (auto split: if_splits)
qed simp

lemma split_on_plain: "c \<notin> set s \<Longrightarrow> split_on c s = [s]"
  by (induction c s rule: split_on.induct) auto

lemma split_on_append: "c \<notin> set s \<Longrightarrow> split_on c (s @ c # t) = s # split_on c t"
  by (induction s) auto

lemma split_on_join:
  assumes "xs \<noteq> []" and "\<And>x. x \<in> set xs \<Longrightarrow> c \<notin> set x"
  shows "split_on c (join [c] xs) = xs"
  using assms
proof (induction "[c]" xs rule: join.induct)
  case (2 x)
  then show ?case by (simp add: split_on_plain)
next
  case (3 x y zs)
  then show ?case by (simp add: split_on_append)
qed simp

lemma join_append_single:
  "xs \<noteq> [] \<Longrightarrow> join sep (xs @ [y]) = join sep xs @ sep @ y"
proof (induction sep xs rule: join.induct)
  case (3 sep x y zs)
  then show ?case by (cases zs) auto
qed auto

lemma strip_cr_id: "(s = [] \<or> last s \<noteq> CR) \<Longrightarrow> strip_cr s = s"
  by (auto simp: strip_cr_def)

lemma str_lines_Nil [simp]: "str_lines [] = []"
  by (simp add: str_lines_def)

text \<open>Lines that contain no newline and no final carriage return survive \<^verbatim>\<open>join\<close> and \<^verbatim>\<open>lines\<close>.\<close>

definition line_ok :: "str \<Rightarrow> bool" where
  "line_ok l \<longleftrightarrow> NL \<notin> set l \<and> (l = [] \<or> last l \<noteq> CR)"

lemma str_lines_join [line_lems]:
  assumes "\<And>l. l \<in> set ls \<Longrightarrow> line_ok l" and "ls = [] \<or> last ls \<noteq> []"
  shows "str_lines (join [NL] ls) = ls"
proof (cases "ls = []")
  case False
  then have "split_on NL (join [NL] ls) = ls"
    using assms(1) by (intro split_on_join) (auto simp: line_ok_def)
  moreover have "map strip_cr (butlast ls) = butlast ls"
    using assms(1) by (auto simp: line_ok_def strip_cr_id in_set_butlastD intro!: map_idI)
  ultimately show ?thesis
    using False assms(2) by (simp add: str_lines_def)
qed simp

lemma str_lines_join_newline [line_lems]:
  assumes "\<And>l. l \<in> set ls \<Longrightarrow> line_ok l" and "ls \<noteq> []"
  shows "str_lines (join [NL] ls @ [NL]) = ls"
proof -
  have "join [NL] ls @ [NL] = join [NL] (ls @ [[]])"
    using assms(2) by (simp add: join_append_single)
  moreover have "split_on NL (join [NL] (ls @ [[]])) = ls @ [[]]"
    using assms(1) by (intro split_on_join) (auto simp: line_ok_def)
  moreover have "map strip_cr ls = ls"
    using assms(1) by (auto simp: line_ok_def strip_cr_id intro!: map_idI)
  ultimately show ?thesis by (simp add: str_lines_def)
qed

lemma str_lines_no_newline [line_lems]: "l \<in> set (str_lines s) \<Longrightarrow> NL \<notin> set l"
proof -
  assume l: "l \<in> set (str_lines s)"
  have cr: "NL \<notin> set (strip_cr p)" if "p \<in> set (split_on NL s)" for p
    using split_on_no_sep [OF that] by (auto simp: strip_cr_def dest: in_set_butlastD)
  show ?thesis
    using l cr split_on_no_sep [of "last (split_on NL s)" NL s]
    by (auto simp: str_lines_def Let_def dest: in_set_butlastD split: if_splits)
qed

section \<open>Decimal numbers\<close>

definition is_digit :: "char \<Rightarrow> bool" where
  "is_digit c \<longleftrightarrow> 48 \<le> (of_char c :: nat) \<and> (of_char c :: nat) \<le> 57"

definition digit_val :: "char \<Rightarrow> int" where
  "digit_val c = int (of_char c) - 48"

definition digit_char :: "nat \<Rightarrow> char" where
  "digit_char d = char_of (48 + d)"

definition digits_val :: "str \<Rightarrow> int" where
  "digits_val s = foldl (\<lambda>a c. 10 * a + digit_val c) 0 s"

text \<open>\<^verbatim>\<open>parse::<usize>()\<close> on a run of ASCII digits.\<close>

definition parse_usize :: "str \<Rightarrow> nat option" where
  "parse_usize s =
     (if s \<noteq> [] \<and> list_all is_digit s \<and> digits_val s < 2 ^ 64 then Some (nat (digits_val s)) else None)"

text \<open>\<^verbatim>\<open>parse::<usize>()\<close> on any string also accepts a leading plus sign.\<close>

definition parse_unsigned :: "str \<Rightarrow> nat option" where
  "parse_unsigned s = parse_usize (case strip_prefix ''+'' s of Some r \<Rightarrow> r | None \<Rightarrow> s)"

text \<open>\<^verbatim>\<open>usize::to_string\<close>.\<close>

fun show_nat :: "nat \<Rightarrow> str" where
  "show_nat n = (if n < 10 then [digit_char n] else show_nat (n div 10) @ [digit_char (n mod 10)])"

declare show_nat.simps [simp del]

lemma of_char_digit_char: "d < 10 \<Longrightarrow> (of_char (digit_char d) :: nat) = 48 + d"
  by (simp add: digit_char_def of_char_of)

lemma is_digit_digit_char [simp]: "d < 10 \<Longrightarrow> is_digit (digit_char d)"
  by (simp add: is_digit_def of_char_digit_char)

lemma digit_val_digit_char [simp]: "d < 10 \<Longrightarrow> digit_val (digit_char d) = int d"
  unfolding digit_val_def by (subst of_char_digit_char) simp_all

lemma show_nat_digits: "list_all is_digit (show_nat n)"
proof (induction n rule: show_nat.induct)
  case (1 n)
  then show ?case by (cases "n < 10") (auto simp: show_nat.simps [of n])
qed

lemma show_nat_nonempty [simp]: "show_nat n \<noteq> []"
  by (subst show_nat.simps) simp

lemma digits_val_append: "digits_val (s @ [c]) = 10 * digits_val s + digit_val c"
  by (simp add: digits_val_def)

lemma digits_val_show_nat [simp]: "digits_val (show_nat n) = int n"
proof (induction n rule: show_nat.induct)
  case (1 n)
  show ?case
  proof (cases "n < 10")
    case True
    then show ?thesis by (simp add: show_nat.simps [of n] digits_val_def)
  next
    case False
    with "1.IH" have "digits_val (show_nat (n div 10)) = int (n div 10)" by simp
    moreover have "int (10 * (n div 10) + n mod 10) = int n" by simp
    ultimately show ?thesis using False
      by (simp only: show_nat.simps [of n] digits_val_append if_False digit_val_digit_char
          of_nat_add of_nat_mult of_nat_numeral mod_less_divisor zero_less_numeral)
  qed
qed

lemma parse_usize_show_nat: "n < 2 ^ 64 \<Longrightarrow> parse_usize (show_nat n) = Some n"
  by (simp add: parse_usize_def show_nat_digits)

lemma parse_unsigned_show_nat: "n < 2 ^ 64 \<Longrightarrow> parse_unsigned (show_nat n) = Some n"
proof -
  assume n: "n < 2 ^ 64"
  have "is_digit (hd (show_nat n))" using show_nat_digits [of n] by (cases "show_nat n") auto
  then have "strip_prefix ''+'' (show_nat n) = None"
    by (cases "show_nat n") (auto simp: is_digit_def)
  with parse_usize_show_nat [OF n] show ?thesis by (simp add: parse_unsigned_def)
qed

lemma parse_usize_bound: "parse_usize s = Some n \<Longrightarrow> n < 2 ^ 64"
  by (auto simp: parse_usize_def split: if_splits)

lemma show_nat_hd: "0 < n \<Longrightarrow> hd (show_nat n) \<noteq> CHR ''0''"
proof (induction n rule: show_nat.induct)
  case (1 n)
  show ?case
  proof (cases "n < 10")
    case True
    have "(of_char (digit_char n) :: nat) \<noteq> of_char (CHR ''0'')"
      using True "1.prems" by (simp add: of_char_digit_char)
    then have "digit_char n \<noteq> CHR ''0''" by metis
    with True show ?thesis by (simp add: show_nat.simps [of n])
  next
    case False
    with "1.IH" show ?thesis by (simp add: show_nat.simps [of n] hd_append)
  qed
qed

lemma is_digit_solid: "is_digit c \<Longrightarrow> solid c"
  by (rule solid_ascii) (auto simp: is_digit_def)

section \<open>Slices and vectors\<close>

text \<open>\<^verbatim>\<open>Vec::splice(s..e, body)\<close>, which panics unless \<open>s \<le> e \<le> len\<close>.\<close>

definition vec_splice :: "'a list \<Rightarrow> nat \<Rightarrow> nat \<Rightarrow> 'a list \<Rightarrow> 'a list option" where
  "vec_splice xs s e body =
     (if s \<le> e \<and> e \<le> length xs then Some (take s xs @ body @ drop e xs) else None)"

text \<open>\<^verbatim>\<open>Vec::insert(i, x)\<close>, which panics when \<open>i > len\<close>.\<close>

definition vec_insert :: "'a list \<Rightarrow> nat \<Rightarrow> 'a \<Rightarrow> 'a list option" where
  "vec_insert xs i x = (if i \<le> length xs then Some (take i xs @ x # drop i xs) else None)"

text \<open>Inserting a block row by row, \<^verbatim>\<open>for (i, row) in body.iter().enumerate()\<close>.\<close>

fun vec_insert_rows :: "'a list \<Rightarrow> nat \<Rightarrow> 'a list \<Rightarrow> 'a list option" where
  "vec_insert_rows xs i [] = Some xs"
| "vec_insert_rows xs i (r # rs) =
     (case vec_insert xs i r of None \<Rightarrow> None | Some ys \<Rightarrow> vec_insert_rows ys (Suc i) rs)"

lemma vec_insert_rows_ok:
  "i \<le> length xs \<Longrightarrow> vec_insert_rows xs i rs = Some (take i xs @ rs @ drop i xs)"
proof (induction rs arbitrary: xs i)
  case (Cons r rs)
  let ?ys = "take i xs @ r # drop i xs"
  have "vec_insert xs i r = Some ?ys" using Cons.prems by (simp add: vec_insert_def)
  moreover have "vec_insert_rows ?ys (Suc i) rs = Some (take (Suc i) ?ys @ rs @ drop (Suc i) ?ys)"
    using Cons.prems by (intro Cons.IH) simp
  ultimately show ?case using Cons.prems by simp
qed simp

lemma vec_insert_rows_panic:
  "length xs < i \<Longrightarrow> rs \<noteq> [] \<Longrightarrow> vec_insert_rows xs i rs = None"
  by (cases rs) (simp_all add: vec_insert_def)

lemma concat_map_upt_split:
  assumes "m \<le> n"
  shows "concat (map f [0..<n]) = concat (map f [0..<m]) @ concat (map f [m..<n])"
  using assms by (metis concat_append le_add_diff_inverse map_append upt_add_eq_append zero_le)

lemma concat_map_singleton_upt:
  assumes "m \<le> n" and "n \<le> length xs" and "\<And>i. m \<le> i \<Longrightarrow> i < n \<Longrightarrow> f i = [xs ! i]"
  shows "concat (map f [m..<n]) = drop m (take n xs)"
proof -
  have "map f [m..<n] = map (\<lambda>i. [xs ! i]) [m..<n]"
    using assms(3) by auto
  moreover have "concat (map (\<lambda>i. [xs ! i]) [m..<n]) = map (\<lambda>i. xs ! i) [m..<n]"
    by (simp add: concat_map_singleton)
  moreover have "map (\<lambda>i. xs ! i) [m..<n] = drop m (take n xs)"
    using assms(1,2) by (intro nth_equalityI) auto
  ultimately show ?thesis by (simp only:)
qed

lemma filter_sort_key_class:
  assumes "\<And>x. P x \<Longrightarrow> f x = k"
  shows "filter P (sort_key f xs) = filter P xs"
proof -
  have "filter P ys = filter P (filter (\<lambda>x. f x = k) ys)" for ys
    using assms by (induction ys) auto
  then have "filter P (sort_key f xs) = filter P (filter (\<lambda>x. f x = k) (sort_key f xs))" .
  also have "\<dots> = filter P (filter (\<lambda>x. f x = k) xs)" by (simp add: sort_key_stable)
  also have "\<dots> = filter P xs"
    using assms by (induction xs) auto
  finally show ?thesis .
qed

text \<open>
  A stable sort keeps the order of elements with equal keys, so a pairwise property that only
  constrains such elements survives it.
\<close>

lemma sorted_wrt_by_class:
  assumes "\<And>k. sorted_wrt P (filter (\<lambda>x. f x = k) xs)" and "\<And>x y. f x \<noteq> f y \<Longrightarrow> P x y"
  shows "sorted_wrt P xs"
  using assms(1)
proof (induction xs)
  case (Cons x xs)
  have "sorted_wrt P (filter (\<lambda>y. f y = k) xs)" for k
    using Cons.prems [of k] by (cases "f x = k") auto
  then have "sorted_wrt P xs" by (rule Cons.IH)
  moreover have "P x y" if "y \<in> set xs" for y
  proof (cases "f x = f y")
    case True
    with that Cons.prems [of "f x"] show ?thesis by auto
  next
    case False
    then show ?thesis by (rule assms(2))
  qed
  ultimately show ?case by simp
qed simp

lemma sorted_wrt_sort_key:
  assumes "sorted_wrt P xs" and "\<And>x y. f x \<noteq> f y \<Longrightarrow> P x y"
  shows "sorted_wrt P (sort_key f xs)"
proof (rule sorted_wrt_by_class [where f = f])
  fix k
  have "sorted_wrt P (filter (\<lambda>x. f x = k) xs)"
    using assms(1) by (rule sorted_wrt_filter)
  then show "sorted_wrt P (filter (\<lambda>x. f x = k) (sort_key f xs))"
    by (simp add: sort_key_stable)
qed (rule assms(2))

lemma concat_map_upt_at:
  assumes "k < n"
  shows "concat (map f [0..<n]) = concat (map f [0..<k]) @ f k @ concat (map f [Suc k..<n])"
proof -
  have "concat (map f [0..<n]) = concat (map f [0..<k]) @ concat (map f [k..<n])"
    using assms by (intro concat_map_upt_split) simp
  also have "[k..<n] = k # [Suc k..<n]" using assms by (simp add: upt_conv_Cons)
  finally show ?thesis by simp
qed

section \<open>Paths\<close>

text \<open>
  \<^verbatim>\<open>Path\<close> equality and hashing compare components: repeated separators, a trailing separator
  and \<^verbatim>\<open>.\<close> components (other than a leading one of a relative path) do not count.
\<close>

type_synonym components = "bool \<times> str list"

definition path_components :: "str \<Rightarrow> components" where
  "path_components p =
     (let rooted = starts_with p ''/'';
          ps = filter (\<lambda>c. c \<noteq> []) (split_on (CHR ''/'') p)
      in (rooted,
          if rooted then filter (\<lambda>c. c \<noteq> ''.'') ps
          else (case ps of [] \<Rightarrow> [] | c # cs \<Rightarrow> c # filter (\<lambda>c. c \<noteq> ''.'') cs)))"

definition path_eq :: "str \<Rightarrow> str \<Rightarrow> bool" where
  "path_eq a b \<longleftrightarrow> path_components a = path_components b"

lemma path_eq_refl [simp]: "path_eq a a"
  by (simp add: path_eq_def)

lemma path_eq_sym: "path_eq a b = path_eq b a"
  by (auto simp: path_eq_def)

section \<open>JSON values\<close>

text \<open>Numbers are integers: the code modelled here reads no others.\<close>

datatype json = JNull | JBool bool | JNum int | JStr str | JArr "json list" | JObj "(str \<times> json) list"

fun as_str :: "json \<Rightarrow> str option" where
  "as_str (JStr s) = Some s"
| "as_str _ = None"

fun as_array :: "json \<Rightarrow> json list option" where
  "as_array (JArr vs) = Some vs"
| "as_array _ = None"

text \<open>\<^verbatim>\<open>params[key]\<close> is \<^verbatim>\<open>null\<close> and \<^verbatim>\<open>params.get(key)\<close> is \<^verbatim>\<open>None\<close> for a missing key.\<close>

fun json_get :: "str \<Rightarrow> json \<Rightarrow> json option" where
  "json_get k (JObj kvs) = map_of kvs k"
| "json_get k _ = None"

fun as_u64 :: "json \<Rightarrow> nat option" where
  "as_u64 (JNum n) = (if 0 \<le> n \<and> n < 2 ^ 64 then Some (nat n) else None)"
| "as_u64 _ = None"

end
