(* ===== verification/Hashline_Ops.thy ===== *)
theory Hashline_Ops
  imports Manox_Prelude
begin

text \<open>
  The patch vocabulary shared by the parser, the applier, the recovery and the edit tool:
  the operation and section types of \<^verbatim>\<open>hashline/parser.rs\<close> and the anchor collection of
  \<^verbatim>\<open>hashline/mod.rs\<close>.
\<close>

datatype ins_pos = Pre | Post | Head | Tail

datatype op =
    Swap nat nat "str list"
  | Del nat nat
  | Ins ins_pos "nat option" "str list"
  | SwapBlk nat "str list"
  | DelBlk nat
  | InsBlkPost nat "str list"
  | Cut nat nat
  | CutBlk nat
  | Paste ins_pos "nat option"

datatype file_op = Rem | Move str

record file_patch =
  fp_path :: str
  fp_tag :: str
  fp_ops :: "op list"
  fp_file_op :: "file_op option"

text \<open>
  The 1-indexed lines an operation refers to, in order. \<^verbatim>\<open>start..=end\<close> is empty when
  \<^verbatim>\<open>start > end\<close>.
\<close>

fun op_anchor_lines :: "op \<Rightarrow> nat list" where
  "op_anchor_lines (Swap s e b) = [s..<Suc e]"
| "op_anchor_lines (Del s e) = [s..<Suc e]"
| "op_anchor_lines (Cut s e) = [s..<Suc e]"
| "op_anchor_lines (Ins p (Some a) b) = [a]"
| "op_anchor_lines (Paste p (Some a)) = [a]"
| "op_anchor_lines (SwapBlk s b) = [s]"
| "op_anchor_lines (DelBlk s) = [s]"
| "op_anchor_lines (CutBlk s) = [s]"
| "op_anchor_lines (InsBlkPost a b) = [a]"
| "op_anchor_lines (Ins p None b) = []"
| "op_anchor_lines (Paste p None) = []"

definition collect_anchor_lines :: "op list \<Rightarrow> nat list" where
  "collect_anchor_lines ops = concat (map op_anchor_lines ops)"

text \<open>
  The shape every parsed operation has: ordered ranges, \<open>PRE\<close>/\<open>POST\<close> with an anchor and
  \<open>HEAD\<close>/\<open>TAIL\<close> without one. The parser establishes it (\<^verbatim>\<open>Hashline_Parser\<close>), the applier
  relies on it (\<^verbatim>\<open>Hashline_Apply\<close>).
\<close>

fun pos_ok :: "ins_pos \<Rightarrow> nat option \<Rightarrow> bool" where
  "pos_ok Pre a = (a \<noteq> None)"
| "pos_ok Post a = (a \<noteq> None)"
| "pos_ok Head a = (a = None)"
| "pos_ok Tail a = (a = None)"

fun op_ok :: "op \<Rightarrow> bool" where
  "op_ok (Swap s e b) = (s \<le> e)"
| "op_ok (Del s e) = (s \<le> e)"
| "op_ok (Ins p a b) = pos_ok p a"
| "op_ok (Cut s e) = (s \<le> e)"
| "op_ok (Paste p a) = pos_ok p a"
| "op_ok _ = True"

text \<open>A body-bearing operation whose body rows have arrived.\<close>

fun op_filled :: "op \<Rightarrow> bool" where
  "op_filled (Swap s e b) = (b \<noteq> [])"
| "op_filled (SwapBlk s b) = (b \<noteq> [])"
| "op_filled (Ins p a b) = (b \<noteq> [])"
| "op_filled (InsBlkPost a b) = (b \<noteq> [])"
| "op_filled _ = True"

lemma pos_ok_cases:
  "pos_ok p a \<longleftrightarrow> (p \<in> {Pre, Post} \<and> (\<exists>n. a = Some n)) \<or> (p \<in> {Head, Tail} \<and> a = None)"
  by (cases p) auto

end
