(* ===== verification/Hashline_Block.thy ===== *)
theory Hashline_Block
  imports Manox_Prelude
begin

text \<open>
  Bracket-block resolution for the \<open>.BLK\<close> operations
  (\<^verbatim>\<open>manox-harness/src/core/hashline/block.rs\<close>).

  The scanners iterate \<^verbatim>\<open>chars()\<close>; the model iterates bytes. Every character they compare
  with is ASCII, and the bytes of a longer encoding are never ASCII, so both see the same
  brackets; where the source skips the character after a backslash the model skips its first
  byte and then passes over its continuation bytes, which match nothing. Balances are \<open>int\<close>:
  the source's \<^verbatim>\<open>i32\<close> is exceeded only by a line of more than \<open>2 ^ 31\<close> brackets.
\<close>

datatype block_error = NotABlock nat | Unterminated nat | UnsupportedLanguage nat

definition is_open :: "char \<Rightarrow> bool" where
  "is_open c \<longleftrightarrow> c \<in> {CHR ''('', CHR ''['', CHR ''{''}"

definition is_close :: "char \<Rightarrow> bool" where
  "is_close c \<longleftrightarrow> c \<in> {CHR '')'', CHR '']'', CHR ''}''}"

abbreviation BSLASH :: char where "BSLASH \<equiv> CHR 0x5C"
abbreviation DQUOTE :: char where "DQUOTE \<equiv> CHR 0x22"
abbreviation SQUOTE :: char where "SQUOTE \<equiv> CHR 0x27"

text \<open>The first argument is the open quote, if the scan is inside a string literal.\<close>

fun block_scan_line :: "char option \<Rightarrow> int \<Rightarrow> str \<Rightarrow> int" where
  "block_scan_line q b [] = b"
| "block_scan_line (Some q) b (c # cs) =
     (if c = BSLASH then (case cs of [] \<Rightarrow> b | _ # ds \<Rightarrow> block_scan_line (Some q) b ds)
      else if c = q then block_scan_line None b cs
      else block_scan_line (Some q) b cs)"
| "block_scan_line None b (c # cs) =
     (if c = CHR ''/'' \<and> starts_with cs ''/'' then b
      else if c = DQUOTE \<or> c = SQUOTE then block_scan_line (Some c) b cs
      else if is_open c then block_scan_line None (b + 1) cs
      else if is_close c then block_scan_line None (b - 1) cs
      else block_scan_line None b cs)"

definition block_net_balance :: "str \<Rightarrow> int" where
  "block_net_balance line = block_scan_line None 0 line"

definition is_significant :: "str \<Rightarrow> bool" where
  "is_significant line \<longleftrightarrow> (let t = trim line in t \<noteq> [] \<and> \<not> starts_with t ''//'')"

definition leading_indent :: "str \<Rightarrow> nat" where
  "leading_indent s = length (takeWhile (\<lambda>c. c = CHR '' '' \<or> c = CHR 0x09) s)"

definition looks_like_indent_block :: "str list \<Rightarrow> nat \<Rightarrow> bool" where
  "looks_like_indent_block lines idx =
     (let t = trim_end (lines ! idx)
      in if ends_with t '':'' \<and> block_net_balance t = 0
         then (case find (\<lambda>l. trim l \<noteq> []) (drop (idx + 1) lines) of
                 Some next_line \<Rightarrow> leading_indent (trim_end next_line) > leading_indent t
               | None \<Rightarrow> False)
         else False)"

definition is_pure_closer :: "str \<Rightarrow> bool" where
  "is_pure_closer line =
     (let t = trim line
      in if t = [] then False
         else list_all (\<lambda>c. is_close c \<or> c = CHR '','' \<or> c = CHR '';'') t)"

text \<open>The loop over the lines after the opener: the index at which the balance returns to zero.\<close>

fun block_scan :: "int \<Rightarrow> nat \<Rightarrow> str list \<Rightarrow> nat option" where
  "block_scan balance i [] = None"
| "block_scan balance i (line # lines) =
     (let balance' = balance + block_net_balance line
      in if balance' = 0 then Some i else block_scan balance' (Suc i) lines)"

definition resolve_block_range :: "str list \<Rightarrow> nat \<Rightarrow> (block_error, nat \<times> nat) result" where
  "resolve_block_range lines start_line =
     (if start_line = 0 \<or> start_line > length lines then Inl (NotABlock start_line)
      else
        let start_idx = start_line - 1
        in case find (\<lambda>i. is_significant (lines ! i)) [start_idx..<length lines] of
             None \<Rightarrow> Inl (NotABlock start_line)
           | Some opener_idx \<Rightarrow>
               let opener_net = block_net_balance (lines ! opener_idx)
               in if opener_net \<le> 0
                  then (if opener_net = 0 \<and> looks_like_indent_block lines opener_idx
                        then Inl (UnsupportedLanguage (opener_idx + 1))
                        else Inl (NotABlock (opener_idx + 1)))
                  else (case block_scan opener_net (opener_idx + 1) (drop (opener_idx + 1) lines) of
                          Some i \<Rightarrow> Inr (opener_idx + 1, i + 1)
                        | None \<Rightarrow> Inl (Unterminated (opener_idx + 1))))"

function slide_closers :: "str list \<Rightarrow> nat \<Rightarrow> nat" where
  "slide_closers lines land =
     (if land < length lines \<and> is_pure_closer (lines ! land)
      then slide_closers lines (land + 1) else land)"
  by pat_completeness auto
termination
  by (relation "measure (\<lambda>(lines, land). length lines - land)") auto

declare slide_closers.simps [simp del]

definition block_post_insertion_line :: "str list \<Rightarrow> nat \<Rightarrow> (block_error, nat) result" where
  "block_post_insertion_line lines start_line =
     try_then (resolve_block_range lines start_line)
       (\<lambda>(s, e). Inr (slide_closers lines e))"

section \<open>Properties\<close>

text \<open>Sum of the balances of the lines with 0-based index in \<open>[i, j)\<close>.\<close>

definition range_balance :: "str list \<Rightarrow> nat \<Rightarrow> nat \<Rightarrow> int" where
  "range_balance lines i j = (\<Sum>k\<leftarrow>[i..<j]. block_net_balance (lines ! k))"

lemma range_balance_Suc:
  "i \<le> j \<Longrightarrow> range_balance lines i (Suc j) = range_balance lines i j + block_net_balance (lines ! j)"
  by (simp add: range_balance_def)

lemma block_scan_spec:
  assumes "block_scan (range_balance lines o1 i) i (drop i lines) = Some j" and "o1 \<le> i"
  shows "i \<le> j \<and> j < length lines \<and> range_balance lines o1 (Suc j) = 0
       \<and> (\<forall>k. i \<le> k \<longrightarrow> k < j \<longrightarrow> range_balance lines o1 (Suc k) \<noteq> 0)"
  using assms
proof (induction "length lines - i" arbitrary: i)
  case 0
  then show ?case by simp
next
  case (Suc n)
  then have i: "i < length lines" by simp
  then have d: "drop i lines = lines ! i # drop (Suc i) lines" by (simp add: Cons_nth_drop_Suc)
  have b: "range_balance lines o1 i + block_net_balance (lines ! i) = range_balance lines o1 (Suc i)"
    using Suc.prems(2) by (simp add: range_balance_Suc)
  show ?case
  proof (cases "range_balance lines o1 (Suc i) = 0")
    case True
    with Suc.prems(1) d b i show ?thesis by auto
  next
    case False
    with Suc.prems(1) d b
    have "block_scan (range_balance lines o1 (Suc i)) (Suc i) (drop (Suc i) lines) = Some j"
      by simp
    then have IH: "Suc i \<le> j \<and> j < length lines \<and> range_balance lines o1 (Suc j) = 0
       \<and> (\<forall>k. Suc i \<le> k \<longrightarrow> k < j \<longrightarrow> range_balance lines o1 (Suc k) \<noteq> 0)"
      using Suc.hyps(1) [of "Suc i"] Suc.hyps(2) Suc.prems(2) by auto
    show ?thesis
    proof (intro conjI allI impI)
      fix k assume "i \<le> k" "k < j"
      then show "range_balance lines o1 (Suc k) \<noteq> 0"
        using IH False by (cases "k = i") auto
    qed (use IH in auto)
  qed
qed

lemma find_upt_SomeD:
  "find P [m..<n] = Some i \<Longrightarrow> m \<le> i \<and> i < n \<and> P i \<and> (\<forall>k. m \<le> k \<longrightarrow> k < i \<longrightarrow> \<not> P k)"
proof (induction "n - m" arbitrary: m)
  case (Suc d)
  then have m: "m < n" "[m..<n] = m # [Suc m..<n]" by (auto simp: upt_conv_Cons)
  show ?case
  proof (cases "P m")
    case True
    with Suc.prems m show ?thesis by auto
  next
    case False
    with Suc.prems m have "find P [Suc m..<n] = Some i" by simp
    with Suc.hyps(1) [of "Suc m"] Suc.hyps(2) m
    have IH: "Suc m \<le> i" "i < n" "P i" "\<forall>k. Suc m \<le> k \<longrightarrow> k < i \<longrightarrow> \<not> P k"
      by auto
    have "\<not> P k" if "m \<le> k" "k < i" for k
      using that False IH(4) by (cases "k = m") auto
    with IH show ?thesis by auto
  qed
qed simp

lemma resolve_block_rangeD:
  assumes "resolve_block_range lines start_line = Inr (s, e)"
  shows "1 \<le> start_line \<and> start_line \<le> s \<and> s < e \<and> e \<le> length lines"
    and "is_significant (lines ! (s - 1))"
    and "\<And>k. start_line \<le> k \<Longrightarrow> k < s \<Longrightarrow> \<not> is_significant (lines ! (k - 1))"
    and "0 < block_net_balance (lines ! (s - 1))"
    and "range_balance lines (s - 1) e = 0"
    and "\<And>k. s \<le> k \<Longrightarrow> k < e \<Longrightarrow> range_balance lines (s - 1) k \<noteq> 0"
proof -
  from assms have sl: "1 \<le> start_line" "start_line \<le> length lines"
    by (auto simp: resolve_block_range_def split: if_splits)
  with assms obtain p where
    f: "find (\<lambda>i. is_significant (lines ! i)) [start_line - 1..<length lines] = Some p"
    by (auto simp: resolve_block_range_def split: option.splits)
  with assms sl have pos: "0 < block_net_balance (lines ! p)"
    by (auto simp: resolve_block_range_def Let_def split: if_splits)
  with assms sl f obtain j where
    j: "block_scan (block_net_balance (lines ! p)) (p + 1) (drop (p + 1) lines) = Some j"
    and se: "s = p + 1" "e = j + 1"
    by (auto simp: resolve_block_range_def Let_def split: option.splits)
  from j have "block_scan (range_balance lines p (Suc p)) (Suc p) (drop (Suc p) lines) = Some j"
    by (simp add: range_balance_def)
  note scan = block_scan_spec [OF this le_SucI [OF order_refl]]
  note fnd = find_upt_SomeD [OF f]
  from scan fnd sl se show "1 \<le> start_line \<and> start_line \<le> s \<and> s < e \<and> e \<le> length lines" by auto
  from fnd se show "is_significant (lines ! (s - 1))" by simp
  from pos se show "0 < block_net_balance (lines ! (s - 1))" by simp
  from scan se show "range_balance lines (s - 1) e = 0" by simp
  show "\<not> is_significant (lines ! (k - 1))" if "start_line \<le> k" "k < s" for k
  proof -
    from that sl se have "start_line - 1 \<le> k - 1" "k - 1 < p" by auto
    with fnd show ?thesis by blast
  qed
  show "range_balance lines (s - 1) k \<noteq> 0" if "s \<le> k" "k < e" for k
  proof (cases "k = s")
    case True
    with pos se show ?thesis by (simp add: range_balance_def)
  next
    case False
    with that se have "Suc p \<le> k - 1" "k - 1 < j" "Suc (k - 1) = k" by auto
    with scan se show ?thesis by (metis diff_add_inverse2)
  qed
qed

lemma slide_closers_spec:
  "land \<le> length lines \<Longrightarrow>
     land \<le> slide_closers lines land \<and> slide_closers lines land \<le> length lines
     \<and> (\<forall>k. land \<le> k \<longrightarrow> k < slide_closers lines land \<longrightarrow> is_pure_closer (lines ! k))
     \<and> (slide_closers lines land < length lines \<longrightarrow>
          \<not> is_pure_closer (lines ! slide_closers lines land))"
proof (induction lines land rule: slide_closers.induct)
  case (1 lines land)
  show ?case
  proof (cases "land < length lines \<and> is_pure_closer (lines ! land)")
    case True
    then have eq: "slide_closers lines land = slide_closers lines (land + 1)"
      by (simp add: slide_closers.simps [of lines land])
    from "1.IH" True have IH: "land + 1 \<le> slide_closers lines (land + 1)"
      "slide_closers lines (land + 1) \<le> length lines"
      "\<forall>k. land + 1 \<le> k \<longrightarrow> k < slide_closers lines (land + 1) \<longrightarrow> is_pure_closer (lines ! k)"
      "slide_closers lines (land + 1) < length lines \<longrightarrow>
         \<not> is_pure_closer (lines ! slide_closers lines (land + 1))"
      by auto
    have "is_pure_closer (lines ! k)" if "land \<le> k" "k < slide_closers lines (land + 1)" for k
      using that IH(3) True by (cases "k = land") auto
    with IH eq show ?thesis by auto
  next
    case False
    then have "slide_closers lines land = land"
      by (subst slide_closers.simps) (rule if_not_P)
    with False "1.prems" show ?thesis by auto
  qed
qed

lemma block_post_insertion_lineD:
  assumes "block_post_insertion_line lines a = Inr land"
  shows "\<exists>s e. resolve_block_range lines a = Inr (s, e) \<and> e \<le> land \<and> land \<le> length lines
     \<and> (\<forall>k. e \<le> k \<longrightarrow> k < land \<longrightarrow> is_pure_closer (lines ! k))"
proof -
  from assms obtain s e where r: "resolve_block_range lines a = Inr (s, e)"
    and l: "land = slide_closers lines e"
    by (auto simp: block_post_insertion_line_def try_then_Inr_iff)
  from resolve_block_rangeD(1) [OF r] have "e \<le> length lines" by simp
  from slide_closers_spec [OF this] r l show ?thesis by auto
qed

text \<open>A resolved block is the first significant line at or after the requested one together with
  the shortest stretch of lines whose brackets balance: it opens a bracket, its bracket balance is
  zero at the last line and at no line before, and it lies within the file.\<close>
lemma resolved_block_is_minimal:
  assumes "resolve_block_range lines start_line = Inr (s, e)"
  shows "1 \<le> start_line \<and> start_line \<le> s \<and> s < e \<and> e \<le> length lines
    \<and> is_significant (lines ! (s - 1)) \<and> 0 < block_net_balance (lines ! (s - 1))
    \<and> (\<forall>k. start_line \<le> k \<and> k < s \<longrightarrow> \<not> is_significant (lines ! (k - 1)))
    \<and> range_balance lines (s - 1) e = 0
    \<and> (\<forall>k. s \<le> k \<and> k < e \<longrightarrow> range_balance lines (s - 1) k \<noteq> 0)"
  using resolve_block_rangeD [OF assms] by blast

text \<open>An insertion after a block lands behind the block and behind the pure closing lines that
  follow it, never inside the block and never past the file.\<close>
lemma insertion_lands_behind_block:
  assumes "block_post_insertion_line lines a = Inr land"
  shows "\<exists>s e. resolve_block_range lines a = Inr (s, e) \<and> e \<le> land \<and> land \<le> length lines
     \<and> (\<forall>k. e \<le> k \<longrightarrow> k < land \<longrightarrow> is_pure_closer (lines ! k))"
  using assms by (rule block_post_insertion_lineD)

end
