(* ===== verification/Hashline_Apply.thy ===== *)
theory Hashline_Apply
  imports Hashline_Ops Hashline_Block
begin

text \<open>
  Applying parsed operations to a text (\<^verbatim>\<open>manox-harness/src/core/hashline/apply.rs\<close>):
  operations are resolved against the original lines, checked for conflicts, ordered by
  their primary line from the back and applied one by one. The section
  \<open>Simultaneous edit\<close> states what the result should be without any order: every original
  line contributes what is inserted before it, what becomes of it and what is inserted
  after it. The main lemma is that the sequential execution computes that.

  An index out of range in \<^verbatim>\<open>splice\<close>, \<^verbatim>\<open>drain\<close> or \<^verbatim>\<open>insert\<close> is a Rust panic; it is the
  error \<open>Panicked\<close>, distinct from the errors the function returns.
\<close>

section \<open>Errors, results and resolved operations\<close>

datatype apply_error =
    LineNumberZero
  | RangeReversed nat nat
  | RangeOutOfBounds nat nat
  | InsBodyEmpty
  | InsAnchorOutOfBounds nat nat
  | BlockFailed block_error
  | InsBlkBodyEmpty
  | PasteNotExpanded
  | RangesOverlap "nat \<times> nat" "nat \<times> nat"
  | InsInsideRange "nat option" ins_pos "nat \<times> nat"
  | InsNeedsAnchor
  | Panicked

record apply_result =
  ar_text :: str
  ar_first_changed_line :: nat

datatype resolved_op =
    RSwap nat nat "str list"
  | RDel nat nat
  | RIns ins_pos "nat option" "str list"

fun primary_line :: "resolved_op \<Rightarrow> nat" where
  "primary_line (RSwap s e b) = s"
| "primary_line (RDel s e) = s"
| "primary_line (RIns p (Some a) b) = a"
| "primary_line (RIns p None b) = 0"

fun insertion_index :: "ins_pos \<Rightarrow> nat option \<Rightarrow> nat option" where
  "insertion_index Head a = Some 0"
| "insertion_index Tail a = None"
| "insertion_index Pre a = map_option (\<lambda>n. n - 1) a"
| "insertion_index Post a = a"

definition validate_range :: "nat \<Rightarrow> nat \<Rightarrow> nat \<Rightarrow> (apply_error, unit) result" where
  "validate_range s e len =
     (if s = 0 \<or> e = 0 then Inl LineNumberZero
      else if s > e then Inl (RangeReversed s e)
      else if e > len then Inl (RangeOutOfBounds e len)
      else Inr ())"

section \<open>Boundary repair\<close>

text \<open>
  The scan of \<^verbatim>\<open>apply::net_balance\<close>: as the one of \<^verbatim>\<open>block.rs\<close>, with block comments and
  backtick literals.
\<close>

datatype scan_state = Code | InString char | InComment

fun apply_scan_line :: "scan_state \<Rightarrow> int \<Rightarrow> str \<Rightarrow> int" where
  "apply_scan_line st b [] = b"
| "apply_scan_line InComment b (c # cs) =
     (case cs of
        d # ds \<Rightarrow> if c = CHR ''*'' \<and> d = CHR ''/'' then apply_scan_line Code b ds
                 else apply_scan_line InComment b (d # ds)
      | [] \<Rightarrow> b)"
| "apply_scan_line (InString q) b (c # cs) =
     (if c = BSLASH then (case cs of [] \<Rightarrow> b | _ # ds \<Rightarrow> apply_scan_line (InString q) b ds)
      else if c = q then apply_scan_line Code b cs
      else apply_scan_line (InString q) b cs)"
| "apply_scan_line Code b (c # cs) =
     (if c = CHR ''/'' \<and> starts_with cs ''/'' then b
      else if c = CHR ''/'' \<and> starts_with cs ''*''
      then (case cs of [] \<Rightarrow> b | _ # ds \<Rightarrow> apply_scan_line InComment b ds)
      else if c = DQUOTE \<or> c = SQUOTE \<or> c = CHR 0x60 then apply_scan_line (InString c) b cs
      else if is_open c then apply_scan_line Code (b + 1) cs
      else if is_close c then apply_scan_line Code (b - 1) cs
      else apply_scan_line Code b cs)"

definition net_balance :: "str \<Rightarrow> int" where
  "net_balance line = apply_scan_line Code 0 line"

text \<open>First loop of \<^verbatim>\<open>repair_boundaries\<close>: drop last rows that restate the line below.\<close>

function repair_below :: "str list \<Rightarrow> nat \<Rightarrow> str list \<Rightarrow> str list" where
  "repair_below lines e repaired =
     (if length repaired \<le> 1 then repaired
      else if e < length lines \<and> last repaired = lines ! e \<and> net_balance (last repaired) \<le> 0
      then repair_below lines e (butlast repaired)
      else repaired)"
  by pat_completeness auto
termination
  by (relation "measure (\<lambda>(lines, e, repaired). length repaired)") auto

text \<open>Second loop: drop first rows that restate the line above.\<close>

function repair_above :: "str list \<Rightarrow> nat \<Rightarrow> str list \<Rightarrow> str list" where
  "repair_above lines s repaired =
     (if length repaired \<le> 1 then repaired
      else if 2 \<le> s \<and> s - 2 < length lines \<and> hd repaired = lines ! (s - 2)
              \<and> net_balance (hd repaired) \<ge> 0
      then repair_above lines s (tl repaired)
      else repaired)"
  by pat_completeness auto
termination
  by (relation "measure (\<lambda>(lines, s, repaired). length repaired)") auto

declare repair_below.simps [simp del] repair_above.simps [simp del]

definition repair_boundaries :: "str list \<Rightarrow> nat \<Rightarrow> nat \<Rightarrow> str list \<Rightarrow> str list" where
  "repair_boundaries lines s e body =
     (if body = [] then body else repair_above lines s (repair_below lines e body))"

section \<open>Resolution\<close>

definition block_result :: "(block_error, 'a) result \<Rightarrow> (apply_error, 'a) result" where
  "block_result r = (case r of Inl b \<Rightarrow> Inl (BlockFailed b) | Inr x \<Rightarrow> Inr x)"

fun resolve_op :: "str list \<Rightarrow> op \<Rightarrow> (apply_error, resolved_op) result" where
  "resolve_op lines (Swap s e body) =
     try_then (validate_range s e (length lines))
       (\<lambda>_. Inr (RSwap s e (repair_boundaries lines s e body)))"
| "resolve_op lines (Del s e) =
     try_then (validate_range s e (length lines)) (\<lambda>_. Inr (RDel s e))"
| "resolve_op lines (Ins pos anchor body) =
     (if body = [] then Inl InsBodyEmpty
      else case anchor of
             Some a \<Rightarrow> if a = 0 \<or> a > length lines
                       then Inl (InsAnchorOutOfBounds a (length lines))
                       else Inr (RIns pos anchor body)
           | None \<Rightarrow> Inr (RIns pos anchor body))"
| "resolve_op lines (SwapBlk start body) =
     try_then (block_result (resolve_block_range lines start))
       (\<lambda>(s, e). Inr (RSwap s e (repair_boundaries lines s e body)))"
| "resolve_op lines (DelBlk start) =
     try_then (block_result (resolve_block_range lines start)) (\<lambda>(s, e). Inr (RDel s e))"
| "resolve_op lines (InsBlkPost anchor body) =
     (if body = [] then Inl InsBlkBodyEmpty
      else try_then (block_result (block_post_insertion_line lines anchor))
             (\<lambda>land. Inr (RIns Post (Some land) body)))"
| "resolve_op lines (Cut s e) =
     try_then (validate_range s e (length lines)) (\<lambda>_. Inr (RDel s e))"
| "resolve_op lines (CutBlk start) =
     try_then (block_result (resolve_block_range lines start)) (\<lambda>(s, e). Inr (RDel s e))"
| "resolve_op lines (Paste pos anchor) = Inl PasteNotExpanded"

section \<open>Conflict detection\<close>

fun consuming :: "resolved_op \<Rightarrow> (nat \<times> nat) option" where
  "consuming (RSwap s e b) = Some (s, e)"
| "consuming (RDel s e) = Some (s, e)"
| "consuming (RIns p a b) = None"

text \<open>The inner loop over the ranges already consumed: the first one that overlaps.\<close>

definition overlapping :: "(nat \<times> nat) list \<Rightarrow> nat \<times> nat \<Rightarrow> (nat \<times> nat) option" where
  "overlapping consumed r = find (\<lambda>(os, oe). os \<le> snd r \<and> fst r \<le> oe) consumed"

fun check_consuming ::
  "(nat \<times> nat) list \<Rightarrow> resolved_op list \<Rightarrow> (apply_error, (nat \<times> nat) list) result" where
  "check_consuming consumed [] = Inr consumed"
| "check_consuming consumed (r # rs) =
     (case consuming r of
        None \<Rightarrow> check_consuming consumed rs
      | Some c \<Rightarrow>
          (case overlapping consumed c of
             Some o1 \<Rightarrow> Inl (RangesOverlap c o1)
           | None \<Rightarrow> check_consuming (consumed @ [c]) rs))"

text \<open>The range consumes the 0-based indices \<open>[s - 1, e - 1]\<close>.\<close>

definition lands_in :: "nat \<Rightarrow> nat \<times> nat \<Rightarrow> bool" where
  "lands_in p c \<longleftrightarrow> fst c - 1 \<le> p \<and> p \<le> snd c - 1"

fun check_insertions ::
  "(nat \<times> nat) list \<Rightarrow> resolved_op list \<Rightarrow> (apply_error, unit) result" where
  "check_insertions consumed [] = Inr ()"
| "check_insertions consumed (RIns pos anchor body # rs) =
     (case insertion_index pos anchor of
        None \<Rightarrow> check_insertions consumed rs
      | Some p \<Rightarrow>
          (case find (lands_in p) consumed of
             Some c \<Rightarrow> Inl (InsInsideRange anchor pos c)
           | None \<Rightarrow> check_insertions consumed rs))"
| "check_insertions consumed (r # rs) = check_insertions consumed rs"

section \<open>Sequential execution\<close>

definition or_panic :: "'a option \<Rightarrow> (apply_error, 'a) result" where
  "or_panic x = (case x of Some y \<Rightarrow> Inr y | None \<Rightarrow> Inl Panicked)"

fun apply_resolved :: "str list \<Rightarrow> resolved_op \<Rightarrow> (apply_error, str list) result" where
  "apply_resolved lines (RSwap s e body) = or_panic (vec_splice lines (s - 1) e body)"
| "apply_resolved lines (RDel s e) = or_panic (vec_splice lines (s - 1) e [])"
| "apply_resolved lines (RIns pos anchor body) =
     (case (pos, anchor) of
        (Head, _) \<Rightarrow> or_panic (vec_insert_rows lines 0 body)
      | (Tail, _) \<Rightarrow> or_panic (vec_insert_rows lines (length lines) body)
      | (Pre, Some a) \<Rightarrow> or_panic (vec_insert_rows lines (a - 1) body)
      | (Post, Some a) \<Rightarrow> or_panic (vec_insert_rows lines a body)
      | (_, None) \<Rightarrow> Inl InsNeedsAnchor)"

fun apply_all_resolved :: "str list \<Rightarrow> resolved_op list \<Rightarrow> (apply_error, str list) result" where
  "apply_all_resolved lines [] = Inr lines"
| "apply_all_resolved lines (r # rs) =
     try_then (apply_resolved lines r) (\<lambda>lines'. apply_all_resolved lines' rs)"

text \<open>\<^verbatim>\<open>sort_by_key(Reverse(primary_line))\<close>: a stable sort, highest line first.\<close>

definition back_to_front :: "resolved_op list \<Rightarrow> resolved_op list" where
  "back_to_front rs = sort_key (\<lambda>r. - int (primary_line r)) rs"

fun op_first_line :: "op \<Rightarrow> nat" where
  "op_first_line (Swap s e b) = s"
| "op_first_line (Del s e) = s"
| "op_first_line (SwapBlk s b) = s"
| "op_first_line (DelBlk s) = s"
| "op_first_line (Cut s e) = s"
| "op_first_line (CutBlk s) = s"
| "op_first_line (Ins p (Some a) b) = a"
| "op_first_line (InsBlkPost a b) = a"
| "op_first_line (Paste p (Some a)) = a"
| "op_first_line (Ins p None b) = 1"
| "op_first_line (Paste p None) = 1"

definition first_changed_line :: "str list \<Rightarrow> op list \<Rightarrow> nat" where
  "first_changed_line new_lines ops =
     min (max (if ops = [] then 1 else Min (set (map op_first_line ops))) 1)
         (max (length new_lines) 1)"

definition apply_ops :: "str \<Rightarrow> op list \<Rightarrow> (apply_error, apply_result) result" where
  "apply_ops text ops =
     (let lines = str_lines text
      in try_then (try_map (resolve_op lines) ops) (\<lambda>resolved.
         try_then (check_consuming [] resolved) (\<lambda>consumed.
         try_then (check_insertions consumed resolved) (\<lambda>_.
         try_then (apply_all_resolved lines (back_to_front resolved)) (\<lambda>lines'.
           Inr \<lparr>ar_text = join [NL] lines',
                ar_first_changed_line = first_changed_line lines' ops\<rparr>)))))"

section \<open>Simultaneous edit\<close>

fun ins_matches :: "ins_pos \<Rightarrow> nat option \<Rightarrow> resolved_op \<Rightarrow> bool" where
  "ins_matches p a (RIns p' a' b) = (p = p' \<and> a = a')"
| "ins_matches p a (RSwap s e b) = False"
| "ins_matches p a (RDel s e) = False"

fun op_body :: "resolved_op \<Rightarrow> str list" where
  "op_body (RIns p a b) = b"
| "op_body (RSwap s e b) = b"
| "op_body (RDel s e) = []"

definition bodies_at :: "ins_pos \<Rightarrow> nat option \<Rightarrow> resolved_op list \<Rightarrow> str list list" where
  "bodies_at p a rs = map op_body (filter (ins_matches p a) rs)"

text \<open>Whether an operation consumes the line with 0-based index \<open>i\<close>.\<close>

definition covers :: "nat \<Rightarrow> resolved_op \<Rightarrow> bool" where
  "covers i r = (case consuming r of Some (s, e) \<Rightarrow> s \<le> Suc i \<and> Suc i \<le> e | None \<Rightarrow> False)"

definition line_image :: "resolved_op list \<Rightarrow> str list \<Rightarrow> nat \<Rightarrow> str list" where
  "line_image rs lines i =
     (case filter (covers i) rs of
        [] \<Rightarrow> [lines ! i]
      | r # _ \<Rightarrow> if primary_line r = Suc i then op_body r else [])"

definition contribution :: "resolved_op list \<Rightarrow> str list \<Rightarrow> nat \<Rightarrow> str list" where
  "contribution rs lines i =
     concat (rev (bodies_at Pre (Some (Suc i)) rs)) @ line_image rs lines i
     @ concat (rev (bodies_at Post (Some (Suc i)) rs))"

definition simultaneous :: "resolved_op list \<Rightarrow> str list \<Rightarrow> str list" where
  "simultaneous rs lines =
     concat (rev (bodies_at Head None rs))
     @ concat (map (contribution rs lines) [0..<length lines])
     @ concat (bodies_at Tail None rs)"

text \<open>What resolution guarantees, what the conflict check guarantees, and the order condition.\<close>

fun resolved_ok :: "nat \<Rightarrow> resolved_op \<Rightarrow> bool" where
  "resolved_ok n (RSwap s e b) = (1 \<le> s \<and> s \<le> e \<and> e \<le> n)"
| "resolved_ok n (RDel s e) = (1 \<le> s \<and> s \<le> e \<and> e \<le> n)"
| "resolved_ok n (RIns p a b) = (pos_ok p a \<and> (case a of Some k \<Rightarrow> 1 \<le> k \<and> k \<le> n | None \<Rightarrow> True))"

definition disjoint_ranges :: "resolved_op list \<Rightarrow> bool" where
  "disjoint_ranges rs \<longleftrightarrow> (\<forall>i. length (filter (covers i) rs) \<le> 1)"

definition insertions_clear :: "resolved_op list \<Rightarrow> bool" where
  "insertions_clear rs \<longleftrightarrow>
     (\<forall>p a b q. RIns p a b \<in> set rs \<longrightarrow> q \<in> set rs \<longrightarrow>
        (\<forall>s e i. consuming q = Some (s, e) \<longrightarrow> insertion_index p a = Some i \<longrightarrow>
           \<not> (s - 1 \<le> i \<and> i \<le> e - 1)))"

text \<open>
  \<open>stale_post r q\<close>: \<open>q\<close> inserts after a line that \<open>r\<close>, with the same primary line, has already
  replaced, deleted or shifted when \<open>r\<close> stands before \<open>q\<close>.
\<close>

fun stale_post :: "resolved_op \<Rightarrow> resolved_op \<Rightarrow> bool" where
  "stale_post r (RIns Post (Some a) b) = (primary_line r = a \<and> \<not> ins_matches Post (Some a) r)"
| "stale_post r q = False"

definition tie_safe :: "resolved_op list \<Rightarrow> bool" where
  "tie_safe rs = sorted_wrt (\<lambda>r q. \<not> stale_post r q) rs"

section \<open>Sequential execution computes the simultaneous edit\<close>

lemma apply_all_resolved_append:
  "apply_all_resolved lines (rs @ qs) =
     try_then (apply_all_resolved lines rs) (\<lambda>l. apply_all_resolved l qs)"
proof (induction rs arbitrary: lines)
  case (Cons r rs)
  then show ?case by (cases "apply_resolved lines r") auto
qed simp

lemma bodies_at_append: "bodies_at p a (rs @ qs) = bodies_at p a rs @ bodies_at p a qs"
  by (simp add: bodies_at_def)

lemma bodies_at_single:
  "bodies_at p a [r] = (if ins_matches p a r then [op_body r] else [])"
  by (simp add: bodies_at_def)

lemma ins_matches_primary:
  "ins_matches p (Some a) r \<Longrightarrow> primary_line r = a" "ins_matches p None r \<Longrightarrow> primary_line r = 0"
  by (cases r; auto)+

lemma bodies_at_empty: "(\<And>r. r \<in> set rs \<Longrightarrow> \<not> ins_matches p a r) \<Longrightarrow> bodies_at p a rs = []"
  by (auto simp: bodies_at_def filter_empty_conv)

lemma bodies_at_below:
  assumes "\<And>q. q \<in> set rs \<Longrightarrow> k \<le> primary_line q"
  shows "a < k \<Longrightarrow> bodies_at p (Some a) rs = []" and "0 < k \<Longrightarrow> bodies_at p None rs = []"
  using assms by (fastforce intro!: bodies_at_empty dest: ins_matches_primary)+

lemma covers_primary: "covers i r \<Longrightarrow> primary_line r \<le> Suc i"
  by (cases r) (auto simp: covers_def)

lemma line_image_append:
  "line_image (rs @ [r]) lines i =
     (if filter (covers i) rs \<noteq> [] then line_image rs lines i else line_image [r] lines i)"
  by (auto simp: line_image_def split: list.splits)

lemma line_image_not_covered:
  "(\<And>r. r \<in> set rs \<Longrightarrow> \<not> covers i r) \<Longrightarrow> line_image rs lines i = [lines ! i]"
  by (simp add: line_image_def filter_empty_conv [THEN iffD2])

lemma line_image_snoc_ins:
  "consuming r = None \<Longrightarrow> line_image (rs @ [r]) lines i = line_image rs lines i"
  by (simp add: line_image_def covers_def)

lemma contribution_below:
  assumes "\<And>q. q \<in> set rs \<Longrightarrow> k \<le> primary_line q" and "Suc i < k"
  shows "contribution rs lines i = [lines ! i]"
proof -
  have "\<not> covers i q" if "q \<in> set rs" for q
    using assms(1) [OF that] assms(2) covers_primary [of i q] by auto
  then show ?thesis
    using bodies_at_below(1) [OF assms] by (simp add: contribution_def line_image_not_covered)
qed

lemma simultaneous_no_ends:
  assumes "\<And>q. q \<in> set rs \<Longrightarrow> k \<le> primary_line q" and "0 < k"
  shows "simultaneous rs lines = concat (map (contribution rs lines) [0..<length lines])"
  using bodies_at_below(2) [OF assms] by (simp add: simultaneous_def)

text \<open>The lines below the lowest primary line are still in place.\<close>

lemma simultaneous_prefix:
  assumes "\<And>q. q \<in> set rs \<Longrightarrow> Suc k \<le> primary_line q" and "k \<le> length lines"
  shows "simultaneous rs lines =
           take k lines @ concat (map (contribution rs lines) [k..<length lines])"
proof -
  have "concat (map (contribution rs lines) [0..<k]) = drop 0 (take k lines)"
    using contribution_below [OF assms(1)] assms(2) by (intro concat_map_singleton_upt) auto
  then show ?thesis
    using assms(2) simultaneous_no_ends [OF assms(1)] by (simp add: concat_map_upt_split)
qed

text \<open>One step, an insertion before line \<open>a\<close>.\<close>

lemma contribution_cong_snoc:
  assumes "\<not> ins_matches Pre (Some (Suc i)) r" and "\<not> ins_matches Post (Some (Suc i)) r"
    and "\<not> covers i r"
  shows "contribution (rs @ [r]) lines i = contribution rs lines i"
  using assms by (simp add: contribution_def bodies_at_append bodies_at_single line_image_def)

lemma simultaneous_snoc_ends:
  assumes "\<not> ins_matches Head None r" and "\<not> ins_matches Tail None r"
    and "\<And>q. q \<in> set rs \<Longrightarrow> 1 \<le> primary_line q"
  shows "simultaneous (rs @ [r]) lines =
           concat (map (contribution (rs @ [r]) lines) [0..<length lines])"
  using assms bodies_at_below(2) [OF assms(3)]
  by (simp add: simultaneous_def bodies_at_append bodies_at_single)

text \<open>
  A step that changes only the contribution of the line \<open>k\<close>, seen as an insertion into the
  text at \<open>j\<close> rows after the untouched prefix.
\<close>

lemma simultaneous_at:
  assumes low: "\<And>q. q \<in> set rs \<Longrightarrow> Suc k \<le> primary_line q" and k: "k < length lines"
    and head: "\<not> ins_matches Head None r" and tail: "\<not> ins_matches Tail None r"
    and others: "\<And>i. i \<noteq> k \<Longrightarrow> contribution (rs @ [r]) lines i = contribution rs lines i"
  shows "simultaneous rs lines =
           take k lines @ contribution rs lines k
           @ concat (map (contribution rs lines) [Suc k..<length lines])"
    and "simultaneous (rs @ [r]) lines =
           take k lines @ contribution (rs @ [r]) lines k
           @ concat (map (contribution rs lines) [Suc k..<length lines])"
proof -
  show "simultaneous rs lines =
           take k lines @ contribution rs lines k
           @ concat (map (contribution rs lines) [Suc k..<length lines])"
    using simultaneous_prefix [OF low] k by (simp add: upt_conv_Cons)
  have pre: "concat (map (contribution (rs @ [r]) lines) [0..<k]) = drop 0 (take k lines)"
    using k others contribution_below [OF low]
    by (intro concat_map_singleton_upt) (auto simp: nat_neq_iff)
  have suf: "map (contribution (rs @ [r]) lines) [Suc k..<length lines]
      = map (contribution rs lines) [Suc k..<length lines]"
    using others by auto
  have one: "1 \<le> primary_line q" if "q \<in> set rs" for q
    using low [OF that] by simp
  have "simultaneous (rs @ [r]) lines
      = concat (map (contribution (rs @ [r]) lines) [0..<length lines])"
    by (rule simultaneous_snoc_ends [OF head tail one])
  also have "\<dots> = concat (map (contribution (rs @ [r]) lines) [0..<k])
      @ contribution (rs @ [r]) lines k
      @ concat (map (contribution (rs @ [r]) lines) [Suc k..<length lines])"
    by (rule concat_map_upt_at [OF k])
  finally show "simultaneous (rs @ [r]) lines =
           take k lines @ contribution (rs @ [r]) lines k
           @ concat (map (contribution rs lines) [Suc k..<length lines])"
    unfolding pre suf by simp
qed

lemma step_ins_pre:
  assumes low: "\<And>q. q \<in> set rs \<Longrightarrow> a \<le> primary_line q" and a: "1 \<le> a" "a \<le> length lines"
  shows "apply_resolved (simultaneous rs lines) (RIns Pre (Some a) b) =
           Inr (simultaneous (rs @ [RIns Pre (Some a) b]) lines)"
proof -
  let ?r = "RIns Pre (Some a) b"
  from a have k: "a - 1 < length lines" "Suc (a - 1) = a" by auto
  have others: "contribution (rs @ [?r]) lines i = contribution rs lines i" if "i \<noteq> a - 1" for i
    using that by (intro contribution_cong_snoc) (auto simp: covers_def)
  have low': "Suc (a - 1) \<le> primary_line q" if "q \<in> set rs" for q
    using low [OF that] k(2) by simp
  note at = simultaneous_at [of rs "a - 1" lines ?r, OF low' k(1) _ _ others]
  have "contribution (rs @ [?r]) lines (a - 1) = b @ contribution rs lines (a - 1)"
    using a by (simp add: contribution_def bodies_at_append bodies_at_single line_image_snoc_ins)
  then show ?thesis
    using at k by (simp add: vec_insert_rows_ok or_panic_def)
qed

lemma step_ins_post:
  assumes low: "\<And>q. q \<in> set rs \<Longrightarrow> a \<le> primary_line q" and a: "1 \<le> a" "a \<le> length lines"
    and fresh: "\<And>q. q \<in> set rs \<Longrightarrow> \<not> stale_post q (RIns Post (Some a) b)"
  shows "apply_resolved (simultaneous rs lines) (RIns Post (Some a) b) =
           Inr (simultaneous (rs @ [RIns Post (Some a) b]) lines)"
proof -
  let ?r = "RIns Post (Some a) b" and ?k = "a - 1"
  from a have k: "?k < length lines" "Suc ?k = a" by auto
  have others: "contribution (rs @ [?r]) lines i = contribution rs lines i" if "i \<noteq> ?k" for i
    using that by (intro contribution_cong_snoc) (auto simp: covers_def)
  have low': "Suc ?k \<le> primary_line q" if "q \<in> set rs" for q
    using low [OF that] k(2) by simp
  have "\<not> covers ?k q \<and> \<not> ins_matches Pre (Some a) q" if q: "q \<in> set rs" for q
  proof (cases "primary_line q = a")
    case True
    with fresh [OF q] have "ins_matches Post (Some a) q" by simp
    then show ?thesis by (cases q) (auto simp: covers_def)
  next
    case False
    with low [OF q] covers_primary [of ?k q] k(2) ins_matches_primary(1) [of Pre a q]
    show ?thesis by auto
  qed
  then have clean: "line_image rs lines ?k = [lines ! ?k]" "bodies_at Pre (Some a) rs = []"
    by (simp_all add: line_image_not_covered bodies_at_empty)
  note at = simultaneous_at [of rs ?k lines ?r, OF low' k(1) _ _ others]
  define post where "post = concat (rev (bodies_at Post (Some a) rs))"
  have "contribution rs lines ?k = lines ! ?k # post"
    using clean k(2) by (simp add: contribution_def post_def)
  moreover have "contribution (rs @ [?r]) lines ?k = lines ! ?k # b @ post"
    using clean a
    by (simp add: contribution_def bodies_at_append bodies_at_single line_image_snoc_ins post_def)
  moreover have "length (take ?k lines) = ?k" using k(1) by simp
  ultimately show ?thesis
    using at k by (simp add: vec_insert_rows_ok or_panic_def take_Suc_conv_app_nth Cons_nth_drop_Suc)
qed

lemma step_ins_ends:
  "apply_resolved (simultaneous rs lines) (RIns Head None b) =
     Inr (simultaneous (rs @ [RIns Head None b]) lines)"
  "apply_resolved (simultaneous rs lines) (RIns Tail None b) =
     Inr (simultaneous (rs @ [RIns Tail None b]) lines)"
proof -
  have "contribution (rs @ [RIns p None b]) lines = contribution rs lines" for p
    by (rule ext, rule contribution_cong_snoc) (auto simp: covers_def)
  then show "apply_resolved (simultaneous rs lines) (RIns Head None b) =
     Inr (simultaneous (rs @ [RIns Head None b]) lines)"
    "apply_resolved (simultaneous rs lines) (RIns Tail None b) =
     Inr (simultaneous (rs @ [RIns Tail None b]) lines)"
    by (simp_all add: vec_insert_rows_ok or_panic_def simultaneous_def bodies_at_append
        bodies_at_single)
qed

text \<open>One step that consumes the lines \<open>s..e\<close>.\<close>

lemma concat_map_upt_last:
  assumes "m < n" and "\<And>i. m \<le> i \<Longrightarrow> i < n \<Longrightarrow> f i = g i @ (if Suc i = n then z else [])"
  shows "concat (map f [m..<n]) = concat (map g [m..<n]) @ z"
proof -
  from assms(1) obtain k where n: "n = Suc k" "m \<le> k" by (cases n) auto
  have "concat (map f [m..<k]) = concat (map g [m..<k])"
    using assms(2) n by (intro arg_cong [where f = concat] map_cong) auto
  then show ?thesis using assms(2) [of k] n by simp
qed

lemma concat_map_upt_first:
  assumes "m < n" and "\<And>i. m < i \<Longrightarrow> i < n \<Longrightarrow> f i = []"
  shows "concat (map f [m..<n]) = f m"
proof -
  have "concat (map f [Suc m..<n]) = []" using assms(2) by auto
  then show ?thesis using assms(1) by (simp add: upt_conv_Cons)
qed

lemma apply_resolved_consuming:
  "consuming r = Some (s, e) \<Longrightarrow>
     apply_resolved lines r = or_panic (vec_splice lines (s - 1) e (op_body r))
     \<and> primary_line r = s \<and> \<not> ins_matches p a r"
  by (cases r) auto

lemma insertions_clearD:
  assumes "insertions_clear rs" and "r \<in> set rs" and "consuming r = Some (s, e)"
    and "q \<in> set rs" and "ins_matches p a q" and "insertion_index p a = Some i"
  shows "\<not> (s - 1 \<le> i \<and> i \<le> e - 1)"
proof -
  from assms(5) obtain b where "q = RIns p a b" by (cases q) auto
  with assms show ?thesis unfolding insertions_clear_def by blast
qed

lemma step_consuming:
  assumes c: "consuming r = Some (s, e)" and ok: "1 \<le> s" "s \<le> e" "e \<le> length lines"
    and low: "\<And>q. q \<in> set rs \<Longrightarrow> s \<le> primary_line q"
    and disj: "disjoint_ranges (rs @ [r])" and clear: "insertions_clear (rs @ [r])"
  shows "apply_resolved (simultaneous rs lines) r = Inr (simultaneous (rs @ [r]) lines)"
proof -
  let ?C = "contribution rs lines" and ?C' = "contribution (rs @ [r]) lines"
  let ?n = "length lines" and ?m = "s - 1"
  define post where "post = concat (rev (bodies_at Post (Some e) rs))"
  define rest where "rest = concat (map ?C [e..<?n])"
  note rc = apply_resolved_consuming [OF c]
  have cov: "covers i r \<longleftrightarrow> ?m \<le> i \<and> i < e" for i using c ok(1) by (auto simp: covers_def)
  have m: "?m < e" "?m \<le> ?n" "Suc ?m = s" using ok by auto
  have uncovered: "filter (covers i) rs = []" if "?m \<le> i" "i < e" for i
    using disj that cov by (auto simp: disjoint_ranges_def dest!: spec [of _ i])
  have nopre: "bodies_at Pre (Some (Suc i)) rs = []" if "?m \<le> i" "i < e" for i
  proof (rule bodies_at_empty)
    fix q assume "q \<in> set rs"
    then show "\<not> ins_matches Pre (Some (Suc i)) q"
      using insertions_clearD [OF clear _ c, of q Pre "Some (Suc i)" "i"] that by auto
  qed
  have nopost: "bodies_at Post (Some (Suc i)) rs = []" if "?m \<le> i" "Suc i < e" for i
  proof (rule bodies_at_empty)
    fix q assume "q \<in> set rs"
    then show "\<not> ins_matches Post (Some (Suc i)) q"
      using insertions_clearD [OF clear _ c, of q Post "Some (Suc i)" "Suc i"] that by auto
  qed
  have post_at: "concat (rev (bodies_at Post (Some (Suc i)) rs)) = (if Suc i = e then post else [])"
    if "?m \<le> i" "i < e" for i using that nopost by (simp add: post_def)
  have mid: "concat (map ?C [?m..<e]) = drop ?m (take e lines) @ post"
  proof -
    have "concat (map ?C [?m..<e]) = concat (map (\<lambda>i. [lines ! i]) [?m..<e]) @ post"
      using m(1) uncovered nopre post_at
      by (intro concat_map_upt_last) (auto simp: contribution_def line_image_def)
    also have "concat (map (\<lambda>i. [lines ! i]) [?m..<e]) = drop ?m (take e lines)"
      using m ok by (intro concat_map_singleton_upt) auto
    finally show ?thesis .
  qed
  have mid': "concat (map ?C' [?m..<e]) = op_body r @ post"
  proof -
    have "concat (map ?C' [?m..<e])
        = concat (map (\<lambda>i. if i = ?m then op_body r else []) [?m..<e]) @ post"
      using m uncovered nopre post_at cov rc
      by (intro concat_map_upt_last)
        (auto simp: contribution_def line_image_def bodies_at_append bodies_at_single)
    also have "concat (map (\<lambda>i. if i = ?m then op_body r else []) [?m..<e]) = op_body r"
      using m(1) by (subst concat_map_upt_first) auto
    finally show ?thesis .
  qed
  have other: "?C' i = ?C i" if "i < ?m \<or> e \<le> i" for i
    using that rc cov by (intro contribution_cong_snoc) auto
  have low': "Suc ?m \<le> primary_line q" if "q \<in> set rs" for q using low [OF that] m(3) by simp
  have one: "1 \<le> primary_line q" if "q \<in> set rs" for q using low [OF that] ok(1) by simp
  have "simultaneous rs lines = take ?m lines @ concat (map ?C [?m..<e]) @ rest"
    using simultaneous_prefix [of rs ?m lines, OF low' m(2)] m ok(3)
    by (simp add: rest_def flip: concat_append map_append) (metis le_add_diff_inverse less_imp_le upt_add_eq_append)
  then have M: "simultaneous rs lines = take ?m lines @ drop ?m (take e lines) @ post @ rest"
    unfolding mid by simp
  have tk: "take ?m lines @ drop ?m (take e lines) = take e lines"
    using m(1) by (metis append_take_drop_id less_imp_le min.absorb1 take_take)
  have M': "simultaneous rs lines = take e lines @ post @ rest" using M tk by (metis append.assoc)
  have "simultaneous (rs @ [r]) lines = concat (map ?C' [0..<?n])"
    using rc by (intro simultaneous_snoc_ends one) auto
  also have "\<dots> = concat (map ?C' [0..<?m]) @ concat (map ?C' [?m..<e]) @ concat (map ?C' [e..<?n])"
    using m ok(3) by (metis concat_map_upt_split append.assoc less_imp_le)
  also have "concat (map ?C' [0..<?m]) = drop 0 (take ?m lines)"
    using other contribution_below [OF low'] m by (intro concat_map_singleton_upt) auto
  also have "concat (map ?C' [e..<?n]) = rest"
    using other by (auto simp: rest_def intro!: arg_cong [where f = concat])
  finally have S: "simultaneous (rs @ [r]) lines = take ?m lines @ op_body r @ post @ rest"
    unfolding mid' by simp
  have "vec_splice (simultaneous rs lines) ?m e (op_body r) = Some (simultaneous (rs @ [r]) lines)"
    using m ok by (simp add: S M' vec_splice_def)
  with rc show ?thesis by (simp add: or_panic_def)
qed

lemma insertions_clear_subset:
  "insertions_clear rs \<Longrightarrow> set qs \<subseteq> set rs \<Longrightarrow> insertions_clear qs"
  unfolding insertions_clear_def by (meson subsetD)

lemma disjoint_ranges_append: "disjoint_ranges (rs @ qs) \<Longrightarrow> disjoint_ranges rs"
  by (auto simp: disjoint_ranges_def dest: add_leD1)

lemma step_any:
  assumes "resolved_ok (length lines) r" and "\<And>q. q \<in> set rs \<Longrightarrow> primary_line r \<le> primary_line q"
    and "\<And>q. q \<in> set rs \<Longrightarrow> \<not> stale_post q r"
    and "disjoint_ranges (rs @ [r])" and "insertions_clear (rs @ [r])"
  shows "apply_resolved (simultaneous rs lines) r = Inr (simultaneous (rs @ [r]) lines)"
proof (cases "consuming r")
  case (Some c)
  then obtain s e where c: "consuming r = Some (s, e)" by (cases c) auto
  with assms(1) have ok: "1 \<le> s" "s \<le> e" "e \<le> length lines" "primary_line r = s"
    by (cases r; auto)+
  show ?thesis
    by (rule step_consuming [OF c ok(1-3) _ assms(4,5)]) (use assms(2) ok(4) in auto)
next
  case None
  then obtain p a b where r: "r = RIns p a b" by (cases r) auto
  with assms(1) have ok: "pos_ok p a" "\<And>n. a = Some n \<Longrightarrow> 1 \<le> n \<and> n \<le> length lines" by auto
  then consider n where "p = Pre" "a = Some n" "1 \<le> n" "n \<le> length lines"
    | n where "p = Post" "a = Some n" "1 \<le> n" "n \<le> length lines"
    | "p = Head" "a = None" | "p = Tail" "a = None"
    by (auto simp: pos_ok_cases)
  then show ?thesis
  proof cases
    case (1 n)
    show ?thesis unfolding r 1(1,2)
      by (rule step_ins_pre [OF _ 1(3,4)]) (use assms(2) r 1 in auto)
  next
    case (2 n)
    show ?thesis unfolding r 2(1,2)
      by (rule step_ins_post [OF _ 2(3,4)]) (use assms(2,3) r 2 in auto)
  qed (simp_all only: r step_ins_ends)
qed

lemma simultaneous_Nil [simp]: "simultaneous [] lines = lines"
proof -
  have "concat (map (contribution [] lines) [0..<length lines]) = drop 0 (take (length lines) lines)"
    by (intro concat_map_singleton_upt) (auto simp: contribution_def bodies_at_def line_image_def)
  then show ?thesis by (simp add: simultaneous_def bodies_at_def)
qed

lemma apply_all_resolved_simultaneous:
  assumes "\<And>r. r \<in> set rs \<Longrightarrow> resolved_ok (length lines) r"
    and "sorted_wrt (\<lambda>r q. primary_line q \<le> primary_line r) rs" and "tie_safe rs"
    and "disjoint_ranges rs" and "insertions_clear rs"
  shows "apply_all_resolved lines rs = Inr (simultaneous rs lines)"
  using assms
proof (induction rs rule: rev_induct)
  case (snoc r rs)
  have "apply_all_resolved lines rs = Inr (simultaneous rs lines)"
    using snoc.prems by (intro snoc.IH)
      (auto simp: sorted_wrt_append tie_safe_def intro: disjoint_ranges_append
        insertions_clear_subset [of "rs @ [r]"])
  moreover have "apply_resolved (simultaneous rs lines) r = Inr (simultaneous (rs @ [r]) lines)"
    using snoc.prems by (intro step_any) (auto simp: sorted_wrt_append tie_safe_def)
  ultimately show ?case by (simp add: apply_all_resolved_append)
qed simp

section \<open>The order of the list does not matter to the specification\<close>

lemma set_back_to_front [simp]: "set (back_to_front rs) = set rs"
  by (simp add: back_to_front_def)

lemma back_to_front_sorted: "sorted_wrt (\<lambda>r q. primary_line q \<le> primary_line r) (back_to_front rs)"
proof -
  have "sorted (map (\<lambda>r. - int (primary_line r)) (back_to_front rs))"
    by (simp add: back_to_front_def)
  then show ?thesis by (simp add: sorted_map)
qed

lemma stale_post_same_line: "stale_post r q \<Longrightarrow> primary_line r = primary_line q"
  by (induction r q rule: stale_post.induct) auto

lemma tie_safe_back_to_front: "tie_safe rs \<Longrightarrow> tie_safe (back_to_front rs)"
  unfolding tie_safe_def back_to_front_def
  by (rule sorted_wrt_sort_key) (auto dest: stale_post_same_line)

lemma bodies_at_back_to_front:
  "bodies_at p a (back_to_front rs) = bodies_at p a rs"
proof -
  have "filter (ins_matches p a) (back_to_front rs) = filter (ins_matches p a) rs"
    unfolding back_to_front_def
    by (rule filter_sort_key_class [where k = "- int (case a of Some n \<Rightarrow> n | None \<Rightarrow> 0)"])
      (auto split: option.splits dest: ins_matches_primary)
  then show ?thesis by (simp add: bodies_at_def)
qed

lemma length_filter_back_to_front:
  "length (filter P (back_to_front rs)) = length (filter P rs)"
proof -
  have "mset (back_to_front rs) = mset rs" by (simp add: back_to_front_def)
  then have "mset (filter P (back_to_front rs)) = mset (filter P rs)" by simp
  then show ?thesis by (rule mset_eq_length)
qed

lemma singleton_filter_back_to_front:
  assumes "length (filter P rs) \<le> 1"
  shows "filter P (back_to_front rs) = filter P rs"
proof -
  have s: "set (filter P (back_to_front rs)) = set (filter P rs)" by simp
  have l: "length (filter P (back_to_front rs)) = length (filter P rs)"
    by (rule length_filter_back_to_front)
  show ?thesis
  proof (cases "filter P rs")
    case Nil
    with l show ?thesis by simp
  next
    case (Cons x xs)
    with assms have "filter P rs = [x]" by simp
    with s l show ?thesis by (cases "filter P (back_to_front rs)") auto
  qed
qed

lemma simultaneous_back_to_front:
  assumes "disjoint_ranges rs"
  shows "simultaneous (back_to_front rs) lines = simultaneous rs lines"
proof -
  have "filter (covers i) (back_to_front rs) = filter (covers i) rs" for i
    using assms by (intro singleton_filter_back_to_front) (simp add: disjoint_ranges_def)
  then have "contribution (back_to_front rs) lines = contribution rs lines"
    by (intro ext) (simp add: contribution_def line_image_def bodies_at_back_to_front)
  then show ?thesis by (simp add: simultaneous_def bodies_at_back_to_front)
qed

section \<open>What resolution and the conflict check establish\<close>

lemma validate_range_Inr: "validate_range s e n = Inr u \<longleftrightarrow> 1 \<le> s \<and> s \<le> e \<and> e \<le> n"
  by (auto simp: validate_range_def)

lemma block_result_Inr [simp]: "block_result r = Inr x \<longleftrightarrow> r = Inr x"
  by (cases r) (auto simp: block_result_def)

lemma resolve_op_ok:
  assumes "resolve_op lines p = Inr r" and "op_ok p"
  shows "resolved_ok (length lines) r"
  using assms
proof (cases p)
  case (InsBlkPost a b)
  with assms(1) obtain land where l: "block_post_insertion_line lines a = Inr land"
    and r: "r = RIns Post (Some land) b"
    by (auto simp: try_then_Inr_iff split: if_splits)
  then show ?thesis
    using block_post_insertion_lineD [OF l] resolve_block_rangeD(1) by fastforce
qed (auto simp: try_then_Inr_iff validate_range_Inr split: if_splits option.splits
      dest!: resolve_block_rangeD(1))

definition hits :: "nat \<Rightarrow> nat \<times> nat \<Rightarrow> bool" where
  "hits i c \<longleftrightarrow> fst c \<le> Suc i \<and> Suc i \<le> snd c"

lemma covers_hits: "consuming r = Some c \<Longrightarrow> covers i r = hits i c"
  by (cases c) (simp add: covers_def hits_def)

lemma overlapping_None:
  assumes "overlapping consumed c = None" and "hits i c"
  shows "filter (hits i) consumed = []"
  unfolding filter_empty_conv
proof
  fix d assume "d \<in> set consumed"
  with assms(1) have "\<not> (fst d \<le> snd c \<and> fst c \<le> snd d)"
    by (auto simp: overlapping_def find_None_iff split_beta)
  with assms(2) show "\<not> hits i d" unfolding hits_def by linarith
qed

lemma check_consuming_disjoint:
  assumes "check_consuming consumed rs = Inr consumed'" and "length (filter (hits i) consumed) \<le> 1"
  shows "length (filter (hits i) consumed) + length (filter (covers i) rs) \<le> 1"
  using assms
proof (induction consumed rs rule: check_consuming.induct)
  case (2 consumed r rs)
  show ?case
  proof (cases "consuming r")
    case None
    then have "\<not> covers i r" by (simp add: covers_def)
    with None "2.IH"(1) [OF None] "2.prems" show ?thesis by simp
  next
    case (Some c)
    with "2.prems"(1) have no: "overlapping consumed c = None"
      and rec: "check_consuming (consumed @ [c]) rs = Inr consumed'"
      by (auto split: option.splits)
    have "length (filter (hits i) (consumed @ [c])) \<le> 1"
      using overlapping_None [OF no, of i] "2.prems"(2) by (cases "hits i c") auto
    with "2.IH"(2) [OF Some no rec]
    have "length (filter (hits i) (consumed @ [c])) + length (filter (covers i) rs) \<le> 1" .
    then show ?thesis using covers_hits [OF Some, of i] by (cases "hits i c") auto
  qed
qed simp

lemma check_consuming_set:
  "check_consuming consumed rs = Inr consumed' \<Longrightarrow>
     set consumed' = set consumed \<union> {c. \<exists>r \<in> set rs. consuming r = Some c}"
proof (induction consumed rs rule: check_consuming.induct)
  case (2 consumed r rs)
  then show ?case by (cases "consuming r") (fastforce split: option.splits)+
qed simp

fun clear_of :: "(nat \<times> nat) list \<Rightarrow> resolved_op \<Rightarrow> bool" where
  "clear_of consumed (RIns p a b) =
     (\<forall>i. insertion_index p a = Some i \<longrightarrow> (\<forall>c \<in> set consumed. \<not> lands_in i c))"
| "clear_of consumed r = True"

lemma check_insertions_Inr:
  "check_insertions consumed rs = Inr u \<longleftrightarrow> (\<forall>r \<in> set rs. clear_of consumed r)"
proof (induction consumed rs rule: check_insertions.induct)
  case (2 consumed pos anchor body rs)
  show ?case
  proof (cases "insertion_index pos anchor")
    case None
    with "2.IH"(1) show ?thesis by simp
  next
    case p: (Some p)
    show ?thesis
    proof (cases "find (lands_in p) consumed")
      case None
      then have "\<forall>c \<in> set consumed. \<not> lands_in p c" by (auto simp: find_None_iff)
      with None p "2.IH"(2) [OF p None] show ?thesis by auto
    next
      case (Some c)
      then have "c \<in> set consumed" "lands_in p c" by (auto simp: find_Some_iff)
      with Some p show ?thesis by auto
    qed
  qed
qed auto

lemma conflict_checks_sound:
  assumes "check_consuming [] rs = Inr consumed" and "check_insertions consumed rs = Inr ()"
  shows "disjoint_ranges rs" and "insertions_clear rs"
proof -
  show "disjoint_ranges rs"
    using check_consuming_disjoint [OF assms(1)] by (simp add: disjoint_ranges_def)
  have "set consumed = {c. \<exists>r \<in> set rs. consuming r = Some c}"
    using check_consuming_set [OF assms(1)] by simp
  with assms(2) have "\<not> lands_in i (s, e)"
    if "RIns p a b \<in> set rs" "q \<in> set rs" "consuming q = Some (s, e)" "insertion_index p a = Some i"
    for p a b q s e i
    using that unfolding check_insertions_Inr by fastforce
  then show "insertions_clear rs" unfolding insertions_clear_def lands_in_def by auto
qed

section \<open>Boundary repair keeps the payload\<close>

lemma repair_below_split:
  "\<exists>suf. repaired = repair_below lines e repaired @ suf
     \<and> (\<forall>x \<in> set suf. e < length lines \<and> x = lines ! e \<and> net_balance x \<le> 0)
     \<and> (repaired \<noteq> [] \<longrightarrow> repair_below lines e repaired \<noteq> [])"
proof (induction lines e repaired rule: repair_below.induct)
  case (1 lines e repaired)
  let ?drop = "e < length lines \<and> last repaired = lines ! e \<and> net_balance (last repaired) \<le> 0"
  show ?case
  proof (cases "length repaired \<le> 1 \<or> \<not> ?drop")
    case True
    then have "repair_below lines e repaired = repaired" by (subst repair_below.simps) auto
    then show ?thesis by simp
  next
    case False
    then have long: "\<not> length repaired \<le> 1" and d: ?drop by blast+
    have eq: "repair_below lines e repaired = repair_below lines e (butlast repaired)"
      by (subst repair_below.simps) (rule trans [OF if_not_P [OF long] if_P [OF d]])
    from long have ne: "repaired = butlast repaired @ [last repaired]" "butlast repaired \<noteq> []"
      by (auto simp flip: length_greater_0_conv)
    from "1.IH" [OF long d] obtain suf where
      IH: "butlast repaired = repair_below lines e (butlast repaired) @ suf"
        "\<forall>x \<in> set suf. e < length lines \<and> x = lines ! e \<and> net_balance x \<le> 0"
        "repair_below lines e (butlast repaired) \<noteq> []"
      using ne(2) by auto
    have "repaired = repair_below lines e repaired @ suf @ [last repaired]"
      using ne(1) IH(1) eq by (metis append.assoc)
    moreover have "\<forall>x \<in> set (suf @ [last repaired]). e < length lines \<and> x = lines ! e \<and> net_balance x \<le> 0"
      using IH(2) d by auto
    ultimately show ?thesis using IH(3) eq by metis
  qed
qed

lemma repair_above_split:
  "\<exists>pre. repaired = pre @ repair_above lines s repaired
     \<and> (\<forall>x \<in> set pre. 2 \<le> s \<and> s - 2 < length lines \<and> x = lines ! (s - 2) \<and> 0 \<le> net_balance x)
     \<and> (repaired \<noteq> [] \<longrightarrow> repair_above lines s repaired \<noteq> [])"
proof (induction lines s repaired rule: repair_above.induct)
  case (1 lines s repaired)
  let ?drop = "2 \<le> s \<and> s - 2 < length lines \<and> hd repaired = lines ! (s - 2)
    \<and> net_balance (hd repaired) \<ge> 0"
  show ?case
  proof (cases "length repaired \<le> 1 \<or> \<not> ?drop")
    case True
    then have "repair_above lines s repaired = repaired" by (subst repair_above.simps) auto
    then show ?thesis by simp
  next
    case False
    then have long: "\<not> length repaired \<le> 1" and d: ?drop by blast+
    have eq: "repair_above lines s repaired = repair_above lines s (tl repaired)"
      by (subst repair_above.simps) (rule trans [OF if_not_P [OF long] if_P [OF d]])
    from long obtain x xs where ne: "repaired = x # xs" "xs \<noteq> []"
      by (cases repaired) auto
    from "1.IH" [OF long d] ne obtain pre where
      IH: "xs = pre @ repair_above lines s xs"
        "\<forall>x \<in> set pre. 2 \<le> s \<and> s - 2 < length lines \<and> x = lines ! (s - 2) \<and> 0 \<le> net_balance x"
        "repair_above lines s xs \<noteq> []"
      by auto
    then have "repaired = (x # pre) @ repair_above lines s repaired"
      using ne eq by simp
    moreover have "\<forall>y \<in> set (x # pre). 2 \<le> s \<and> s - 2 < length lines \<and> y = lines ! (s - 2)
        \<and> 0 \<le> net_balance y"
      using IH(2) d ne by auto
    ultimately show ?thesis using IH(3) eq ne by (metis list.sel(3))
  qed
qed

section \<open>Properties\<close>



text \<open>The order condition above is needed: deleting the last line and inserting after it, in
  this order in one patch, passes every check of \<^verbatim>\<open>apply\<close> and then panics, because the
  deletion is applied first (a stable sort keeps the order of equal primary lines) and the
  insertion index is past the end of the shortened vector.\<close>

lemma apply_panics_del_then_insert_after:
  assumes "str_lines text \<noteq> []" and "body \<noteq> []"
  shows "apply_ops text [Del (length (str_lines text)) (length (str_lines text)),
                         Ins Post (Some (length (str_lines text))) body] = Inl Panicked"
proof -
  let ?n = "length (str_lines text)"
  have n: "0 < ?n" "\<not> ?n \<le> ?n - Suc 0" using assms(1) by (cases "str_lines text"; simp)+
  have "back_to_front [RDel ?n ?n, RIns Post (Some ?n) body]
      = [RDel ?n ?n, RIns Post (Some ?n) body]"
    by (simp add: back_to_front_def)
  then show ?thesis
    using n assms(2)
    by (simp add: apply_ops_def validate_range_def overlapping_def lands_in_def vec_splice_def
        or_panic_def vec_insert_rows_panic Suc_le_eq Let_def)
qed

text \<open>Boundary repair only removes rows of the body that restate the line just above the range
  (and do not close a bracket) or just below it (and do not open one), in one block at each
  end, and never empties a body, so a \<open>SWAP\<close> never turns into a deletion.\<close>

lemma repair_boundaries_payload:
  "\<exists>pre suf. body = pre @ repair_boundaries lines s e body @ suf
     \<and> list_all (\<lambda>x. 2 \<le> s \<and> s - 2 < length lines \<and> x = lines ! (s - 2) \<and> 0 \<le> net_balance x) pre
     \<and> list_all (\<lambda>x. e < length lines \<and> x = lines ! e \<and> net_balance x \<le> 0) suf
     \<and> (repair_boundaries lines s e body = [] \<longleftrightarrow> body = [])"
proof (cases "body = []")
  case True
  then show ?thesis by (simp add: repair_boundaries_def)
next
  case False
  let ?mid = "repair_below lines e body"
  obtain suf where suf: "body = ?mid @ suf"
    "\<forall>x \<in> set suf. e < length lines \<and> x = lines ! e \<and> net_balance x \<le> 0" "?mid \<noteq> []"
    using repair_below_split [of body lines e] False by blast
  obtain pre where pre: "?mid = pre @ repair_above lines s ?mid"
    "\<forall>x \<in> set pre. 2 \<le> s \<and> s - 2 < length lines \<and> x = lines ! (s - 2) \<and> 0 \<le> net_balance x"
    "repair_above lines s ?mid \<noteq> []"
    using repair_above_split [of ?mid lines s] suf(3) by blast
  have "body = pre @ repair_boundaries lines s e body @ suf"
    using False suf(1) pre(1) by (metis append.assoc repair_boundaries_def)
  moreover have "repair_boundaries lines s e body \<noteq> []"
    using False pre(3) by (simp add: repair_boundaries_def)
  ultimately show ?thesis
    using False suf(2) pre(2) by (auto simp: list_all_iff)
qed

end
