(* ===== verification/Hashline_Hash.thy ===== *)
theory Hashline_Hash
  imports Manox_Prelude
begin

unbundle bit_operations_syntax

text \<open>
  The content tag of a file (\<^verbatim>\<open>manox-harness/src/core/hashline/hash.rs\<close>) and the raw-text
  normalization that precedes it (\<^verbatim>\<open>normalize_to_lf\<close>, \<^verbatim>\<open>detect_crlf\<close>, \<^verbatim>\<open>has_bom\<close> of
  \<^verbatim>\<open>hashline/mod.rs\<close>). The 32-bit hash itself is the crate \<^verbatim>\<open>xxhash_rust\<close>, a parameter
  \<open>xxh32\<close> of every definition that hashes.
\<close>

section \<open>Normalization before hashing\<close>

definition hash_ws :: "char list" where
  "hash_ws = [CHR '' '', CHR 0x09, CR]"

definition normalize_text :: "str \<Rightarrow> str" where
  "normalize_text text =
     (let out = concat (map (\<lambda>line. trim_end_matches hash_ws line @ [NL]) (split_on NL text))
      in if ends_with out [NL] then butlast out else out)"

text \<open>Upper-case hexadecimal, \<^verbatim>\<open>{:X}\<close>, and the zero padding of \<^verbatim>\<open>{:0>6X}\<close>.\<close>

definition hex_digit :: "nat \<Rightarrow> char" where
  "hex_digit d = (if d < 10 then char_of (48 + d) else char_of (55 + d))"

fun show_hex :: "nat \<Rightarrow> str" where
  "show_hex n = (if n < 16 then [hex_digit n] else show_hex (n div 16) @ [hex_digit (n mod 16)])"

declare show_hex.simps [simp del]

definition pad_left :: "nat \<Rightarrow> char \<Rightarrow> str \<Rightarrow> str" where
  "pad_left w c s = replicate (w - length s) c @ s"

definition TAG_LEN :: nat where
  "TAG_LEN = 6"

definition compute_tag :: "(str \<Rightarrow> 32 word) \<Rightarrow> str \<Rightarrow> str" where
  "compute_tag xxh32 text =
     (let normalized = normalize_text text;
          low24 = xxh32 normalized AND 0xffffff
      in pad_left TAG_LEN (CHR ''0'') (show_hex (unat low24)))"

definition is_upper_hex :: "char \<Rightarrow> bool" where
  "is_upper_hex c \<longleftrightarrow>
     (48 \<le> (of_char c :: nat) \<and> (of_char c :: nat) \<le> 57)
     \<or> (65 \<le> (of_char c :: nat) \<and> (of_char c :: nat) \<le> 70)"

section \<open>Raw text to line-feed text\<close>

definition BOM :: str where
  "BOM = [CHR 0xEF, CHR 0xBB, CHR 0xBF]"

fun replace_crlf :: "str \<Rightarrow> str" where
  "replace_crlf [] = []"
| "replace_crlf [c] = [c]"
| "replace_crlf (c # d # cs) =
     (if c = CR \<and> d = NL then NL # replace_crlf cs else c # replace_crlf (d # cs))"

definition replace_cr :: "str \<Rightarrow> str" where
  "replace_cr s = map (\<lambda>c. if c = CR then NL else c) s"

definition normalize_to_lf :: "str \<Rightarrow> str" where
  "normalize_to_lf raw =
     replace_cr (replace_crlf (case strip_prefix BOM raw of Some r \<Rightarrow> r | None \<Rightarrow> raw))"

definition detect_crlf :: "str \<Rightarrow> bool" where
  "detect_crlf raw = str_contains raw [CR, NL]"

definition has_bom :: "str \<Rightarrow> bool" where
  "has_bom raw = starts_with raw BOM"

section \<open>Normalization: reference form and laws\<close>

lemma concat_lines_join:
  "ls \<noteq> [] \<Longrightarrow> concat (map (\<lambda>l. f l @ [c]) ls) = join [c] (map f ls) @ [c]"
proof (induction ls)
  case (Cons l ls)
  then show ?case by (cases ls) auto
qed simp

text \<open>The pushed-and-popped text is the trimmed pieces joined by newlines.\<close>

lemma normalize_eq_join:
  "normalize_text text = join [NL] (map (trim_end_matches hash_ws) (split_on NL text))"
  by (simp add: normalize_text_def concat_lines_join ends_with_iff)

lemma trim_end_matches_subset: "set (trim_end_matches cs s) \<subseteq> set s"
  by (auto simp: trim_end_matches_def dest: set_dropWhileD)

lemma normalize_split:
  "split_on NL (normalize_text text) = map (trim_end_matches hash_ws) (split_on NL text)"
  unfolding normalize_eq_join
proof (rule split_on_join)
  fix l assume "l \<in> set (map (trim_end_matches hash_ws) (split_on NL text))"
  then obtain p where "p \<in> set (split_on NL text)" "l = trim_end_matches hash_ws p" by auto
  then show "NL \<notin> set l"
    using split_on_no_sep [of p NL "text"] trim_end_matches_subset [of hash_ws p] by auto
qed simp

lemma normalize_idem: "normalize_text (normalize_text text) = normalize_text text"
proof -
  have "normalize_text (normalize_text text)
      = join [NL] (map (trim_end_matches hash_ws) (split_on NL (normalize_text text)))"
    by (rule normalize_eq_join)
  also have "\<dots> = join [NL] (map (trim_end_matches hash_ws) (split_on NL text))"
    by (simp add: normalize_split comp_def)
  finally show ?thesis by (simp add: normalize_eq_join)
qed

lemma normalize_eq_iff:
  "normalize_text a = normalize_text b \<longleftrightarrow>
     map (trim_end_matches hash_ws) (split_on NL a) = map (trim_end_matches hash_ws) (split_on NL b)"
  by (metis normalize_eq_join normalize_split)

lemma split_on_snoc_sep: "split_on c (s @ [c]) = split_on c s @ [[]]"
proof (induction s)
  case (Cons x s)
  then show ?case by (cases "split_on c s") auto
qed simp

lemma normalize_trailing_newline: "normalize_text (text @ [NL]) = normalize_text text @ [NL]"
proof -
  have "trim_end_matches hash_ws [] = []" by (simp add: trim_end_matches_def)
  then show ?thesis
    by (simp add: normalize_eq_join split_on_snoc_sep join_append_single)
qed

text \<open>Converting the line ends to CRLF adds a carriage return to every piece but the last.\<close>

definition to_crlf :: "str \<Rightarrow> str" where
  "to_crlf s = concat (map (\<lambda>c. if c = NL then [CR, NL] else [c]) s)"

lemma split_on_to_crlf:
  "split_on NL (to_crlf s) = map (\<lambda>l. l @ [CR]) (butlast (split_on NL s)) @ [last (split_on NL s)]"
proof (induction s)
  case Nil
  then show ?case by (simp add: to_crlf_def)
next
  case (Cons x s)
  let ?ps = "split_on NL s"
  obtain p ps where ps: "?ps = p # ps" by (cases ?ps) auto
  show ?case
  proof (cases "x = NL")
    case True
    with Cons.IH show ?thesis by (simp add: to_crlf_def)
  next
    case False
    with Cons.IH ps show ?thesis by (cases ps) (auto simp: to_crlf_def)
  qed
qed

lemma normalize_to_crlf: "normalize_text (to_crlf text) = normalize_text text"
proof -
  have cr: "trim_end_matches hash_ws (l @ [CR]) = trim_end_matches hash_ws l" for l
    by (rule trim_end_matches_append) (simp add: hash_ws_def)
  have "map (trim_end_matches hash_ws) (split_on NL (to_crlf text))
      = map (trim_end_matches hash_ws) (butlast (split_on NL text))
        @ [trim_end_matches hash_ws (last (split_on NL text))]"
    by (simp add: split_on_to_crlf comp_def cr)
  also have "\<dots> = map (trim_end_matches hash_ws) (split_on NL text)"
    by (metis append_butlast_last_id list.simps(8,9) map_append split_on_nonempty)
  finally show ?thesis by (simp add: normalize_eq_iff)
qed

section \<open>The shape of a tag\<close>

lemma hex_digit_upper: "d < 16 \<Longrightarrow> is_upper_hex (hex_digit d)"
proof -
  assume "d < 16"
  then show ?thesis by (auto simp: hex_digit_def is_upper_hex_def of_char_of)
qed

lemma hex_digit_inj: "d < 16 \<Longrightarrow> e < 16 \<Longrightarrow> hex_digit d = hex_digit e \<Longrightarrow> d = e"
proof -
  assume de: "d < 16" "e < 16" and eq: "hex_digit d = hex_digit e"
  then have "(of_char (hex_digit d) :: nat) = of_char (hex_digit e)" by simp
  with de show ?thesis by (auto simp: hex_digit_def of_char_of split: if_splits)
qed

lemma show_hex_upper: "list_all is_upper_hex (show_hex n)"
proof (induction n rule: show_hex.induct)
  case (1 n)
  then show ?case by (cases "n < 16") (auto simp: show_hex.simps [of n] hex_digit_upper)
qed

lemma show_hex_length: "0 < k \<Longrightarrow> n < 16 ^ k \<Longrightarrow> length (show_hex n) \<le> k"
proof (induction k arbitrary: n)
  case (Suc k)
  show ?case
  proof (cases "n < 16")
    case True
    then show ?thesis by (simp add: show_hex.simps [of n])
  next
    case False
    with Suc.prems have "0 < k" by (cases k) auto
    moreover have "n div 16 < 16 ^ k" using Suc.prems(2) by (simp add: less_mult_imp_div_less)
    ultimately have "length (show_hex (n div 16)) \<le> k" by (rule Suc.IH)
    with False show ?thesis by (simp add: show_hex.simps [of n])
  qed
qed simp

lemma pad_show_hex_shape:
  assumes "n < 16 ^ TAG_LEN"
  shows "length (pad_left TAG_LEN (CHR ''0'') (show_hex n)) = TAG_LEN"
    and "list_all is_upper_hex (pad_left TAG_LEN (CHR ''0'') (show_hex n))"
proof -
  have "length (show_hex n) \<le> TAG_LEN"
    using assms by (intro show_hex_length) (simp_all add: TAG_LEN_def)
  then show "length (pad_left TAG_LEN (CHR ''0'') (show_hex n)) = TAG_LEN"
    by (simp add: pad_left_def)
  show "list_all is_upper_hex (pad_left TAG_LEN (CHR ''0'') (show_hex n))"
    using show_hex_upper [of n] by (auto simp: pad_left_def is_upper_hex_def list_all_iff)
qed

lemma low24_bound: "unat (h AND 0xffffff :: 32 word) < 16 ^ TAG_LEN"
proof -
  have "h AND 0xffffff = take_bit 24 h" by (simp add: take_bit_eq_mask mask_eq_exp_minus_1)
  then have "unat (h AND 0xffffff) = take_bit 24 (unat h)" by (simp add: unsigned_take_bit_eq)
  also have "\<dots> < 2 ^ 24" by (rule take_bit_nat_less_exp)
  finally show ?thesis by (simp add: TAG_LEN_def)
qed

lemma compute_tag_shape:
  "length (compute_tag xxh32 text) = TAG_LEN" "list_all is_upper_hex (compute_tag xxh32 text)"
  unfolding compute_tag_def Let_def by (rule pad_show_hex_shape low24_bound)+

lemma compute_tag_cong: "normalize_text a = normalize_text b \<Longrightarrow> compute_tag xxh32 a = compute_tag xxh32 b"
  by (simp add: compute_tag_def)

section \<open>Line-feed text\<close>

lemma replace_crlf_no_cr: "CR \<notin> set s \<Longrightarrow> replace_crlf s = s"
  by (induction s rule: replace_crlf.induct) auto

lemma replace_cr_no_cr: "CR \<notin> set (replace_cr s)"
  by (auto simp: replace_cr_def)

lemma replace_cr_id: "CR \<notin> set s \<Longrightarrow> replace_cr s = s"
  by (auto simp: replace_cr_def intro!: map_idI)

lemma normalize_to_lf_no_cr: "CR \<notin> set (normalize_to_lf raw)"
  by (simp add: normalize_to_lf_def replace_cr_no_cr)

lemma normalize_to_lf_id: "CR \<notin> set s \<Longrightarrow> \<not> has_bom s \<Longrightarrow> normalize_to_lf s = s"
  by (simp add: normalize_to_lf_def has_bom_def starts_with_def replace_crlf_no_cr replace_cr_id)

section \<open>Properties\<close>

text \<open>A tag is always six upper-case hexadecimal digits and depends on the text only up to line
  endings and trailing blanks: rewriting the text with CRLF line endings, or replacing it by its
  normalized form, leaves the tag as it is.\<close>
lemma tag_shape_and_invariance:
  "length (compute_tag xxh32 txt) = TAG_LEN \<and> list_all is_upper_hex (compute_tag xxh32 txt)
   \<and> compute_tag xxh32 (to_crlf txt) = compute_tag xxh32 txt
   \<and> compute_tag xxh32 (normalize_text txt) = compute_tag xxh32 txt"
  using compute_tag_shape compute_tag_cong [OF normalize_to_crlf] compute_tag_cong [OF normalize_idem]
  by blast

text \<open>The text hashed is determined by, and determines, the lines with their trailing blanks
  removed: two texts have the same normalized form exactly when they have the same lines up to
  trailing spaces, tabs and carriage returns. A final newline counts as one more (empty) line.\<close>
lemma normalized_texts_agree_iff_lines_do:
  "(normalize_text a = normalize_text b \<longleftrightarrow>
     map (trim_end_matches hash_ws) (split_on NL a) = map (trim_end_matches hash_ws) (split_on NL b))
   \<and> normalize_text (a @ [NL]) \<noteq> normalize_text a"
  using normalize_eq_iff normalize_trailing_newline by simp

end
