(* ===== verification/Hashline_Parser.thy ===== *)
theory Hashline_Parser
  imports Hashline_Ops Hashline_Hash
begin

text \<open>
  The hashline patch parser (\<^verbatim>\<open>manox-harness/src/core/hashline/parser.rs\<close>): a line-oriented
  state machine with a tolerance layer. The parser state \<open>pstate\<close> holds the variables of
  \<^verbatim>\<open>parse_patch\<close>; \<open>parse_line\<close> is the body of its loop. Error and warning texts are values,
  one constructor per message.
\<close>

section \<open>Errors, warnings and state\<close>

datatype warning =
    WARN_BARE_BODY | WARN_MINUS_BULLET | WARN_DIFF_OLD_ROWS | WARN_SNAPSHOT_ROWS
  | WARN_BARE_RANGE | WARN_READ_METADATA | WARN_BARE_PREFIX_STRIP | WARN_EMPTY_SWAP
  | WARN_BODYLESS_COLON | WARN_PAIR_COALESCED

datatype header_error =
    ExpectedLineNumber | LineNumberOverflow | ExpectedColon | ExpectedEndOfLine
  | RangeEndBeforeStart nat nat | UnknownPastePosition | MoveNeedsDest | UnknownInsPosition
  | UnrecognizedHeader

datatype parse_reason =
    ApplyPatchEnvelope | InvalidSectionHeader | SecondFileOp | RepeatedSnapshotRow nat
  | EmptySnapshotRow nat | BadHeader header_error | MinusRows | InsWithoutBody
  | InsBlkWithoutBody | NoSection | TwoTags str str str | TwoFileOps str

record parse_error =
  pe_line :: nat
  pe_reason :: parse_reason

record parsed_patch =
  pp_files :: "file_patch list"
  pp_warnings :: "warning list"

record body_row =
  row_text :: str
  row_line_no :: nat
  row_bare :: bool

record pending_body =
  pb_rows :: "body_row list"
  pb_deferred_blanks :: "body_row list"

record pstate =
  ps_files :: "file_patch list"
  ps_warnings :: "warning list"
  ps_pending :: "pending_body option"
  ps_recovered_lines :: "nat set"

datatype parsed_op = BodyBearer op | Bodyless op | File file_op

definition warn :: "warning list \<Rightarrow> warning \<Rightarrow> warning list" where
  "warn ws w = (if w \<in> set ws then ws else ws @ [w])"

definition is_minus :: "body_row \<Rightarrow> bool" where
  "is_minus r \<longleftrightarrow> row_bare r \<and> starts_with (trim_start (row_text r)) ''-''"

definition ELLIPSIS :: str where
  "ELLIPSIS = [CHR 0xE2, CHR 0x80, CHR 0xA6]"

section \<open>Numbers and ranges\<close>

definition parse_lid :: "str \<Rightarrow> (header_error, nat \<times> str) result" where
  "parse_lid s0 =
     (let s = (case strip_prefix '' '' s0 of Some r \<Rightarrow> r | None \<Rightarrow> s0)
      in if s = [] \<or> \<not> is_digit (hd s) \<or> hd s = CHR ''0'' then Inl ExpectedLineNumber
         else case parse_usize (takeWhile is_digit s) of
                None \<Rightarrow> Inl LineNumberOverflow
              | Some n \<Rightarrow> Inr (n, dropWhile is_digit s))"

lemma strip_ellipsis_shorter: "strip_prefix ELLIPSIS s = Some r \<Longrightarrow> length r < length s"
  by (simp add: strip_prefix_Some_iff ELLIPSIS_def)

text \<open>The separator run of \<^verbatim>\<open>parse_range\<close>: whether a separator character was seen, and the rest.\<close>

function range_sep :: "bool \<Rightarrow> str \<Rightarrow> bool \<times> str" where
  "range_sep saw s =
     (case s of
        [] \<Rightarrow> (saw, [])
      | b # bs \<Rightarrow>
          if b \<in> {CHR '' '', CHR 0x09} then range_sep saw bs
          else if b \<in> {CHR ''-'', CHR ''.'', CHR ''=''} then range_sep True bs
          else (case strip_prefix ELLIPSIS s of
                  Some r \<Rightarrow> range_sep True r
                | None \<Rightarrow> (saw, s)))"
  by pat_completeness auto
termination
  by (relation "measure (\<lambda>(saw, s). length s)") (auto dest: strip_ellipsis_shorter)

declare range_sep.simps [simp del]

definition parse_range :: "str \<Rightarrow> (header_error, nat \<times> nat \<times> str) result" where
  "parse_range s =
     try_then (parse_lid s) (\<lambda>(start, rest).
       let (saw, r) = range_sep False rest
       in if r \<noteq> [] \<and> is_digit (hd r) \<and> hd r \<noteq> CHR ''0''
          then try_then (parse_lid r) (\<lambda>(end_line, tail).
                 if end_line < start then Inl (RangeEndBeforeStart end_line start)
                 else Inr (start, end_line, tail))
          else if saw \<and> (r = [] \<or> hd r = CHR '':'') then Inr (start, start, r)
          else Inr (start, start, rest))"

definition read_uint :: "str \<Rightarrow> (nat \<times> str) option" where
  "read_uint s =
     (case parse_usize (takeWhile is_digit s) of
        None \<Rightarrow> None
      | Some n \<Rightarrow> Some (n, dropWhile is_digit s))"

definition expect_colon :: "str \<Rightarrow> (header_error, unit) result" where
  "expect_colon s = (if trim s = '':'' then Inr () else Inl ExpectedColon)"

definition expect_bodyless :: "str \<Rightarrow> (header_error, unit) result" where
  "expect_bodyless s = (let t = trim s in if t = [] \<or> t = '':'' then Inr () else Inl ExpectedEndOfLine)"

definition parse_bare_range_header :: "str \<Rightarrow> (nat \<times> nat) option" where
  "parse_bare_range_header trimmed =
     (case strip_suffix '':'' trimmed of
        None \<Rightarrow> None
      | Some t0 \<Rightarrow>
          (case read_uint (trim t0) of
             None \<Rightarrow> None
           | Some (start, r0) \<Rightarrow>
               let seps = {CHR '' '', CHR ''-'', CHR ''.'', CHR ''=''};
                   r1 = dropWhile (\<lambda>b. b \<in> seps) r0;
                   r2 = (if r1 = r0 then (case strip_prefix ELLIPSIS r0 of Some r \<Rightarrow> r | None \<Rightarrow> r0)
                         else r1)
               in if r2 = r0 then None
                  else (case read_uint r2 of
                          None \<Rightarrow> None
                        | Some (end_line, r3) \<Rightarrow>
                            if r3 \<noteq> [] \<or> end_line < start then None else Some (start, end_line))))"

definition parse_snapshot_row :: "str \<Rightarrow> (nat \<times> str) option" where
  "parse_snapshot_row trimmed =
     (case read_uint trimmed of
        None \<Rightarrow> None
      | Some (n, r) \<Rightarrow> (case strip_prefix '':'' r of None \<Rightarrow> None | Some content \<Rightarrow> Some (n, content)))"

section \<open>Headers\<close>

definition with_lid ::
  "str \<Rightarrow> (str \<Rightarrow> (header_error, unit) result) \<Rightarrow> (nat \<Rightarrow> parsed_op) \<Rightarrow> (header_error, parsed_op) result" where
  "with_lid rest expect k =
     try_then (parse_lid rest) (\<lambda>(n, tail). try_then (expect tail) (\<lambda>_. Inr (k n)))"

definition with_range ::
  "str \<Rightarrow> (str \<Rightarrow> (header_error, unit) result) \<Rightarrow> (nat \<Rightarrow> nat \<Rightarrow> parsed_op) \<Rightarrow> (header_error, parsed_op) result" where
  "with_range rest expect k =
     try_then (parse_range rest) (\<lambda>(s, e, tail). try_then (expect tail) (\<lambda>_. Inr (k s e)))"

text \<open>The four positions of \<open>PASTE.\<close> and \<open>INS.\<close>, tried in the order of the source.\<close>

definition parse_position ::
  "str \<Rightarrow> header_error \<Rightarrow> (ins_pos \<Rightarrow> nat option \<Rightarrow> parsed_op) \<Rightarrow> (header_error, parsed_op) result" where
  "parse_position rest unknown k =
     (case strip_prefix ''PRE '' rest of
        Some r \<Rightarrow> with_lid r expect_colon (\<lambda>n. k Pre (Some n))
      | None \<Rightarrow>
     (case strip_prefix ''POST '' rest of
        Some r \<Rightarrow> with_lid r expect_colon (\<lambda>n. k Post (Some n))
      | None \<Rightarrow>
     (case strip_prefix ''HEAD'' rest of
        Some r \<Rightarrow> try_then (expect_colon r) (\<lambda>_. Inr (k Head None))
      | None \<Rightarrow>
     (case strip_prefix ''TAIL'' rest of
        Some r \<Rightarrow> try_then (expect_colon r) (\<lambda>_. Inr (k Tail None))
      | None \<Rightarrow> Inl unknown))))"

definition parse_op_header :: "str \<Rightarrow> (header_error, parsed_op) result" where
  "parse_op_header line =
     (case strip_prefix ''SWAP.BLK '' line of
        Some rest \<Rightarrow> with_lid rest expect_colon (\<lambda>n. BodyBearer (SwapBlk n []))
      | None \<Rightarrow>
     (case strip_prefix ''DEL.BLK '' line of
        Some rest \<Rightarrow> with_lid rest expect_bodyless (\<lambda>n. Bodyless (DelBlk n))
      | None \<Rightarrow>
     (case strip_prefix ''INS.BLK.POST '' line of
        Some rest \<Rightarrow> with_lid rest expect_colon (\<lambda>n. BodyBearer (InsBlkPost n []))
      | None \<Rightarrow>
     (case strip_prefix ''SWAP '' line of
        Some rest \<Rightarrow> with_range rest expect_colon (\<lambda>s e. BodyBearer (Swap s e []))
      | None \<Rightarrow>
     (case strip_prefix ''DEL '' line of
        Some rest \<Rightarrow> with_range rest expect_bodyless (\<lambda>s e. Bodyless (Del s e))
      | None \<Rightarrow>
     (case strip_prefix ''CUT.BLK '' line of
        Some rest \<Rightarrow> with_lid rest expect_bodyless (\<lambda>n. Bodyless (CutBlk n))
      | None \<Rightarrow>
     (case strip_prefix ''CUT '' line of
        Some rest \<Rightarrow> with_range rest expect_bodyless (\<lambda>s e. Bodyless (Cut s e))
      | None \<Rightarrow>
     (case strip_prefix ''PASTE.'' line of
        Some rest \<Rightarrow> parse_position rest UnknownPastePosition (\<lambda>p a. Bodyless (Paste p a))
      | None \<Rightarrow>
     (if trim line = ''REM'' then Inr (File Rem)
      else
     (case strip_prefix ''MV '' line of
        Some rest \<Rightarrow>
          (let dest = trim rest in if dest = [] then Inl MoveNeedsDest else Inr (File (Move dest)))
      | None \<Rightarrow>
     (case strip_prefix ''INS.'' line of
        Some rest \<Rightarrow> parse_position rest UnknownInsPosition (\<lambda>p a. BodyBearer (Ins p a []))
      | None \<Rightarrow> Inl UnrecognizedHeader)))))))))))"

definition looks_like_op_header :: "str \<Rightarrow> bool" where
  "looks_like_op_header t \<longleftrightarrow>
     starts_with t ''SWAP '' \<or> starts_with t ''SWAP.BLK '' \<or> starts_with t ''DEL ''
     \<or> starts_with t ''DEL.BLK '' \<or> starts_with t ''CUT '' \<or> starts_with t ''CUT.BLK ''
     \<or> starts_with t ''INS.'' \<or> starts_with t ''PASTE.'' \<or> starts_with t ''MV '' \<or> t = ''REM''"

definition is_valid_tag :: "str \<Rightarrow> bool" where
  "is_valid_tag tag \<longleftrightarrow> length tag = 6 \<and> list_all is_upper_hex tag"

definition unquote_path :: "str \<Rightarrow> str" where
  "unquote_path s0 =
     (let s = trim s0
      in if (starts_with s [CHR 0x22] \<and> ends_with s [CHR 0x22] \<and> length s \<ge> 2)
            \<or> (starts_with s [CHR 0x27] \<and> ends_with s [CHR 0x27] \<and> length s \<ge> 2)
         then butlast (tl s) else s)"

definition parse_section_header :: "str \<Rightarrow> file_patch option" where
  "parse_section_header line =
     (case strip_prefix ''['' line of
        None \<Rightarrow> None
      | Some l1 \<Rightarrow>
     (case strip_suffix '']'' l1 of
        None \<Rightarrow> None
      | Some inner \<Rightarrow>
     (case rsplit_at_char (CHR ''#'') inner of
        None \<Rightarrow> None
      | Some (path_part, tag) \<Rightarrow>
          if is_valid_tag tag
          then Some \<lparr>fp_path = unquote_path path_part, fp_tag = tag, fp_ops = [], fp_file_op = None\<rparr>
          else None)))"

definition is_read_metadata :: "str \<Rightarrow> bool" where
  "is_read_metadata t \<longleftrightarrow>
     t = ''...''
     \<or> (starts_with t ''[Showing lines '' \<and> (str_contains t '' of '' \<or> ends_with t '']''))
     \<or> (starts_with t ''[read: '' \<and> str_contains t ''output truncated]'')
     \<or> (starts_with t ''[continue with '' \<and> ends_with t '']'')"

definition strip_body_prefix :: "str \<Rightarrow> str option" where
  "strip_body_prefix line = strip_prefix ''+'' line"

section \<open>Body rows\<close>

definition is_md_bullet :: "str \<Rightarrow> bool" where
  "is_md_bullet text =
     (case strip_prefix ''-'' (trim_start text) of
        None \<Rightarrow> False
      | Some r1 \<Rightarrow>
          (case strip_prefix '' '' r1 of
             None \<Rightarrow> False
           | Some r2 \<Rightarrow> r2 \<noteq> [] \<and> \<not> starts_with r2 '' ''))"

definition resolve_minus_rows ::
  "body_row list \<Rightarrow> warning list \<Rightarrow> (parse_error, body_row list \<times> warning list) result" where
  "resolve_minus_rows rows ws =
     (case find is_minus rows of
        None \<Rightarrow> Inr (rows, ws)
      | Some first_minus \<Rightarrow>
          let all_bullet = list_all (\<lambda>r. is_md_bullet (row_text r)) (filter is_minus rows);
              has_explicit = list_ex (\<lambda>r. \<not> row_bare r) rows;
              has_explicit_bullet = list_ex (\<lambda>r. \<not> row_bare r \<and> is_md_bullet (row_text r)) rows
          in if all_bullet \<and> (\<not> has_explicit \<or> has_explicit_bullet)
             then Inr (rows, warn ws WARN_MINUS_BULLET)
             else if has_explicit \<and> \<not> all_bullet
             then Inr (filter (\<lambda>r. \<not> is_minus r) rows, warn ws WARN_DIFF_OLD_ROWS)
             else Inl \<lparr>pe_line = row_line_no first_minus, pe_reason = MinusRows\<rparr>)"

text \<open>The digit-and-dot loop of \<^verbatim>\<open>is_bare_literal_value\<close>: \<open>None\<close> is its early \<^verbatim>\<open>return false\<close>.\<close>

fun literal_digits :: "bool \<Rightarrow> bool \<Rightarrow> str \<Rightarrow> bool option" where
  "literal_digits saw_digit saw_dot [] = Some saw_digit"
| "literal_digits saw_digit saw_dot (c # cs) =
     (if is_digit c then literal_digits True saw_dot cs
      else if c = CHR ''.'' then (if saw_dot then None else literal_digits saw_digit True cs)
      else None)"

definition is_bare_literal_value :: "str \<Rightarrow> bool" where
  "is_bare_literal_value text =
     (let t = trim (trim_end_matches [CHR '',''] (trim text))
      in if starts_with t [CHR 0x22] \<and> ends_with t [CHR 0x22] \<and> length t \<ge> 2 then True
         else if starts_with t [CHR 0x27] \<and> ends_with t [CHR 0x27] \<and> length t \<ge> 2 then True
         else
           let body = (case t of c # cs \<Rightarrow> if c = CHR ''-'' \<or> c = CHR ''+'' then cs else t | [] \<Rightarrow> t)
           in if body = [] then False
              else (case literal_digits False False body of Some b \<Rightarrow> b | None \<Rightarrow> False))"

definition strip_one_line_prefix :: "str \<Rightarrow> str" where
  "strip_one_line_prefix text =
     (let r1 = dropWhile (\<lambda>b. b = CHR '' '' \<or> b = CHR ''>'') text;
          r2 = dropWhile is_digit r1
      in if r2 = r1 then text
         else (case r2 of
                 c # cs \<Rightarrow> if c = CHR '':'' \<or> c = CHR ''|'' then cs else text
               | [] \<Rightarrow> text))"

text \<open>
  The first loop of \<^verbatim>\<open>strip_uniform_prefixes\<close>: \<open>None\<close> when a non-blank bare row has no prefix,
  otherwise \<open>(saw_bare, all_literal)\<close>.
\<close>

fun scan_prefixes :: "bool \<Rightarrow> bool \<Rightarrow> body_row list \<Rightarrow> (bool \<times> bool) option" where
  "scan_prefixes saw_bare all_literal [] = Some (saw_bare, all_literal)"
| "scan_prefixes saw_bare all_literal (r # rs) =
     (if \<not> row_bare r \<or> trim (row_text r) = [] then scan_prefixes saw_bare all_literal rs
      else let stripped = strip_one_line_prefix (row_text r)
           in if length stripped = length (row_text r) then None
              else scan_prefixes True (all_literal \<and> is_bare_literal_value stripped) rs)"

definition strip_uniform_prefixes ::
  "body_row list \<Rightarrow> warning list \<Rightarrow> body_row list \<times> warning list" where
  "strip_uniform_prefixes rows ws =
     (case scan_prefixes False True rows of
        None \<Rightarrow> (rows, ws)
      | Some (saw_bare, all_literal) \<Rightarrow>
          if \<not> saw_bare \<or> all_literal then (rows, ws)
          else (map (\<lambda>r. if row_bare r \<and> trim (row_text r) \<noteq> []
                         then r\<lparr>row_text := strip_one_line_prefix (row_text r)\<rparr> else r) rows,
                warn ws WARN_BARE_PREFIX_STRIP))"

section \<open>Building the sections\<close>

text \<open>\<^verbatim>\<open>files.last_mut()\<close> followed by an update: no effect without a section.\<close>

definition update_last :: "('a \<Rightarrow> 'a) \<Rightarrow> 'a list \<Rightarrow> 'a list" where
  "update_last f xs = (if xs = [] then [] else butlast xs @ [f (last xs)])"

definition push_op :: "file_patch list \<Rightarrow> op \<Rightarrow> file_patch list" where
  "push_op files p = update_last (\<lambda>sec. sec\<lparr>fp_ops := fp_ops sec @ [p]\<rparr>) files"

text \<open>The \<^verbatim>\<open>match last\<close> of \<^verbatim>\<open>flush_body\<close>: the operation with its body, and the warnings.\<close>

fun fill_body :: "op \<Rightarrow> str list \<Rightarrow> warning list \<Rightarrow> (parse_error, op \<times> warning list) result" where
  "fill_body (Swap s e b) body ws =
     (if body = [] then Inr (Del s e, warn ws WARN_EMPTY_SWAP) else Inr (Swap s e body, ws))"
| "fill_body (SwapBlk s b) body ws =
     (if body = [] then Inr (DelBlk s, warn ws WARN_EMPTY_SWAP) else Inr (SwapBlk s body, ws))"
| "fill_body (Ins p a b) body ws =
     (if body = [] then Inl \<lparr>pe_line = 0, pe_reason = InsWithoutBody\<rparr> else Inr (Ins p a body, ws))"
| "fill_body (InsBlkPost a b) body ws =
     (if body = [] then Inl \<lparr>pe_line = 0, pe_reason = InsBlkWithoutBody\<rparr>
      else Inr (InsBlkPost a body, ws))"
| "fill_body p body ws = Inr (p, ws)"

definition flush_body :: "pstate \<Rightarrow> (parse_error, pstate) result" where
  "flush_body st =
     (case ps_pending st of
        None \<Rightarrow> Inr st
      | Some pb \<Rightarrow>
          try_then (resolve_minus_rows (pb_rows pb) (ps_warnings st)) (\<lambda>(rows, ws).
            let (rows', ws') = strip_uniform_prefixes rows ws;
                body = map row_text rows';
                files = ps_files st;
                st' = st\<lparr>ps_pending := None, ps_warnings := ws'\<rparr>
            in if files = [] \<or> fp_ops (last files) = [] then Inr st'
               else try_then (fill_body (last (fp_ops (last files))) body ws') (\<lambda>(p, ws'').
                      Inr (st'\<lparr>ps_warnings := ws'',
                               ps_files := update_last (\<lambda>sec. sec\<lparr>fp_ops := butlast (fp_ops sec) @ [p]\<rparr>)
                                             files\<rparr>))))"

definition commit_blanks :: "pending_body \<Rightarrow> pending_body" where
  "commit_blanks pb =
     pb\<lparr>pb_rows := pb_rows pb @ pb_deferred_blanks pb, pb_deferred_blanks := []\<rparr>"

definition push_row :: "body_row \<Rightarrow> pending_body \<Rightarrow> pending_body" where
  "push_row r pb = pb\<lparr>pb_rows := pb_rows pb @ [r]\<rparr>"

definition fall_bare :: "str \<Rightarrow> nat \<Rightarrow> pstate \<Rightarrow> pstate" where
  "fall_bare line line_no st =
     (case ps_pending st of
        None \<Rightarrow> st
      | Some pb \<Rightarrow>
          let ws1 = (if pb_deferred_blanks pb \<noteq> [] then warn (ps_warnings st) WARN_BARE_BODY
                     else ps_warnings st);
              minus = starts_with (trim_start line) ''-'';
              row = \<lparr>row_text = line, row_line_no = line_no, row_bare = True\<rparr>;
              ws2 = (if \<not> minus then warn ws1 WARN_BARE_BODY else ws1)
          in st\<lparr>ps_pending := Some (push_row row (commit_blanks pb)), ps_warnings := ws2\<rparr>)"

text \<open>The indices \<^verbatim>\<open>coalesce_duplicate_swaps\<close> drops: a \<open>SWAP\<close> with a later \<open>SWAP\<close> of its range.\<close>

definition same_swap_range :: "nat \<Rightarrow> nat \<Rightarrow> op \<Rightarrow> bool" where
  "same_swap_range s e p = (case p of Swap s' e' b \<Rightarrow> s' = s \<and> e' = e | _ \<Rightarrow> False)"

fun keep_last_swaps :: "op list \<Rightarrow> op list" where
  "keep_last_swaps [] = []"
| "keep_last_swaps (p # ps) =
     (case p of
        Swap s e b \<Rightarrow> if list_ex (same_swap_range s e) ps then keep_last_swaps ps
                       else p # keep_last_swaps ps
      | _ \<Rightarrow> p # keep_last_swaps ps)"

definition coalesce_duplicate_swaps ::
  "file_patch list \<Rightarrow> warning list \<Rightarrow> file_patch list \<times> warning list" where
  "coalesce_duplicate_swaps files ws =
     (let files' = map (\<lambda>sec. sec\<lparr>fp_ops := keep_last_swaps (fp_ops sec)\<rparr>) files;
          coalesced = list_ex (\<lambda>sec. keep_last_swaps (fp_ops sec) \<noteq> fp_ops sec) files
      in (files', if coalesced then warn ws WARN_PAIR_COALESCED else ws))"

text \<open>Absorbing one section into the first accumulated section of the same path.\<close>

fun merge_section ::
  "file_patch list \<Rightarrow> file_patch \<Rightarrow> (parse_error, file_patch list) result" where
  "merge_section [] section = Inr [section]"
| "merge_section (f # fs) section =
     (if path_eq (fp_path f) (fp_path section)
      then if fp_tag f \<noteq> fp_tag section
           then Inl \<lparr>pe_line = 0, pe_reason = TwoTags (fp_path section) (fp_tag f) (fp_tag section)\<rparr>
           else if fp_file_op f \<noteq> None \<and> fp_file_op section \<noteq> None
           then Inl \<lparr>pe_line = 0, pe_reason = TwoFileOps (fp_path section)\<rparr>
           else Inr (f\<lparr>fp_file_op := (case fp_file_op section of Some fo \<Rightarrow> Some fo | None \<Rightarrow> fp_file_op f),
                      fp_ops := fp_ops f @ fp_ops section\<rparr> # fs)
      else try_then (merge_section fs section) (\<lambda>fs'. Inr (f # fs')))"

fun merge_sections_into ::
  "file_patch list \<Rightarrow> file_patch list \<Rightarrow> (parse_error, file_patch list) result" where
  "merge_sections_into merged [] = Inr merged"
| "merge_sections_into merged (section # rest) =
     try_then (merge_section merged section) (\<lambda>merged'. merge_sections_into merged' rest)"

definition merge_same_path_sections :: "file_patch list \<Rightarrow> (parse_error, file_patch list) result" where
  "merge_same_path_sections files = merge_sections_into [] files"

section \<open>The parser loop\<close>

definition perr :: "nat \<Rightarrow> parse_reason \<Rightarrow> (parse_error, 'a) result" where
  "perr n r = Inl \<lparr>pe_line = n, pe_reason = r\<rparr>"

text \<open>A line that is no op header: a body row, or a recovered range or snapshot row.\<close>

definition parse_other_line ::
  "nat \<Rightarrow> str \<Rightarrow> str \<Rightarrow> header_error \<Rightarrow> pstate \<Rightarrow> (parse_error, pstate) result" where
  "parse_other_line line_no line trimmed msg st =
     (case ps_pending st of
        Some pb \<Rightarrow>
          (case strip_body_prefix line of
             Some rest \<Rightarrow>
               Inr (st\<lparr>ps_pending := Some (push_row
                  \<lparr>row_text = rest, row_line_no = line_no, row_bare = False\<rparr> (commit_blanks pb))\<rparr>)
           | None \<Rightarrow>
               if \<not> looks_like_op_header trimmed then Inr (fall_bare line line_no st)
               else perr line_no (BadHeader msg))
      | None \<Rightarrow>
          (case parse_bare_range_header trimmed of
             Some (s, e) \<Rightarrow>
               try_then (flush_body st) (\<lambda>st1.
                 Inr (st1\<lparr>ps_files := push_op (ps_files st1) (Swap s e []),
                          ps_pending := Some \<lparr>pb_rows = [], pb_deferred_blanks = []\<rparr>,
                          ps_warnings := warn (ps_warnings st1) WARN_BARE_RANGE\<rparr>))
           | None \<Rightarrow>
               (case parse_snapshot_row trimmed of
                  Some (n, content) \<Rightarrow>
                    if n \<in> ps_recovered_lines st then perr line_no (RepeatedSnapshotRow n)
                    else if trim content = [] then perr line_no (EmptySnapshotRow n)
                    else try_then (flush_body (st\<lparr>ps_recovered_lines := insert n (ps_recovered_lines st)\<rparr>))
                      (\<lambda>st1. Inr (st1\<lparr>ps_files := push_op (ps_files st1) (Swap n n [content]),
                                      ps_warnings := warn (ps_warnings st1) WARN_SNAPSHOT_ROWS\<rparr>))
                | None \<Rightarrow> perr line_no (BadHeader msg))))"

definition parse_header_line ::
  "nat \<Rightarrow> str \<Rightarrow> parsed_op \<Rightarrow> pstate \<Rightarrow> (parse_error, pstate) result" where
  "parse_header_line line_no trimmed h st =
     try_then (flush_body st) (\<lambda>st1.
       case h of
         BodyBearer p \<Rightarrow>
           Inr (st1\<lparr>ps_files := push_op (ps_files st1) p,
                    ps_pending := Some \<lparr>pb_rows = [], pb_deferred_blanks = []\<rparr>\<rparr>)
       | Bodyless p \<Rightarrow>
           Inr (st1\<lparr>ps_warnings := (if ends_with trimmed '':'' then warn (ps_warnings st1) WARN_BODYLESS_COLON
                                    else ps_warnings st1),
                    ps_files := push_op (ps_files st1) p\<rparr>)
       | File fo \<Rightarrow>
           if ps_files st1 = [] then Inr st1
           else if fp_file_op (last (ps_files st1)) \<noteq> None then perr line_no SecondFileOp
           else Inr (st1\<lparr>ps_files := update_last (\<lambda>sec. sec\<lparr>fp_file_op := Some fo\<rparr>) (ps_files st1)\<rparr>))"

definition is_envelope_marker :: "str \<Rightarrow> bool" where
  "is_envelope_marker trimmed \<longleftrightarrow> trimmed = ''*** Begin Patch'' \<or> trimmed = ''*** End Patch''"

definition is_apply_patch_line :: "str \<Rightarrow> bool" where
  "is_apply_patch_line t \<longleftrightarrow>
     starts_with t ''*** Update File:'' \<or> starts_with t ''*** Add File:''
     \<or> starts_with t ''*** Delete File:'' \<or> starts_with t ''*** Move to:''"

definition parse_line :: "nat \<Rightarrow> str \<Rightarrow> pstate \<Rightarrow> (parse_error, pstate) result" where
  "parse_line line_no raw st =
     (let line = trim_end_matches [CR] raw; trimmed = trim line
      in if is_envelope_marker trimmed then Inr st
         else if is_apply_patch_line trimmed then perr line_no ApplyPatchEnvelope
         else if trimmed = []
         then Inr (case ps_pending st of
                     None \<Rightarrow> st
                   | Some pb \<Rightarrow>
                       st\<lparr>ps_pending := Some (pb\<lparr>pb_deferred_blanks := pb_deferred_blanks pb
                            @ [\<lparr>row_text = line, row_line_no = line_no, row_bare = True\<rparr>]\<rparr>)\<rparr>)
         else (case parse_section_header trimmed of
           Some sec \<Rightarrow>
             try_then (flush_body st) (\<lambda>st1.
               Inr (st1\<lparr>ps_recovered_lines := {}, ps_files := ps_files st1 @ [sec]\<rparr>))
         | None \<Rightarrow>
             if ps_pending st = None \<and> is_read_metadata trimmed
             then Inr (st\<lparr>ps_warnings := warn (ps_warnings st) WARN_READ_METADATA\<rparr>)
             else if starts_with trimmed ''['' \<and> ends_with trimmed '']''
             then perr line_no InvalidSectionHeader
             else (case parse_op_header trimmed of
                    Inr h \<Rightarrow> parse_header_line line_no trimmed h st
                  | Inl msg \<Rightarrow> parse_other_line line_no line trimmed msg st)))"

fun parse_lines :: "nat \<Rightarrow> str list \<Rightarrow> pstate \<Rightarrow> (parse_error, pstate) result" where
  "parse_lines idx [] st = Inr st"
| "parse_lines idx (raw # raws) st =
     try_then (parse_line (idx + 1) raw st) (\<lambda>st'. parse_lines (idx + 1) raws st')"

definition init_pstate :: pstate where
  "init_pstate = \<lparr>ps_files = [], ps_warnings = [], ps_pending = None, ps_recovered_lines = {}\<rparr>"

definition parse_patch :: "str \<Rightarrow> (parse_error, parsed_patch) result" where
  "parse_patch text =
     try_then (parse_lines 0 (str_lines text) init_pstate) (\<lambda>st0.
     try_then (flush_body st0) (\<lambda>st.
       let (files, ws) = coalesce_duplicate_swaps (ps_files st) (ps_warnings st)
       in if files = [] then perr 0 NoSection
          else try_then (merge_same_path_sections files) (\<lambda>files'.
                 Inr \<lparr>pp_files = files', pp_warnings = ws\<rparr>)))"

section \<open>The parser's invariant\<close>

text \<open>
  All operations are well shaped and all section tags valid at every moment; between two
  operations every body has arrived, and while a body is open only the last operation of the
  last section may lack it. Warnings are never repeated.
\<close>

definition ops_filled :: "file_patch \<Rightarrow> bool" where
  "ops_filled f \<longleftrightarrow> (\<forall>p \<in> set (fp_ops f). op_filled p)"

definition section_ok :: "file_patch \<Rightarrow> bool" where
  "section_ok f \<longleftrightarrow> is_valid_tag (fp_tag f) \<and> (\<forall>p \<in> set (fp_ops f). op_ok p)"

definition all_but_last_filled :: "file_patch list \<Rightarrow> bool" where
  "all_but_last_filled fs \<longleftrightarrow>
     (\<forall>f \<in> set (butlast fs). ops_filled f)
     \<and> (fs \<noteq> [] \<longrightarrow> (\<forall>p \<in> set (butlast (fp_ops (last fs))). op_filled p))"

definition fields_ok :: "file_patch list \<Rightarrow> warning list \<Rightarrow> bool \<Rightarrow> bool" where
  "fields_ok fs ws body_open \<longleftrightarrow>
     (\<forall>f \<in> set fs. section_ok f) \<and> distinct ws
     \<and> (if body_open then all_but_last_filled fs else (\<forall>f \<in> set fs. ops_filled f))"

definition pstate_ok :: "pstate \<Rightarrow> bool" where
  "pstate_ok st = fields_ok (ps_files st) (ps_warnings st) (ps_pending st \<noteq> None)"

lemma update_last_snoc [simp]: "update_last f (xs @ [x]) = xs @ [f x]"
  by (simp add: update_last_def)

lemma update_last_Nil [simp]: "update_last f [] = []"
  by (simp add: update_last_def)

lemma distinct_warn [simp]: "distinct ws \<Longrightarrow> distinct (warn ws w)"
  by (simp add: warn_def)

lemma resolve_minus_rows_warnings:
  "distinct ws \<Longrightarrow> resolve_minus_rows rows ws = Inr (rows', ws') \<Longrightarrow> distinct ws'"
  by (auto simp: resolve_minus_rows_def Let_def split: option.splits if_splits)

lemma strip_uniform_prefixes_warnings:
  "distinct ws \<Longrightarrow> strip_uniform_prefixes rows ws = (rows', ws') \<Longrightarrow> distinct ws'"
  by (auto simp: strip_uniform_prefixes_def split: option.splits if_splits)

lemma fill_body_ok:
  assumes "fill_body p body ws = Inr (p', ws')" and "distinct ws"
  shows "op_filled p'" and "op_ok p \<Longrightarrow> op_ok p'" and "distinct ws'"
  using assms by (cases p; auto split: if_splits)+

lemma all_but_last_filled_snoc:
  "all_but_last_filled (fs @ [f]) \<longleftrightarrow>
     (\<forall>g \<in> set fs. ops_filled g) \<and> (\<forall>p \<in> set (butlast (fp_ops f)). op_filled p)"
  by (auto simp: all_but_last_filled_def)

lemma all_but_last_filledI: "(\<forall>f \<in> set fs. ops_filled f) \<Longrightarrow> all_but_last_filled fs"
  by (auto simp: all_but_last_filled_def ops_filled_def dest!: in_set_butlastD)

lemma push_op_ok:
  assumes "\<forall>f \<in> set fs. section_ok f" and "op_ok p"
  shows "\<forall>f \<in> set (push_op fs p). section_ok f"
  using assms by (cases fs rule: rev_cases) (auto simp: push_op_def section_ok_def)

lemma push_op_filled:
  assumes "\<forall>f \<in> set fs. ops_filled f"
  shows "all_but_last_filled (push_op fs p)"
    and "op_filled p \<Longrightarrow> \<forall>f \<in> set (push_op fs p). ops_filled f"
  using assms
  by (cases fs rule: rev_cases;
      auto simp: push_op_def all_but_last_filled_def ops_filled_def)+

lemma fields_ok_push:
  assumes "fields_ok fs ws False" and "op_ok p"
  shows "fields_ok (push_op fs p) ws True" and "op_filled p \<Longrightarrow> fields_ok (push_op fs p) ws False"
  unfolding fields_ok_def
  using assms push_op_ok [of fs p] push_op_filled [of fs p] by (auto simp: fields_ok_def)

lemma fields_ok_warn [intro]: "fields_ok fs ws b \<Longrightarrow> fields_ok fs (warn ws w) b"
  by (simp add: fields_ok_def)

lemma fields_ok_section:
  "fields_ok fs ws False \<Longrightarrow> section_ok sec \<Longrightarrow> fp_ops sec = [] \<Longrightarrow> fields_ok (fs @ [sec]) ws False"
  by (auto simp: fields_ok_def ops_filled_def)

lemma fields_ok_file_op:
  "fields_ok fs ws False \<Longrightarrow>
     fields_ok (update_last (\<lambda>sec. sec\<lparr>fp_file_op := fo\<rparr>) fs) ws False"
  by (cases fs rule: rev_cases) (auto simp: fields_ok_def ops_filled_def section_ok_def)

lemma flush_body_ok:
  assumes ok: "pstate_ok st" and fl: "flush_body st = Inr st'"
  shows "fields_ok (ps_files st') (ps_warnings st') False \<and> ps_pending st' = None"
proof (cases "ps_pending st")
  case None
  with assms show ?thesis by (simp add: flush_body_def pstate_ok_def)
next
  case (Some pb)
  with fl obtain rows ws where m: "resolve_minus_rows (pb_rows pb) (ps_warnings st) = Inr (rows, ws)"
    by (auto simp: flush_body_def try_then_Inr_iff)
  obtain rows' ws' where u: "strip_uniform_prefixes rows ws = (rows', ws')" by fastforce
  have ok': "\<forall>f \<in> set (ps_files st). section_ok f" "distinct (ps_warnings st)"
    "all_but_last_filled (ps_files st)"
    using ok Some by (simp_all add: pstate_ok_def fields_ok_def)
  have dw: "distinct ws'"
    using resolve_minus_rows_warnings [OF ok'(2) m] strip_uniform_prefixes_warnings [OF _ u] by blast
  show ?thesis
  proof (cases "ps_files st = [] \<or> fp_ops (last (ps_files st)) = []")
    case True
    have "\<forall>f \<in> set (ps_files st). ops_filled f"
      using True ok'(3)
      by (cases "ps_files st" rule: rev_cases) (auto simp: all_but_last_filled_snoc ops_filled_def)
    moreover have "st' = st\<lparr>ps_pending := None, ps_warnings := ws'\<rparr>"
      using True Some m u fl by (auto simp: flush_body_def)
    ultimately show ?thesis using ok' dw by (simp add: fields_ok_def)
  next
    case False
    then obtain fs f where fs: "ps_files st = fs @ [f]" "fp_ops f \<noteq> []"
      by (cases "ps_files st" rule: rev_cases) auto
    then obtain ps p where ps: "fp_ops f = ps @ [p]" by (cases "fp_ops f" rule: rev_cases) auto
    from Some m u fl fs ps obtain p' ws'' where
      f: "fill_body p (map row_text rows') ws' = Inr (p', ws'')"
      and st': "st' = st\<lparr>ps_pending := None, ps_warnings := ws'',
                         ps_files := fs @ [f\<lparr>fp_ops := ps @ [p']\<rparr>]\<rparr>"
      by (auto simp: flush_body_def try_then_Inr_iff)
    note fill_body_ok [OF f dw]
    with st' fs ps ok' show ?thesis
      by (auto simp: fields_ok_def section_ok_def ops_filled_def all_but_last_filled_snoc)
  qed
qed

lemma option_caseE:
  assumes "(case x of None \<Rightarrow> b | Some r \<Rightarrow> f r) = y"
    and "\<And>r. x = Some r \<Longrightarrow> f r = y \<Longrightarrow> Q" and "b = y \<Longrightarrow> Q"
  shows Q
  using assms by (cases x) auto

lemma if_caseE:
  assumes "(if c then a else b) = y" and "c \<Longrightarrow> a = y \<Longrightarrow> Q" and "\<not> c \<Longrightarrow> b = y \<Longrightarrow> Q"
  shows Q
  using assms by (cases c) auto

lemma parse_lid_cases: "parse_lid s = Inr (n, r) \<Longrightarrow> n < 2 ^ 64"
  by (auto simp: parse_lid_def Let_def dest: parse_usize_bound split: if_splits option.splits)

lemma parse_range_ordered:
  assumes "parse_range s = Inr (a, b, r)"
  shows "a \<le> b"
proof -
  obtain start rest where l: "parse_lid s = Inr (start, rest)"
    using assms by (auto simp: parse_range_def try_then_Inr_iff)
  obtain saw q where "range_sep False rest = (saw, q)" by fastforce
  with l assms have "(if q \<noteq> [] \<and> is_digit (hd q) \<and> hd q \<noteq> CHR ''0''
          then try_then (parse_lid q) (\<lambda>(end_line, tail).
                 if end_line < start then Inl (RangeEndBeforeStart end_line start)
                 else Inr (start, end_line, tail))
          else if saw \<and> (q = [] \<or> hd q = CHR '':'') then Inr (start, start, q)
          else Inr (start, start, rest)) = Inr (a, b, r)"
    by (simp add: parse_range_def)
  then show ?thesis
    by (elim if_caseE) (auto simp: try_then_Inr_iff split: if_splits)
qed

lemma parse_bare_range_ordered:
  assumes "parse_bare_range_header t = Some (a, b)"
  shows "a \<le> b"
  using assms unfolding parse_bare_range_header_def Let_def split_def
  by (elim option_caseE if_caseE) auto

definition header_ok :: "parsed_op \<Rightarrow> bool" where
  "header_ok h = (case h of BodyBearer p \<Rightarrow> op_ok p | Bodyless p \<Rightarrow> op_ok p \<and> op_filled p | File fo \<Rightarrow> True)"

lemma with_lid_ok: "with_lid r x k = Inr h \<Longrightarrow> (\<And>n. header_ok (k n)) \<Longrightarrow> header_ok h"
  by (auto simp: with_lid_def try_then_Inr_iff)

lemma with_range_ok: "with_range r x k = Inr h \<Longrightarrow> (\<And>a b. a \<le> b \<Longrightarrow> header_ok (k a b)) \<Longrightarrow> header_ok h"
  by (auto simp: with_range_def try_then_Inr_iff dest: parse_range_ordered)

lemma parse_position_ok:
  "parse_position r u k = Inr h \<Longrightarrow> (\<And>p a. pos_ok p a \<Longrightarrow> header_ok (k p a)) \<Longrightarrow> header_ok h"
  by (auto simp: parse_position_def try_then_Inr_iff split: option.splits elim!: with_lid_ok)

lemma parse_op_header_ok: "parse_op_header t = Inr h \<Longrightarrow> header_ok h"
  unfolding parse_op_header_def Let_def
  by (elim option_caseE if_caseE with_lid_ok with_range_ok parse_position_ok)
    (auto simp: header_ok_def)

lemma parse_header_line_ok:
  assumes "pstate_ok st" and "header_ok h" and "parse_header_line n t h st = Inr st'"
  shows "pstate_ok st'"
proof -
  from assms(3) obtain st1 where f: "flush_body st = Inr st1"
    unfolding parse_header_line_def try_then_Inr_iff by blast
  have ok: "fields_ok (ps_files st1) (ps_warnings st1) False" "ps_pending st1 = None"
    using flush_body_ok [OF assms(1) f] by auto
  show ?thesis
    using assms(2,3) f ok
    by (cases h) (auto simp: parse_header_line_def pstate_ok_def header_ok_def perr_def
        split: if_splits intro!: fields_ok_push fields_ok_warn fields_ok_file_op)
qed

lemma parse_section_header_ok:
  "parse_section_header t = Some sec \<Longrightarrow> section_ok sec \<and> fp_ops sec = [] \<and> fp_file_op sec = None"
  by (auto simp: parse_section_header_def section_ok_def split: option.splits if_splits)

lemma parse_other_line_ok:
  assumes "pstate_ok st" and "parse_other_line n line t msg st = Inr st'"
  shows "pstate_ok st'"
proof (cases "ps_pending st")
  case (Some pb)
  with assms(1) have ok: "fields_ok (ps_files st) (ps_warnings st) True" by (simp add: pstate_ok_def)
  have "parse_other_line n line t msg st = Inr st' \<Longrightarrow>
      ps_files st' = ps_files st \<and> ps_pending st' \<noteq> None
      \<and> ps_warnings st' \<in> {ps_warnings st, warn (ps_warnings st) WARN_BARE_BODY,
          warn (warn (ps_warnings st) WARN_BARE_BODY) WARN_BARE_BODY}"
    using Some by (auto simp: parse_other_line_def fall_bare_def perr_def Let_def
        split: option.splits if_splits)
  with assms(2) ok show ?thesis by (auto simp: pstate_ok_def intro!: fields_ok_warn)
next
  case None
  then have fl: "flush_body (st\<lparr>ps_recovered_lines := R\<rparr>) = Inr (st\<lparr>ps_recovered_lines := R\<rparr>)"
    "flush_body st = Inr st" for R by (simp_all add: flush_body_def)
  have ok: "fields_ok (ps_files st) (ps_warnings st) False"
    using assms(1) None by (simp add: pstate_ok_def)
  consider (range) s e where "parse_bare_range_header t = Some (s, e)"
      "st' = st\<lparr>ps_files := push_op (ps_files st) (Swap s e []),
               ps_pending := Some \<lparr>pb_rows = [], pb_deferred_blanks = []\<rparr>,
               ps_warnings := warn (ps_warnings st) WARN_BARE_RANGE\<rparr>"
    | (row) k c R where
      "st' = st\<lparr>ps_recovered_lines := R, ps_files := push_op (ps_files st) (Swap k k [c]),
               ps_warnings := warn (ps_warnings st) WARN_SNAPSHOT_ROWS\<rparr>"
    using assms(2) None fl by (auto simp: parse_other_line_def perr_def split: option.splits if_splits)
  then show ?thesis
  proof cases
    case (range s e)
    then show ?thesis
      using fields_ok_push(1) [OF ok, of "Swap s e []"]
      by (simp add: pstate_ok_def fields_ok_warn parse_bare_range_ordered)
  next
    case (row k c R)
    then show ?thesis
      using fields_ok_push(2) [OF ok, of "Swap k k [c]"] None
      by (simp add: pstate_ok_def fields_ok_warn)
  qed
qed

lemma parse_line_ok:
  assumes "pstate_ok st" and "parse_line n raw st = Inr st'"
  shows "pstate_ok st'"
proof -
  define line where "line = trim_end_matches [CR] raw"
  define t where "t = trim line"
  have blank: "pstate_ok (case ps_pending st of
        None \<Rightarrow> st
      | Some pb \<Rightarrow> st\<lparr>ps_pending := Some (pb\<lparr>pb_deferred_blanks := pb_deferred_blanks pb
          @ [\<lparr>row_text = line, row_line_no = n, row_bare = True\<rparr>]\<rparr>)\<rparr>)"
    using assms(1) by (cases "ps_pending st") (auto simp: pstate_ok_def)
  have sect: "pstate_ok (st1\<lparr>ps_recovered_lines := {}, ps_files := ps_files st1 @ [sec]\<rparr>)"
    if "flush_body st = Inr st1" "parse_section_header t = Some sec" for st1 sec
    using flush_body_ok [OF assms(1) that(1)] parse_section_header_ok [OF that(2)]
    by (simp add: pstate_ok_def fields_ok_section)
  have wrn: "pstate_ok (st\<lparr>ps_warnings := warn (ps_warnings st) w\<rparr>)" for w
    using assms(1) by (simp add: pstate_ok_def fields_ok_warn)
  have head: "pstate_ok st'" if "(case parse_op_header t of
       Inr h \<Rightarrow> parse_header_line n t h st | Inl msg \<Rightarrow> parse_other_line n line t msg st) = Inr st'"
  proof (cases "parse_op_header t")
    case (Inl msg)
    with that show ?thesis by (auto intro: parse_other_line_ok [OF assms(1)])
  next
    case (Inr h)
    with that show ?thesis by (auto intro: parse_header_line_ok [OF assms(1) parse_op_header_ok])
  qed
  show ?thesis
    using assms(2) unfolding parse_line_def Let_def line_def [symmetric] t_def [symmetric]
  proof (elim if_caseE option_caseE, goal_cases)
    case 1
    with assms(1) show ?case by simp
  next
    case 3
    from blank show ?case unfolding 3(4) [unfolded sum.inject] .
  next
    case (4 sec)
    with sect show ?case by (auto simp: try_then_Inr_iff)
  next
    case 5
    from wrn show ?case unfolding 5(5) [unfolded sum.inject, symmetric] .
  next
    case 7
    from 7(6) show ?case by (rule head)
  qed (simp_all add: perr_def)
qed

interpretation parser_loop: loop_body "\<lambda>(n, raw). parse_line n raw" pstate_ok
  by unfold_locales (auto intro: parse_line_ok)

lemma parse_lines_try_fold:
  "parse_lines idx raws st = try_fold (\<lambda>(n, raw). parse_line n raw) (enumerate (Suc idx) raws) st"
  by (induction idx raws st rule: parse_lines.induct) (auto simp: try_then_def split: sum.splits)

lemma parse_lines_ok: "pstate_ok st \<Longrightarrow> parse_lines idx raws st = Inr st' \<Longrightarrow> pstate_ok st'"
  unfolding parse_lines_try_fold by (rule parser_loop.loop_keeps)

section \<open>Coalescing and merging\<close>

lemma keep_last_swaps_subset: "set (keep_last_swaps ps) \<subseteq> set ps"
  by (induction ps) (auto split: op.splits if_splits)

lemma keep_last_swaps_no_dup:
  "sorted_wrt (\<lambda>p q. \<forall>s e b. p = Swap s e b \<longrightarrow> \<not> same_swap_range s e q) (keep_last_swaps ps)"
proof (induction ps)
  case (Cons p ps)
  have "\<not> same_swap_range s e q" if "\<not> list_ex (same_swap_range s e) ps" "q \<in> set (keep_last_swaps ps)"
    for s e q using that keep_last_swaps_subset [of ps] by (auto simp: list_ex_iff)
  with Cons show ?case by (auto split: op.splits)
qed simp

text \<open>The last \<open>SWAP\<close> of every range survives, with its body.\<close>

lemma keep_last_swaps_keeps:
  assumes "ps = qs @ p # rs" and "\<And>s e b. p = Swap s e b \<Longrightarrow> \<not> list_ex (same_swap_range s e) rs"
  shows "p \<in> set (keep_last_swaps ps)"
  using assms
proof (induction qs arbitrary: ps)
  case Nil
  then show ?case by (cases p) auto
next
  case (Cons q qs)
  then have "p \<in> set (keep_last_swaps (qs @ p # rs))" by blast
  with Cons.prems(1) show ?case by (cases q) auto
qed

definition unrelated :: "file_patch list \<Rightarrow> bool" where
  "unrelated fs = sorted_wrt (\<lambda>f g. \<not> path_eq (fp_path f) (fp_path g)) fs"

lemma merge_section_paths:
  "merge_section fs sec = Inr fs' \<Longrightarrow> fp_path ` set fs' \<subseteq> fp_path ` set fs \<union> {fp_path sec}"
proof (induction fs sec arbitrary: fs' rule: merge_section.induct)
  case (2 f fs sec)
  show ?case
  proof (cases "path_eq (fp_path f) (fp_path sec)")
    case True
    with "2.prems" show ?thesis by (auto split: if_splits)
  next
    case False
    with "2.prems" obtain fs1 where "merge_section fs sec = Inr fs1" "fs' = f # fs1"
      by (auto simp: try_then_Inr_iff)
    with "2.IH" [OF False] show ?thesis by auto
  qed
qed auto

lemma merge_section_ok:
  assumes "merge_section fs sec = Inr fs'" and "section_ok sec" "ops_filled sec"
    and "\<forall>f \<in> set fs. section_ok f \<and> ops_filled f" and "unrelated fs"
  shows "fs' \<noteq> [] \<and> (\<forall>f \<in> set fs'. section_ok f \<and> ops_filled f) \<and> unrelated fs'"
  using assms
proof (induction fs sec arbitrary: fs' rule: merge_section.induct)
  case (1 sec)
  then show ?case by (auto simp: unrelated_def)
next
  case (2 f fs sec)
  show ?case
  proof (cases "path_eq (fp_path f) (fp_path sec)")
    case True
    with 2 show ?thesis
      by (auto simp: unrelated_def section_ok_def ops_filled_def split: if_splits)
  next
    case False
    with "2.prems"(1) obtain fs1 where r: "merge_section fs sec = Inr fs1" "fs' = f # fs1"
      by (auto simp: try_then_Inr_iff)
    with 2 False have IH: "fs1 \<noteq> [] \<and> (\<forall>f \<in> set fs1. section_ok f \<and> ops_filled f) \<and> unrelated fs1"
      by (auto simp: unrelated_def)
    have "\<not> path_eq (fp_path f) (fp_path g)" if "g \<in> set fs1" for g
    proof -
      from that merge_section_paths [OF r(1)]
      have "fp_path g \<in> fp_path ` set fs \<union> {fp_path sec}" by auto
      with "2.prems"(5) False show ?thesis by (auto simp: unrelated_def)
    qed
    with IH r "2.prems"(4) show ?thesis by (auto simp: unrelated_def)
  qed
qed

lemma merge_sections_into_ok:
  assumes "merge_sections_into m fs = Inr fs'" and "\<forall>f \<in> set m \<union> set fs. section_ok f \<and> ops_filled f"
    and "unrelated m" and "m \<noteq> [] \<or> fs \<noteq> []"
  shows "fs' \<noteq> [] \<and> (\<forall>f \<in> set fs'. section_ok f \<and> ops_filled f) \<and> unrelated fs'"
  using assms
proof (induction m fs rule: merge_sections_into.induct)
  case (2 m sec fs)
  from "2.prems"(1) obtain m' where
    r: "merge_section m sec = Inr m'" "merge_sections_into m' fs = Inr fs'"
    by (auto simp: try_then_Inr_iff)
  have ok: "m' \<noteq> [] \<and> (\<forall>f \<in> set m'. section_ok f \<and> ops_filled f) \<and> unrelated m'"
    by (rule merge_section_ok [OF r(1)]) (use "2.prems"(2,3) in auto)
  show ?case by (rule "2.IH" [OF r(2)]) (use ok "2.prems"(2) in auto)
qed auto

section \<open>Properties\<close>

text \<open>C6: Whatever text the model sends, a patch the parser accepts is well formed: it has at least
  one section, every section carries a valid 6-digit tag, every operation has ordered ranges
  and the anchor its position needs, every body-bearing operation has at least one body row,
  no two sections name the same file, and no warning is reported twice.\<close>

theorem parse_patch_well_formed:
  assumes "parse_patch text = Inr pp"
  shows "pp_files pp \<noteq> [] \<and> (\<forall>f \<in> set (pp_files pp). section_ok f \<and> ops_filled f)
     \<and> unrelated (pp_files pp) \<and> distinct (pp_warnings pp)"
proof -
  from assms obtain st0 st where l: "parse_lines 0 (str_lines text) init_pstate = Inr st0"
    and f: "flush_body st0 = Inr st"
    by (auto simp: parse_patch_def try_then_Inr_iff)
  have ok: "fields_ok (ps_files st) (ps_warnings st) False"
    using flush_body_ok [OF parse_lines_ok [OF _ l] f]
    by (auto simp: pstate_ok_def fields_ok_def init_pstate_def)
  obtain files ws where c: "coalesce_duplicate_swaps (ps_files st) (ps_warnings st) = (files, ws)"
    by fastforce
  have files: "\<forall>f \<in> set files. section_ok f \<and> ops_filled f" and ws: "distinct ws"
    using ok c keep_last_swaps_subset
    by (fastforce simp: coalesce_duplicate_swaps_def Let_def fields_ok_def section_ok_def
        ops_filled_def split: if_splits)+
  from assms l f c obtain files' where ne: "files \<noteq> []"
    and m: "merge_same_path_sections files = Inr files'"
    and pp: "pp = \<lparr>pp_files = files', pp_warnings = ws\<rparr>"
    by (auto simp: parse_patch_def try_then_Inr_iff perr_def split: if_splits)
  have "files' \<noteq> [] \<and> (\<forall>f \<in> set files'. section_ok f \<and> ops_filled f) \<and> unrelated files'"
    using m files ne unfolding merge_same_path_sections_def
    by (intro merge_sections_into_ok) (auto simp: unrelated_def)
  with pp ws show ?thesis by simp
qed

theorem parse_patch_well_formed_witness:
  "section_ok \<lparr>fp_path = ''a'', fp_tag = ''1A2B3C'', fp_ops = [Del 2 2], fp_file_op = None\<rparr>"
proof -
  have "parse_patch (''[a#1A2B3C]'' @ [NL] @ ''DEL 2'') =
      Inr \<lparr>pp_files = [\<lparr>fp_path = ''a'', fp_tag = ''1A2B3C'', fp_ops = [Del 2 2], fp_file_op = None\<rparr>],
           pp_warnings = []\<rparr>"
    by code_simp
  from parse_patch_well_formed [OF this] show ?thesis by simp
qed

end
