(* ===== verification/Hashline_Render.thy ===== *)
theory Hashline_Render
  imports Hashline_Parser
begin

text \<open>
  The strict patch grammar documented at the head of \<^verbatim>\<open>hashline/parser.rs\<close> as a printer, and
  the round trip: printing sections in that grammar and parsing the text gives the sections
  back, without a warning.
\<close>

section \<open>The documented grammar\<close>

fun render_pos :: "ins_pos \<Rightarrow> nat option \<Rightarrow> str" where
  "render_pos Pre (Some n) = ''PRE '' @ show_nat n @ '':''"
| "render_pos Post (Some n) = ''POST '' @ show_nat n @ '':''"
| "render_pos Head None = ''HEAD:''"
| "render_pos Tail None = ''TAIL:''"
| "render_pos _ _ = []"

definition render_range :: "nat \<Rightarrow> nat \<Rightarrow> str" where
  "render_range s e = show_nat s @ ''.='' @ show_nat e"

fun render_header :: "op \<Rightarrow> str" where
  "render_header (Swap s e b) = ''SWAP '' @ render_range s e @ '':''"
| "render_header (Del s e) = ''DEL '' @ render_range s e"
| "render_header (Ins p a b) = ''INS.'' @ render_pos p a"
| "render_header (SwapBlk s b) = ''SWAP.BLK '' @ show_nat s @ '':''"
| "render_header (DelBlk s) = ''DEL.BLK '' @ show_nat s"
| "render_header (InsBlkPost a b) = ''INS.BLK.POST '' @ show_nat a @ '':''"
| "render_header (Cut s e) = ''CUT '' @ render_range s e"
| "render_header (CutBlk s) = ''CUT.BLK '' @ show_nat s"
| "render_header (Paste p a) = ''PASTE.'' @ render_pos p a"

fun op_rows :: "op \<Rightarrow> str list" where
  "op_rows (Swap s e b) = b"
| "op_rows (Ins p a b) = b"
| "op_rows (SwapBlk s b) = b"
| "op_rows (InsBlkPost a b) = b"
| "op_rows _ = []"

definition render_op :: "op \<Rightarrow> str list" where
  "render_op p = render_header p # map (\<lambda>r. CHR ''+'' # r) (op_rows p)"

fun render_file_op :: "file_op option \<Rightarrow> str list" where
  "render_file_op None = []"
| "render_file_op (Some Rem) = [''REM'']"
| "render_file_op (Some (Move d)) = [''MV '' @ d]"

definition render_section_header :: "file_patch \<Rightarrow> str" where
  "render_section_header f = ''['' @ fp_path f @ ''#'' @ fp_tag f @ '']''"

definition render_section :: "file_patch \<Rightarrow> str list" where
  "render_section f =
     render_section_header f # concat (map render_op (fp_ops f)) @ render_file_op (fp_file_op f)"

definition render_patch :: "file_patch list \<Rightarrow> str" where
  "render_patch fs = join [NL] (concat (map render_section fs))"

section \<open>What can be printed\<close>

definition num_ok :: "nat \<Rightarrow> bool" where
  "num_ok n \<longleftrightarrow> 1 \<le> n \<and> n < 2 ^ 64"

fun op_nums_ok :: "op \<Rightarrow> bool" where
  "op_nums_ok (Swap s e b) = (num_ok s \<and> num_ok e)"
| "op_nums_ok (Del s e) = (num_ok s \<and> num_ok e)"
| "op_nums_ok (Ins p a b) = (\<forall>n. a = Some n \<longrightarrow> num_ok n)"
| "op_nums_ok (SwapBlk s b) = num_ok s"
| "op_nums_ok (DelBlk s) = num_ok s"
| "op_nums_ok (InsBlkPost a b) = num_ok a"
| "op_nums_ok (Cut s e) = (num_ok s \<and> num_ok e)"
| "op_nums_ok (CutBlk s) = num_ok s"
| "op_nums_ok (Paste p a) = (\<forall>n. a = Some n \<longrightarrow> num_ok n)"

definition op_printable :: "op \<Rightarrow> bool" where
  "op_printable p \<longleftrightarrow> op_ok p \<and> op_filled p \<and> op_nums_ok p \<and> (\<forall>r \<in> set (op_rows p). line_ok r)"

definition word_ok :: "str \<Rightarrow> bool" where
  "word_ok w \<longleftrightarrow> w \<noteq> [] \<and> NL \<notin> set w \<and> solid (hd w) \<and> solid (last w)"

definition file_op_printable :: "file_op option \<Rightarrow> bool" where
  "file_op_printable fo \<longleftrightarrow> (\<forall>d. fo = Some (Move d) \<longrightarrow> word_ok d)"

definition section_printable :: "file_patch \<Rightarrow> bool" where
  "section_printable f \<longleftrightarrow>
     word_ok (fp_path f) \<and> hd (fp_path f) \<noteq> CHR 0x22 \<and> hd (fp_path f) \<noteq> CHR 0x27
     \<and> is_valid_tag (fp_tag f) \<and> (\<forall>p \<in> set (fp_ops f). op_printable p)
     \<and> keep_last_swaps (fp_ops f) = fp_ops f \<and> file_op_printable (fp_file_op f)"

section \<open>Headers\<close>

lemma takeWhile_show_nat:
  assumes "t = [] \<or> \<not> is_digit (hd t)"
  shows "takeWhile is_digit (show_nat n @ t) = show_nat n" "dropWhile is_digit (show_nat n @ t) = t"
proof -
  have d: "x \<in> set (show_nat n) \<Longrightarrow> is_digit x" for x
    using show_nat_digits [of n] by (auto simp: list_all_iff)
  from assms have "takeWhile is_digit t = []" "dropWhile is_digit t = t" by (cases t; simp)+
  then show "takeWhile is_digit (show_nat n @ t) = show_nat n"
    "dropWhile is_digit (show_nat n @ t) = t"
    using takeWhile_append2 [of "show_nat n" is_digit t, OF d]
      dropWhile_append2 [of "show_nat n" is_digit t, OF d] by simp_all
qed

lemma show_nat_Cons:
  assumes "num_ok n"
  shows "\<exists>c r. show_nat n = c # r \<and> is_digit c \<and> c \<noteq> CHR ''0''"
  using assms show_nat_hd [of n] show_nat_digits [of n]
  by (cases "show_nat n") (auto simp: num_ok_def)

lemma parse_lid_show_nat:
  assumes "num_ok n" and "t = [] \<or> \<not> is_digit (hd t)"
  shows "parse_lid (show_nat n @ t) = Inr (n, t)"
proof -
  obtain c r where c: "show_nat n = c # r" "is_digit c" "c \<noteq> CHR ''0''"
    using show_nat_Cons [OF assms(1)] by blast
  have "c \<noteq> CHR '' ''" using c(2) by (auto simp: is_digit_def)
  then have "strip_prefix '' '' (show_nat n @ t) = None" using c(1) by simp
  moreover have "parse_usize (show_nat n) = Some n"
    using assms(1) by (intro parse_usize_show_nat) (simp add: num_ok_def)
  ultimately show ?thesis
    using c takeWhile_show_nat [OF assms(2), of n]
    by (simp add: parse_lid_def Let_def)
qed

lemma parse_range_render:
  assumes "num_ok s" "num_ok e" "s \<le> e" and "t = [] \<or> \<not> is_digit (hd t)"
  shows "parse_range (render_range s e @ t) = Inr (s, e, t)"
proof -
  obtain c r where c: "show_nat e = c # r" "is_digit c" "c \<noteq> CHR ''0''"
    using show_nat_Cons [OF assms(2)] by blast
  have nosep: "c \<notin> {CHR '' '', CHR 0x09}" "c \<notin> {CHR ''-'', CHR ''.'', CHR ''=''}"
    "strip_prefix ELLIPSIS (c # r @ t) = None"
    using c(2) by (auto simp: is_digit_def ELLIPSIS_def)
  have l: "parse_lid (show_nat s @ ''.='' @ show_nat e @ t) = Inr (s, ''.='' @ show_nat e @ t)"
    using assms(1) by (rule parse_lid_show_nat) (simp add: is_digit_def)
  have "range_sep True (c # r @ t) = (True, c # r @ t)"
    using nosep by (simp add: range_sep.simps [of True "c # r @ t"])
  then have "range_sep False (''.='' @ show_nat e @ t) = (True, show_nat e @ t)"
    using c(1) by (simp add: range_sep.simps [of False "CHR ''.'' # CHR ''='' # c # r @ t"]
        range_sep.simps [of True "CHR ''='' # c # r @ t"])
  moreover have "parse_lid (show_nat e @ t) = Inr (e, t)"
    using assms(2,4) by (rule parse_lid_show_nat)
  ultimately show ?thesis
    using l c assms(3) by (simp add: parse_range_def render_range_def)
qed

lemma expect_simps [simp]:
  "expect_colon '':'' = Inr ()" "expect_bodyless [] = Inr ()"
  by (simp_all add: expect_colon_def expect_bodyless_def trim_solid solid_ascii)

lemma not_digit_colon [simp]: "\<not> is_digit (CHR '':'')"
  by (simp add: is_digit_def)

lemma with_lid_show_nat:
  "num_ok n \<Longrightarrow> x [] = Inr () \<Longrightarrow> with_lid (show_nat n) x k = Inr (k n)"
  "num_ok n \<Longrightarrow> with_lid (show_nat n @ '':'') expect_colon k = Inr (k n)"
  using parse_lid_show_nat [of n "[]"] parse_lid_show_nat [of n "'':''"]
  by (simp_all add: with_lid_def)

lemma with_range_render:
  "num_ok s \<Longrightarrow> num_ok e \<Longrightarrow> s \<le> e \<Longrightarrow> x [] = Inr () \<Longrightarrow> with_range (render_range s e) x k = Inr (k s e)"
  "num_ok s \<Longrightarrow> num_ok e \<Longrightarrow> s \<le> e \<Longrightarrow> with_range (render_range s e @ '':'') expect_colon k = Inr (k s e)"
  using parse_range_render [of s e "[]"] parse_range_render [of s e "'':''"]
  by (simp_all add: with_range_def)

lemma parse_position_render:
  assumes "pos_ok p a" and "\<And>n. a = Some n \<Longrightarrow> num_ok n"
  shows "parse_position (render_pos p a) u k = Inr (k p a)"
  using assms by (cases p) (auto simp: parse_position_def with_lid_show_nat)

fun bearer :: "op \<Rightarrow> op option" where
  "bearer (Swap s e b) = Some (Swap s e [])"
| "bearer (Ins p a b) = Some (Ins p a [])"
| "bearer (SwapBlk s b) = Some (SwapBlk s [])"
| "bearer (InsBlkPost a b) = Some (InsBlkPost a [])"
| "bearer _ = None"

lemma trim_not_REM: "hd s \<noteq> CHR ''R'' \<Longrightarrow> s \<noteq> [] \<Longrightarrow> solid (hd s) \<Longrightarrow> trim s \<noteq> ''REM''"
  using trim_hd [of "hd s" "tl s"] by (cases s) auto

lemma render_pos_not_blk: "pos_ok p a \<Longrightarrow> strip_prefix ''BLK.POST '' (render_pos p a) = None"
  by (cases p; cases a) auto

lemma parse_op_header_render:
  assumes "op_ok p" and "op_nums_ok p"
  shows "parse_op_header (render_header p) =
           Inr (case bearer p of Some q \<Rightarrow> BodyBearer q | None \<Rightarrow> Bodyless p)"
  using assms
  by (cases p) (simp_all add: parse_op_header_def with_lid_show_nat with_range_render
      parse_position_render trim_not_REM solid_ascii render_pos_not_blk)

section \<open>Lines\<close>

text \<open>A printed operation header, or the line of a file operation, reaches \<^verbatim>\<open>parse_op_header\<close> as it is.\<close>

definition header_shape :: "str \<Rightarrow> bool" where
  "header_shape l \<longleftrightarrow> word_ok l \<and> hd l \<notin> {CHR ''*'', CHR ''['', CHR ''.''}"

lemma solid_not_CR: "solid c \<Longrightarrow> c \<noteq> CR"
  by (auto simp: solid_def ws_seqs_def)

lemma word_ok_trim: "word_ok w \<Longrightarrow> trim w = w" "word_ok w \<Longrightarrow> trim_end_matches [CR] w = w"
  by (auto simp: word_ok_def trim_solid trim_end_matches_keep dest: solid_not_CR)

lemma starts_with_hd: "p \<noteq> [] \<Longrightarrow> s \<noteq> [] \<Longrightarrow> hd s \<noteq> hd p \<Longrightarrow> \<not> starts_with s p"
  by (auto simp: starts_with_iff)

lemma parse_line_header_shape:
  assumes "header_shape l"
  shows "parse_line n l st = (case parse_op_header l of
           Inr h \<Rightarrow> parse_header_line n l h st | Inl msg \<Rightarrow> parse_other_line n l l msg st)"
proof -
  from assms have w: "word_ok l" "l \<noteq> []" "hd l \<noteq> CHR ''*''" "hd l \<noteq> CHR ''[''" "hd l \<noteq> CHR ''.''"
    by (auto simp: header_shape_def word_ok_def)
  have sw: "\<not> starts_with l (CHR ''*'' # q)" "\<not> starts_with l (CHR ''['' # q)" for q
    using w by (simp_all add: starts_with_hd)
  have "\<not> is_envelope_marker l" "\<not> is_apply_patch_line l" "\<not> is_read_metadata l"
    using w sw by (auto simp: is_envelope_marker_def is_apply_patch_line_def is_read_metadata_def)
  moreover have "parse_section_header l = None"
    using sw(2) [of "[]"] by (simp add: parse_section_header_def starts_with_def)
  ultimately show ?thesis
    using w sw word_ok_trim [OF w(1)] by (simp add: parse_line_def)
qed

lemma parse_line_row:
  assumes "line_ok r" and "ps_pending st = Some pb" and "pb_deferred_blanks pb = []"
  shows "parse_line n (CHR ''+'' # r) st =
     Inr (st\<lparr>ps_pending := Some (push_row \<lparr>row_text = r, row_line_no = n, row_bare = False\<rparr> pb)\<rparr>)"
proof -
  let ?l = "CHR ''+'' # r"
  have "last ?l \<noteq> CR" using assms(1) by (auto simp: line_ok_def)
  then have l: "trim_end_matches [CR] ?l = ?l" by (intro trim_end_matches_keep) auto
  obtain t where t: "trim ?l = CHR ''+'' # t" using trim_hd [of "CHR ''+''" r] by (auto simp: solid_ascii)
  have sw: "\<not> starts_with (CHR ''+'' # t) (c # q)" if "c \<noteq> CHR ''+''" for c q
    using that by (simp add: starts_with_hd)
  have "\<not> is_envelope_marker (CHR ''+'' # t)" "\<not> is_apply_patch_line (CHR ''+'' # t)"
    using sw by (auto simp: is_envelope_marker_def is_apply_patch_line_def)
  moreover have "parse_section_header (CHR ''+'' # t) = None" by (simp add: parse_section_header_def)
  moreover have "parse_op_header (CHR ''+'' # t) = Inl UnrecognizedHeader"
    by (simp add: parse_op_header_def trim_not_REM solid_ascii)
  moreover have "commit_blanks pb = pb" using assms(3) by (simp add: commit_blanks_def)
  ultimately show ?thesis
    using assms(2) l t sw
    by (simp add: parse_line_def parse_other_line_def strip_body_prefix_def)
qed

lemma parse_lines_rows:
  assumes "\<forall>r \<in> set rs. line_ok r" and "ps_pending st = Some pb" and "pb_deferred_blanks pb = []"
  shows "\<exists>rows. parse_lines k (map (\<lambda>r. CHR ''+'' # r) rs) st =
           Inr (st\<lparr>ps_pending := Some (pb\<lparr>pb_rows := pb_rows pb @ rows\<rparr>)\<rparr>)
         \<and> map row_text rows = rs \<and> (\<forall>x \<in> set rows. \<not> row_bare x)"
  using assms
proof (induction rs arbitrary: k st pb)
  case Nil
  then show ?case by (intro exI [of _ "[]"]) simp
next
  case (Cons r rs)
  let ?row = "\<lparr>row_text = r, row_line_no = k + 1, row_bare = False\<rparr>"
  let ?st = "st\<lparr>ps_pending := Some (push_row ?row pb)\<rparr>"
  have one: "parse_line (k + 1) (CHR ''+'' # r) st = Inr ?st"
    using Cons.prems by (intro parse_line_row) auto
  obtain rows where rows: "parse_lines (k + 1) (map (\<lambda>r. CHR ''+'' # r) rs) ?st =
           Inr (?st\<lparr>ps_pending := Some ((push_row ?row pb)\<lparr>pb_rows := pb_rows (push_row ?row pb) @ rows\<rparr>)\<rparr>)"
    "map row_text rows = rs" "\<forall>x \<in> set rows. \<not> row_bare x"
    using Cons.IH [of ?st "push_row ?row pb" "k + 1"] Cons.prems by (auto simp: push_row_def)
  with one show ?case
    by (intro exI [of _ "?row # rows"]) (simp add: push_row_def)
qed

text \<open>Explicit rows pass the minus-row and prefix recoveries unchanged.\<close>

lemma resolve_minus_rows_explicit:
  "\<forall>x \<in> set rows. \<not> row_bare x \<Longrightarrow> resolve_minus_rows rows ws = Inr (rows, ws)"
proof -
  assume "\<forall>x \<in> set rows. \<not> row_bare x"
  then have "find is_minus rows = None" by (auto simp: find_None_iff is_minus_def)
  then show ?thesis by (simp add: resolve_minus_rows_def)
qed

lemma strip_uniform_prefixes_explicit:
  "\<forall>x \<in> set rows. \<not> row_bare x \<Longrightarrow> strip_uniform_prefixes rows ws = (rows, ws)"
proof -
  assume "\<forall>x \<in> set rows. \<not> row_bare x"
  then have "scan_prefixes b l rows = Some (b, l)" for b l by (induction rows) auto
  then show ?thesis by (simp add: strip_uniform_prefixes_def)
qed

definition closed_state :: "file_patch list \<Rightarrow> warning list \<Rightarrow> nat set \<Rightarrow> pstate" where
  "closed_state fs ws rec =
     \<lparr>ps_files = fs, ps_warnings = ws, ps_pending = None, ps_recovered_lines = rec\<rparr>"

lemma bearer_fill: "bearer p = Some q \<Longrightarrow> op_filled p \<Longrightarrow> fill_body q (op_rows p) ws = Inr (p, ws)"
  by (cases p) auto

lemma flush_filled:
  assumes "fs \<noteq> []" and "bearer p = Some q" and "op_filled p"
    and "map row_text rows = op_rows p" and "\<forall>x \<in> set rows. \<not> row_bare x"
  shows "flush_body \<lparr>ps_files = push_op fs q, ps_warnings = ws,
           ps_pending = Some \<lparr>pb_rows = rows, pb_deferred_blanks = []\<rparr>, ps_recovered_lines = rec\<rparr>
         = Inr (closed_state (push_op fs p) ws rec)"
proof -
  from assms(1) obtain gs g where fs: "fs = gs @ [g]" by (cases fs rule: rev_cases) auto
  show ?thesis
    using assms(4,5) bearer_fill [OF assms(2,3)]
    by (simp add: flush_body_def resolve_minus_rows_explicit strip_uniform_prefixes_explicit
        fs push_op_def closed_state_def)
qed

section \<open>Operations, sections, patches\<close>

lemma closed_state_flush [simp]: "flush_body (closed_state fs ws rec) = Inr (closed_state fs ws rec)"
  by (simp add: flush_body_def closed_state_def)

lemma is_digit_not: "is_digit c \<Longrightarrow> c \<noteq> NL \<and> c \<noteq> CHR '':''"
  by (auto simp: is_digit_def)

lemma show_nat_word:
  "NL \<notin> set (show_nat n)" "solid (last (show_nat n))" "last (show_nat n) \<noteq> CHR '':''"
proof -
  have d: "c \<in> set (show_nat n) \<Longrightarrow> is_digit c" for c
    using show_nat_digits [of n] by (auto simp: list_all_iff)
  then show "NL \<notin> set (show_nat n)" using is_digit_not by blast
  have "is_digit (last (show_nat n))" using d by simp
  then show "solid (last (show_nat n))" "last (show_nat n) \<noteq> CHR '':''"
    using is_digit_solid is_digit_not by blast+
qed

lemma render_pos_word: "pos_ok p a \<Longrightarrow> NL \<notin> set (render_pos p a) \<and> render_pos p a \<noteq> [] \<and> last (render_pos p a) = CHR '':''"
  by (cases p; cases a) (auto simp: show_nat_word)

lemma header_shape_render: "op_ok p \<Longrightarrow> header_shape (render_header p)"
  using render_pos_word
  by (cases p) (auto simp: header_shape_def word_ok_def solid_ascii show_nat_word render_range_def)

definition is_paste :: "op \<Rightarrow> bool" where
  "is_paste p = (case p of Paste q a \<Rightarrow> True | _ \<Rightarrow> False)"

definition note_paste :: "warning list \<Rightarrow> op \<Rightarrow> warning list" where
  "note_paste ws p = (if is_paste p then warn ws WARN_BODYLESS_COLON else ws)"

lemma ends_with_last: "s \<noteq> [] \<Longrightarrow> ends_with s [c] \<longleftrightarrow> last s = c"
  by (auto simp: ends_with_iff) (metis append_butlast_last_id)

lemma bodyless_colon:
  "op_ok p \<Longrightarrow> bearer p = None \<Longrightarrow> ends_with (render_header p) '':'' \<longleftrightarrow> is_paste p"
  using render_pos_word
  by (cases p) (auto simp: ends_with_last is_paste_def show_nat_word render_range_def)

lemma parse_lines_append:
  "parse_lines k (xs @ ys) st = try_then (parse_lines k xs st) (\<lambda>st'. parse_lines (k + length xs) ys st')"
proof (induction xs arbitrary: k st)
  case (Cons x xs)
  then show ?case by (cases "parse_line (k + 1) x st") auto
qed simp

lemma parse_lines_op:
  assumes pr: "op_printable p" and fs: "fs \<noteq> []" and fl: "flush_body st = Inr (closed_state fs ws rec)"
  shows "\<exists>st'. parse_lines k (render_op p) st = Inr st'
           \<and> flush_body st' = Inr (closed_state (push_op fs p) (note_paste ws p) rec)"
proof -
  from pr have ok: "op_ok p" "op_filled p" "op_nums_ok p" "\<forall>r \<in> set (op_rows p). line_ok r"
    by (auto simp: op_printable_def)
  note hd_line = parse_line_header_shape [OF header_shape_render [OF ok(1)]]
    parse_op_header_render [OF ok(1,3)]
  show ?thesis
  proof (cases "bearer p")
    case None
    then have "op_rows p = []" by (cases p) auto
    then show ?thesis
      using None fl bodyless_colon [OF ok(1) None]
      by (simp add: render_op_def hd_line parse_header_line_def closed_state_def note_paste_def
          flush_body_def)
  next
    case (Some q)
    then have np: "note_paste ws p = ws" by (cases p) (auto simp: note_paste_def is_paste_def)
    let ?pb = "\<lparr>pb_rows = [], pb_deferred_blanks = []\<rparr> :: pending_body"
    let ?st = "(closed_state fs ws rec)\<lparr>ps_files := push_op fs q, ps_pending := Some ?pb\<rparr>"
    have h: "parse_line (k + 1) (render_header p) st = Inr ?st"
      using Some fl by (simp add: hd_line parse_header_line_def closed_state_def)
    obtain rows where rows: "parse_lines (k + 1) (map (\<lambda>r. CHR ''+'' # r) (op_rows p)) ?st =
        Inr (?st\<lparr>ps_pending := Some (?pb\<lparr>pb_rows := pb_rows ?pb @ rows\<rparr>)\<rparr>)"
      "map row_text rows = op_rows p" "\<forall>x \<in> set rows. \<not> row_bare x"
      using parse_lines_rows [OF ok(4), of ?st ?pb "k + 1"] by auto
    show ?thesis
      using h rows flush_filled [OF fs Some ok(2) rows(2,3)] np
      by (simp add: render_op_def closed_state_def)
  qed
qed

lemma parse_lines_ops:
  assumes "\<forall>p \<in> set ps. op_printable p" and "flush_body st = Inr (closed_state (fs @ [f]) ws rec)"
  shows "\<exists>st'. parse_lines k (concat (map render_op ps)) st = Inr st'
           \<and> flush_body st' = Inr (closed_state (fs @ [f\<lparr>fp_ops := fp_ops f @ ps\<rparr>])
                                    (foldl note_paste ws ps) rec)"
  using assms
proof (induction ps arbitrary: k st f ws)
  case (Cons p ps)
  obtain st1 where st1: "parse_lines k (render_op p) st = Inr st1"
    "flush_body st1 = Inr (closed_state (push_op (fs @ [f]) p) (note_paste ws p) rec)"
    using parse_lines_op [of p "fs @ [f]" st ws rec k] Cons.prems by auto
  then have "flush_body st1 = Inr (closed_state (fs @ [f\<lparr>fp_ops := fp_ops f @ [p]\<rparr>]) (note_paste ws p) rec)"
    by (simp add: push_op_def)
  then obtain st' where "parse_lines (k + length (render_op p)) (concat (map render_op ps)) st1 = Inr st'"
    "flush_body st' = Inr (closed_state (fs @ [f\<lparr>fp_ops := fp_ops f @ p # ps\<rparr>])
       (foldl note_paste (note_paste ws p) ps) rec)"
    using Cons.IH [of st1 "f\<lparr>fp_ops := fp_ops f @ [p]\<rparr>" "note_paste ws p" "k + length (render_op p)"]
      Cons.prems by auto
  with st1 show ?case by (simp add: parse_lines_append)
qed simp

lemma parse_line_section_header:
  assumes "section_printable f" and "flush_body st = Inr (closed_state fs ws rec)"
  shows "parse_line n (render_section_header f) st =
     Inr (closed_state (fs @ [\<lparr>fp_path = fp_path f, fp_tag = fp_tag f, fp_ops = [], fp_file_op = None\<rparr>])
            ws {})"
proof -
  let ?h = "render_section_header f"
  from assms(1) have p: "word_ok (fp_path f)" "hd (fp_path f) \<noteq> CHR 0x22" "hd (fp_path f) \<noteq> CHR 0x27"
    and tag: "is_valid_tag (fp_tag f)" by (auto simp: section_printable_def)
  from tag have hex: "\<forall>c \<in> set (fp_tag f). is_upper_hex c" by (simp add: is_valid_tag_def list_all_iff)
  then have nohash: "CHR ''#'' \<notin> set (fp_tag f)" "NL \<notin> set (fp_tag f)"
    by (auto simp: is_upper_hex_def)
  have w: "word_ok ?h"
    using p nohash by (auto simp: word_ok_def render_section_header_def solid_ascii)
  have "\<not> starts_with (fp_path f) [CHR 0x22]" "\<not> starts_with (fp_path f) [CHR 0x27]"
    using p by (auto simp: starts_with_iff)
  then have "unquote_path (fp_path f) = fp_path f"
    using word_ok_trim(1) [OF p(1)] by (simp add: unquote_path_def)
  moreover have "strip_suffix '']'' (fp_path f @ CHR ''#'' # fp_tag f @ '']'') = Some (fp_path f @ CHR ''#'' # fp_tag f)"
    by (simp add: strip_suffix_Some_iff)
  ultimately have "parse_section_header ?h =
      Some \<lparr>fp_path = fp_path f, fp_tag = fp_tag f, fp_ops = [], fp_file_op = None\<rparr>"
    using tag rsplit_at_char_app [OF nohash(1), of "fp_path f"]
    by (simp add: parse_section_header_def render_section_header_def)
  moreover have "\<not> is_envelope_marker ?h" "\<not> is_apply_patch_line ?h"
    by (auto simp: is_envelope_marker_def is_apply_patch_line_def render_section_header_def starts_with_hd)
  ultimately show ?thesis
    using w word_ok_trim [OF w] assms(2)
    by (simp add: parse_line_def word_ok_def closed_state_def)
qed

lemma file_patch_update_same:
  "fp_file_op f = None \<Longrightarrow> f\<lparr>fp_file_op := None\<rparr> = f"
  "\<lparr>fp_path = fp_path f, fp_tag = fp_tag f, fp_ops = fp_ops f, fp_file_op = fp_file_op f\<rparr> = f"
  by (cases f; simp)+

lemma parse_lines_file_op:
  assumes "file_op_printable fo" and "fp_file_op f = None"
    and "flush_body st = Inr (closed_state (fs @ [f]) ws rec)"
  shows "\<exists>st'. parse_lines k (render_file_op fo) st = Inr st'
           \<and> flush_body st' = Inr (closed_state (fs @ [f\<lparr>fp_file_op := fo\<rparr>]) ws rec)"
proof -
  have line: "\<exists>st'. parse_lines k [l] st = Inr st'
      \<and> flush_body st' = Inr (closed_state (fs @ [f\<lparr>fp_file_op := Some x\<rparr>]) ws rec)"
    if "header_shape l" "parse_op_header l = Inr (File x)" for l x
    using that assms(2,3)
    by (simp add: parse_line_header_shape parse_header_line_def closed_state_def flush_body_def)
  show ?thesis
  proof (cases fo)
    case None
    with assms(2,3) show ?thesis by (simp add: file_patch_update_same)
  next
    case (Some x)
    show ?thesis
    proof (cases x)
      case Rem
      have "parse_op_header ''REM'' = Inr (File Rem)"
        by (simp add: parse_op_header_def trim_solid solid_ascii)
      moreover have "header_shape ''REM''" by (simp add: header_shape_def word_ok_def solid_ascii)
      ultimately show ?thesis using line Some Rem by auto
    next
      case (Move d)
      with Some assms(1) have d: "word_ok d" by (simp add: file_op_printable_def)
      have "parse_op_header (''MV '' @ d) = Inr (File (Move d))"
        using d word_ok_trim(1) [OF d]
        by (simp add: parse_op_header_def trim_not_REM solid_ascii word_ok_def)
      moreover have "header_shape (''MV '' @ d)"
        using d by (auto simp: header_shape_def word_ok_def solid_ascii)
      ultimately show ?thesis using line Some Move by auto
    qed
  qed
qed

lemma parse_lines_section:
  assumes pr: "section_printable f" and fl: "flush_body st = Inr (closed_state fs ws rec)"
  shows "\<exists>st'. parse_lines k (render_section f) st = Inr st'
           \<and> flush_body st' = Inr (closed_state (fs @ [f]) (foldl note_paste ws (fp_ops f)) {})"
proof -
  let ?f0 = "\<lparr>fp_path = fp_path f, fp_tag = fp_tag f, fp_ops = [], fp_file_op = None\<rparr>"
  let ?f1 = "?f0\<lparr>fp_ops := fp_ops ?f0 @ fp_ops f\<rparr>" and ?ops = "concat (map render_op (fp_ops f))"
  let ?ws = "foldl note_paste ws (fp_ops f)"
  have 0: "parse_line (k + 1) (render_section_header f) st = Inr (closed_state (fs @ [?f0]) ws {})"
    by (rule parse_line_section_header [OF pr fl])
  obtain st1 where st1: "parse_lines (k + 1) ?ops (closed_state (fs @ [?f0]) ws {}) = Inr st1"
    "flush_body st1 = Inr (closed_state (fs @ [?f1]) ?ws {})"
    using parse_lines_ops [of "fp_ops f" "closed_state (fs @ [?f0]) ws {}" fs ?f0 ws "{}" "k + 1"] pr
    by (auto simp: section_printable_def)
  obtain st2 where "parse_lines (k + 1 + length ?ops) (render_file_op (fp_file_op f)) st1 = Inr st2"
    "flush_body st2 = Inr (closed_state (fs @ [?f1\<lparr>fp_file_op := fp_file_op f\<rparr>]) ?ws {})"
    using parse_lines_file_op [OF _ _ st1(2), of "fp_file_op f" "k + 1 + length ?ops"] pr
    by (auto simp: section_printable_def)
  with 0 st1 show ?thesis by (simp add: render_section_def parse_lines_append file_patch_update_same)
qed

lemma parse_lines_sections:
  assumes "\<forall>f \<in> set gs. section_printable f" and "flush_body st = Inr (closed_state fs ws rec)"
  shows "\<exists>st' rec'. parse_lines k (concat (map render_section gs)) st = Inr st'
           \<and> flush_body st' = Inr (closed_state (fs @ gs)
                (foldl note_paste ws (concat (map fp_ops gs))) rec')"
  using assms
proof (induction gs arbitrary: k st fs ws rec)
  case Nil
  then show ?case by auto
next
  case (Cons g gs)
  obtain st1 where st1: "parse_lines k (render_section g) st = Inr st1"
    "flush_body st1 = Inr (closed_state (fs @ [g]) (foldl note_paste ws (fp_ops g)) {})"
    using parse_lines_section [of g st fs ws rec k] Cons.prems by auto
  from Cons.IH [OF _ st1(2), of "k + length (render_section g)"] Cons.prems st1(1)
  show ?case by (auto simp: parse_lines_append)
qed

lemma merge_section_new:
  "\<forall>g \<in> set fs. \<not> path_eq (fp_path g) (fp_path f) \<Longrightarrow> merge_section fs f = Inr (fs @ [f])"
  by (induction fs) auto

lemma merge_sections_into_unrelated: "unrelated (m @ fs) \<Longrightarrow> merge_sections_into m fs = Inr (m @ fs)"
proof (induction fs arbitrary: m)
  case (Cons f fs)
  then have "merge_section m f = Inr (m @ [f])"
    by (intro merge_section_new) (auto simp: unrelated_def sorted_wrt_append)
  with Cons show ?case by simp
qed simp

lemma word_ok_line: "word_ok w \<Longrightarrow> line_ok w \<and> w \<noteq> []"
  by (auto simp: word_ok_def line_ok_def dest: solid_not_CR)

lemma render_section_lines:
  assumes "section_printable f" and "l \<in> set (render_section f)"
  shows "line_ok l \<and> l \<noteq> []"
proof -
  from assms(1) have "NL \<notin> set (fp_tag f)"
    by (auto simp: section_printable_def is_valid_tag_def list_all_iff is_upper_hex_def)
  then have "word_ok (render_section_header f)"
    using assms(1) by (auto simp: section_printable_def word_ok_def render_section_header_def solid_ascii)
  moreover have "line_ok l \<and> l \<noteq> []" if p: "p \<in> set (fp_ops f)" and l: "l \<in> set (render_op p)" for p
  proof -
    from assms(1) p have ok: "op_ok p" "\<forall>r \<in> set (op_rows p). line_ok r"
      by (auto simp: section_printable_def op_printable_def)
    have "line_ok (CHR ''+'' # r)" if "line_ok r" for r
      using that by (auto simp: line_ok_def)
    with l ok header_shape_render [OF ok(1)] show ?thesis
      by (auto simp: render_op_def header_shape_def dest: word_ok_line)
  qed
  moreover have "line_ok l \<and> l \<noteq> []" if "l \<in> set (render_file_op (fp_file_op f))"
    using that assms(1)
    by (cases "fp_file_op f" rule: render_file_op.cases)
      (auto simp: section_printable_def file_op_printable_def line_ok_def word_ok_def dest: solid_not_CR)
  ultimately show ?thesis
    using assms(2) by (auto simp: render_section_def dest: word_ok_line)
qed

lemma foldl_note_paste:
  "foldl note_paste ws ps = (if list_ex is_paste ps then warn ws WARN_BODYLESS_COLON else ws)"
  by (induction ps arbitrary: ws) (auto simp: note_paste_def warn_def)

lemma coalesce_duplicate_swaps_id:
  assumes "\<forall>f \<in> set fs. keep_last_swaps (fp_ops f) = fp_ops f"
  shows "coalesce_duplicate_swaps fs ws = (fs, ws)"
proof -
  have "f\<lparr>fp_ops := fp_ops f\<rparr> = f" for f :: file_patch by (cases f) simp
  then have "map (\<lambda>sec. sec\<lparr>fp_ops := keep_last_swaps (fp_ops sec)\<rparr>) fs = fs"
    using assms by (intro map_idI) simp
  then show ?thesis using assms by (simp add: coalesce_duplicate_swaps_def Let_def list_ex_iff)
qed

lemma render_patch_lines:
  assumes "fs \<noteq> []" and "\<forall>f \<in> set fs. section_printable f"
  shows "str_lines (render_patch fs) = concat (map render_section fs)"
proof -
  let ?ls = "concat (map render_section fs)"
  have ok: "l \<in> set ?ls \<Longrightarrow> line_ok l \<and> l \<noteq> []" for l
    using assms(2) render_section_lines by auto
  have "?ls \<noteq> []" using assms(1) by (cases fs) (auto simp: render_section_def)
  then have "last ?ls \<noteq> []" using ok [OF last_in_set] by blast
  then show ?thesis unfolding render_patch_def using ok by (intro str_lines_join) blast+
qed

text \<open>C5: A patch printed in the documented strict grammar parses back to the same sections: every
  section with its path, tag, operations (ranges, positions and body rows) and file operation.
  The only warning such a patch can raise is the one about a stray colon, and it is raised exactly
  when some section has a \<open>PASTE\<close>, whose documented header ends in a colon.\<close>
theorem parse_render_patch:
  assumes "fs \<noteq> []" and "\<forall>f \<in> set fs. section_printable f" and "unrelated fs"
  shows "parse_patch (render_patch fs) =
     Inr \<lparr>pp_files = fs,
          pp_warnings = (if \<exists>f \<in> set fs. list_ex is_paste (fp_ops f)
                         then [WARN_BODYLESS_COLON] else [])\<rparr>"
proof -
  have init: "flush_body init_pstate = Inr (closed_state [] [] {})"
    by (simp add: init_pstate_def closed_state_def flush_body_def)
  let ?ws = "foldl note_paste [] (concat (map fp_ops fs))"
  obtain st rec where "parse_lines 0 (str_lines (render_patch fs)) init_pstate = Inr st"
    and "flush_body st = Inr (closed_state fs ?ws rec)"
    using parse_lines_sections [OF assms(2) init, of 0] render_patch_lines [OF assms(1,2)] by auto
  moreover have "coalesce_duplicate_swaps fs ?ws = (fs, ?ws)"
    using assms(2) by (intro coalesce_duplicate_swaps_id) (simp add: section_printable_def)
  moreover have "merge_same_path_sections fs = Inr fs"
    using merge_sections_into_unrelated [of "[]" fs] assms(3) by (simp add: merge_same_path_sections_def)
  moreover have "?ws = (if \<exists>f \<in> set fs. list_ex is_paste (fp_ops f) then [WARN_BODYLESS_COLON] else [])"
    by (auto simp: foldl_note_paste warn_def list_ex_iff)
  ultimately show ?thesis
    using assms(1) by (simp add: parse_patch_def closed_state_def)
qed

theorem parse_render_patch_witness:
  "parse_patch (render_patch
      [\<lparr>fp_path = ''a.rs'', fp_tag = ''1A2B3C'', fp_ops = [Swap 2 3 [''x'', '' y''], Paste Post (Some 9)],
        fp_file_op = Some (Move ''b.rs'')\<rparr>]) =
   Inr \<lparr>pp_files = [\<lparr>fp_path = ''a.rs'', fp_tag = ''1A2B3C'',
                        fp_ops = [Swap 2 3 [''x'', '' y''], Paste Post (Some 9)],
                        fp_file_op = Some (Move ''b.rs'')\<rparr>],
        pp_warnings = [WARN_BODYLESS_COLON]\<rparr>"
proof -
  let ?f = "\<lparr>fp_path = ''a.rs'', fp_tag = ''1A2B3C'', fp_ops = [Swap 2 3 [''x'', '' y''], Paste Post (Some 9)],
        fp_file_op = Some (Move ''b.rs'')\<rparr>"
  have "section_printable ?f"
    by (simp add: section_printable_def word_ok_def solid_ascii is_valid_tag_def TAG_LEN_def
        is_upper_hex_def op_printable_def num_ok_def line_ok_def file_op_printable_def
        same_swap_range_def)
  then show ?thesis
    using parse_render_patch [of "[?f]"] by (simp add: unrelated_def is_paste_def)
qed

end
