(* ===== verification/Hashline_Snapshot.thy ===== *)
theory Hashline_Snapshot
  imports Hashline_Hash "HOL-Library.AList"
begin

text \<open>
  The snapshot store (\<^verbatim>\<open>manox-harness/src/core/hashline/snapshot.rs\<close>): per-path version histories
  under a least-recently-used bound on paths, a byte bound on retained text, and the optional disk
  tier. A \<open>PathBuf\<close> is its component sequence, which is what its equality and hash see. A
  \<open>HashMap\<close> is an association list with distinct keys; its order stands for the unspecified
  iteration order. What the store reads of its surroundings is an \<open>env\<close>: \<open>realpath\<close> of the file
  system, the clock, which file-system calls fail, and the 32-bit hash. The directories under the
  disk roots are part of the state.
\<close>

section \<open>Paths\<close>

type_synonym path = components

definition path_parent :: "path \<Rightarrow> path option" where
  "path_parent p = (if snd p = [] then None else Some (fst p, butlast (snd p)))"

definition file_name :: "path \<Rightarrow> str option" where
  "file_name p = (if snd p = [] \<or> last (snd p) \<in> {''.'', ''..''} then None else Some (last (snd p)))"

definition path_join :: "path \<Rightarrow> path \<Rightarrow> path" where
  "path_join p q =
     (if fst q \<or> p = (False, []) then q else (fst p, snd p @ filter (\<lambda>c. c \<noteq> ''.'') (snd q)))"

definition path_string :: "path \<Rightarrow> str" where
  "path_string p = (if fst p then ''/'' else []) @ join ''/'' (snd p)"

section \<open>State and surroundings\<close>

datatype fs_call =
    CreateDir str | WriteTmp str str | RenameTmp str str | ListDir str | StatFile str str
  | RemoveFile str str | ReadFile str str | ListRoot | StatDir str | RemoveDir str

record env =
  en_realpath :: "path \<Rightarrow> path option"
  en_now :: int
  en_fault :: "fs_call \<Rightarrow> bool"
  en_xxh32 :: "str \<Rightarrow> 32 word"

record snapshot =
  sn_path :: path
  sn_text :: str
  sn_tag :: str
  sn_recorded_at :: int
  sn_seen_lines :: "nat set option"

record dfile =
  df_text :: str
  df_mtime :: int

record ddir =
  dd_files :: "(str \<times> dfile) list"
  dd_mtime :: int

type_synonym disk = "(str \<times> ddir) list"

record store =
  ss_by_path :: "(path \<times> snapshot list) list"
  ss_path_order :: "path list"
  ss_total_bytes :: nat
  ss_disk :: "path option"
  ss_fs :: "path \<Rightarrow> disk"

definition MAX_VERSIONS_PER_PATH :: nat where
  "MAX_VERSIONS_PER_PATH = 4"

definition MAX_PATHS :: nat where
  "MAX_PATHS = 256"

definition MAX_TOTAL_BYTES :: nat where
  "MAX_TOTAL_BYTES = 64 * 1024 * 1024"

definition MAX_DISK_PATHS :: nat where
  "MAX_DISK_PATHS = 256"

definition canonical :: "env \<Rightarrow> path \<Rightarrow> path" where
  "canonical env p =
     (case en_realpath env p of
        Some c \<Rightarrow> c
      | None \<Rightarrow>
          (case path_parent p of
             None \<Rightarrow> p
           | Some parent \<Rightarrow>
               (case (en_realpath env parent, file_name p) of
                  (Some cp, Some name) \<Rightarrow> path_join cp (False, [name])
                | _ \<Rightarrow> p)))"

section \<open>The disk tier\<close>

definition fnv_step :: "64 word \<Rightarrow> char \<Rightarrow> 64 word" where
  "fnv_step hash byte = (hash XOR of_nat (of_char byte)) * 0x100000001b3"

definition lower_hex :: "str \<Rightarrow> str" where
  "lower_hex s = map (\<lambda>c. if (of_char c :: nat) \<ge> 65 then char_of ((of_char c :: nat) + 32) else c) s"

definition disk_key :: "path \<Rightarrow> str" where
  "disk_key p =
     (let hash = foldl fnv_step 0xcbf29ce484222325 (path_string p)
      in pad_left 16 (CHR ''0'') (lower_hex (show_hex (unat hash))))"

definition disk_dir :: "store \<Rightarrow> path \<Rightarrow> (path \<times> str) option" where
  "disk_dir st p = map_option (\<lambda>root. (root, disk_key p)) (ss_disk st)"

definition set_disk :: "path \<Rightarrow> disk \<Rightarrow> store \<Rightarrow> store" where
  "set_disk root d st = st\<lparr>ss_fs := (ss_fs st)(root := d)\<rparr>"

definition is_hexdigit :: "char \<Rightarrow> bool" where
  "is_hexdigit c \<longleftrightarrow>
     is_upper_hex c \<or> (97 \<le> (of_char c :: nat) \<and> (of_char c :: nat) \<le> 102)"

text \<open>Dropping the oldest mirrored versions of one directory.\<close>

definition prune_files :: "env \<Rightarrow> str \<Rightarrow> (str \<times> dfile) list \<Rightarrow> (str \<times> dfile) list" where
  "prune_files env key entries =
     (let files = filter (\<lambda>(n, f). list_all is_hexdigit n \<and> \<not> en_fault env (StatFile key n)) entries;
          excess = length files - MAX_VERSIONS_PER_PATH;
          dropped = filter (\<lambda>n. \<not> en_fault env (RemoveFile key n))
                      (map fst (take excess (sort_key (\<lambda>(n, f). df_mtime f) files)))
      in if en_fault env (ListDir key) then entries
         else filter (\<lambda>(n, f). n \<notin> set dropped) entries)"

definition disk_gc :: "env \<Rightarrow> disk \<Rightarrow> disk" where
  "disk_gc env d =
     (if en_fault env ListRoot then d
      else
        let dirs = filter (\<lambda>(k, v). \<not> en_fault env (StatDir k)) d;
            dropped = filter (\<lambda>k. \<not> en_fault env (RemoveDir k))
                        (map fst (take (length dirs - MAX_DISK_PATHS) (sort_key (\<lambda>(k, v). dd_mtime v) dirs)))
        in filter (\<lambda>(k, v). k \<notin> set dropped) d)"

definition disk_write :: "env \<Rightarrow> path \<Rightarrow> snapshot \<Rightarrow> store \<Rightarrow> store" where
  "disk_write env p snap st =
     (case disk_dir st p of
        None \<Rightarrow> st
      | Some (root, key) \<Rightarrow>
          let d = ss_fs st root; is_new_dir = (map_of d key = None) in
          if en_fault env (CreateDir key) then st
          else
            let files = (case map_of d key of None \<Rightarrow> [] | Some dir \<Rightarrow> dd_files dir) in
            if en_fault env (WriteTmp key (sn_tag snap))
            then (if is_new_dir
                  then set_disk root (AList.update key \<lparr>dd_files = [], dd_mtime = en_now env\<rparr> d) st
                  else st)
            else
              let name = (if en_fault env (RenameTmp key (sn_tag snap))
                          then sn_tag snap @ ''.tmp'' else sn_tag snap);
                  written = AList.update name \<lparr>df_text = sn_text snap, df_mtime = en_now env\<rparr> files;
                  dir = \<lparr>dd_files = prune_files env key written, dd_mtime = en_now env\<rparr>;
                  d' = AList.update key dir d
              in set_disk root (if is_new_dir then disk_gc env d' else d') st)"

definition disk_remove :: "env \<Rightarrow> path \<Rightarrow> store \<Rightarrow> store" where
  "disk_remove env p st =
     (case disk_dir st p of
        None \<Rightarrow> st
      | Some (root, key) \<Rightarrow>
          if en_fault env (RemoveDir key) then st
          else set_disk root (AList.delete key (ss_fs st root)) st)"

section \<open>Histories\<close>

definition put :: "'k \<Rightarrow> 'v \<Rightarrow> ('k \<times> 'v) list \<Rightarrow> ('k \<times> 'v) list" where
  "put k v al = AList.delete k al @ [(k, v)]"

definition versions :: "store \<Rightarrow> path \<Rightarrow> snapshot list" where
  "versions st p = (case map_of (ss_by_path st) p of None \<Rightarrow> [] | Some vs \<Rightarrow> vs)"

definition store_new :: store where
  "store_new = \<lparr>ss_by_path = [], ss_path_order = [], ss_total_bytes = 0, ss_disk = None,
                ss_fs = (\<lambda>_. [])\<rparr>"

definition with_disk :: "(path \<Rightarrow> disk) \<Rightarrow> path \<Rightarrow> store" where
  "with_disk fs root = \<lparr>ss_by_path = [], ss_path_order = [], ss_total_bytes = 0, ss_disk = Some root,
                        ss_fs = fs\<rparr>"

definition enable_disk :: "path \<Rightarrow> store \<Rightarrow> store" where
  "enable_disk root st = st\<lparr>ss_disk := Some root\<rparr>"

definition has_disk :: "store \<Rightarrow> bool" where
  "has_disk st \<longleftrightarrow> ss_disk st \<noteq> None"

definition invalidate :: "env \<Rightarrow> path \<Rightarrow> store \<Rightarrow> store" where
  "invalidate env path st =
     (let p = canonical env path;
          bytes = foldl (\<lambda>n v. n - length (sn_text v)) (ss_total_bytes st) (versions st p)
      in disk_remove env p
           (st\<lparr>ss_by_path := AList.delete p (ss_by_path st), ss_total_bytes := bytes,
               ss_path_order := filter (\<lambda>q. q \<noteq> p) (ss_path_order st)\<rparr>))"

definition store_clear :: "store \<Rightarrow> store" where
  "store_clear st = st\<lparr>ss_by_path := [], ss_path_order := [], ss_total_bytes := 0\<rparr>"

text \<open>Both eviction loops drop the head of the recency order.\<close>

definition evict_oldest :: "env \<Rightarrow> store \<Rightarrow> store" where
  "evict_oldest env st =
     (case ss_path_order st of
        [] \<Rightarrow> st
      | evicted # rest \<Rightarrow> invalidate env evicted (st\<lparr>ss_path_order := rest\<rparr>))"

lemma invalidate_order:
  "ss_path_order (invalidate env p st) = filter (\<lambda>q. q \<noteq> canonical env p) (ss_path_order st)"
  by (simp add: invalidate_def disk_remove_def set_disk_def Let_def split: option.split)

lemma evict_oldest_shorter:
  "ss_path_order st \<noteq> [] \<Longrightarrow> length (ss_path_order (evict_oldest env st)) < length (ss_path_order st)"
  by (cases "ss_path_order st") (auto simp: evict_oldest_def invalidate_order less_Suc_eq_le)

function touch_loop :: "env \<Rightarrow> store \<Rightarrow> store" where
  "touch_loop env st =
     (if length (ss_path_order st) > MAX_PATHS then touch_loop env (evict_oldest env st) else st)"
  by pat_completeness auto

termination
  by (relation "measure (\<lambda>(env, st). length (ss_path_order st))") (auto intro!: evict_oldest_shorter)

definition touch_path :: "env \<Rightarrow> path \<Rightarrow> store \<Rightarrow> store" where
  "touch_path env p st =
     touch_loop env (st\<lparr>ss_path_order := filter (\<lambda>q. q \<noteq> p) (ss_path_order st) @ [p]\<rparr>)"

function evict_if_over_limit :: "env \<Rightarrow> store \<Rightarrow> store" where
  "evict_if_over_limit env st =
     (if ss_total_bytes st > MAX_TOTAL_BYTES \<and> ss_path_order st \<noteq> []
      then evict_if_over_limit env (evict_oldest env st) else st)"
  by pat_completeness auto

termination
  by (relation "measure (\<lambda>(env, st). length (ss_path_order st))") (auto intro!: evict_oldest_shorter)

declare touch_loop.simps [simp del] evict_if_over_limit.simps [simp del]

text \<open>The per-path cap drops the oldest version.\<close>

definition cap_versions :: "nat \<Rightarrow> snapshot list \<Rightarrow> snapshot list \<times> nat" where
  "cap_versions bytes vs =
     (if length vs > MAX_VERSIONS_PER_PATH
      then (tl vs, bytes - length (sn_text (hd vs))) else (vs, bytes))"

definition store_record :: "env \<Rightarrow> path \<Rightarrow> str \<Rightarrow> store \<Rightarrow> snapshot \<times> store" where
  "store_record env path0 text st =
     (let path = canonical env path0;
          tag = compute_tag (en_xxh32 env) text;
          vs = versions st path
      in case find (\<lambda>s. sn_tag s = tag \<and> sn_text s = text) vs of
           Some existing \<Rightarrow>
             let snap = existing\<lparr>sn_recorded_at := en_now env\<rparr>;
                 vs' = filter (\<lambda>s. sn_tag s \<noteq> tag \<or> sn_text s \<noteq> text) vs @ [snap]
             in (snap, disk_write env path snap
                         (touch_path env path (st\<lparr>ss_by_path := put path vs' (ss_by_path st)\<rparr>)))
         | None \<Rightarrow>
             let snap = \<lparr>sn_path = path, sn_text = text, sn_tag = tag, sn_recorded_at = en_now env,
                         sn_seen_lines = None\<rparr>;
                 (vs', bytes) = cap_versions (ss_total_bytes st + length text) (vs @ [snap])
             in (snap, disk_write env path snap
                         (evict_if_over_limit env
                           (touch_path env path
                             (st\<lparr>ss_by_path := put path vs' (ss_by_path st), ss_total_bytes := bytes\<rparr>)))))"

definition disk_hydrate :: "env \<Rightarrow> path \<Rightarrow> str \<Rightarrow> store \<Rightarrow> snapshot option \<times> store" where
  "disk_hydrate env path tag st =
     (case disk_dir st path of
        None \<Rightarrow> (None, st)
      | Some (root, key) \<Rightarrow>
          (case Option.bind (map_of (ss_fs st root) key) (\<lambda>dir. map_of (dd_files dir) tag) of
             None \<Rightarrow> (None, st)
           | Some file \<Rightarrow>
               if en_fault env (ReadFile key tag) then (None, st)
               else
                 let normalized = normalize_to_lf (df_text file) in
                 if compute_tag (en_xxh32 env) normalized \<noteq> tag then (None, st)
                 else
                   let snap = \<lparr>sn_path = path, sn_text = normalized, sn_tag = tag,
                               sn_recorded_at = en_now env, sn_seen_lines = None\<rparr>;
                       vs = filter (\<lambda>s. sn_tag s \<noteq> tag) (versions st path) @ [snap];
                       (vs', bytes) = cap_versions (ss_total_bytes st) vs
                   in (Some snap,
                       touch_path env path
                         (st\<lparr>ss_by_path := put path vs' (ss_by_path st),
                             ss_total_bytes := bytes + length normalized\<rparr>))))"

definition store_get :: "env \<Rightarrow> path \<Rightarrow> str \<Rightarrow> store \<Rightarrow> snapshot option \<times> store" where
  "store_get env path0 tag st =
     (let path = canonical env path0 in
      if list_ex (\<lambda>s. sn_tag s = tag) (versions st path)
      then (find (\<lambda>s. sn_tag s = tag) (versions st path), st)
      else case disk_hydrate env path tag st of
             (None, st') \<Rightarrow> (None, st')
           | (Some _, st') \<Rightarrow> (find (\<lambda>s. sn_tag s = tag) (versions st' path), st'))"

definition store_head :: "env \<Rightarrow> path \<Rightarrow> store \<Rightarrow> snapshot option" where
  "store_head env path st =
     (case versions st (canonical env path) of [] \<Rightarrow> None | vs \<Rightarrow> Some (last vs))"

definition by_content :: "env \<Rightarrow> path \<Rightarrow> str \<Rightarrow> store \<Rightarrow> snapshot option" where
  "by_content env path full_text st =
     find (\<lambda>s. sn_text s = full_text) (versions st (canonical env path))"

definition find_by_hash :: "str \<Rightarrow> store \<Rightarrow> snapshot list" where
  "find_by_hash hash st =
     concat (map (\<lambda>(p, vs). filter (\<lambda>v. sn_tag v = hash) vs) (ss_by_path st))"

definition paths_of_tag :: "str \<Rightarrow> store \<Rightarrow> path list" where
  "paths_of_tag hash st =
     map fst (filter (\<lambda>(p, vs). list_ex (\<lambda>v. sn_tag v = hash) vs) (ss_by_path st))"

text \<open>\<^verbatim>\<open>get_mut\<close> hands out the first version of a tag; the caller's change is the argument \<open>f\<close>.\<close>

fun update_first :: "('a \<Rightarrow> bool) \<Rightarrow> ('a \<Rightarrow> 'a) \<Rightarrow> 'a list \<Rightarrow> 'a list" where
  "update_first P f [] = []"
| "update_first P f (x # xs) = (if P x then f x # xs else x # update_first P f xs)"

definition get_mut :: "env \<Rightarrow> path \<Rightarrow> str \<Rightarrow> (snapshot \<Rightarrow> snapshot) \<Rightarrow> store \<Rightarrow> store" where
  "get_mut env path tag f st =
     (let p = canonical env path in
      st\<lparr>ss_by_path := map (\<lambda>(q, vs). (q, if q = p then update_first (\<lambda>s. sn_tag s = tag) f vs else vs))
                          (ss_by_path st)\<rparr>)"

definition merge_seen :: "nat set \<Rightarrow> snapshot \<Rightarrow> snapshot" where
  "merge_seen lines s =
     s\<lparr>sn_seen_lines := Some (case sn_seen_lines s of Some seen \<Rightarrow> seen \<union> lines | None \<Rightarrow> lines)\<rparr>"

definition record_seen_lines :: "env \<Rightarrow> path \<Rightarrow> str \<Rightarrow> nat set \<Rightarrow> store \<Rightarrow> store" where
  "record_seen_lines env path tag lines st = get_mut env path tag (merge_seen lines) st"

text \<open>\<^verbatim>\<open>relocate\<close>: the merge keeps the first version of every \<open>(tag, text)\<close> key.\<close>

definition snap_key :: "snapshot \<Rightarrow> str \<times> str" where
  "snap_key s = (sn_tag s, sn_text s)"

fun dedup_versions :: "(str \<times> str) set \<Rightarrow> snapshot list \<Rightarrow> snapshot list" where
  "dedup_versions seen [] = []"
| "dedup_versions seen (v # vs) =
     (if snap_key v \<in> seen then dedup_versions seen vs
      else v # dedup_versions (insert (snap_key v) seen) vs)"

definition relocate :: "env \<Rightarrow> path \<Rightarrow> path \<Rightarrow> store \<Rightarrow> store" where
  "relocate env from0 to0 st =
     (let from = canonical env from0; to = canonical env to0 in
      case map_of (ss_by_path st) from of
        None \<Rightarrow> st
      | Some source_versions \<Rightarrow>
          let by_path = AList.delete from (ss_by_path st);
              relocated = map (\<lambda>s. s\<lparr>sn_path := to\<rparr>) source_versions;
              dest_versions = (case map_of by_path to of None \<Rightarrow> [] | Some vs \<Rightarrow> vs);
              merged = dedup_versions {} (dest_versions @ relocated);
              excess = length merged - MAX_VERSIONS_PER_PATH;
              (kept, bytes) =
                (if length merged > MAX_VERSIONS_PER_PATH
                 then (drop excess (sort_key sn_recorded_at merged),
                       foldl (\<lambda>n v. n - length (sn_text v)) (ss_total_bytes st)
                         (take excess (sort_key sn_recorded_at merged)))
                 else (merged, ss_total_bytes st))
          in touch_path env to
               (st\<lparr>ss_by_path := put to (sort_key sn_recorded_at kept) by_path, ss_total_bytes := bytes\<rparr>))"

section \<open>Lookups after updates\<close>

lemma map_of_put [simp]: "map_of (put k v al) q = (if q = k then Some v else map_of al q)"
  by (simp add: put_def map_add_def delete_conv' split: option.split)

lemma fst_put [simp]: "fst ` set (put k v al) = insert k (fst ` set al)"
  by (auto simp: put_def AList.delete_eq image_iff)

lemma distinct_put: "distinct (map fst al) \<Longrightarrow> distinct (map fst (put k v al))"
  using distinct_delete [of al k] by (auto simp: put_def AList.delete_eq)

lemma put_entries: "(q, w) \<in> set (put k v al) \<Longrightarrow> (q = k \<and> w = v) \<or> (q \<noteq> k \<and> (q, w) \<in> set al)"
  by (auto simp: put_def AList.delete_eq)

lemma disk_frame [simp]:
  "ss_by_path (disk_remove env p st) = ss_by_path st"
  "ss_path_order (disk_remove env p st) = ss_path_order st"
  "ss_total_bytes (disk_remove env p st) = ss_total_bytes st"
  "ss_disk (disk_remove env p st) = ss_disk st"
  "ss_by_path (disk_write env p s st) = ss_by_path st"
  "ss_path_order (disk_write env p s st) = ss_path_order st"
  "ss_total_bytes (disk_write env p s st) = ss_total_bytes st"
  "ss_disk (disk_write env p s st) = ss_disk st"
  by (simp_all add: disk_remove_def disk_write_def set_disk_def Let_def split: option.split)

lemma versions_frame [simp]:
  "versions (disk_write env p s st) = versions st" "versions (disk_remove env p st) = versions st"
  by (simp_all add: versions_def fun_eq_iff)

section \<open>The invariant\<close>

definition vbytes :: "snapshot list \<Rightarrow> nat" where
  "vbytes vs = sum_list (map (\<lambda>v. length (sn_text v)) vs)"

definition al_bytes :: "(path \<times> snapshot list) list \<Rightarrow> nat" where
  "al_bytes al = sum_list (map (\<lambda>(p, vs). vbytes vs) al)"

definition retained :: "store \<Rightarrow> nat" where
  "retained st = al_bytes (ss_by_path st)"

text \<open>A history is a non-empty list of at most four versions, each under the tag of its text and
  no two of the same content.\<close>

definition hist_ok :: "(str \<Rightarrow> 32 word) \<Rightarrow> path \<Rightarrow> snapshot list \<Rightarrow> bool" where
  "hist_ok xxh p vs \<longleftrightarrow>
     vs \<noteq> [] \<and> length vs \<le> MAX_VERSIONS_PER_PATH \<and> distinct (map snap_key vs)
     \<and> (\<forall>s \<in> set vs. sn_path s = p \<and> sn_tag s = compute_tag xxh (sn_text s))"

definition store_core :: "(str \<Rightarrow> 32 word) \<Rightarrow> store \<Rightarrow> bool" where
  "store_core xxh st \<longleftrightarrow>
     distinct (map fst (ss_by_path st)) \<and> distinct (ss_path_order st)
     \<and> fst ` set (ss_by_path st) \<subseteq> set (ss_path_order st)
     \<and> (\<forall>(p, vs) \<in> set (ss_by_path st). hist_ok xxh p vs)
     \<and> retained st \<le> ss_total_bytes st"

definition store_ok :: "(str \<Rightarrow> 32 word) \<Rightarrow> store \<Rightarrow> bool" where
  "store_ok xxh st \<longleftrightarrow> store_core xxh st \<and> length (ss_path_order st) \<le> MAX_PATHS"

text \<open>The keys the store holds are still their own canonical paths: no directory above a tracked
  file has been replaced by a link since.\<close>

definition tracks :: "env \<Rightarrow> path set \<Rightarrow> bool" where
  "tracks env Q \<longleftrightarrow> (\<forall>q \<in> Q. canonical env q = q)"

lemma tracks_mono: "tracks env Q \<Longrightarrow> R \<subseteq> Q \<Longrightarrow> tracks env R"
  by (auto simp: tracks_def)

lemma foldl_minus_vbytes: "foldl (\<lambda>n v. n - length (sn_text v)) t vs = t - vbytes vs"
  by (induction vs arbitrary: t) (simp_all add: vbytes_def diff_diff_add)

lemma al_bytes_delete:
  "distinct (map fst al) \<Longrightarrow>
     al_bytes al = al_bytes (AList.delete p al) + (case map_of al p of None \<Rightarrow> 0 | Some vs \<Rightarrow> vbytes vs)"
proof (induction al)
  case (Cons kv al)
  obtain q vs where kv: "kv = (q, vs)" by fastforce
  show ?case
  proof (cases "q = p")
    case True
    with Cons.prems kv have "map_of al p = None" by (auto simp: map_of_eq_None_iff)
    then have "AList.delete p al = al" by (metis delete_id map_of_eq_None_iff)
    with kv True show ?thesis by (simp add: al_bytes_def)
  next
    case False
    with Cons kv show ?thesis by (simp add: al_bytes_def)
  qed
qed (simp add: al_bytes_def)

lemma vbytes_simps [simp]:
  "vbytes [] = 0" "vbytes (v # vs) = length (sn_text v) + vbytes vs" "vbytes (vs @ ws) = vbytes vs + vbytes ws"
  by (simp_all add: vbytes_def)

lemma al_bytes_put:
  "distinct (map fst al) \<Longrightarrow>
     al_bytes (put p vs al) + (case map_of al p of None \<Rightarrow> 0 | Some ws \<Rightarrow> vbytes ws) = al_bytes al + vbytes vs"
  using al_bytes_delete [of al p] by (simp add: put_def al_bytes_def)

lemma vbytes_versions:
  "(case map_of (ss_by_path st) p of None \<Rightarrow> 0 | Some vs \<Rightarrow> vbytes vs) = vbytes (versions st p)"
  by (simp add: versions_def split: option.split)

lemma versions_hist:
  "store_core xxh st \<Longrightarrow> versions st p \<noteq> [] \<Longrightarrow> hist_ok xxh p (versions st p)"
  by (auto simp: store_core_def versions_def split: option.splits dest!: map_of_SomeD)

lemma store_core_fields:
  assumes "ss_by_path st = ss_by_path st'" "ss_path_order st = ss_path_order st'"
    "ss_total_bytes st = ss_total_bytes st'"
  shows "store_core xxh st = store_core xxh st'"
  using assms by (simp add: store_core_def retained_def)

section \<open>Eviction keeps the invariant\<close>

lemma evict_oldest_core:
  assumes "store_core xxh st" and "tracks env (set (ss_path_order st))"
  shows "store_core xxh (evict_oldest env st)"
proof (cases "ss_path_order st")
  case Nil
  with assms show ?thesis by (simp add: evict_oldest_def)
next
  case (Cons e rest)
  let ?st = "evict_oldest env st"
  from assms(2) Cons have e: "canonical env e = e" by (simp add: tracks_def)
  have al: "ss_by_path ?st = AList.delete e (ss_by_path st)"
    and ord: "ss_path_order ?st = filter (\<lambda>q. q \<noteq> e) rest"
    and tot: "ss_total_bytes ?st = ss_total_bytes st - vbytes (versions st e)"
    using Cons e
    by (simp_all add: evict_oldest_def invalidate_def Let_def foldl_minus_vbytes versions_def)
  have "retained st = retained ?st + vbytes (versions st e)"
    using al_bytes_delete [of "ss_by_path st" e] assms(1)
    by (simp add: retained_def al store_core_def vbytes_versions)
  then have "retained ?st \<le> ss_total_bytes ?st"
    using assms(1) tot by (auto simp: store_core_def)
  moreover have "fst ` set (ss_by_path ?st) \<subseteq> set (ss_path_order ?st)"
    using assms(1) Cons by (auto simp: al ord store_core_def AList.delete_eq)
  ultimately show ?thesis
    using assms(1) Cons
    by (auto simp: store_core_def al ord distinct_delete) (auto simp: AList.delete_eq)
qed

lemma evict_oldest_order: "set (ss_path_order (evict_oldest env st)) \<subseteq> set (ss_path_order st)"
  by (cases "ss_path_order st") (auto simp: evict_oldest_def invalidate_order)

lemma touch_loop_ok:
  "store_core xxh st \<Longrightarrow> tracks env (set (ss_path_order st)) \<Longrightarrow> store_ok xxh (touch_loop env st)"
proof (induction env st rule: touch_loop.induct)
  case (1 env st)
  then show ?case
    using evict_oldest_core [OF 1(2,3)] tracks_mono [OF 1(3) evict_oldest_order]
    by (simp add: touch_loop.simps [of env st] store_ok_def)
qed

lemma touch_path_ok:
  assumes "distinct (map fst (ss_by_path st))" "distinct (ss_path_order st)"
    and "fst ` set (ss_by_path st) \<subseteq> insert p (set (ss_path_order st))"
    and "\<forall>(q, vs) \<in> set (ss_by_path st). hist_ok xxh q vs"
    and "retained st \<le> ss_total_bytes st"
    and "tracks env (insert p (set (ss_path_order st)))"
  shows "store_ok xxh (touch_path env p st)"
  unfolding touch_path_def
  using assms by (intro touch_loop_ok) (auto simp: store_core_def retained_def tracks_def)

lemma evict_if_over_limit_ok:
  "store_ok xxh st \<Longrightarrow> tracks env (set (ss_path_order st)) \<Longrightarrow>
     store_ok xxh (evict_if_over_limit env st) \<and> retained (evict_if_over_limit env st) \<le> MAX_TOTAL_BYTES"
proof (induction env st rule: evict_if_over_limit.induct)
  case (1 env st)
  show ?case
  proof (cases "ss_total_bytes st > MAX_TOTAL_BYTES \<and> ss_path_order st \<noteq> []")
    case True
    have "store_ok xxh (evict_oldest env st)"
      using evict_oldest_core [of xxh st env] evict_oldest_shorter [of st env] 1(2,3) True
      by (auto simp: store_ok_def)
    then show ?thesis
      using 1(1) [OF True] tracks_mono [OF 1(3) evict_oldest_order] True
      by (simp add: evict_if_over_limit.simps [of env st])
  next
    case False
    then show ?thesis
      using 1(2) by (auto simp: evict_if_over_limit.simps [of env st] store_ok_def store_core_def
          retained_def al_bytes_def)
  qed
qed

section \<open>Every operation keeps the invariant\<close>

lemma put_hist:
  assumes "\<forall>(q, vs) \<in> set al. hist_ok xxh q vs" and "hist_ok xxh p ws"
  shows "\<forall>(q, vs) \<in> set (ss_by_path (st\<lparr>ss_by_path := put p ws al, ss_total_bytes := b\<rparr>)). hist_ok xxh q vs"
  using assms by (auto dest!: put_entries)

lemma touch_loop_order: "set (ss_path_order (touch_loop env st)) \<subseteq> set (ss_path_order st)"
proof (induction env st rule: touch_loop.induct)
  case (1 env st)
  then show ?case
    using evict_oldest_order [of env st] by (auto simp: touch_loop.simps [of env st])
qed

lemma touch_path_order: "set (ss_path_order (touch_path env p st)) \<subseteq> insert p (set (ss_path_order st))"
  using touch_loop_order [of env "st\<lparr>ss_path_order := filter (\<lambda>q. q \<noteq> p) (ss_path_order st) @ [p]\<rparr>"]
  by (auto simp: touch_path_def)

lemma touch_put_ok:
  assumes ok: "store_core xxh st" and h: "hist_ok xxh p vs"
    and b: "vbytes vs + ss_total_bytes st \<le> vbytes (versions st p) + bytes"
    and tr: "tracks env (insert p (set (ss_path_order st)))"
  shows "store_ok xxh (touch_path env p
           (st\<lparr>ss_by_path := put p vs (ss_by_path st), ss_total_bytes := bytes\<rparr>))"
proof (rule touch_path_ok)
  let ?al = "ss_by_path st"
  from ok have d: "distinct (map fst ?al)" and r: "al_bytes ?al \<le> ss_total_bytes st"
    by (auto simp: store_core_def retained_def)
  have "al_bytes (put p vs ?al) + vbytes (versions st p) = al_bytes ?al + vbytes vs"
    using al_bytes_put [OF d, of p vs] by (simp add: vbytes_versions)
  with b r show "retained (st\<lparr>ss_by_path := put p vs ?al, ss_total_bytes := bytes\<rparr>)
      \<le> ss_total_bytes (st\<lparr>ss_by_path := put p vs ?al, ss_total_bytes := bytes\<rparr>)"
    by (simp add: retained_def)
qed (use ok h tr in \<open>auto simp: store_core_def distinct_put dest!: put_entries\<close>)

lemma vbytes_filter_le: "e \<in> set vs \<Longrightarrow> \<not> P e \<Longrightarrow> vbytes (filter P vs) + length (sn_text e) \<le> vbytes vs"
proof (induction vs)
  case (Cons v vs)
  have "vbytes (filter P ws) \<le> vbytes ws" for ws by (induction ws) auto
  from this [of vs] Cons show ?case by auto
qed simp

lemma length_filter_mem: "e \<in> set vs \<Longrightarrow> \<not> P e \<Longrightarrow> length (filter P vs) < length vs"
  by (rule length_filter_less)

lemma distinct_filter_keys: "distinct (map f vs) \<Longrightarrow> distinct (map f (filter P vs))"
  by (induction vs) auto

lemma hist_promote:
  assumes "hist_ok xxh p vs" and "find (\<lambda>s. sn_tag s = tag \<and> sn_text s = text) vs = Some e"
  shows "hist_ok xxh p (filter (\<lambda>s. sn_tag s \<noteq> tag \<or> sn_text s \<noteq> text) vs @ [e\<lparr>sn_recorded_at := now\<rparr>])"
    and "vbytes (filter (\<lambda>s. sn_tag s \<noteq> tag \<or> sn_text s \<noteq> text) vs @ [e\<lparr>sn_recorded_at := now\<rparr>]) \<le> vbytes vs"
proof -
  from assms(2) have e: "e \<in> set vs" "sn_tag e = tag" "sn_text e = text"
    by (auto simp: find_Some_iff)
  let ?P = "\<lambda>s. sn_tag s \<noteq> tag \<or> sn_text s \<noteq> text"
  show "vbytes (filter ?P vs @ [e\<lparr>sn_recorded_at := now\<rparr>]) \<le> vbytes vs"
    using vbytes_filter_le [of e vs ?P] e by simp
  have "length (filter ?P vs) < length vs" using length_filter_mem [of e vs ?P] e by simp
  then show "hist_ok xxh p (filter ?P vs @ [e\<lparr>sn_recorded_at := now\<rparr>])"
    using assms(1) e distinct_filter_keys [of snap_key vs ?P]
    by (auto simp: hist_ok_def snap_key_def)
qed

lemma hist_append:
  assumes "vs = [] \<or> hist_ok xxh p vs" and "snap_key s \<notin> snap_key ` set vs"
    and "sn_path s = p" "sn_tag s = compute_tag xxh (sn_text s)"
    and "cap_versions t (vs @ [s]) = (vs', bytes)"
  shows "hist_ok xxh p vs'" and "vbytes vs' + t \<le> vbytes vs + length (sn_text s) + bytes"
proof -
  show "hist_ok xxh p vs'"
  proof (cases vs)
    case Nil
    with assms show ?thesis by (auto simp: cap_versions_def hist_ok_def MAX_VERSIONS_PER_PATH_def)
  next
    case (Cons v ws)
    with assms show ?thesis by (auto simp: cap_versions_def hist_ok_def split: if_splits)
  qed
  show "vbytes vs' + t \<le> vbytes vs + length (sn_text s) + bytes"
    using assms(5) by (cases vs) (auto simp: cap_versions_def split: if_splits)
qed

lemma al_bytes_delete_le: "al_bytes (AList.delete p al) \<le> al_bytes al"
  by (induction al) (auto simp: al_bytes_def)

lemma touch_path_retained: "retained (touch_path env p st) \<le> retained st"
proof -
  have ev: "retained (evict_oldest env st) \<le> retained st" for env st
    by (cases "ss_path_order st")
      (simp_all add: evict_oldest_def invalidate_def Let_def retained_def al_bytes_delete_le)
  have "retained (touch_loop env st) \<le> retained st" for st
  proof (induction env st rule: touch_loop.induct)
    case (1 env st)
    then show ?case using ev [of env st] by (auto simp: touch_loop.simps [of env st])
  qed
  from this [of "st\<lparr>ss_path_order := filter (\<lambda>q. q \<noteq> p) (ss_path_order st) @ [p]\<rparr>"]
  show ?thesis by (simp add: touch_path_def retained_def)
qed

lemma store_record_bounds:
  assumes ok: "store_ok xxh st" and x: "en_xxh32 env = xxh"
    and tr: "tracks env (insert (canonical env p) (set (ss_path_order st)))"
  shows "store_ok xxh (snd (store_record env p text st))
    \<and> (retained st \<le> MAX_TOTAL_BYTES \<longrightarrow> retained (snd (store_record env p text st)) \<le> MAX_TOTAL_BYTES)"
proof -
  let ?p = "canonical env p" and ?tag = "compute_tag (en_xxh32 env) text"
  let ?vs = "versions st ?p"
  from ok have core: "store_core xxh st" by (simp add: store_ok_def)
  have hist: "?vs = [] \<or> hist_ok xxh ?p ?vs" using versions_hist [OF core] by blast
  show ?thesis
  proof (cases "find (\<lambda>s. sn_tag s = ?tag \<and> sn_text s = text) ?vs")
    case (Some e)
    then have "?vs \<noteq> []" by auto
    with hist have h: "hist_ok xxh ?p ?vs" by simp
    let ?ws = "filter (\<lambda>s. sn_tag s \<noteq> ?tag \<or> sn_text s \<noteq> text) ?vs @ [e\<lparr>sn_recorded_at := en_now env\<rparr>]"
    have "store_ok xxh (touch_path env ?p
        (st\<lparr>ss_by_path := put ?p ?ws (ss_by_path st), ss_total_bytes := ss_total_bytes st\<rparr>))"
      using hist_promote [OF h Some] by (intro touch_put_ok [OF core _ _ tr]) auto
    moreover have "retained (touch_path env ?p (st\<lparr>ss_by_path := put ?p ?ws (ss_by_path st)\<rparr>)) \<le> retained st"
    proof (rule le_trans [OF touch_path_retained])
      have "distinct (map fst (ss_by_path st))" using core by (simp add: store_core_def)
      from al_bytes_put [OF this, of ?p ?ws] hist_promote(2) [OF h Some, of "en_now env"]
      show "retained (st\<lparr>ss_by_path := put ?p ?ws (ss_by_path st)\<rparr>) \<le> retained st"
        by (simp add: retained_def vbytes_versions)
    qed
    ultimately show ?thesis using Some
      by (auto simp: store_record_def Let_def store_ok_def retained_def cong: store_core_fields)
  next
    case None
    let ?s = "\<lparr>sn_path = ?p, sn_text = text, sn_tag = ?tag, sn_recorded_at = en_now env, sn_seen_lines = None\<rparr>"
    obtain vs' bytes where c: "cap_versions (ss_total_bytes st + length text) (?vs @ [?s]) = (vs', bytes)"
      by fastforce
    have "snap_key ?s \<notin> snap_key ` set ?vs"
      using None by (auto simp: find_None_iff snap_key_def)
    note app = hist_append [OF hist this _ _ c]
    let ?st = "touch_path env ?p (st\<lparr>ss_by_path := put ?p vs' (ss_by_path st), ss_total_bytes := bytes\<rparr>)"
    have "store_ok xxh ?st"
      using app x by (intro touch_put_ok [OF core _ _ tr]) auto
    moreover have "tracks env (set (ss_path_order ?st))"
      using touch_path_order [of env ?p "st\<lparr>ss_by_path := put ?p vs' (ss_by_path st), ss_total_bytes := bytes\<rparr>"]
      by (intro tracks_mono [OF tr]) auto
    ultimately have "store_ok xxh (evict_if_over_limit env ?st)
        \<and> retained (evict_if_over_limit env ?st) \<le> MAX_TOTAL_BYTES"
      using evict_if_over_limit_ok by blast
    with None c show ?thesis
      by (simp add: store_record_def Let_def store_ok_def retained_def cong: store_core_fields)
  qed
qed

lemmas store_record_ok = store_record_bounds [THEN conjunct1]

lemma hist_filter: "hist_ok xxh p vs \<Longrightarrow> filter P vs = [] \<or> hist_ok xxh p (filter P vs)"
  using length_filter_le [of P vs] distinct_filter_keys [of snap_key vs P]
  unfolding hist_ok_def by (meson filter_is_subset le_trans subsetD)

lemma disk_hydrate_SomeD:
  assumes "disk_hydrate env p tag st = (Some snap, st')"
  shows "sn_path snap = p" "sn_tag snap = tag" "compute_tag (en_xxh32 env) (sn_text snap) = tag"
    "sn_seen_lines snap = None"
    "st' = (let (vs, bytes) = cap_versions (ss_total_bytes st)
                                (filter (\<lambda>s. sn_tag s \<noteq> tag) (versions st p) @ [snap])
            in touch_path env p (st\<lparr>ss_by_path := put p vs (ss_by_path st),
                                    ss_total_bytes := bytes + length (sn_text snap)\<rparr>))"
  using assms
  by (auto simp: disk_hydrate_def Let_def split: option.splits prod.splits if_splits)

lemma disk_hydrate_NoneD: "disk_hydrate env p tag st = (None, st') \<Longrightarrow> st' = st"
  by (auto simp: disk_hydrate_def Let_def split: option.splits prod.splits if_splits)

lemma disk_hydrate_ok:
  assumes ok: "store_ok xxh st" and x: "en_xxh32 env = xxh"
    and tr: "tracks env (insert p (set (ss_path_order st)))"
  shows "store_ok xxh (snd (disk_hydrate env p tag st))"
proof (cases "disk_hydrate env p tag st")
  case (Pair r st')
  from ok have core: "store_core xxh st" by (simp add: store_ok_def)
  show ?thesis
  proof (cases r)
    case None
    with Pair ok show ?thesis by (auto dest: disk_hydrate_NoneD)
  next
    case (Some snap)
    let ?ws = "filter (\<lambda>s. sn_tag s \<noteq> tag) (versions st p)"
    obtain vs bytes where c: "cap_versions (ss_total_bytes st) (?ws @ [snap]) = (vs, bytes)"
      by fastforce
    note s = disk_hydrate_SomeD [OF Pair [unfolded Some]]
    have hist: "?ws = [] \<or> hist_ok xxh p ?ws"
      using versions_hist [OF core, of p] hist_filter by (cases "versions st p = []") auto
    have "snap_key snap \<notin> snap_key ` set ?ws" using s by (auto simp: snap_key_def)
    note app = hist_append [OF hist this _ _ c]
    have "vbytes ws \<ge> vbytes (filter P ws)" for P ws by (induction ws) auto
    then have "vbytes ?ws \<le> vbytes (versions st p)" by simp
    have "store_ok xxh (touch_path env p (st\<lparr>ss_by_path := put p vs (ss_by_path st),
             ss_total_bytes := bytes + length (sn_text snap)\<rparr>))"
      using app s(1-3) x \<open>vbytes ?ws \<le> vbytes (versions st p)\<close>
      by (intro touch_put_ok [OF core _ _ tr]) auto
    then show ?thesis using s(5) c Pair by simp
  qed
qed

lemma store_get_ok:
  assumes "store_ok xxh st" "en_xxh32 env = xxh"
    "tracks env (insert (canonical env p) (set (ss_path_order st)))"
  shows "store_ok xxh (snd (store_get env p tag st))"
  using disk_hydrate_ok [OF assms] assms(1)
  by (auto simp: store_get_def Let_def split: prod.split option.split)
    (metis snd_conv)+

lemma invalidate_ok: "store_ok xxh st \<Longrightarrow> store_ok xxh (invalidate env p st)"
proof -
  assume ok: "store_ok xxh st"
  let ?p = "canonical env p" and ?st = "invalidate env p st"
  have f: "ss_by_path ?st = AList.delete ?p (ss_by_path st)"
    "ss_total_bytes ?st = ss_total_bytes st - vbytes (versions st ?p)"
    by (simp_all add: invalidate_def Let_def foldl_minus_vbytes)
  have "retained st = retained ?st + vbytes (versions st ?p)"
    using al_bytes_delete [of "ss_by_path st" ?p] ok
    by (simp add: retained_def f store_ok_def store_core_def vbytes_versions)
  then have "retained ?st \<le> ss_total_bytes ?st"
    using ok by (auto simp: f store_ok_def store_core_def)
  moreover have "length (ss_path_order ?st) \<le> MAX_PATHS"
    unfolding invalidate_order using ok
    by (meson length_filter_le le_trans store_ok_def)
  moreover have "fst ` set (ss_by_path ?st) \<subseteq> set (ss_path_order ?st)"
    "\<forall>(q, vs) \<in> set (ss_by_path ?st). hist_ok xxh q vs"
    using ok by (auto simp: store_ok_def store_core_def f invalidate_order AList.delete_eq)
  moreover have "distinct (ss_path_order ?st)" "distinct (map fst (ss_by_path ?st))"
    using ok by (simp_all add: store_ok_def store_core_def f invalidate_order distinct_delete)
  ultimately show ?thesis by (simp add: store_ok_def store_core_def)
qed

text \<open>A change through \<^verbatim>\<open>get_mut\<close> that leaves path, tag and text alone.\<close>

definition touches_seen_only :: "(snapshot \<Rightarrow> snapshot) \<Rightarrow> bool" where
  "touches_seen_only f \<longleftrightarrow>
     (\<forall>s. sn_path (f s) = sn_path s \<and> sn_tag (f s) = sn_tag s \<and> sn_text (f s) = sn_text s)"

lemma merge_seen_touches: "touches_seen_only (merge_seen lines)"
  by (simp add: touches_seen_only_def merge_seen_def)

lemma update_first_maps:
  assumes "\<And>s. g (f s) = g s"
  shows "map g (update_first P f vs) = map g vs"
  by (induction vs) (auto simp: assms)

lemma update_first_all: "\<forall>s \<in> set vs. Q s \<Longrightarrow> (\<And>s. Q s \<Longrightarrow> Q (f s)) \<Longrightarrow> \<forall>s \<in> set (update_first P f vs). Q s"
  by (induction vs) auto

lemma store_core_by_path:
  assumes "store_core xxh st" and k: "map fst al = map fst (ss_by_path st)"
    and "\<forall>(q, vs) \<in> set al. hist_ok xxh q vs" and "al_bytes al = al_bytes (ss_by_path st)"
  shows "store_core xxh (st\<lparr>ss_by_path := al\<rparr>)"
proof -
  have "fst ` set al = fst ` set (ss_by_path st)" using arg_cong [OF k, of set] by simp
  with assms show ?thesis by (simp add: store_core_def retained_def)
qed

lemma get_mut_ok:
  assumes "store_ok xxh st" and f: "touches_seen_only f"
  shows "store_ok xxh (get_mut env p tag f st)"
proof -
  let ?g = "\<lambda>(q, vs). (q, if q = canonical env p then update_first (\<lambda>s. sn_tag s = tag) f vs else vs)"
  let ?u = "update_first (\<lambda>s. sn_tag s = tag) f"
  from f have m: "map snap_key (?u vs) = map snap_key vs" "map sn_text (?u vs) = map sn_text vs" for vs
    by (intro update_first_maps; simp add: touches_seen_only_def snap_key_def)+
  have len: "length (?u vs) = length vs" for vs using m(2) [of vs] map_eq_imp_length_eq by blast
  have vb: "vbytes (?u vs) = vbytes vs" for vs
    using arg_cong [OF m(2) [of vs], of "\<lambda>ts. sum_list (map length ts)"] by (simp add: vbytes_def o_def)
  have all: "\<forall>s \<in> set (?u vs). sn_path s = q \<and> sn_tag s = compute_tag xxh (sn_text s)"
    if "\<forall>s \<in> set vs. sn_path s = q \<and> sn_tag s = compute_tag xxh (sn_text s)" for q vs
    using that f by (intro update_first_all) (simp_all add: touches_seen_only_def)
  have h: "hist_ok xxh q (?u vs)" if "hist_ok xxh q vs" for q vs
    using that all [of vs q] len [of vs] m(1) [of vs] unfolding hist_ok_def
    by (metis length_0_conv)
  have keys: "map fst (map ?g al) = map fst al" for al by (induction al) auto
  have al: "al_bytes (map ?g al) = al_bytes al" for al
    by (induction al) (auto simp: al_bytes_def vb)
  have hs: "\<forall>(q, vs) \<in> set (map ?g al). hist_ok xxh q vs" if "\<forall>(q, vs) \<in> set al. hist_ok xxh q vs" for al
  proof
    fix x assume "x \<in> set (map ?g al)"
    then obtain y where y: "y \<in> set al" "x = ?g y" by (auto simp only: set_map image_iff)
    with that have "hist_ok xxh (fst y) (snd y)" by (simp add: case_prod_beta)
    with h [of "fst y" "snd y"] y(2) show "case x of (q, vs) \<Rightarrow> hist_ok xxh q vs"
      by (cases "fst y = canonical env p") (simp_all add: case_prod_beta)
  qed
  have st: "get_mut env p tag f st = st\<lparr>ss_by_path := map ?g (ss_by_path st)\<rparr>"
    by (simp add: get_mut_def Let_def)
  from assms(1) have c: "store_core xxh st" and l: "length (ss_path_order st) \<le> MAX_PATHS"
    by (simp_all add: store_ok_def)
  then have "\<forall>(q, vs) \<in> set (ss_by_path st). hist_ok xxh q vs" unfolding store_core_def by blast
  from store_core_by_path [OF c keys hs [OF this] al] l show ?thesis
    by (simp add: st store_ok_def del: map_map)
qed

lemma dedup_versions_subset: "set (dedup_versions seen vs) \<subseteq> set vs"
  by (induction seen vs rule: dedup_versions.induct) auto

lemma dedup_versions_spec:
  "distinct (map snap_key (dedup_versions seen vs)) \<and> snap_key ` set (dedup_versions seen vs) \<inter> seen = {}
   \<and> snap_key ` set (dedup_versions seen vs) = snap_key ` set vs - seen
   \<and> vbytes (dedup_versions seen vs) \<le> vbytes vs"
  by (induction seen vs rule: dedup_versions.induct) auto

lemma vbytes_perm: "mset vs = mset ws \<Longrightarrow> vbytes vs = vbytes ws"
  by (metis vbytes_def mset_map sum_mset_sum_list)

text \<open>The history \<^verbatim>\<open>relocate\<close> leaves at the destination: the newest versions of the merge.\<close>

definition newest :: "snapshot list \<Rightarrow> snapshot list" where
  "newest vs = drop (length vs - MAX_VERSIONS_PER_PATH) (sort_key sn_recorded_at vs)"

definition oldest :: "snapshot list \<Rightarrow> snapshot list" where
  "oldest vs = take (length vs - MAX_VERSIONS_PER_PATH) (sort_key sn_recorded_at vs)"

definition relocated_versions :: "store \<Rightarrow> path \<Rightarrow> path \<Rightarrow> snapshot list" where
  "relocated_versions st from to =
     dedup_versions {} ((if to = from then [] else versions st to)
                        @ map (\<lambda>s. s\<lparr>sn_path := to\<rparr>) (versions st from))"

lemma newest_sorted: "sort_key sn_recorded_at (newest vs) = newest vs"
  unfolding newest_def by (intro sort_key_id_if_sorted) (simp add: drop_map [symmetric] sorted_wrt_drop)

lemma newest_oldest: "mset (oldest vs @ newest vs) = mset vs"
  by (simp add: oldest_def newest_def)

lemma relocate_eq:
  assumes "map_of (ss_by_path st) from = Some src" and frm: "from = canonical env f" and to: "to = canonical env t"
  shows "relocate env f t st = touch_path env to
     (st\<lparr>ss_by_path := put to (newest (relocated_versions st from to)) (AList.delete from (ss_by_path st)),
         ss_total_bytes := ss_total_bytes st - vbytes (oldest (relocated_versions st from to))\<rparr>)"
proof -
  have src: "src = versions st from" using assms(1) by (simp add: versions_def)
  have dest: "(case map_of (AList.delete from (ss_by_path st)) to of None \<Rightarrow> [] | Some vs \<Rightarrow> vs)
      = (if to = from then [] else versions st to)"
    by (simp add: versions_def delete_conv')
  let ?m = "relocated_versions st from to"
  have m: "dedup_versions {} ((if to = from then [] else versions st to)
             @ map (\<lambda>s. s\<lparr>sn_path := to\<rparr>) src) = ?m"
    by (simp only: relocated_versions_def src)
  have small: "newest vs = sort_key sn_recorded_at vs" "oldest vs = []"
    if "\<not> length vs > MAX_VERSIONS_PER_PATH" for vs
    using that by (simp_all add: newest_def oldest_def)
  show ?thesis
    unfolding relocate_def Let_def frm [symmetric] to [symmetric] assms(1) option.case dest m
      foldl_minus_vbytes newest_def [symmetric] oldest_def [symmetric]
    using small [of ?m] by (cases "length ?m > MAX_VERSIONS_PER_PATH") (simp_all add: newest_sorted)
qed

lemma newest_hist:
  assumes "distinct (map snap_key vs)" "vs \<noteq> []"
    and "\<forall>s \<in> set vs. sn_path s = p \<and> sn_tag s = compute_tag xxh (sn_text s)"
  shows "hist_ok xxh p (newest vs)"
proof -
  let ?srt = "sort_key sn_recorded_at vs"
  have "mset (map snap_key ?srt) = mset (map snap_key vs)" by simp
  then have "distinct (map snap_key ?srt)" using assms(1) mset_eq_imp_distinct_iff by blast
  then have "distinct (map snap_key (newest vs))" by (simp add: newest_def drop_map [symmetric])
  moreover have "set (newest vs) \<subseteq> set vs" using set_drop_subset by (fastforce simp: newest_def)
  moreover have "length (newest vs) \<le> MAX_VERSIONS_PER_PATH" "newest vs \<noteq> []"
    using assms(2) by (cases vs; auto simp: newest_def MAX_VERSIONS_PER_PATH_def)+
  ultimately show ?thesis using assms(3) unfolding hist_ok_def by blast
qed

lemma relocate_ok:
  assumes ok: "store_ok xxh st" and tr: "tracks env (insert (canonical env t) (set (ss_path_order st)))"
  shows "store_ok xxh (relocate env f t st)"
proof (cases "map_of (ss_by_path st) (canonical env f)")
  case None
  with ok show ?thesis by (simp add: relocate_def Let_def)
next
  case (Some src)
  let ?f = "canonical env f" and ?t = "canonical env t" and ?al = "AList.delete (canonical env f) (ss_by_path st)"
  let ?m = "relocated_versions st ?f ?t"
  let ?st = "st\<lparr>ss_by_path := put ?t (newest ?m) ?al, ss_total_bytes := ss_total_bytes st - vbytes (oldest ?m)\<rparr>"
  from ok have core: "store_core xxh st" by (simp add: store_ok_def)
  have src: "versions st ?f = src" using Some by (simp add: versions_def)
  have d: "distinct (map fst (ss_by_path st))" using core by (simp add: store_core_def)
  have hsrc: "hist_ok xxh ?f src" using core Some by (auto simp: store_core_def dest!: map_of_SomeD)
  let ?all = "(if ?t = ?f then [] else versions st ?t) @ map (\<lambda>s. s\<lparr>sn_path := ?t\<rparr>) (versions st ?f)"
  have all: "\<forall>s \<in> set ?all. sn_path s = ?t \<and> sn_tag s = compute_tag xxh (sn_text s)"
  proof
    fix s assume "s \<in> set ?all"
    then consider "s \<in> set (versions st ?t)" | u where "u \<in> set src" "s = u\<lparr>sn_path := ?t\<rparr>"
      by (auto simp: src split: if_splits)
    then show "sn_path s = ?t \<and> sn_tag s = compute_tag xxh (sn_text s)"
    proof cases
      case 1
      then have "hist_ok xxh ?t (versions st ?t)" by (intro versions_hist [OF core]) auto
      with 1 show ?thesis by (simp add: hist_ok_def)
    qed (use hsrc in \<open>simp add: hist_ok_def\<close>)
  qed
  have ne: "?m \<noteq> []" using dedup_versions_spec [of "{}" ?all] hsrc
    by (auto simp: relocated_versions_def src hist_ok_def)
  have hist: "hist_ok xxh ?t (newest ?m)"
  proof (rule newest_hist [OF _ ne])
    show "distinct (map snap_key ?m)"
      using dedup_versions_spec [of "{}" ?all] unfolding relocated_versions_def by blast
    show "\<forall>s \<in> set ?m. sn_path s = ?t \<and> sn_tag s = compute_tag xxh (sn_text s)"
      using all dedup_versions_subset [of "{}" ?all] unfolding relocated_versions_def by blast
  qed
  have vb: "vbytes (oldest ?m) + vbytes (newest ?m) \<le> (if ?t = ?f then 0 else vbytes (versions st ?t)) + vbytes src"
  proof -
    have "vbytes ?m \<le> vbytes ?all"
      using dedup_versions_spec [of "{}" ?all] unfolding relocated_versions_def by blast
    moreover have "vbytes ?all = (if ?t = ?f then 0 else vbytes (versions st ?t)) + vbytes src"
      by (simp add: src vbytes_def o_def)
    ultimately show ?thesis using vbytes_perm [OF newest_oldest [of ?m]] by simp
  qed
  have "al_bytes (ss_by_path st) = al_bytes ?al + vbytes src"
    using al_bytes_delete [OF d, of ?f] Some by simp
  moreover have "al_bytes (put ?t (newest ?m) ?al) + (if ?t = ?f then 0 else vbytes (versions st ?t))
      = al_bytes ?al + vbytes (newest ?m)"
    using al_bytes_put [OF distinct_delete [OF d], of ?t "newest ?m" ?f]
    by (simp add: delete_conv' vbytes_versions split: if_splits)
  ultimately have "retained ?st \<le> ss_total_bytes ?st"
    using vb core by (auto simp: retained_def store_core_def)
  then have "store_ok xxh (touch_path env ?t ?st)"
    using core hist tr distinct_put [OF distinct_delete [OF d]]
    by (intro touch_path_ok put_hist) (auto simp: store_core_def AList.delete_eq)
  with relocate_eq [OF Some refl refl, of t] show ?thesis by simp
qed

section \<open>Reachable stores\<close>

text \<open>A session of the store: any sequence of its operations, each in the surroundings of its moment.\<close>

inductive reachable :: "(str \<Rightarrow> 32 word) \<Rightarrow> store \<Rightarrow> bool" for xxh where
  reach_new: "reachable xxh store_new"
| reach_with_disk: "reachable xxh (with_disk fs root)"
| reach_enable_disk: "reachable xxh st \<Longrightarrow> reachable xxh (enable_disk root st)"
| reach_record: "reachable xxh st \<Longrightarrow> en_xxh32 env = xxh
    \<Longrightarrow> tracks env (insert (canonical env p) (set (ss_path_order st)))
    \<Longrightarrow> reachable xxh (snd (store_record env p text st))"
| reach_get: "reachable xxh st \<Longrightarrow> en_xxh32 env = xxh
    \<Longrightarrow> tracks env (insert (canonical env p) (set (ss_path_order st)))
    \<Longrightarrow> reachable xxh (snd (store_get env p tag st))"
| reach_seen: "reachable xxh st \<Longrightarrow> reachable xxh (record_seen_lines env p tag lines st)"
| reach_get_mut: "reachable xxh st \<Longrightarrow> touches_seen_only f \<Longrightarrow> reachable xxh (get_mut env p tag f st)"
| reach_relocate: "reachable xxh st
    \<Longrightarrow> tracks env (insert (canonical env t) (set (ss_path_order st)))
    \<Longrightarrow> reachable xxh (relocate env f t st)"
| reach_invalidate: "reachable xxh st \<Longrightarrow> reachable xxh (invalidate env p st)"
| reach_clear: "reachable xxh st \<Longrightarrow> reachable xxh (store_clear st)"

lemma empty_store_ok:
  "store_ok xxh store_new" "store_ok xxh (with_disk fs root)" "store_ok xxh (store_clear st)"
  by (simp_all add: store_ok_def store_core_def store_new_def with_disk_def store_clear_def
      retained_def al_bytes_def)

lemma enable_disk_ok: "store_ok xxh st \<Longrightarrow> store_ok xxh (enable_disk root st)"
  by (simp add: store_ok_def enable_disk_def store_core_def retained_def)

lemma reachable_ok: "reachable xxh st \<Longrightarrow> store_ok xxh st"
  by (induction rule: reachable.induct)
    (simp_all add: empty_store_ok enable_disk_ok store_record_ok store_get_ok get_mut_ok
      merge_seen_touches record_seen_lines_def relocate_ok invalidate_ok)



section \<open>What a recording leaves behind\<close>

lemma evict_oldest_versions:
  assumes "ss_path_order st = e # rest" and "canonical env e = e"
  shows "versions (evict_oldest env st) q = (if q = e then [] else versions st q)"
    and "ss_total_bytes (evict_oldest env st) \<le> ss_total_bytes st"
    and "ss_path_order (evict_oldest env st) = filter (\<lambda>q. q \<noteq> e) rest"
  using assms
  by (simp_all add: evict_oldest_def invalidate_def Let_def foldl_minus_vbytes versions_def
      delete_conv')

text \<open>The path at the recent end of the order survives the path bound.\<close>

lemma touch_loop_keeps:
  assumes "distinct (ss_path_order st)" "ss_path_order st = qs @ [p]" "tracks env (set (ss_path_order st))"
  shows "versions (touch_loop env st) p = versions st p
       \<and> ss_total_bytes (touch_loop env st) \<le> ss_total_bytes st"
  using assms
proof (induction env st arbitrary: qs rule: touch_loop.induct)
  case (1 env st)
  show ?case
  proof (cases "length (ss_path_order st) > MAX_PATHS")
    case False
    then show ?thesis by (simp add: touch_loop.simps [of env st])
  next
    case True
    then obtain e rest where qs: "qs = e # rest"
      using 1(3) by (cases qs) (auto simp: MAX_PATHS_def)
    with 1(2-4) have e: "canonical env e = e" "e \<noteq> p" "ss_path_order st = e # rest @ [p]" "e \<notin> set rest"
      by (auto simp: tracks_def)
    note ev = evict_oldest_versions [OF e(3,1)]
    have "filter (\<lambda>q. q \<noteq> e) (rest @ [p]) = rest @ [p]" using e(2,4) by (induction rest) auto
    with 1(1) [OF True, of rest] 1(2,4) ev e True show ?thesis
      by (auto simp: touch_loop.simps [of env st] tracks_def)
  qed
qed

lemma touch_path_keeps:
  assumes "distinct (ss_path_order st)" "tracks env (insert p (set (ss_path_order st)))"
  shows "versions (touch_path env p st) p = versions st p
       \<and> ss_total_bytes (touch_path env p st) \<le> ss_total_bytes st"
proof -
  let ?st = "st\<lparr>ss_path_order := filter (\<lambda>q. q \<noteq> p) (ss_path_order st) @ [p]\<rparr>"
  have "versions ?st p = versions st p" by (simp add: versions_def)
  with touch_loop_keeps [of ?st "filter (\<lambda>q. q \<noteq> p) (ss_path_order st)" p env] assms
  show ?thesis by (auto simp: touch_path_def tracks_def)
qed

lemma evict_oldest_shrinks:
  assumes "tracks env (set (ss_path_order st))"
  shows "versions (evict_oldest env st) q \<in> {[], versions st q}"
  using assms evict_oldest_versions(1) [of st _ _ env q]
  by (cases "ss_path_order st") (auto simp: evict_oldest_def tracks_def)

lemma touch_path_none:
  assumes "versions st q = []" and "tracks env (insert p (set (ss_path_order st)))"
  shows "versions (touch_path env p st) q = []"
proof -
  have "tracks env (set (ss_path_order st)) \<Longrightarrow> versions st q = [] \<Longrightarrow> versions (touch_loop env st) q = []" for st
  proof (induction env st rule: touch_loop.induct)
    case (1 env st)
    then show ?case
      using evict_oldest_shrinks [OF 1(2), of q] tracks_mono [OF 1(2) evict_oldest_order]
      by (auto simp: touch_loop.simps [of env st])
  qed
  from this [of "st\<lparr>ss_path_order := filter (\<lambda>q. q \<noteq> p) (ss_path_order st) @ [p]\<rparr>"] assms
  show ?thesis by (auto simp: touch_path_def tracks_def versions_def)
qed

definition record_fits :: "env \<Rightarrow> path \<Rightarrow> str \<Rightarrow> store \<Rightarrow> bool" where
  "record_fits env p text st \<longleftrightarrow>
     ss_total_bytes st + length text \<le> MAX_TOTAL_BYTES
     \<and> tracks env (insert (canonical env p) (set (ss_path_order st)))"

lemma cap_versions_last:
  "cap_versions t (vs @ [s]) = (ws, b) \<Longrightarrow> \<exists>us. ws = us @ [s]" "cap_versions t us = (ws, b) \<Longrightarrow> b \<le> t"
  by (cases vs; auto simp: cap_versions_def MAX_VERSIONS_PER_PATH_def split: if_splits)
    (auto simp: cap_versions_def split: if_splits)

lemma store_record_head:
  assumes ok: "store_ok (en_xxh32 env) st" and fits: "record_fits env p text st"
    and r: "store_record env p text st = (snap, st')"
  shows "\<exists>us. versions st' (canonical env p) = us @ [snap]"
    and "sn_text snap = text" "sn_tag snap = compute_tag (en_xxh32 env) text"
proof -
  let ?p = "canonical env p" and ?tag = "compute_tag (en_xxh32 env) text"
  let ?vs = "versions st ?p"
  from ok have d: "distinct (ss_path_order st)" by (simp add: store_ok_def store_core_def)
  from fits have tr: "tracks env (insert ?p (set (ss_path_order st)))"
    and b: "ss_total_bytes st + length text \<le> MAX_TOTAL_BYTES" by (simp_all add: record_fits_def)
  have v: "versions (st\<lparr>ss_by_path := put ?p ws (ss_by_path st)\<rparr>) ?p = ws"
    "versions (st\<lparr>ss_by_path := put ?p ws (ss_by_path st), ss_total_bytes := n\<rparr>) ?p = ws" for ws n
    by (simp_all add: versions_def)
  have "(\<exists>us. versions st' ?p = us @ [snap]) \<and> sn_text snap = text \<and> sn_tag snap = ?tag"
  proof (cases "find (\<lambda>s. sn_tag s = ?tag \<and> sn_text s = text) ?vs")
    case (Some e)
    then have "sn_tag e = ?tag" "sn_text e = text" by (auto simp: find_Some_iff)
    then show ?thesis
      using r Some d tr
      by (auto simp: store_record_def Let_def touch_path_keeps v)
  next
    case None
    let ?s = "\<lparr>sn_path = ?p, sn_text = text, sn_tag = ?tag, sn_recorded_at = en_now env, sn_seen_lines = None\<rparr>"
    obtain ws n where c: "cap_versions (ss_total_bytes st + length text) (?vs @ [?s]) = (ws, n)" by fastforce
    let ?st = "touch_path env ?p (st\<lparr>ss_by_path := put ?p ws (ss_by_path st), ss_total_bytes := n\<rparr>)"
    have k: "versions ?st ?p = ws" "ss_total_bytes ?st \<le> n"
      using touch_path_keeps [of "st\<lparr>ss_by_path := put ?p ws (ss_by_path st), ss_total_bytes := n\<rparr>" env ?p]
        d tr v by simp_all
    have "n \<le> MAX_TOTAL_BYTES" using cap_versions_last(2) [OF c] b by simp
    then have "evict_if_over_limit env ?st = ?st"
      using k(2) by (simp add: evict_if_over_limit.simps [of env ?st])
    then show ?thesis
      using r None c k(1) cap_versions_last(1) [OF c] by (auto simp: store_record_def Let_def)
  qed
  then show "\<exists>us. versions st' ?p = us @ [snap]" "sn_text snap = text" "sn_tag snap = ?tag" by auto
qed

lemma store_get_memory:
  "list_ex (\<lambda>s. sn_tag s = tag) (versions st (canonical env p)) \<Longrightarrow>
     store_get env p tag st = (find (\<lambda>s. sn_tag s = tag) (versions st (canonical env p)), st)"
  by (simp add: store_get_def Let_def)

lemma list_ex_find: "list_ex P xs \<Longrightarrow> \<exists>x. find P xs = Some x \<and> x \<in> set xs \<and> P x"
  by (induction xs) auto

section \<open>The interface the tools rely on\<close>

text \<open>A store of texts under content tags, as the read and edit tools use it.\<close>

locale tag_store =
  fixes ok :: "'s \<Rightarrow> bool" and fits :: "'k \<Rightarrow> str \<Rightarrow> 's \<Rightarrow> bool"
    and put_text :: "'k \<Rightarrow> str \<Rightarrow> 's \<Rightarrow> 's" and lookup :: "'k \<Rightarrow> str \<Rightarrow> 's \<Rightarrow> str option"
    and tag_of :: "str \<Rightarrow> str"
  assumes put_ok: "ok s \<Longrightarrow> fits k x s \<Longrightarrow> ok (put_text k x s)"
    and lookup_sound: "ok s \<Longrightarrow> lookup k t s = Some x \<Longrightarrow> tag_of x = t"
    and lookup_put: "ok s \<Longrightarrow> fits k x s \<Longrightarrow> \<exists>y. lookup k (tag_of x) (put_text k x s) = Some y"
begin

lemma minted_tag_resolves:
  assumes "ok s" "fits k x s"
  shows "\<exists>y. lookup k (tag_of x) (put_text k x s) = Some y \<and> tag_of y = tag_of x"
  using assms lookup_put lookup_sound put_ok by meson

text \<open>Without a collision on the tag the content itself comes back.\<close>

lemma minted_content_resolves:
  assumes "ok s" "fits k x s" and "\<And>y. tag_of y = tag_of x \<Longrightarrow> n y = n x"
  shows "\<exists>y. lookup k (tag_of x) (put_text k x s) = Some y \<and> n y = n x"
  using minted_tag_resolves [OF assms(1,2)] assms(3) by blast

end

lemma store_get_sound:
  assumes ok: "store_ok (en_xxh32 env) st" and tr: "tracks env (insert (canonical env p) (set (ss_path_order st)))"
    and g: "store_get env p tag st = (Some s, st')"
  shows "sn_tag s = tag" and "compute_tag (en_xxh32 env) (sn_text s) = tag"
proof -
  let ?p = "canonical env p"
  have "store_ok (en_xxh32 env) st'" using store_get_ok [OF ok refl tr, of tag] g by simp
  then have core: "store_core (en_xxh32 env) st'" by (simp add: store_ok_def)
  have "find (\<lambda>s. sn_tag s = tag) (versions st' ?p) = Some s"
    using g by (auto simp: store_get_def Let_def split: option.splits prod.splits if_splits)
  then have s: "s \<in> set (versions st' ?p)" "sn_tag s = tag"
    by (auto simp: find_Some_iff)
  then have "hist_ok (en_xxh32 env) ?p (versions st' ?p)" by (intro versions_hist [OF core]) auto
  with s show "sn_tag s = tag" "compute_tag (en_xxh32 env) (sn_text s) = tag"
    by (simp_all add: hist_ok_def)
qed

text \<open>The interface on the store of one moment's surroundings. A store is well-formed there when it
  keeps the invariant and its keys are still canonical.\<close>

definition store_fit :: "env \<Rightarrow> store \<Rightarrow> bool" where
  "store_fit env st \<longleftrightarrow> store_ok (en_xxh32 env) st \<and> tracks env (set (ss_path_order st))
     \<and> (\<forall>p. canonical env (canonical env p) = canonical env p)"

definition lookup_text :: "env \<Rightarrow> path \<Rightarrow> str \<Rightarrow> store \<Rightarrow> str option" where
  "lookup_text env p tag st = map_option sn_text (fst (store_get env p tag st))"

lemma store_fit_tracks: "store_fit env st \<Longrightarrow> tracks env (insert (canonical env p) (set (ss_path_order st)))"
  unfolding store_fit_def tracks_def by blast

lemma store_record_order:
  "set (ss_path_order (snd (store_record env p text st))) \<subseteq> insert (canonical env p) (set (ss_path_order st))"
proof -
  have ev: "set (ss_path_order (evict_if_over_limit env st)) \<subseteq> set (ss_path_order st)" for st
  proof (induction env st rule: evict_if_over_limit.induct)
    case (1 env st)
    then show ?case using evict_oldest_order [of env st]
      by (auto simp: evict_if_over_limit.simps [of env st])
  qed
  let ?p = "canonical env p"
  have t: "set (ss_path_order (touch_path env ?p (st\<lparr>ss_by_path := al, ss_total_bytes := n\<rparr>)))
      \<subseteq> insert ?p (set (ss_path_order st))" for al n
    using touch_path_order [of env ?p "st\<lparr>ss_by_path := al, ss_total_bytes := n\<rparr>"] by simp
  have t': "set (ss_path_order (touch_path env ?p (st\<lparr>ss_by_path := al\<rparr>)))
      \<subseteq> insert ?p (set (ss_path_order st))" for al
    using touch_path_order [of env ?p "st\<lparr>ss_by_path := al\<rparr>"] by simp
  show ?thesis
  proof (cases "find (\<lambda>s. sn_tag s = compute_tag (en_xxh32 env) text \<and> sn_text s = text) (versions st ?p)")
    case None
    then show ?thesis
      by (simp add: store_record_def Let_def case_prod_beta subset_trans [OF ev t])
  next
    case (Some e)
    then show ?thesis by (simp add: store_record_def Let_def t')
  qed
qed

interpretation snap: tag_store "store_fit env"
  "\<lambda>p x st. ss_total_bytes st + length x \<le> MAX_TOTAL_BYTES"
  "\<lambda>p x st. snd (store_record env p x st)" "lookup_text env" "compute_tag (en_xxh32 env)" for env
proof
  fix st p and x :: str
  assume fit: "store_fit env st" and b: "ss_total_bytes st + length x \<le> MAX_TOTAL_BYTES"
  note tr = store_fit_tracks [OF fit, of p]
  from fit have ok: "store_ok (en_xxh32 env) st" by (simp add: store_fit_def)
  let ?st = "snd (store_record env p x st)"
  show "store_fit env ?st"
    using store_record_ok [OF ok refl tr, of x] tracks_mono [OF tr store_record_order [of env p x st]] fit
    by (simp add: store_fit_def)
  obtain snap st' where r: "store_record env p x st = (snap, st')" by fastforce
  note h = store_record_head [OF ok _ r]
  have "list_ex (\<lambda>s. sn_tag s = compute_tag (en_xxh32 env) x) (versions st' (canonical env p))"
    using h b tr by (auto simp: record_fits_def)
  from list_ex_find [OF this] store_get_memory [OF this] r
  show "\<exists>y. lookup_text env p (compute_tag (en_xxh32 env) x) ?st = Some y"
    by (auto simp: lookup_text_def)
next
  fix st p tag x
  assume fit: "store_fit env st" and l: "lookup_text env p tag st = Some x"
  from fit have ok: "store_ok (en_xxh32 env) st" by (simp add: store_fit_def)
  from l obtain s st' where "store_get env p tag st = (Some s, st')" "sn_text s = x"
    by (cases "store_get env p tag st") (auto simp: lookup_text_def)
  then show "compute_tag (en_xxh32 env) x = tag"
    using store_get_sound [OF ok store_fit_tracks [OF fit]] by blast
qed

section \<open>Properties of recording, provenance, moving\<close>

text \<open>A small file system without links, for concrete runs.\<close>

definition plain_env :: env where
  "plain_env = \<lparr>en_realpath = Some, en_now = 1, en_fault = (\<lambda>_. False), en_xxh32 = (\<lambda>_. 0)\<rparr>"

lemma plain_canonical [simp]: "canonical plain_env p = p"
  by (simp add: canonical_def plain_env_def)

lemma plain_tracks [simp]: "tracks plain_env Q"
  by (simp add: tracks_def)

lemma plain_fit_new: "store_fit plain_env store_new" "store_fit plain_env (with_disk fs root)"
  by (simp_all add: store_fit_def empty_store_ok)

lemma plain_env_simps [simp]:
  "en_now plain_env = 1" "en_fault plain_env c = False" "en_xxh32 plain_env = (\<lambda>_. 0)"
  by (simp_all add: plain_env_def)

lemma plain_tag [simp]: "compute_tag (\<lambda>_. 0) x = ''000000''"
proof -
  have h: "hex_digit 0 = CHR ''0''" by code_simp
  have "replicate 5 c = [c, c, c, c, c]" for c :: char by (simp add: numeral_eq_Suc)
  then show ?thesis
    by (simp add: compute_tag_def Let_def show_hex.simps [of 0] pad_left_def TAG_LEN_def h)
qed

text \<open>Both eviction loops end at once within the bounds.\<close>

lemma eviction_idle:
  "length (ss_path_order st) \<le> MAX_PATHS \<Longrightarrow> touch_loop env st = st"
  "ss_total_bytes st \<le> MAX_TOTAL_BYTES \<Longrightarrow> evict_if_over_limit env st = st"
  by (simp_all add: touch_loop.simps [of env st] evict_if_over_limit.simps [of env st])

lemmas run_simps = Let_def store_record_def store_new_def with_disk_def versions_def cap_versions_def
  touch_path_def eviction_idle MAX_PATHS_def MAX_TOTAL_BYTES_def MAX_VERSIONS_PER_PATH_def put_def
  disk_write_def disk_dir_def

text \<open>The tag the store hands out for a text it has room for is resolvable right away: the
  recorded version is the path's newest and carries exactly that text and its content tag, and
  looking the tag up finds, without touching the store, a version of that tag.\<close>
lemma record_then_resolve:
  assumes fit: "store_fit env st" and room: "ss_total_bytes st + length x \<le> MAX_TOTAL_BYTES"
    and r: "store_record env p x st = (snap, st')"
  shows "store_head env p st' = Some snap \<and> sn_text snap = x \<and> sn_tag snap = compute_tag (en_xxh32 env) x
    \<and> (\<exists>s. store_get env p (sn_tag snap) st' = (Some s, st')
           \<and> compute_tag (en_xxh32 env) (sn_text s) = sn_tag snap)"
proof -
  from fit have ok: "store_ok (en_xxh32 env) st" by (simp add: store_fit_def)
  have f: "record_fits env p x st"
    using room store_fit_tracks [OF fit] by (simp add: record_fits_def)
  from store_record_head [OF ok f r] obtain us where
    v: "versions st' (canonical env p) = us @ [snap]"
    and s: "sn_text snap = x" "sn_tag snap = compute_tag (en_xxh32 env) x" by blast
  have "list_ex (\<lambda>s. sn_tag s = sn_tag snap) (versions st' (canonical env p))" using v by simp
  from store_get_memory [OF this] list_ex_find [OF this] obtain y where
    y: "store_get env p (sn_tag snap) st' = (Some y, st')" by auto
  have "lookup_text env p (compute_tag (en_xxh32 env) x) st' = Some (sn_text y)"
    using y s by (simp add: lookup_text_def)
  then have "compute_tag (en_xxh32 env) (sn_text y) = sn_tag snap"
    using snap.put_ok [OF fit room, of p] r snap.lookup_sound s(2) by fastforce
  moreover have "store_head env p st' = Some snap"
    using v by (cases us) (simp_all add: store_head_def)
  ultimately show ?thesis using y s by auto
qed

text \<open>Recording content that is already retained adds no version and keeps its provenance:
  the existing version becomes the newest with all of its seen lines, only its time changes, and
  the byte counter does not grow.\<close>
lemma rerecord_keeps_provenance:
  assumes "store_fit env st" and "by_content env p x st = Some s"
  shows "fst (store_record env p x st) = s\<lparr>sn_recorded_at := en_now env\<rparr>
    \<and> ss_total_bytes (snd (store_record env p x st)) \<le> ss_total_bytes st"
proof -
  let ?p = "canonical env p" and ?tag = "compute_tag (en_xxh32 env) x"
  from assms(1) have core: "store_core (en_xxh32 env) st" by (simp add: store_fit_def store_ok_def)
  have "versions st ?p \<noteq> []" using assms(2) by (auto simp: by_content_def)
  then have "\<forall>v \<in> set (versions st ?p). sn_tag v = compute_tag (en_xxh32 env) (sn_text v)"
    using versions_hist [OF core] unfolding hist_ok_def by blast
  then have "find (\<lambda>v. sn_tag v = ?tag \<and> sn_text v = x) (versions st ?p) = find (\<lambda>v. sn_text v = x) (versions st ?p)"
    by (intro find_cong) auto
  moreover have "ss_total_bytes (touch_path env ?p (st\<lparr>ss_by_path := al\<rparr>)) \<le> ss_total_bytes st" for al
    using touch_path_keeps [of "st\<lparr>ss_by_path := al\<rparr>" env ?p] core store_fit_tracks [OF assms(1), of p]
    by (simp add: store_core_def)
  ultimately show ?thesis
    using assms(2) by (simp add: store_record_def Let_def by_content_def)
qed

lemma find_update_first:
  "(\<And>s. P s \<Longrightarrow> P (f s)) \<Longrightarrow> find P (update_first P f vs) = map_option f (find P vs)"
  by (induction vs) auto

lemma map_of_map_at:
  "map_of (map (\<lambda>(k, vs). (k, if k = c then g vs else vs)) al) q =
     map_option (\<lambda>vs. if q = c then g vs else vs) (map_of al q)"
  by (induction al) auto

lemma get_mut_versions:
  "versions (get_mut env p tag f st) q =
     (if q = canonical env p then update_first (\<lambda>s. sn_tag s = tag) f (versions st q) else versions st q)"
  by (cases "q = canonical env p"; cases "map_of (ss_by_path st) q")
    (simp_all add: versions_def get_mut_def Let_def map_of_map_at)

lemma get_mut_get:
  assumes "find (\<lambda>s. sn_tag s = tag) (versions st (canonical env p)) = Some s"
    and "\<And>v. sn_tag (f v) = sn_tag v"
  shows "store_get env p tag (get_mut env p tag f st) = (Some (f s), get_mut env p tag f st)"
proof -
  let ?vs = "versions st (canonical env p)" and ?P = "\<lambda>s. sn_tag s = tag"
  have m: "find ?P (update_first ?P f ?vs) = Some (f s)"
    using find_update_first [of ?P f ?vs] assms by simp
  then have "list_ex ?P (update_first ?P f ?vs)" by (auto simp: list_ex_iff find_Some_iff)
  with m show ?thesis by (simp add: store_get_memory get_mut_versions)
qed

lemma store_get_found:
  assumes "store_get env p tag st = (Some s, st')"
  shows "find (\<lambda>s. sn_tag s = tag) (versions st' (canonical env p)) = Some s"
    and "store_get env p tag st' = (Some s, st')"
proof -
  show f: "find (\<lambda>s. sn_tag s = tag) (versions st' (canonical env p)) = Some s"
    using assms by (auto simp: store_get_def Let_def split: option.splits prod.splits if_splits)
  then have "list_ex (\<lambda>s. sn_tag s = tag) (versions st' (canonical env p))"
    by (auto simp: list_ex_iff find_Some_iff)
  with f show "store_get env p tag st' = (Some s, st')" by (simp add: store_get_memory)
qed

text \<open>Lines a tool displayed are added to the provenance of the cited version and to nothing else:
  afterwards the tag resolves to the same version with the new lines joined to those already seen,
  and the histories of all other paths are unchanged.\<close>
lemma seen_lines_accumulate:
  assumes "list_ex (\<lambda>s. sn_tag s = tag) (versions st (canonical env p))"
    and "fst (store_get env p tag st) = Some s"
  shows "fst (store_get env p tag (record_seen_lines env p tag lines st)) = Some (merge_seen lines s)
    \<and> (\<forall>seen. sn_seen_lines s = Some seen \<longrightarrow> sn_seen_lines (merge_seen lines s) = Some (seen \<union> lines))
    \<and> (\<forall>q. q \<noteq> canonical env p \<longrightarrow> versions (record_seen_lines env p tag lines st) q = versions st q)"
proof -
  from assms have "find (\<lambda>s. sn_tag s = tag) (versions st (canonical env p)) = Some s"
    by (simp add: store_get_memory)
  then show ?thesis
    using get_mut_get [of tag st env p s "merge_seen lines"]
    by (simp add: record_seen_lines_def get_mut_versions merge_seen_def)
qed

lemma dedup_versions_id: "distinct (map snap_key vs) \<Longrightarrow> snap_key ` set vs \<inter> seen = {} \<Longrightarrow> dedup_versions seen vs = vs"
  by (induction seen vs rule: dedup_versions.induct) auto

text \<open>Moving a file carries its history along: when the destination has no history of its own,
  every version of the source is a version of the destination afterwards, with the same tag, text
  and seen lines, and the source has none left.\<close>
lemma relocate_carries_history:
  assumes fit: "store_fit env st" and ne: "canonical env f \<noteq> canonical env t"
    and dst: "versions st (canonical env t) = []"
  shows "versions (relocate env f t st) (canonical env f) = []
    \<and> (\<forall>s \<in> set (versions st (canonical env f)).
         s\<lparr>sn_path := canonical env t\<rparr> \<in> set (versions (relocate env f t st) (canonical env t)))"
proof (cases "map_of (ss_by_path st) (canonical env f)")
  case None
  then show ?thesis by (simp add: relocate_def Let_def versions_def)
next
  case (Some src)
  let ?f = "canonical env f" and ?t = "canonical env t"
  from fit have core: "store_core (en_xxh32 env) st" by (simp add: store_fit_def store_ok_def)
  have src: "versions st ?f = src" using Some by (simp add: versions_def)
  have h: "hist_ok (en_xxh32 env) ?f src"
    using core Some by (auto simp: store_core_def dest!: map_of_SomeD)
  let ?m = "map (\<lambda>s. s\<lparr>sn_path := ?t\<rparr>) src"
  have "snap_key \<circ> (\<lambda>s. s\<lparr>sn_path := ?t\<rparr>) = snap_key" by (simp add: fun_eq_iff snap_key_def)
  then have m: "relocated_versions st ?f ?t = ?m"
    using h ne dst src dedup_versions_id [of ?m "{}"] by (simp add: relocated_versions_def hist_ok_def)
  have "newest ?m = sort_key sn_recorded_at ?m"
    using h by (simp add: newest_def hist_ok_def)
  then have set: "set (newest ?m) = (\<lambda>s. s\<lparr>sn_path := ?t\<rparr>) ` set src" by simp
  let ?st = "st\<lparr>ss_by_path := put ?t (newest ?m) (AList.delete ?f (ss_by_path st)),
               ss_total_bytes := ss_total_bytes st - vbytes (oldest ?m)\<rparr>"
  have r: "relocate env f t st = touch_path env ?t ?st"
    using relocate_eq [OF Some refl refl, of t] m by simp
  have "versions (touch_path env ?t ?st) ?t = versions ?st ?t"
    using touch_path_keeps [of ?st env ?t] store_fit_tracks [OF fit, of t] core
    by (simp add: store_core_def)
  moreover have "versions ?st ?t = newest ?m" "versions ?st ?f = []"
    using ne by (simp_all add: versions_def delete_conv')
  moreover have "versions (touch_path env ?t ?st) ?f = []"
    using touch_path_none [of ?st ?f env ?t] \<open>versions ?st ?f = []\<close> store_fit_tracks [OF fit, of t] by simp
  ultimately show ?thesis using r set src by simp
qed

text \<open>After a recording the retained text is within the global byte cap, provided it was before.\<close>
lemma record_within_byte_cap:
  assumes "store_fit env st" and "retained st \<le> MAX_TOTAL_BYTES"
  shows "retained (snd (store_record env p x st)) \<le> MAX_TOTAL_BYTES"
  using assms store_record_bounds [OF _ refl store_fit_tracks [OF assms(1)]]
  by (simp add: store_fit_def)

text \<open>Moving a file onto a path that already holds the same content makes the byte counter drift
  above the text retained, and it never comes back: recording one byte at two paths, moving one onto
  the other and invalidating the result leaves an empty store whose counter still says one byte.\<close>
lemma relocate_counter_drift:
  "let st = snd (store_record plain_env (True, [''b'']) ''x''
              (snd (store_record plain_env (True, [''a'']) ''x'' store_new)));
       st' = invalidate plain_env (True, [''b'']) (relocate plain_env (True, [''a'']) (True, [''b'']) st)
   in ss_by_path st' = [] \<and> ss_total_bytes st' = 1"
proof -
  let ?v = "\<lambda>p. \<lparr>sn_path = (True, [p]), sn_text = ''x'', sn_tag = ''000000'', sn_recorded_at = 1,
                 sn_seen_lines = None\<rparr>"
  let ?st = "\<lparr>ss_by_path = [((True, [''a'']), [?v ''a'']), ((True, [''b'']), [?v ''b''])],
             ss_path_order = [(True, [''a'']), (True, [''b''])], ss_total_bytes = 2,
             ss_disk = None, ss_fs = \<lambda>_. []\<rparr>"
  have st: "snd (store_record plain_env (True, [''b'']) ''x''
      (snd (store_record plain_env (True, [''a'']) ''x'' store_new))) = ?st"
    by (simp add: run_simps)
  have "ss_by_path (relocate plain_env (True, [''a'']) (True, [''b'']) ?st) = [((True, [''b'']), [?v ''b''])]"
    "ss_total_bytes (relocate plain_env (True, [''a'']) (True, [''b'']) ?st) = 2"
    by (simp_all add: relocate_def run_simps snap_key_def)
  then show ?thesis
    unfolding st Let_def by (simp add: invalidate_def Let_def versions_def)
qed

section \<open>The disk tier gives back what was recorded\<close>

text \<open>The newest element is not among those a bounded clean-up drops.\<close>

lemma newest_not_dropped:
  fixes f :: "'a \<Rightarrow> int"
  assumes "distinct xs" "x \<in> set xs" "\<And>y. y \<in> set xs \<Longrightarrow> y \<noteq> x \<Longrightarrow> f y < f x" "0 < k"
  shows "x \<notin> set (take (length xs - k) (sort_key f xs))"
proof
  let ?ys = "sort_key f xs" and ?m = "length xs - k"
  assume x: "x \<in> set (take ?m ?ys)"
  then have m: "?m < length ?ys" using assms(4) by (cases xs) auto
  have d: "distinct ?ys" using assms(1) by (simp add: distinct_sort)
  then have "set (take ?m ?ys) \<inter> set (drop ?m ?ys) = {}"
    by (metis append_take_drop_id distinct_append)
  moreover have h: "?ys ! ?m \<in> set (drop ?m ?ys)" using m by (metis Cons_nth_drop_Suc list.set_intros(1))
  ultimately have "?ys ! ?m \<noteq> x" using x by blast
  moreover have "?ys ! ?m \<in> set xs" using m by (metis nth_mem set_sort)
  ultimately have "f (?ys ! ?m) < f x" using assms(3) by blast
  moreover obtain i where i: "i < ?m" "?ys ! i = x" using x m by (auto simp: in_set_conv_nth)
  then have "f x \<le> f (?ys ! ?m)"
    using m sorted_nth_mono [OF sorted_sort_key [of f xs], of i ?m] by simp
  ultimately show False by simp
qed

text \<open>A directory tree all of whose entries are older than now; names are unique in a directory.\<close>

definition files_older :: "int \<Rightarrow> (str \<times> dfile) list \<Rightarrow> bool" where
  "files_older now fs \<longleftrightarrow> distinct (map fst fs) \<and> (\<forall>x \<in> set fs. df_mtime (snd x) < now)"

definition disk_older :: "int \<Rightarrow> disk \<Rightarrow> bool" where
  "disk_older now d \<longleftrightarrow> distinct (map fst d)
     \<and> (\<forall>x \<in> set d. dd_mtime (snd x) < now \<and> files_older now (dd_files (snd x)))"

lemma update_newest:
  assumes "distinct (map fst al)" "\<forall>x \<in> set al. g (snd x) < g v"
  shows "distinct (AList.update k v al)" "(k, v) \<in> set (AList.update k v al)"
    "y \<in> set (AList.update k v al) \<Longrightarrow> y \<noteq> (k, v) \<Longrightarrow> g (snd y) < (g v :: int)"
proof -
  have dk: "distinct (map fst (AList.update k v al))" using distinct_update [OF assms(1)] .
  then show "distinct (AList.update k v al)" by (simp add: distinct_map)
  have m: "map_of (AList.update k v al) = (map_of al)(k \<mapsto> v)" by (rule update_conv')
  then show "(k, v) \<in> set (AList.update k v al)" by (simp add: map_of_SomeD)
  assume "y \<in> set (AList.update k v al)" "y \<noteq> (k, v)"
  then have "map_of (AList.update k v al) (fst y) = Some (snd y)"
    using dk map_of_is_SomeI [of "AList.update k v al" "fst y" "snd y"] by simp
  with m \<open>y \<noteq> (k, v)\<close> have "map_of al (fst y) = Some (snd y)" by (cases y) (auto split: if_splits)
  then have "(fst y, snd y) \<in> set al" by (rule map_of_SomeD)
  with assms(2) show "g (snd y) < g v" by fastforce
qed

lemma map_of_filter_keep:
  "map_of al k = Some v \<Longrightarrow> k \<notin> S \<Longrightarrow> map_of (filter (\<lambda>(k, v). k \<notin> S) al) k = Some v"
  by (induction al) auto

lemma clean_up_keeps:
  fixes g :: "'v \<Rightarrow> int"
  assumes d: "distinct (map fst al)" "\<forall>x \<in> set al. g (snd x) < g v" and Q: "Q (k, v)" "0 < K"
  defines "w \<equiv> AList.update k v al"
  assumes S: "S \<subseteq> fst ` set (take (length (filter Q w) - K) (sort_key (\<lambda>(k, v). g v) (filter Q w)))"
  shows "map_of (filter (\<lambda>(k, v). k \<notin> S) w) k = Some v"
proof -
  note up = update_newest [OF d, where k = k]
  have m: "map_of w k = Some v" by (simp add: w_def update_conv')
  have dw: "distinct (map fst w)" unfolding w_def using distinct_update [OF d(1)] .
  let ?t = "take (length (filter Q w) - K) (sort_key (\<lambda>(k, v). g v) (filter Q w))"
  have nd: "(k, v) \<notin> set ?t"
    using up Q by (intro newest_not_dropped) (auto simp: w_def case_prod_beta)
  have "k \<notin> S"
  proof
    assume "k \<in> S"
    with S obtain v' where t: "(k, v') \<in> set ?t" by fastforce
    then have "(k, v') \<in> set (sort_key (\<lambda>(k, v). g v) (filter Q w))" by (rule in_set_takeD)
    then have "(k, v') \<in> set w" by simp
    then have "v' = v" using m dw by (simp add: map_of_is_SomeI)
    with t nd show False by simp
  qed
  with m show ?thesis by (rule map_of_filter_keep)
qed

lemma prune_files_keeps:
  assumes "files_older now fs" "df_mtime v = now" "list_all is_hexdigit n" "\<And>c. \<not> en_fault env c"
  shows "map_of (prune_files env key (AList.update n v fs)) n = Some v"
  using assms unfolding prune_files_def Let_def
  by (simp, intro clean_up_keeps [where g = df_mtime and K = MAX_VERSIONS_PER_PATH
        and Q = "\<lambda>(n, f). list_all is_hexdigit n"])
    (auto simp: files_older_def MAX_VERSIONS_PER_PATH_def)

lemma disk_gc_keeps:
  assumes "disk_older now d" "dd_mtime v = now" "\<And>c. \<not> en_fault env c"
  shows "map_of (disk_gc env (AList.update k v d)) k = Some v"
  using assms unfolding disk_gc_def Let_def
  by (simp, intro clean_up_keeps [where g = dd_mtime and K = MAX_DISK_PATHS and Q = "\<lambda>_. True"])
    (auto simp: disk_older_def MAX_DISK_PATHS_def)

lemma is_hexdigit_tag: "list_all is_hexdigit (compute_tag xxh x)"
  using compute_tag_shape [of xxh x] by (auto simp: list_all_iff is_hexdigit_def)

lemma disk_write_stores:
  assumes "ss_disk st = Some root" "disk_older (en_now env) (ss_fs st root)" "\<And>c. \<not> en_fault env c"
    "list_all is_hexdigit (sn_tag snap)"
  shows "\<exists>dir f. map_of (ss_fs (disk_write env p snap st) root) (disk_key p) = Some dir
           \<and> map_of (dd_files dir) (sn_tag snap) = Some f \<and> df_text f = sn_text snap"
proof -
  let ?d = "ss_fs st root" and ?k = "disk_key p"
  let ?fs = "case map_of ?d ?k of None \<Rightarrow> [] | Some dir \<Rightarrow> dd_files dir"
  let ?f = "\<lparr>df_text = sn_text snap, df_mtime = en_now env\<rparr>"
  let ?dir = "\<lparr>dd_files = prune_files env ?k (AList.update (sn_tag snap) ?f ?fs), dd_mtime = en_now env\<rparr>"
  have "files_older (en_now env) ?fs"
    using assms(2) by (fastforce simp: disk_older_def files_older_def split: option.split dest!: map_of_SomeD)
  then have f: "map_of (dd_files ?dir) (sn_tag snap) = Some ?f"
    using prune_files_keeps [of "en_now env" ?fs ?f "sn_tag snap" env ?k] assms(3,4) by simp
  have "map_of (ss_fs (disk_write env p snap st) root) ?k = Some ?dir"
  proof (cases "map_of ?d ?k")
    case None
    then show ?thesis
      using assms(1,3) disk_gc_keeps [OF assms(2), of ?dir env ?k]
      by (simp add: disk_write_def disk_dir_def Let_def set_disk_def)
  next
    case (Some dir)
    then show ?thesis
      using assms(1,3) by (simp add: disk_write_def disk_dir_def Let_def set_disk_def update_conv')
  qed
  with f show ?thesis by auto
qed

text \<open>What every eviction keeps, both loops keep.\<close>

lemma eviction_keeps:
  assumes "\<And>st. P st \<Longrightarrow> P (evict_oldest env st)" and "P st"
  shows "P (touch_loop env st)" and "P (evict_if_over_limit env st)"
proof -
  have "(\<And>st. P st \<Longrightarrow> P (evict_oldest e st)) \<Longrightarrow> P st \<Longrightarrow> P (touch_loop e st)" for e
  proof (induction e st rule: touch_loop.induct)
    case (1 e st)
    then show ?case by (simp add: touch_loop.simps [of e st])
  qed
  with assms show "P (touch_loop env st)" by blast
  have "(\<And>st. P st \<Longrightarrow> P (evict_oldest e st)) \<Longrightarrow> P st \<Longrightarrow> P (evict_if_over_limit e st)" for e
  proof (induction e st rule: evict_if_over_limit.induct)
    case (1 e st)
    then show ?case by (simp add: evict_if_over_limit.simps [of e st])
  qed
  with assms show "P (evict_if_over_limit env st)" by blast
qed

definition disk_at :: "path \<Rightarrow> int \<Rightarrow> store \<Rightarrow> bool" where
  "disk_at root now st \<longleftrightarrow> ss_disk st = Some root \<and> disk_older now (ss_fs st root)"

lemma disk_older_delete: "disk_older now d \<Longrightarrow> disk_older now (AList.delete k d)"
  using distinct_delete [of d k] by (auto simp: disk_older_def AList.delete_eq)

lemma disk_at_evict: "disk_at root now st \<Longrightarrow> disk_at root now (evict_oldest env st)"
  by (cases "ss_path_order st")
    (auto simp: disk_at_def evict_oldest_def invalidate_def disk_remove_def disk_dir_def Let_def
      set_disk_def disk_older_delete)

lemma disk_at_touch: "disk_at root now st \<Longrightarrow> disk_at root now (touch_path env p st)"
  unfolding touch_path_def
  by (rule eviction_keeps(1) [where P = "disk_at root now", OF disk_at_evict]) (simp_all add: disk_at_def)

lemma store_record_disk:
  assumes d: "disk_at root (en_now env) st" and "\<And>c. \<not> en_fault env c"
    and r: "store_record env p x st = (snap, st')" and s: "sn_text snap = x" "sn_tag snap = compute_tag (en_xxh32 env) x"
  shows "\<exists>dir f. map_of (ss_fs st' root) (disk_key (canonical env p)) = Some dir
           \<and> map_of (dd_files dir) (sn_tag snap) = Some f \<and> df_text f = x"
proof -
  let ?p = "canonical env p"
  have t: "disk_at root (en_now env) (touch_path env ?p (st\<lparr>ss_by_path := al, ss_total_bytes := n\<rparr>))"
    "disk_at root (en_now env) (touch_path env ?p (st\<lparr>ss_by_path := al\<rparr>))" for al n
    using d by (intro disk_at_touch; simp add: disk_at_def)+
  have "\<exists>st1. disk_at root (en_now env) st1 \<and> st' = disk_write env ?p snap st1"
  proof (cases "find (\<lambda>s. sn_tag s = compute_tag (en_xxh32 env) x \<and> sn_text s = x) (versions st ?p)")
    case None
    let ?s = "\<lparr>sn_path = ?p, sn_text = x, sn_tag = compute_tag (en_xxh32 env) x, sn_recorded_at = en_now env,
               sn_seen_lines = None\<rparr>"
    obtain ws n where c: "cap_versions (ss_total_bytes st + length x) (versions st ?p @ [?s]) = (ws, n)"
      by fastforce
    let ?st = "evict_if_over_limit env
      (touch_path env ?p (st\<lparr>ss_by_path := put ?p ws (ss_by_path st), ss_total_bytes := n\<rparr>))"
    have "disk_at root (en_now env) ?st" 
      by (rule eviction_keeps(2) [where P = "disk_at root (en_now env)", OF disk_at_evict t(1)])
    moreover have "st' = disk_write env ?p snap ?st"
      using r None c by (auto simp: store_record_def Let_def)
    ultimately show ?thesis by blast
  next
    case (Some e)
    with r t(2) show ?thesis by (auto simp: store_record_def Let_def)
  qed
  then obtain st1 where "disk_at root (en_now env) st1" "st' = disk_write env ?p snap st1" by blast
  with disk_write_stores [of st1 root env snap ?p] assms(2) s is_hexdigit_tag [of "en_xxh32 env" x]
  show ?thesis by (simp add: disk_at_def)
qed

text \<open>A recorded text survives a restart through the disk tier: a fresh store on the same disk
  root resolves the tag to exactly the recorded text, without read provenance. The text is as the
  tools record it (no carriage return, no byte-order mark), no file-system call fails, and the
  mirror holds nothing younger than the recording.\<close>
lemma disk_round_trip:
  assumes fit: "store_fit env st" and room: "ss_total_bytes st + length x \<le> MAX_TOTAL_BYTES"
    and disk: "disk_at root (en_now env) st" and nf: "\<And>c. \<not> en_fault env c"
    and lf: "CR \<notin> set x" "\<not> has_bom x"
    and r: "store_record env p x st = (snap, st')"
    and env': "en_realpath env' = en_realpath env" "en_xxh32 env' = en_xxh32 env" "\<And>c. \<not> en_fault env' c"
  shows "\<exists>s. fst (store_get env' p (sn_tag snap) (with_disk (ss_fs st') root)) = Some s
           \<and> sn_text s = x \<and> sn_tag s = sn_tag snap \<and> sn_seen_lines s = None"
proof -
  have can: "canonical env' p = canonical env p" for p unfolding canonical_def env'(1) ..
  let ?p = "canonical env p" and ?st = "with_disk (ss_fs st') root"
  have tr: "tracks env (insert ?p (set (ss_path_order st)))" by (rule store_fit_tracks [OF fit])
  from fit have ok: "store_ok (en_xxh32 env) st" by (simp add: store_fit_def)
  note h = store_record_head [OF ok _ r]
  have s: "sn_text snap = x" "sn_tag snap = compute_tag (en_xxh32 env) x"
    using h room tr by (simp_all add: record_fits_def)
  obtain dir f where f: "map_of (ss_fs st' root) (disk_key ?p) = Some dir"
    "map_of (dd_files dir) (sn_tag snap) = Some f" "df_text f = x"
    using store_record_disk [OF disk nf r s] by blast
  let ?s = "\<lparr>sn_path = ?p, sn_text = x, sn_tag = sn_tag snap, sn_recorded_at = en_now env', sn_seen_lines = None\<rparr>"
  let ?new = "?st\<lparr>ss_by_path := put ?p [?s] (ss_by_path ?st), ss_total_bytes := length x\<rparr>"
  have hy: "disk_hydrate env' ?p (sn_tag snap) ?st = (Some ?s, touch_path env' ?p ?new)"
    using f s(2) env'(2,3) normalize_to_lf_id [OF lf]
    by (simp add: disk_hydrate_def disk_dir_def with_disk_def Let_def versions_def cap_versions_def
        MAX_VERSIONS_PER_PATH_def)
  have "tracks env' (insert ?p (set (ss_path_order ?new)))"
    using tr can by (simp add: tracks_def with_disk_def)
  then have "versions (touch_path env' ?p ?new) ?p = [?s]"
    using touch_path_keeps [of ?new env' ?p] by (simp add: with_disk_def versions_def)
  moreover have "versions ?st ?p = []" by (simp add: with_disk_def versions_def)
  ultimately show ?thesis using hy by (simp add: store_get_def Let_def can)
qed

text \<open>Rehydration does not apply the global byte cap: looking up a tag whose mirrored file is larger
  than the cap leaves the whole text retained in memory.\<close>
lemma hydrate_ignores_byte_cap:
  "let x = replicate (Suc MAX_TOTAL_BYTES) (CHR ''a''); p = (True, [''a'']); root = (True, [''cache'']);
       st = with_disk (\<lambda>_. [(disk_key p, \<lparr>dd_files = [(''000000'', \<lparr>df_text = x, df_mtime = 0\<rparr>)], dd_mtime = 0\<rparr>)]) root
   in retained (snd (store_get plain_env p ''000000'' st)) = Suc MAX_TOTAL_BYTES"
proof -
  let ?x = "replicate (Suc MAX_TOTAL_BYTES) (CHR ''a'')" and ?p = "(True, [''a''])"
  let ?st = "with_disk (\<lambda>_. [(disk_key ?p, \<lparr>dd_files = [(''000000'', \<lparr>df_text = ?x, df_mtime = 0\<rparr>)], dd_mtime = 0\<rparr>)])
               (True, [''cache''])"
  have n: "normalize_to_lf ?x = ?x"
    by (intro normalize_to_lf_id) (simp_all add: has_bom_def BOM_def starts_with_def)
  have "retained (snd (store_get plain_env ?p ''000000'' ?st)) = Suc MAX_TOTAL_BYTES"
    using n by (simp add: store_get_def disk_hydrate_def disk_dir_def with_disk_def versions_def Let_def
        cap_versions_def MAX_VERSIONS_PER_PATH_def touch_path_def eviction_idle MAX_PATHS_def put_def
        retained_def al_bytes_def vbytes_def del: replicate.simps)
  then show ?thesis by (simp only: Let_def)
qed

end
