(* ===== verification/Hashline_Display.thy ===== *)
theory Hashline_Display
  imports Hashline_Snapshot Hashline_Parser
begin

text \<open>
  What the tools show of a file and what they keep of it (\<^verbatim>\<open>manox-harness/src/core/hashline/mod.rs\<close>):
  numbered and raw displays, the provenance read back from a display, the seen-line gate, and the
  context rows of a rejection. Rejections are values of \<open>gate_error\<close> that hold what the message
  is built from. Line numbers are natural numbers, so the additions of context lines do not wrap.
\<close>

section \<open>Recording a read\<close>

definition SNAPSHOT_MAX_BYTES :: nat where
  "SNAPSHOT_MAX_BYTES = 4 * 1024 * 1024"

definition record_read_snapshot :: "env \<Rightarrow> path \<Rightarrow> str \<Rightarrow> store \<Rightarrow> snapshot option \<times> store" where
  "record_read_snapshot env path txt st =
     (if length txt > SNAPSHOT_MAX_BYTES then (None, st)
      else let (snap, st') = store_record env path txt st in (Some snap, st'))"

section \<open>Provenance from a display\<close>

definition seen_line :: "str \<Rightarrow> nat option" where
  "seen_line line =
     (let stripped = trim_start_matches [CHR ''>'', CHR '' ''] line in
      case str_find '':'' stripped of
        None \<Rightarrow> None
      | Some colon \<Rightarrow>
          let prefix = take colon stripped in
          if prefix = [] \<or> starts_with prefix ''0'' \<or> \<not> list_all is_digit prefix then None
          else parse_usize prefix)"

definition parse_seen_lines_from_body :: "str \<Rightarrow> nat set" where
  "parse_seen_lines_from_body body = set (List.map_filter seen_line (str_lines body))"

section \<open>Ranges of lines\<close>

fun line_runs :: "nat \<Rightarrow> nat \<Rightarrow> nat list \<Rightarrow> (nat \<times> nat) list" where
  "line_runs start prev [] = [(start, prev)]"
| "line_runs start prev (cur # cs) =
     (if cur = prev + 1 then line_runs start cur cs else (start, prev) # line_runs cur cur cs)"

definition show_run :: "nat \<times> nat \<Rightarrow> str" where
  "show_run r = (if fst r = snd r then show_nat (fst r) else show_nat (fst r) @ ''-'' @ show_nat (snd r))"

definition runs_of :: "nat list \<Rightarrow> (nat \<times> nat) list" where
  "runs_of lines = (case remdups_adj (sort lines) of [] \<Rightarrow> [] | x # xs \<Rightarrow> line_runs x x xs)"

definition format_line_ranges :: "nat list \<Rightarrow> str" where
  "format_line_ranges lines = join '', '' (map show_run (runs_of lines))"

text \<open>Adding a window to the ordered windows, merged with the last one where they touch.\<close>

definition push_window :: "(nat \<times> nat) list \<Rightarrow> nat \<times> nat \<Rightarrow> (nat \<times> nat) list" where
  "push_window ws w =
     (if ws \<noteq> [] \<and> fst w \<le> snd (last ws) + 1
      then butlast ws @ [(fst (last ws), max (snd (last ws)) (snd w))] else ws @ [w])"

section \<open>The seen-line gate\<close>

definition SEEN_LINE_REVEAL_CAP :: nat where
  "SEEN_LINE_REVEAL_CAP = 40"

definition SEEN_LINE_REVEAL_MAX_COLUMNS :: nat where
  "SEEN_LINE_REVEAL_MAX_COLUMNS = 512"

datatype gate_error =
    GateReread str
  | GateTruncated str "(nat \<times> str) list"
  | GateRetry str "(nat \<times> str) list"

definition reveal_line :: "str \<Rightarrow> str \<times> bool" where
  "reveal_line source =
     (if length source > SEEN_LINE_REVEAL_MAX_COLUMNS
      then let idx = char_indices source;
               e = (if SEEN_LINE_REVEAL_MAX_COLUMNS < length idx
                    then idx ! SEEN_LINE_REVEAL_MAX_COLUMNS else length source)
           in (take e source @ ELLIPSIS, True)
      else (source, False))"

definition extend_seen :: "nat set \<Rightarrow> snapshot \<Rightarrow> snapshot" where
  "extend_seen lines s =
     (case sn_seen_lines s of
        Some seen \<Rightarrow> s\<lparr>sn_seen_lines := Some (seen \<union> lines)\<rparr> | None \<Rightarrow> s)"

definition seen_of :: "snapshot option \<Rightarrow> nat set" where
  "seen_of r = (case Option.bind r sn_seen_lines of Some seen \<Rightarrow> seen | None \<Rightarrow> {})"

definition assert_seen_lines ::
  "env \<Rightarrow> path \<Rightarrow> str \<Rightarrow> op list \<Rightarrow> str \<Rightarrow> store \<Rightarrow> (gate_error, unit) result \<times> store" where
  "assert_seen_lines env path tag ops current st =
     (let (r1, st1) = store_get env path tag st in
      if seen_of r1 = {} then (Inr (), st1)
      else
        let (r2, st2) = store_get env path tag st1;
            unseen0 = filter (\<lambda>l. l \<notin> seen_of r2) (collect_anchor_lines ops)
        in if unseen0 = [] then (Inr (), st2)
           else
             let unseen = remdups_adj (sort unseen0);
                 ranges = format_line_ranges unseen;
                 source_lines = str_lines current;
                 shown = filter (\<lambda>l. 1 \<le> l \<and> l \<le> length source_lines) (take SEEN_LINE_REVEAL_CAP unseen);
                 revealed = map (\<lambda>l. (l, fst (reveal_line (source_lines ! (l - 1))))) shown;
                 column_truncated = list_ex (\<lambda>l. snd (reveal_line (source_lines ! (l - 1)))) shown;
                 truncated = (length unseen > length revealed \<or> column_truncated);
                 st3 = (if truncated then st2
                        else get_mut env path tag (extend_seen (fst ` set revealed)) st2)
             in (Inl (if revealed = [] then GateReread ranges
                      else if truncated then GateTruncated ranges revealed
                      else GateRetry ranges revealed), st3))"

section \<open>Context of a rejection\<close>

definition ANCHOR_CONTEXT_LINES :: nat where
  "ANCHOR_CONTEXT_LINES = 2"

definition ANCHOR_CONTEXT_MAX_ROWS :: nat where
  "ANCHOR_CONTEXT_MAX_ROWS = 40"

definition context_windows :: "nat \<Rightarrow> nat list \<Rightarrow> (nat \<times> nat) list" where
  "context_windows total_lines anchors =
     foldl push_window []
       (map (\<lambda>a0. let a = min a0 total_lines
                   in (max (a - ANCHOR_CONTEXT_LINES) 1, min (a + ANCHOR_CONTEXT_LINES) total_lines))
         (remdups_adj (sort anchors)))"

definition numbered_row :: "str list \<Rightarrow> nat \<Rightarrow> str" where
  "numbered_row lines n = show_nat n @ '':'' @ lines ! (n - 1)"

text \<open>The rows of all windows, a gap marker before every window but the first; the flag tells a
  numbered row, after which the row limit is tested.\<close>

definition window_rows :: "str list \<Rightarrow> (nat \<times> nat) list \<Rightarrow> (bool \<times> str) list" where
  "window_rows lines ws =
     concat (map (\<lambda>(wi, s, e). (if wi > 0 then [(False, ''...'')] else [])
                             @ map (\<lambda>n. (True, numbered_row lines n)) [s..<e + 1])
               (enumerate 0 ws))"

fun take_rows :: "nat \<Rightarrow> (bool \<times> str) list \<Rightarrow> str list \<times> bool" where
  "take_rows n [] = ([], False)"
| "take_rows n ((is_line, r) # rs) =
     (if is_line \<and> n + 1 \<ge> ANCHOR_CONTEXT_MAX_ROWS then ([r], True)
      else let (out, truncated) = take_rows (n + 1) rs in (r # out, truncated))"

definition anchored_context :: "op list \<Rightarrow> str \<Rightarrow> str" where
  "anchored_context ops current =
     (let lines = str_lines current; anchors = collect_anchor_lines ops in
      if lines = [] \<or> anchors = [] then []
      else
        let (rows, truncated) = take_rows 0 (window_rows lines (context_windows (length lines) anchors))
        in join [NL] (rows @ (if truncated then [''... (context truncated)''] else [])))"

section \<open>Displays\<close>

record line_range =
  lr_start :: nat
  lr_end :: "nat option"

definition pop_newline :: "str \<Rightarrow> str" where
  "pop_newline out = (if ends_with out [NL] then butlast out else out)"

definition header_line :: "str \<Rightarrow> str option \<Rightarrow> str list" where
  "header_line path tag = (case tag of None \<Rightarrow> [] | Some t \<Rightarrow> [''['' @ path @ ''#'' @ t @ '']''])"

definition end_lines :: "str list \<Rightarrow> str" where
  "end_lines ls = concat (map (\<lambda>l. l @ [NL]) ls)"

definition format_numbered :: "str \<Rightarrow> str \<Rightarrow> str option \<Rightarrow> str" where
  "format_numbered path txt tag =
     pop_newline (end_lines (header_line path tag)
       @ end_lines (map (\<lambda>(i, line). show_nat (i + 1) @ '':'' @ line) (enumerate 0 (str_lines txt))))"

definition RANGE_LEADING_CONTEXT :: nat where
  "RANGE_LEADING_CONTEXT = 1"

definition RANGE_TRAILING_CONTEXT :: nat where
  "RANGE_TRAILING_CONTEXT = 3"

definition range_window :: "nat \<Rightarrow> line_range \<Rightarrow> nat \<times> nat" where
  "range_window total_lines r =
     ((if lr_start r > 1 then lr_start r - RANGE_LEADING_CONTEXT else 1),
      (case lr_end r of Some e \<Rightarrow> min (e + RANGE_TRAILING_CONTEXT) total_lines | None \<Rightarrow> total_lines))"

definition in_file :: "nat \<Rightarrow> line_range \<Rightarrow> bool" where
  "in_file total_lines r \<longleftrightarrow> \<not> (lr_start r = 0 \<or> lr_start r > total_lines)"

definition shown_lines :: "nat \<Rightarrow> nat \<times> nat \<Rightarrow> nat list" where
  "shown_lines total_lines w = filter (\<lambda>n. n \<noteq> 0 \<and> n \<le> total_lines) [fst w..<snd w + 1]"

definition gap_rows :: "(nat \<Rightarrow> str) \<Rightarrow> nat \<Rightarrow> (nat \<times> nat) list \<Rightarrow> str list" where
  "gap_rows row total_lines ws =
     concat (map (\<lambda>(wi, w). (if wi > 0 then [''...''] else []) @ map row (shown_lines total_lines w))
               (enumerate 0 ws))"

definition format_numbered_range :: "str \<Rightarrow> str \<Rightarrow> str option \<Rightarrow> line_range list \<Rightarrow> str" where
  "format_numbered_range path txt tag ranges =
     (if ranges = [] then format_numbered path txt tag
      else
        let lines = str_lines txt; total_lines = length lines;
            ws = foldl push_window [] (map (range_window total_lines) (filter (in_file total_lines) ranges))
        in pop_newline (end_lines (header_line path tag)
             @ end_lines (gap_rows (numbered_row lines) total_lines ws)))"

definition format_raw :: "str \<Rightarrow> line_range list option \<Rightarrow> str" where
  "format_raw txt ranges =
     (case ranges of
        None \<Rightarrow> txt
      | Some [] \<Rightarrow> txt
      | Some rs \<Rightarrow>
          let lines = str_lines txt; total_lines = length lines;
              window = (\<lambda>r. (lr_start r, min (case lr_end r of Some e \<Rightarrow> e | None \<Rightarrow> total_lines) total_lines));
              ws = foldl push_window [] (map window (filter (in_file total_lines) rs))
          in pop_newline (end_lines (gap_rows (\<lambda>n. lines ! (n - 1)) total_lines ws)))"

section \<open>Displays as joined rows\<close>

lemma pop_end_lines: "pop_newline (end_lines ls) = join [NL] ls"
proof (cases "ls = []")
  case False
  then have "end_lines ls = join [NL] ls @ [NL]"
    using concat_lines_join [of ls id NL] by (simp add: end_lines_def)
  then show ?thesis by (simp add: pop_newline_def ends_with_iff)
qed (simp add: pop_newline_def end_lines_def ends_with_iff)

lemma end_lines_append: "end_lines xs @ end_lines ys = end_lines (xs @ ys)"
  by (simp add: end_lines_def)

lemma enumerate_rows:
  "map (\<lambda>(i, line). show_nat (i + 1) @ '':'' @ line) (enumerate 0 ls) = map (numbered_row ls) [1..<length ls + 1]"
  by (intro nth_equalityI; simp add: nth_enumerate_eq numbered_row_def del: upt_Suc)

lemma format_numbered_rows:
  "format_numbered path txt tag =
     join [NL] (header_line path tag @ map (numbered_row (str_lines txt)) [1..<length (str_lines txt) + 1])"
  unfolding format_numbered_def enumerate_rows end_lines_append pop_end_lines ..

section \<open>Reading provenance back\<close>

lemma str_find_char: "c \<notin> set s \<Longrightarrow> str_find [c] (s @ c # t) = Some (length s)"
  by (induction s) (auto simp: starts_with_def)

lemma seen_line_numbered:
  assumes "0 < n" "n < 2 ^ 64"
  shows "seen_line (numbered_row ls n) = Some n"
proof -
  have d: "c \<in> set (show_nat n) \<Longrightarrow> is_digit c" for c
    using show_nat_digits [of n] by (auto simp: list_all_iff)
  then have h: "is_digit (hd (show_nat n))" by simp
  then have "hd (show_nat n) \<notin> {CHR ''>'', CHR '' ''}" by (auto simp: is_digit_def)
  then have t: "trim_start_matches [CHR ''>'', CHR '' ''] (show_nat n @ '':'' @ l) = show_nat n @ '':'' @ l" for l
    by (cases "show_nat n") (auto simp: trim_start_matches_def)
  have "CHR '':'' \<notin> set (show_nat n)" using d [of "CHR '':''"] by (auto simp: is_digit_def)
  then have f: "str_find '':'' (show_nat n @ '':'' @ l) = Some (length (show_nat n))" for l
    by (simp add: str_find_char)
  have z: "\<not> starts_with (show_nat n) ''0''"
    using show_nat_hd [OF assms(1)] by (auto simp: starts_with_iff)
  show ?thesis
    using t f z parse_usize_show_nat [OF assms(2)] show_nat_digits [of n]
    by (simp add: seen_line_def numbered_row_def Let_def)
qed

lemma seen_line_other:
  assumes "s \<noteq> []" "hd s \<notin> {CHR ''>'', CHR '' '', CHR '':''}" "\<not> is_digit (hd s)"
  shows "seen_line s = None"
proof -
  obtain c r where s: "s = c # r" using assms(1) by (cases s) auto
  have t: "trim_start_matches [CHR ''>'', CHR '' ''] s = s"
    using assms s by (simp add: trim_start_matches_def)
  have "take k s = [] \<or> \<not> list_all is_digit (take k s)" for k
    using assms(3) s by (cases k) auto
  from this [of "the (str_find '':'' s)"] show ?thesis
    by (cases "str_find '':'' s") (auto simp: seen_line_def Let_def t)
qed

lemma seen_line_marker: "seen_line ''...'' = None" "l \<in> set (header_line path tag) \<Longrightarrow> seen_line l = None"
  by (auto intro!: seen_line_other simp: header_line_def is_digit_def split: option.splits)

definition display_ok :: "str \<Rightarrow> str option \<Rightarrow> str \<Rightarrow> bool" where
  "display_ok path tag txt \<longleftrightarrow>
     NL \<notin> set path \<and> (\<forall>t. tag = Some t \<longrightarrow> NL \<notin> set t) \<and> CR \<notin> set txt \<and> length (str_lines txt) < 2 ^ 64"

lemma parse_seen_join:
  assumes "\<And>r. r \<in> set rows \<Longrightarrow> line_ok r \<and> r \<noteq> []"
  shows "parse_seen_lines_from_body (join [NL] rows) = {n. \<exists>r \<in> set rows. seen_line r = Some n}"
proof -
  have "str_lines (join [NL] rows) = rows"
    using assms by (intro str_lines_join) auto
  then show ?thesis
    by (force simp: parse_seen_lines_from_body_def List.map_filter_def)
qed

lemma split_on_chars: "l \<in> set (split_on c s) \<Longrightarrow> set l \<subseteq> set s"
proof (induction c s arbitrary: l rule: split_on.induct)
  case (2 c x xs)
  then show ?case by (cases "split_on c xs") (fastforce split: if_splits)+
qed simp

lemma str_lines_no_CR: "CR \<notin> set txt \<Longrightarrow> l \<in> set (str_lines txt) \<Longrightarrow> CR \<notin> set l"
proof -
  assume cr: "CR \<notin> set txt" and l: "l \<in> set (str_lines txt)"
  have p: "CR \<notin> set q" if "q \<in> set (split_on NL txt)" for q
    using split_on_chars [OF that] cr by blast
  have "CR \<notin> set (strip_cr q)" if "q \<in> set (split_on NL txt)" for q
    using p [OF that] by (auto simp: strip_cr_def dest: in_set_butlastD)
  then show ?thesis
    using l p [of "last (split_on NL txt)"]
    by (auto simp: str_lines_def Let_def dest: in_set_butlastD split: if_splits)
qed

lemma numbered_row_ok:
  assumes "CR \<notin> set txt" "0 < n" "n \<le> length (str_lines txt)"
  shows "line_ok (numbered_row (str_lines txt) n) \<and> numbered_row (str_lines txt) n \<noteq> []"
proof -
  let ?l = "str_lines txt ! (n - 1)"
  have l: "?l \<in> set (str_lines txt)" using assms(2,3) by (intro nth_mem) simp
  have "NL \<notin> set (show_nat n)"
    using show_nat_digits [of n] by (auto simp: list_all_iff is_digit_def)
  moreover have "NL \<notin> set ?l" "CR \<notin> set ?l"
    using l str_lines_no_newline str_lines_no_CR assms(1) by blast+
  moreover have "?l = [] \<or> last ?l \<noteq> CR" using \<open>CR \<notin> set ?l\<close> last_in_set [of ?l] by metis
  ultimately show ?thesis by (auto simp: numbered_row_def line_ok_def)
qed

lemma header_line_ok:
  "display_ok path tag txt \<Longrightarrow> l \<in> set (header_line path tag) \<Longrightarrow> line_ok l \<and> l \<noteq> []"
  by (auto simp: display_ok_def header_line_def line_ok_def split: option.splits)

lemma dots_ok: "line_ok ''...''"
  by (simp add: line_ok_def)

lemma parse_seen_display:
  assumes ok: "display_ok path tag txt" and N: "\<And>n. n \<in> set ns \<Longrightarrow> 0 < n \<and> n \<le> length (str_lines txt)"
    and r: "set rows = set (header_line path tag) \<union> G \<union> numbered_row (str_lines txt) ` set ns" "G \<subseteq> {''...''}"
  shows "parse_seen_lines_from_body (join [NL] rows) = set ns"
proof -
  from ok have cr: "CR \<notin> set txt" and b: "length (str_lines txt) < 2 ^ 64" by (simp_all add: display_ok_def)
  have ok_rows: "line_ok r \<and> r \<noteq> []" if mem: "r \<in> set rows" for r
  proof -
    consider "r \<in> set (header_line path tag)" | "r = ''...''" | n where "n \<in> set ns" "r = numbered_row (str_lines txt) n"
      using mem r by auto
    then show ?thesis
      by cases (use header_line_ok [OF ok] numbered_row_ok [OF cr] N dots_ok in \<open>simp_all\<close>)
  qed
  have num: "seen_line (numbered_row (str_lines txt) n) = Some n" if "n \<in> set ns" for n
    using N [OF that] b by (intro seen_line_numbered) auto
  have none: "seen_line l = None" if "l \<in> set (header_line path tag) \<union> G" for l
    using that r(2) seen_line_marker by auto
  have "parse_seen_lines_from_body (join [NL] rows) = {n. \<exists>r \<in> set rows. seen_line r = Some n}"
    using ok_rows by (rule parse_seen_join)
  also have "\<dots> = set ns" unfolding r(1) using num none by force
  finally show ?thesis .
qed

text \<open>A full display of a file and the provenance read back from it agree: parsing the numbered
  display that the read tool prints gives exactly the line numbers of the file, the header
  contributing none.\<close>
lemma seen_lines_of_full_display:
  assumes "display_ok path tag txt"
  shows "parse_seen_lines_from_body (format_numbered path txt tag) = {1..length (str_lines txt)}"
proof -
  have "set [1..<length (str_lines txt) + 1] = {1..length (str_lines txt)}" by auto
  moreover have "parse_seen_lines_from_body (format_numbered path txt tag) = set [1..<length (str_lines txt) + 1]"
    unfolding format_numbered_rows
    by (rule parse_seen_display [OF assms, where G = "{}"]) auto
  ultimately show ?thesis by simp
qed

section \<open>Windows\<close>

definition covered :: "(nat \<times> nat) list \<Rightarrow> nat set" where
  "covered ws = (\<Union>w \<in> set ws. {fst w..snd w})"

lemma push_window_covered:
  assumes "ws = [] \<or> fst (last ws) \<le> fst w"
  shows "covered (push_window ws w) = covered ws \<union> {fst w..snd w}"
    and "fst (last (push_window ws w)) \<le> fst w" "push_window ws w \<noteq> []"
proof -
  show "fst (last (push_window ws w)) \<le> fst w" "push_window ws w \<noteq> []"
    using assms by (auto simp: push_window_def)
  show "covered (push_window ws w) = covered ws \<union> {fst w..snd w}"
  proof (cases "ws \<noteq> [] \<and> fst w \<le> snd (last ws) + 1")
    case True
    then have ws: "set ws = insert (last ws) (set (butlast ws))"
      by (metis append_butlast_last_id list.simps(15) rotate1.simps(2) set_rotate1)
    have "{fst (last ws)..max (snd (last ws)) (snd w)} = {fst (last ws)..snd (last ws)} \<union> {fst w..snd w}"
      using True assms by auto
    with True ws show ?thesis by (auto simp: push_window_def covered_def)
  qed (auto simp: push_window_def covered_def)
qed

lemma foldl_push_window:
  "sorted (map fst ws) \<Longrightarrow> acc = [] \<or> (\<forall>w \<in> set ws. fst (last acc) \<le> fst w) \<Longrightarrow>
     covered (foldl push_window acc ws) = covered acc \<union> covered ws"
proof (induction ws arbitrary: acc)
  case (Cons w ws)
  have "acc = [] \<or> fst (last acc) \<le> fst w" using Cons.prems(2) by auto
  note pw = push_window_covered [OF this]
  have "\<forall>v \<in> set ws. fst (last (push_window acc w)) \<le> fst v"
    using pw(2) Cons.prems(1) by fastforce
  with Cons.IH [of "push_window acc w"] Cons.prems(1) pw(1) show ?case
    by (auto simp: covered_def)
qed (simp add: covered_def)

lemma gap_rows_set:
  "\<exists>G \<subseteq> {''...''}. set (gap_rows row n ws) = G \<union> row ` (covered ws \<inter> {1..n})"
proof -
  have sh: "set (shown_lines n w) = {fst w..snd w} \<inter> {1..n}" for w
    by (auto simp: shown_lines_def)
  have 1: "x = ''...'' \<or> x \<in> row ` (covered ws \<inter> {1..n})" if "x \<in> set (gap_rows row n ws)" for x
  proof -
    from that obtain i w where "(i, w) \<in> set (enumerate 0 ws)" "x = ''...'' \<or> x \<in> row ` set (shown_lines n w)"
      by (auto simp: gap_rows_def split: if_splits)
    then have "w \<in> set ws" "x = ''...'' \<or> x \<in> row ` set (shown_lines n w)"
      by (auto simp: in_set_enumerate_eq)
    moreover from \<open>w \<in> set ws\<close> have "set (shown_lines n w) \<subseteq> covered ws \<inter> {1..n}"
      by (auto simp: covered_def sh)
    ultimately show ?thesis by blast
  qed
  have 2: "row k \<in> set (gap_rows row n ws)" if "k \<in> covered ws \<inter> {1..n}" for k
  proof -
    from that obtain w where w: "w \<in> set ws" "k \<in> set (shown_lines n w)" by (auto simp: covered_def sh)
    from w(1) obtain i where "i < length ws" "ws ! i = w" by (auto simp: in_set_conv_nth)
    then have "(i, w) \<in> set (enumerate 0 ws)" by (simp add: in_set_enumerate_eq)
    with w(2) show ?thesis
      unfolding gap_rows_def set_concat set_map image_image by (intro UN_I [of "(i, w)"]) auto
  qed
  show ?thesis
    by (intro exI [of _ "set (gap_rows row n ws) \<inter> {''...''}"]) (use 1 2 in blast)
qed

lemma sorted_window_starts:
  "sorted (map lr_start rs) \<Longrightarrow> sorted (map fst (map (range_window n) rs))"
  by (induction rs) (auto simp: range_window_def RANGE_LEADING_CONTEXT_def)

lemma range_window_mem:
  "1 \<le> k \<Longrightarrow> k \<le> n \<Longrightarrow> (fst (range_window n r) \<le> k \<and> k \<le> snd (range_window n r)) \<longleftrightarrow>
     (lr_start r \<le> k + 1 \<and> (\<forall>e. lr_end r = Some e \<longrightarrow> k \<le> e + 3))"
  by (cases "lr_end r") (auto simp: range_window_def RANGE_LEADING_CONTEXT_def RANGE_TRAILING_CONTEXT_def)

text \<open>A ranged display shows, and its provenance records, exactly the requested lines with their
  context: for ranges in order of their start, the line numbers read back are those of the file that
  lie in some requested range extended by one line before and three after.\<close>
lemma seen_lines_of_ranged_display:
  assumes ok: "display_ok path tag txt" and ne: "ranges \<noteq> []" and so: "sorted (map lr_start ranges)"
  shows "parse_seen_lines_from_body (format_numbered_range path txt tag ranges) =
     {n \<in> {1..length (str_lines txt)}. \<exists>r \<in> set ranges. in_file (length (str_lines txt)) r
        \<and> lr_start r \<le> n + 1 \<and> (\<forall>e. lr_end r = Some e \<longrightarrow> n \<le> e + 3)}"
proof -
  let ?n = "length (str_lines txt)"
  let ?in = "map (range_window ?n) (filter (in_file ?n) ranges)"
  let ?ws = "foldl push_window [] ?in"
  have "sorted (map lr_start (filter (in_file ?n) ranges))" using so by (rule sorted_filter)
  then have "sorted (map fst ?in)"
    by (rule sorted_window_starts)
  then have cov: "covered ?ws = covered ?in"
    using foldl_push_window [of ?in "[]"] by (simp add: covered_def)
  obtain G where G: "G \<subseteq> {''...''}"
    "set (gap_rows (numbered_row (str_lines txt)) ?n ?ws) = G \<union> numbered_row (str_lines txt) ` (covered ?ws \<inter> {1..?n})"
    using gap_rows_set [of "numbered_row (str_lines txt)" ?n ?ws] by auto
  let ?ns = "filter (\<lambda>k. k \<in> covered ?ws) [1..<?n + 1]"
  have ns: "set ?ns = covered ?ws \<inter> {1..?n}" by auto
  let ?rows = "header_line path tag @ gap_rows (numbered_row (str_lines txt)) ?n ?ws"
  have "format_numbered_range path txt tag ranges = join [NL] ?rows"
    using ne by (simp add: format_numbered_range_def Let_def end_lines_append pop_end_lines)
  moreover have "parse_seen_lines_from_body (join [NL] ?rows) = set ?ns"
  proof (rule parse_seen_display [OF ok _ _ G(1)])
    show "set ?rows = set (header_line path tag) \<union> G \<union> numbered_row (str_lines txt) ` set ?ns"
      unfolding ns set_append G(2) by (rule Un_assoc [symmetric])
  qed auto
  ultimately have "parse_seen_lines_from_body (format_numbered_range path txt tag ranges) = set ?ns"
    by simp
  also have "set ?ns = covered ?in \<inter> {1..?n}" using ns cov by simp
  also have "\<dots> = {n \<in> {1..?n}. \<exists>r \<in> set ranges. in_file ?n r
        \<and> lr_start r \<le> n + 1 \<and> (\<forall>e. lr_end r = Some e \<longrightarrow> n \<le> e + 3)}"
    using range_window_mem by (fastforce simp: covered_def)
  finally show ?thesis .
qed

section \<open>The gate\<close>

lemma gate_get:
  assumes "seen_of (fst (store_get env path tag st)) \<noteq> {}"
  obtains s st1 seen where "store_get env path tag st = (Some s, st1)" "sn_seen_lines s = Some seen"
    "store_get env path tag st1 = (Some s, st1)" "seen \<noteq> {}"
proof -
  obtain r st1 where g: "store_get env path tag st = (r, st1)" by fastforce
  with assms obtain s seen where "r = Some s" "sn_seen_lines s = Some seen" "seen \<noteq> {}"
    by (cases r) (auto simp: seen_of_def split: option.splits)
  with g store_get_found(2) [of env path tag st s st1] that show thesis by blast
qed

lemma gate_admits:
  "fst (assert_seen_lines env path tag ops current st) = Inr () \<longleftrightarrow>
     seen_of (fst (store_get env path tag st)) = {}
     \<or> set (collect_anchor_lines ops) \<subseteq> seen_of (fst (store_get env path tag st))"
proof (cases "seen_of (fst (store_get env path tag st)) = {}")
  case True
  then show ?thesis by (simp add: assert_seen_lines_def case_prod_beta)
next
  case False
  then obtain s st1 seen where "store_get env path tag st = (Some s, st1)" "sn_seen_lines s = Some seen"
    "store_get env path tag st1 = (Some s, st1)" "seen \<noteq> {}" by (rule gate_get)
  then show ?thesis
    by (auto simp: assert_seen_lines_def Let_def seen_of_def filter_empty_conv)
qed

text \<open>The seen-line gate admits an edit exactly when the cited version carries no provenance or
  every line the edit anchors to was displayed.\<close>
lemma gate_admits_iff_anchors_seen:
  "fst (assert_seen_lines env path tag ops current st) = Inr () \<longleftrightarrow>
     seen_of (fst (store_get env path tag st)) = {}
     \<or> set (collect_anchor_lines ops) \<subseteq> seen_of (fst (store_get env path tag st))"
  by (rule gate_admits)

lemma extend_seen_tag: "sn_tag (extend_seen R s) = sn_tag s"
  by (simp add: extend_seen_def split: option.split)

lemma filter_take_all: "length xs \<le> length (filter P (take k xs)) \<Longrightarrow> filter P (take k xs) = xs"
proof -
  assume l: "length xs \<le> length (filter P (take k xs))"
  have "length (filter P (take k xs)) \<le> length (take k xs)" by (rule length_filter_le)
  with l have t: "take k xs = xs" by simp
  with l have "length (filter P xs) = length xs" using length_filter_le [of P xs] by simp
  then have "filter P xs = xs" by (metis filter_id_conv length_filter_less linorder_neq_iff)
  with t show ?thesis by simp
qed

text \<open>C37: A rejection that invites a straight retry keeps its promise: after it, the same edit passes
  the gate on the store the rejection left.\<close>
theorem gate_retry_succeeds:
  assumes "assert_seen_lines env path tag ops current st = (Inl (GateRetry ranges revealed), st')"
  shows "assert_seen_lines env path tag ops current st' = (Inr (), st')"
proof -
  have ne: "seen_of (fst (store_get env path tag st)) \<noteq> {}"
    using assms by (auto simp: assert_seen_lines_def case_prod_beta split: if_splits)
  then obtain s st1 seen where g: "store_get env path tag st = (Some s, st1)" "sn_seen_lines s = Some seen"
    "store_get env path tag st1 = (Some s, st1)" "seen \<noteq> {}" by (rule gate_get)
  let ?un0 = "filter (\<lambda>l. l \<notin> seen) (collect_anchor_lines ops)"
  let ?un = "remdups_adj (sort ?un0)" and ?src = "str_lines current"
  let ?shown = "filter (\<lambda>l. 1 \<le> l \<and> l \<le> length ?src) (take SEEN_LINE_REVEAL_CAP ?un)"
  from assms g have all: "length ?un \<le> length ?shown"
    and st': "st' = get_mut env path tag (extend_seen (fst ` set (map (\<lambda>l. (l, fst (reveal_line (?src ! (l - 1))))) ?shown))) st1"
    by (auto simp: assert_seen_lines_def Let_def seen_of_def case_prod_beta not_less split: if_splits)
  have "set ?shown = set ?un0" using filter_take_all [OF all] by simp
  then have st': "st' = get_mut env path tag (extend_seen (set ?un0)) st1"
    unfolding st' by (simp add: image_image)
  have "store_get env path tag st' = (Some (extend_seen (set ?un0) s), st')"
    unfolding st' using store_get_found(1) [OF g(1)] extend_seen_tag by (rule get_mut_get)
  moreover have "sn_seen_lines (extend_seen (set ?un0) s) = Some (seen \<union> set ?un0)"
    using g(2) by (simp add: extend_seen_def)
  ultimately show ?thesis
    by (auto simp: assert_seen_lines_def Let_def seen_of_def filter_empty_conv)
qed

definition one_file_store :: "nat set \<Rightarrow> store" where
  "one_file_store seen =
     \<lparr>ss_by_path = [((True, [''a'']), [\<lparr>sn_path = (True, [''a'']), sn_text = ''x'' @ [NL] @ ''y'',
         sn_tag = ''000000'', sn_recorded_at = 1, sn_seen_lines = Some seen\<rparr>])],
      ss_path_order = [(True, [''a''])], ss_total_bytes = 3, ss_disk = None, ss_fs = \<lambda>_. []\<rparr>"

theorem gate_retry_succeeds_witness:
  "assert_seen_lines plain_env (True, [''a'']) ''000000'' [Del 2 2] (''x'' @ [NL] @ ''y'') (one_file_store {1, 2})
     = (Inr (), one_file_store {1, 2})"
proof (rule gate_retry_succeeds)
  have l: "str_lines (''x'' @ [NL] @ ''y'') = [''x'', ''y'']"
    by (simp add: str_lines_def Let_def strip_cr_def)
  have c: "collect_anchor_lines [Del 2 2] = [2]" by (simp add: collect_anchor_lines_def)
  have r: "reveal_line ''y'' = (''y'', False)"
    by (simp add: reveal_line_def SEEN_LINE_REVEAL_MAX_COLUMNS_def)
  show "assert_seen_lines plain_env (True, [''a'']) ''000000'' [Del 2 2] (''x'' @ [NL] @ ''y'') (one_file_store {1})
      = (Inl (GateRetry (format_line_ranges [2]) [(2, ''y'')]), one_file_store {1, 2})"
    by (simp add: assert_seen_lines_def store_get_def one_file_store_def versions_def seen_of_def c r
        l [simplified] SEEN_LINE_REVEAL_CAP_def get_mut_def extend_seen_def Let_def insert_commute)
qed

end
