(* ===== verification/Hashline_Recovery.thy ===== *)
theory Hashline_Recovery
  imports Hashline_Apply Hashline_Display
begin

text \<open>
  Drift recovery (\<^verbatim>\<open>manox-harness/src/core/hashline/recovery.rs\<close>): an edit whose tag is stale is
  replayed on the live file after its line numbers have been mapped through a line diff between the
  tagged text and the live text. The diff is the crate \<^verbatim>\<open>similar\<close>, a parameter \<open>diff\<close> that returns
  the sequence of changes of \<^verbatim>\<open>TextDiff::from_lines(..).iter_all_changes()\<close>. Refusals are values of
  \<open>recover_reason\<close> that hold what the message is built from.
\<close>

section \<open>Line map\<close>

datatype change_tag = Equal | Insert | Delete

type_synonym line_diff = "str \<Rightarrow> str \<Rightarrow> (change_tag \<times> str) list"
type_synonym line_map = "nat \<Rightarrow> nat option"

fun line_map_steps :: "line_map \<Rightarrow> nat \<Rightarrow> nat \<Rightarrow> (change_tag \<times> str) list \<Rightarrow> line_map" where
  "line_map_steps m prev_line cur_line [] = m"
| "line_map_steps m prev_line cur_line ((tag, v) # cs) =
     (case tag of
        Equal \<Rightarrow> line_map_steps (m(prev_line \<mapsto> cur_line)) (prev_line + 1) (cur_line + 1) cs
      | Insert \<Rightarrow> line_map_steps m prev_line (cur_line + 1) cs
      | Delete \<Rightarrow> line_map_steps m (prev_line + 1) cur_line cs)"

definition build_line_map :: "line_diff \<Rightarrow> str \<Rightarrow> str \<Rightarrow> line_map" where
  "build_line_map diff previous_text current_text =
     line_map_steps Map.empty 1 1 (diff previous_text current_text)"

section \<open>Anchor validation\<close>

fun duplicates_loop :: "str set \<Rightarrow> str set \<Rightarrow> str list \<Rightarrow> str set" where
  "duplicates_loop seen dup [] = dup"
| "duplicates_loop seen dup (v # vs) =
     (if v \<in> seen then duplicates_loop seen (insert v dup) vs
      else duplicates_loop (insert v seen) dup vs)"

definition collect_duplicates :: "str list \<Rightarrow> str set" where
  "collect_duplicates lines = duplicates_loop {} {} lines"

record anchor_neighbors =
  an_before :: "nat option"
  an_after :: "nat option"

text \<open>The runs of consecutive anchors are those of \<^verbatim>\<open>format_line_ranges\<close>.\<close>

definition run_neighbors :: "nat \<Rightarrow> nat \<times> nat \<Rightarrow> anchor_neighbors" where
  "run_neighbors line_count run =
     \<lparr>an_before = (if fst run > 1 \<and> fst run \<le> line_count then Some (fst run - 1) else None),
      an_after = (if snd run < line_count then Some (snd run + 1) else None)\<rparr>"

definition compute_anchor_neighbors :: "nat list \<Rightarrow> nat \<Rightarrow> nat \<Rightarrow> anchor_neighbors option" where
  "compute_anchor_neighbors anchors line_count =
     foldl (\<lambda>m run. foldl (\<lambda>m a. m(a \<mapsto> run_neighbors line_count run)) m [fst run..<snd run + 1])
       Map.empty (runs_of anchors)"

definition anchor_ok :: "line_map \<Rightarrow> str list \<Rightarrow> str list \<Rightarrow> (nat \<Rightarrow> anchor_neighbors option) \<Rightarrow> nat \<Rightarrow> bool" where
  "anchor_ok lm prev_lines cur_lines neighbors line =
     (case lm line of
        None \<Rightarrow> False
      | Some mapped \<Rightarrow>
          if mapped > length cur_lines then False
          else
            let n = the (neighbors line);
                prev_is_dup = prev_lines ! (line - 1) \<in> collect_duplicates prev_lines;
                cur_is_dup = cur_lines ! (mapped - 1) \<in> collect_duplicates cur_lines;
                before_maps = (\<lambda>b. lm b = Some (mapped - (line - b)));
                after_maps = (\<lambda>a. lm a = Some (mapped + (a - line)))
            in if \<not> prev_is_dup \<and> \<not> cur_is_dup
               then (case an_before n of Some b \<Rightarrow> before_maps b | None \<Rightarrow> False)
                    \<or> (case an_after n of Some a \<Rightarrow> after_maps a | None \<Rightarrow> False)
               else (case an_before n of Some b \<Rightarrow> before_maps b | None \<Rightarrow> True)
                    \<and> (case an_after n of Some a \<Rightarrow> after_maps a | None \<Rightarrow> True))"

definition validate_anchors :: "nat list \<Rightarrow> line_map \<Rightarrow> str list \<Rightarrow> str list \<Rightarrow> bool" where
  "validate_anchors anchors lm prev_lines cur_lines \<longleftrightarrow>
     anchors = [] \<or>
     list_all (anchor_ok lm prev_lines cur_lines (compute_anchor_neighbors anchors (length prev_lines)))
       (remdups_adj (sort anchors))"

section \<open>Remapping\<close>

definition line_offset :: "nat \<Rightarrow> nat \<Rightarrow> int" where
  "line_offset line mapped = int mapped - int line"

definition remap_line :: "line_map \<Rightarrow> nat \<Rightarrow> (nat \<times> int list) option" where
  "remap_line lm line = map_option (\<lambda>mapped. (mapped, [line_offset line mapped])) (lm line)"

definition remap_anchor :: "line_map \<Rightarrow> nat option \<Rightarrow> nat option \<times> int list" where
  "remap_anchor lm anchor =
     (case Option.bind anchor (remap_line lm) of
        None \<Rightarrow> (None, []) | Some (mapped, offs) \<Rightarrow> (Some mapped, offs))"

definition remap_one :: "line_map \<Rightarrow> nat \<Rightarrow> (nat \<Rightarrow> op) \<Rightarrow> (op \<times> int list) option" where
  "remap_one lm line k = map_option (\<lambda>(l, offs). (k l, offs)) (remap_line lm line)"

definition remap_two :: "line_map \<Rightarrow> nat \<Rightarrow> nat \<Rightarrow> (nat \<Rightarrow> nat \<Rightarrow> op) \<Rightarrow> (op \<times> int list) option" where
  "remap_two lm s e k =
     (case remap_line lm s of
        None \<Rightarrow> None
      | Some (s', so) \<Rightarrow> map_option (\<lambda>(e', eo). (k s' e', so @ eo)) (remap_line lm e))"

fun remap_op :: "line_map \<Rightarrow> op \<Rightarrow> (op \<times> int list) option" where
  "remap_op lm (Swap s e body) = remap_two lm s e (\<lambda>s e. Swap s e body)"
| "remap_op lm (Del s e) = remap_two lm s e Del"
| "remap_op lm (Ins pos anchor body) =
     (let (a, offs) = remap_anchor lm anchor in Some (Ins pos a body, offs))"
| "remap_op lm (SwapBlk s body) = remap_one lm s (\<lambda>s. SwapBlk s body)"
| "remap_op lm (DelBlk s) = remap_one lm s DelBlk"
| "remap_op lm (InsBlkPost a body) = remap_one lm a (\<lambda>a. InsBlkPost a body)"
| "remap_op lm (Cut s e) = remap_two lm s e Cut"
| "remap_op lm (CutBlk s) = remap_one lm s CutBlk"
| "remap_op lm (Paste pos anchor) =
     (let (a, offs) = remap_anchor lm anchor in Some (Paste pos a, offs))"

fun remap_loop :: "line_map \<Rightarrow> op list \<Rightarrow> (op list \<times> int list) option" where
  "remap_loop lm [] = Some ([], [])"
| "remap_loop lm (p # ps) =
     (case remap_op lm p of
        None \<Rightarrow> None
      | Some (p', offs) \<Rightarrow> map_option (\<lambda>(ps', offs'). (p' # ps', offs @ offs')) (remap_loop lm ps))"

fun has_anchor :: "op \<Rightarrow> bool" where
  "has_anchor (Ins p a b) = (a \<noteq> None)"
| "has_anchor (Paste p a) = (a \<noteq> None)"
| "has_anchor _ = True"

definition remap_ops :: "op list \<Rightarrow> line_map \<Rightarrow> op list option" where
  "remap_ops ops lm =
     (case remap_loop lm ops of
        None \<Rightarrow> None
      | Some (remapped, offsets) \<Rightarrow>
          if offsets = [] then (if list_ex has_anchor ops then None else Some remapped)
          else if list_all (\<lambda>o'. o' = hd offsets) offsets then Some remapped else None)"

section \<open>Recovery\<close>

datatype recover_reason =
    TagUnknown str
  | TagOfOther "path list" str
  | PatchInvalid apply_error
  | AnchorsDrifted str
  | OffsetsDisagree str
  | ReplayFailed apply_error

record recover_error =
  re_reason :: recover_reason
  re_current_tag :: str

definition try_recover_with_snapshot ::
  "line_diff \<Rightarrow> (str \<Rightarrow> 32 word) \<Rightarrow> str \<Rightarrow> snapshot \<Rightarrow> op list \<Rightarrow> (recover_error, str) result" where
  "try_recover_with_snapshot diff xxh32 current snapshot ops =
     (let current_tag = compute_tag xxh32 current;
          fail = (\<lambda>r. Inl \<lparr>re_reason = r, re_current_tag = current_tag\<rparr>);
          snapshot_text = sn_text snapshot
      in case apply_ops snapshot_text ops of
           Inl e \<Rightarrow> fail (PatchInvalid e)
         | Inr _ \<Rightarrow>
             let lm = build_line_map diff snapshot_text current in
             if \<not> validate_anchors (collect_anchor_lines ops) lm (str_lines snapshot_text) (str_lines current)
             then fail (AnchorsDrifted (anchored_context ops current))
             else case remap_ops ops lm of
                    None \<Rightarrow> fail (OffsetsDisagree (anchored_context ops current))
                  | Some remapped \<Rightarrow>
                      (case apply_ops current remapped of
                         Inr result \<Rightarrow> Inr (ar_text result)
                       | Inl e \<Rightarrow> fail (ReplayFailed e)))"

definition try_recover ::
  "line_diff \<Rightarrow> env \<Rightarrow> str \<Rightarrow> str \<Rightarrow> op list \<Rightarrow> path \<Rightarrow> store \<Rightarrow> (recover_error, str) result \<times> store" where
  "try_recover diff env current claimed_tag ops path st =
     (let current_tag = compute_tag (en_xxh32 env) current in
      case store_get env path claimed_tag st of
        (None, st') \<Rightarrow>
          let owners = paths_of_tag claimed_tag st'; context_rows = anchored_context ops current in
          (Inl \<lparr>re_reason = (if owners = [] then TagUnknown context_rows else TagOfOther owners context_rows),
                re_current_tag = current_tag\<rparr>, st')
      | (Some snapshot, st') \<Rightarrow>
          (try_recover_with_snapshot diff (en_xxh32 env) current snapshot ops, st'))"

section \<open>The line map is strictly increasing and relates equal lines\<close>

text \<open>What \<^verbatim>\<open>similar\<close> documents of a diff: without the inserted lines it spells the old text, without
  the deleted ones the new text, line by line with the terminators.\<close>

definition line_tokens :: "str \<Rightarrow> str list" where
  "line_tokens s =
     (let ps = split_on NL s in map (\<lambda>l. l @ [NL]) (butlast ps) @ (if last ps = [] then [] else [last ps]))"

definition spells :: "(change_tag \<times> str) list \<Rightarrow> str list \<Rightarrow> str list \<Rightarrow> bool" where
  "spells cs old new \<longleftrightarrow>
     map snd (filter (\<lambda>c. fst c \<noteq> Insert) cs) = old \<and> map snd (filter (\<lambda>c. fst c \<noteq> Delete) cs) = new"

definition map_fits :: "line_map \<Rightarrow> str list \<Rightarrow> str list \<Rightarrow> bool" where
  "map_fits m old new \<longleftrightarrow>
     (\<forall>l l'. m l = Some l' \<longrightarrow> 1 \<le> l \<and> l \<le> length old \<and> 1 \<le> l' \<and> l' \<le> length new
               \<and> old ! (l - 1) = new ! (l' - 1))
     \<and> (\<forall>a b a' b'. m a = Some a' \<longrightarrow> m b = Some b' \<longrightarrow> a < b \<longrightarrow> a' < b')"

lemma map_fits_empty: "map_fits Map.empty old new"
  by (simp add: map_fits_def)

lemma drop_pred_Cons:
  assumes "drop (p - 1) xs = v # ys" "1 \<le> p"
  shows "drop p xs = ys \<and> p \<le> length xs \<and> xs ! (p - 1) = v"
proof -
  have l: "p - 1 < length xs" using assms(1) by (metis drop_all list.distinct(1) not_less)
  with assms Cons_nth_drop_Suc [OF l] show ?thesis by (auto simp: Suc_diff_le)
qed

lemma map_fits_insert:
  assumes "map_fits m old new" "\<And>l l'. m l = Some l' \<Longrightarrow> l < p \<and> l' < c"
    and "1 \<le> p" "p \<le> length old" "1 \<le> c" "c \<le> length new" "old ! (p - 1) = new ! (c - 1)"
  shows "map_fits (m(p \<mapsto> c)) old new"
  using assms unfolding map_fits_def
  by (auto split: if_splits) (metis less_irrefl less_trans)+

lemma line_map_steps_fits:
  assumes "map_fits m old new" "\<And>l l'. m l = Some l' \<Longrightarrow> l < p \<and> l' < c" "1 \<le> p" "1 \<le> c"
    and "spells cs (drop (p - 1) old) (drop (c - 1) new)"
  shows "map_fits (line_map_steps m p c cs) old new"
  using assms
proof (induction cs arbitrary: m p c)
  case (Cons ch cs)
  obtain tag v where ch: "ch = (tag, v)" by fastforce
  from Cons.prems(5) ch have sp: "(if tag = Insert then [] else [v]) @ map snd (filter (\<lambda>c. fst c \<noteq> Insert) cs) = drop (p - 1) old"
    "(if tag = Delete then [] else [v]) @ map snd (filter (\<lambda>c. fst c \<noteq> Delete) cs) = drop (c - 1) new"
    by (auto simp: spells_def split: if_splits)
  have o: "drop p old = map snd (filter (\<lambda>c. fst c \<noteq> Insert) cs) \<and> p \<le> length old \<and> old ! (p - 1) = v"
    if "tag \<noteq> Insert"
  proof -
    have "drop (p - 1) old = v # map snd (filter (\<lambda>c. fst c \<noteq> Insert) cs)" using sp(1) that by simp
    from drop_pred_Cons [OF this Cons.prems(3)] show ?thesis .
  qed
  have n: "drop c new = map snd (filter (\<lambda>c. fst c \<noteq> Delete) cs) \<and> c \<le> length new \<and> new ! (c - 1) = v"
    if "tag \<noteq> Delete"
  proof -
    have "drop (c - 1) new = v # map snd (filter (\<lambda>c. fst c \<noteq> Delete) cs)" using sp(2) that by simp
    from drop_pred_Cons [OF this Cons.prems(4)] show ?thesis .
  qed
  have lt: "m l = Some l' \<Longrightarrow> l < Suc p \<and> l' < c" "m l = Some l' \<Longrightarrow> l < p \<and> l' < Suc c" for l l'
    using Cons.prems(2) [of l l'] by auto
  show ?case
  proof (cases tag)
    case Equal
    have "map_fits (line_map_steps (m(p \<mapsto> c)) (p + 1) (c + 1) cs) old new"
    proof (rule Cons.IH)
      show "map_fits (m(p \<mapsto> c)) old new"
        using Cons.prems(1-4) o n Equal by (intro map_fits_insert) auto
      show "l < p + 1 \<and> l' < c + 1" if "(m(p \<mapsto> c)) l = Some l'" for l l'
        using that Cons.prems(2) [of l l'] by (auto split: if_splits)
      show "spells cs (drop (p + 1 - 1) old) (drop (c + 1 - 1) new)"
        using o n Equal by (simp add: spells_def)
    qed auto
    with ch Equal show ?thesis by simp
  next
    case Insert
    have "map_fits (line_map_steps m p (c + 1) cs) old new"
      using Cons.IH [of m p "c + 1"] Cons.prems(1,3) lt(2) n sp(1) Insert by (simp add: spells_def)
    with ch Insert show ?thesis by simp
  next
    case Delete
    have "map_fits (line_map_steps m (p + 1) c cs) old new"
      using Cons.IH [of m "p + 1" c] Cons.prems(1,4) lt(1) o sp(2) Delete by (simp add: spells_def)
    with ch Delete show ?thesis by simp
  qed
qed simp

lemma build_line_map_fits:
  assumes "spells (diff a b) (line_tokens a) (line_tokens b)"
  shows "map_fits (build_line_map diff a b) (line_tokens a) (line_tokens b)"
  unfolding build_line_map_def
  by (rule line_map_steps_fits) (use assms in \<open>simp_all add: map_fits_empty\<close>)

text \<open>For text without carriage returns a token is a line and its terminator.\<close>

lemma line_tokens_lines:
  assumes "CR \<notin> set s"
  shows "str_lines s = map (trim_end_matches [NL]) (line_tokens s)"
proof -
  let ?ps = "split_on NL s"
  have keep: "trim_end_matches [NL] l = l \<and> strip_cr l = l" if "l \<in> set ?ps" for l
  proof (cases "l = []")
    case False
    have "NL \<notin> set l" "CR \<notin> set l" using split_on_no_sep [OF that] split_on_chars [OF that] assms by blast+
    with False show ?thesis
      by (metis last_in_set list.set(1) list.simps(15) singletonD strip_cr_id trim_end_matches_keep)
  qed (simp add: trim_end_matches_def strip_cr_def)
  have nl: "trim_end_matches [NL] (l @ [NL]) = trim_end_matches [NL] l" for l
    by (rule trim_end_matches_append) simp
  have "map strip_cr (butlast ?ps) = butlast ?ps"
    "map (trim_end_matches [NL] \<circ> (\<lambda>l. l @ [NL])) (butlast ?ps) = butlast ?ps"
    using keep nl by (auto intro!: map_idI dest: in_set_butlastD)
  then show ?thesis
    using keep [of "last ?ps"] by (simp add: str_lines_def line_tokens_def Let_def)
qed

lemma map_fits_lines:
  assumes "map_fits m (line_tokens a) (line_tokens b)" "CR \<notin> set a" "CR \<notin> set b"
  shows "map_fits m (str_lines a) (str_lines b)"
proof -
  have eq: "str_lines a ! (l - 1) = str_lines b ! (l' - 1)"
    if "1 \<le> l \<and> l \<le> length (line_tokens a) \<and> 1 \<le> l' \<and> l' \<le> length (line_tokens b)
      \<and> line_tokens a ! (l - 1) = line_tokens b ! (l' - 1)" for l l'
  proof -
    from that have "l - 1 < length (line_tokens a)" "l' - 1 < length (line_tokens b)" by auto
    with that show ?thesis by (simp add: line_tokens_lines [OF assms(2)] line_tokens_lines [OF assms(3)])
  qed
  have len: "length (str_lines a) = length (line_tokens a)" "length (str_lines b) = length (line_tokens b)"
    by (simp_all add: line_tokens_lines [OF assms(2)] line_tokens_lines [OF assms(3)])
  from assms(1) eq show ?thesis unfolding map_fits_def len by blast
qed

section \<open>A recovered edit is the same edit, moved\<close>

definition moved :: "int \<Rightarrow> nat \<Rightarrow> nat" where
  "moved d l = nat (int l + d)"

fun move_op :: "int \<Rightarrow> op \<Rightarrow> op" where
  "move_op d (Swap s e b) = Swap (moved d s) (moved d e) b"
| "move_op d (Del s e) = Del (moved d s) (moved d e)"
| "move_op d (Ins p a b) = Ins p (map_option (moved d) a) b"
| "move_op d (SwapBlk s b) = SwapBlk (moved d s) b"
| "move_op d (DelBlk s) = DelBlk (moved d s)"
| "move_op d (InsBlkPost a b) = InsBlkPost (moved d a) b"
| "move_op d (Cut s e) = Cut (moved d s) (moved d e)"
| "move_op d (CutBlk s) = CutBlk (moved d s)"
| "move_op d (Paste p a) = Paste p (map_option (moved d) a)"

lemma remap_line_moved: "remap_line lm l = Some (l', offs) \<Longrightarrow> \<forall>o' \<in> set offs. o' = d \<Longrightarrow> l' = moved d l \<and> lm l = Some l'"
  by (auto simp: remap_line_def line_offset_def moved_def)

lemma remap_two_moved:
  "remap_two lm s e k = Some (p', offs) \<Longrightarrow> \<forall>o' \<in> set offs. o' = d \<Longrightarrow>
     p' = k (moved d s) (moved d e) \<and> lm s = Some (moved d s) \<and> lm e = Some (moved d e)"
  by (auto simp: remap_two_def split: option.splits prod.splits) (blast dest: remap_line_moved)+

lemma remap_one_moved:
  "remap_one lm s k = Some (p', offs) \<Longrightarrow> \<forall>o' \<in> set offs. o' = d \<Longrightarrow>
     p' = k (moved d s) \<and> lm s = Some (moved d s)"
  by (auto simp: remap_one_def dest: remap_line_moved)

lemma remap_anchor_moved:
  "remap_anchor lm a = (a', offs) \<Longrightarrow> \<forall>o' \<in> set offs. o' = d \<Longrightarrow> \<forall>l. a = Some l \<longrightarrow> lm l \<noteq> None \<Longrightarrow>
     a' = map_option (moved d) a \<and> (\<forall>l. a = Some l \<longrightarrow> lm l = Some (moved d l))"
  by (cases a) (auto simp: remap_anchor_def remap_line_def line_offset_def moved_def split: option.splits)

text \<open>Between two lines moved by the same distance every mapped line is moved by it.\<close>

lemma fits_between:
  assumes fits: "map_fits lm old new" and s: "lm s = Some (moved d s)" and e: "lm e = Some (moved d e)"
    and all: "\<And>l. s \<le> l \<Longrightarrow> l \<le> e \<Longrightarrow> lm l \<noteq> None" and l: "s \<le> l" "l \<le> e"
  shows "lm l = Some (moved d l)"
proof -
  have mono: "a < b \<Longrightarrow> lm a = Some a' \<Longrightarrow> lm b = Some b' \<Longrightarrow> a' < b'" for a b a' b'
    using fits unfolding map_fits_def by blast
  have pos: "lm a = Some a' \<Longrightarrow> 1 \<le> a \<and> 1 \<le> a'" for a a' using fits unfolding map_fits_def by blast
  have up: "\<exists>l'. lm (s + k) = Some l' \<and> moved d s + k \<le> l'" if "s + k \<le> e" for k
    using that
  proof (induction k)
    case (Suc k)
    then obtain l' where l': "lm (s + k) = Some l'" "moved d s + k \<le> l'" by auto
    obtain m where m: "lm (s + Suc k) = Some m" using all [of "s + Suc k"] Suc.prems by auto
    with mono [OF _ l'(1) m] l'(2) show ?case by auto
  qed (use s in simp)
  have down: "\<exists>l'. lm (e - k) = Some l' \<and> l' + k \<le> moved d e" if "s + k \<le> e" for k
    using that
  proof (induction k)
    case (Suc k)
    then obtain l' where l': "lm (e - k) = Some l'" "l' + k \<le> moved d e" by auto
    have "s \<le> e - Suc k" using Suc.prems by simp
    then obtain m where m: "lm (e - Suc k) = Some m" using all [of "e - Suc k"] by auto
    have "e - Suc k < e - k" using Suc.prems by simp
    from mono [OF this m l'(1)] l'(2) m show ?case by auto
  qed (use e in simp)
  obtain l' where "lm l = Some l'" "moved d s + (l - s) \<le> l'" "l' + (e - l) \<le> moved d e"
    using up [of "l - s"] down [of "e - l"] l by auto
  then show ?thesis using pos [OF s] pos [OF e] l by (auto simp: moved_def)
qed

lemma remap_op_moved:
  assumes fits: "map_fits lm old new" and r: "remap_op lm p = Some (p', offs)" and o: "\<forall>o' \<in> set offs. o' = d"
    and all: "\<And>l. l \<in> set (op_anchor_lines p) \<Longrightarrow> lm l \<noteq> None"
  shows "p' = move_op d p \<and> (\<forall>l \<in> set (op_anchor_lines p). lm l = Some (moved d l))"
proof -
  have two: "p' = k (moved d s) (moved d e) \<and> (\<forall>l \<in> set (op_anchor_lines p). lm l = Some (moved d l))"
    if "remap_two lm s e k = Some (p', offs)" "op_anchor_lines p = [s..<Suc e]" for s e k
  proof -
    note t = remap_two_moved [OF that(1) o]
    have "lm l \<noteq> None" if "s \<le> l" "l \<le> e" for l
      using all that \<open>op_anchor_lines p = _\<close> by (simp del: upt_Suc)
    with t fits_between [OF fits, of s d e] that(2) show ?thesis by (simp del: upt_Suc)
  qed
  show ?thesis
  proof (cases p)
    case (Ins q a b)
    obtain a' offs' where ra: "remap_anchor lm a = (a', offs')" by fastforce
    with r o Ins all remap_anchor_moved [OF ra, of d] show ?thesis by (cases a) auto
  next
    case (Paste q a)
    obtain a' offs' where ra: "remap_anchor lm a = (a', offs')" by fastforce
    with r o Paste all remap_anchor_moved [OF ra, of d] show ?thesis by (cases a) auto
  next
    case (Swap s e b)
    with r two [of s e "\<lambda>s e. Swap s e b"] show ?thesis by (simp del: upt_Suc)
  next
    case (Del s e)
    with r two show ?thesis by (simp del: upt_Suc)
  next
    case (Cut s e)
    with r two show ?thesis by (simp del: upt_Suc)
  qed (use r remap_one_moved [of lm _ _ p' offs d] o in auto)
qed

lemma remap_loop_moved:
  assumes "map_fits lm old new" "remap_loop lm ps = Some (ps', offs)" "\<forall>o' \<in> set offs. o' = d"
    and "\<And>l. l \<in> set (collect_anchor_lines ps) \<Longrightarrow> lm l \<noteq> None"
  shows "ps' = map (move_op d) ps \<and> (\<forall>l \<in> set (collect_anchor_lines ps). lm l = Some (moved d l))"
  using assms(2-4)
proof (induction ps arbitrary: ps' offs)
  case (Cons p ps)
  then obtain p' o1 qs o2 where r: "remap_op lm p = Some (p', o1)" "remap_loop lm ps = Some (qs, o2)"
    "ps' = p' # qs" "offs = o1 @ o2"
    by (auto split: option.splits prod.splits)
  have "p' = move_op d p \<and> (\<forall>l \<in> set (op_anchor_lines p). lm l = Some (moved d l))"
    using Cons.prems r by (intro remap_op_moved [OF assms(1) r(1)]) (auto simp: collect_anchor_lines_def)
  moreover have "qs = map (move_op d) ps \<and> (\<forall>l \<in> set (collect_anchor_lines ps). lm l = Some (moved d l))"
    using Cons.prems r by (intro Cons.IH [OF r(2)]) (auto simp: collect_anchor_lines_def)
  ultimately show ?case using r by (auto simp: collect_anchor_lines_def)
qed (simp add: collect_anchor_lines_def)

lemma validate_anchors_mapped:
  "validate_anchors anchors lm old new \<Longrightarrow> l \<in> set anchors \<Longrightarrow> lm l \<noteq> None"
  by (auto simp: validate_anchors_def list_all_iff anchor_ok_def split: option.splits)

text \<open>C4: A stale edit that recovery accepts is the model's own edit moved by one distance: all its
  line numbers are shifted by the same number of lines, every line it anchors to (each line of a
  range included) is the same in the tagged text and at its new place in the live file, and the
  result is that moved edit applied to the live file. The texts have line-feed endings and the
  diff spells both of them.\<close>
theorem recovery_replays_moved_edit:
  assumes r: "try_recover_with_snapshot diff xxh32 current snapshot ops = Inr txt"
    and diff: "spells (diff (sn_text snapshot) current) (line_tokens (sn_text snapshot)) (line_tokens current)"
    and lf: "CR \<notin> set (sn_text snapshot)" "CR \<notin> set current"
  shows "\<exists>d res. apply_ops current (map (move_op d) ops) = Inr res \<and> txt = ar_text res
    \<and> (\<forall>l \<in> set (collect_anchor_lines ops).
         1 \<le> l \<and> l \<le> length (str_lines (sn_text snapshot))
         \<and> 1 \<le> moved d l \<and> moved d l \<le> length (str_lines current)
         \<and> str_lines current ! (moved d l - 1) = str_lines (sn_text snapshot) ! (l - 1))"
proof -
  let ?lm = "build_line_map diff (sn_text snapshot) current"
  from r obtain remapped res where
    v: "validate_anchors (collect_anchor_lines ops) ?lm (str_lines (sn_text snapshot)) (str_lines current)"
    and m: "remap_ops ops ?lm = Some remapped"
    and a: "apply_ops current remapped = Inr res" "txt = ar_text res"
    by (auto simp: try_recover_with_snapshot_def Let_def split: sum.splits if_splits option.splits)
  have fits: "map_fits ?lm (str_lines (sn_text snapshot)) (str_lines current)"
    by (rule map_fits_lines [OF build_line_map_fits [of diff, OF diff] lf])
  from m obtain offsets where l: "remap_loop ?lm ops = Some (remapped, offsets)"
    and o: "offsets = [] \<or> list_all (\<lambda>o'. o' = hd offsets) offsets"
    by (auto simp: remap_ops_def split: option.splits if_splits)
  have "\<forall>o' \<in> set offsets. o' = hd offsets" using o by (auto simp: list_all_iff)
  note mv = remap_loop_moved [OF fits l this validate_anchors_mapped [OF v]]
  have "\<forall>l \<in> set (collect_anchor_lines ops).
         1 \<le> l \<and> l \<le> length (str_lines (sn_text snapshot))
         \<and> 1 \<le> moved (hd offsets) l \<and> moved (hd offsets) l \<le> length (str_lines current)
         \<and> str_lines current ! (moved (hd offsets) l - 1) = str_lines (sn_text snapshot) ! (l - 1)"
    using mv fits unfolding map_fits_def by metis
  with mv a show ?thesis by blast
qed

definition sample_old :: snapshot where
  "sample_old = \<lparr>sn_path = (True, [''f'']), sn_text = ''a'' @ [NL] @ ''b'' @ [NL] @ ''c'', sn_tag = ''000000'',
                sn_recorded_at = 0, sn_seen_lines = None\<rparr>"

definition sample_new :: str where
  "sample_new = ''x'' @ [NL] @ ''a'' @ [NL] @ ''b'' @ [NL] @ ''c''"

definition sample_diff :: line_diff where
  "sample_diff old new =
     [(Insert, ''x'' @ [NL]), (Equal, ''a'' @ [NL]), (Equal, ''b'' @ [NL]), (Equal, ''c'')]"

theorem recovery_replays_moved_edit_witness:
  "\<exists>d res. apply_ops sample_new (map (move_op d) [Del 2 2]) = Inr res
     \<and> ar_text res = ''x'' @ [NL] @ ''a'' @ [NL] @ ''c''"
proof -
  have r: "try_recover_with_snapshot sample_diff (\<lambda>_. 0) sample_new sample_old [Del 2 2]
      = Inr (''x'' @ [NL] @ ''a'' @ [NL] @ ''c'')"
    by code_simp
  have "spells (sample_diff (sn_text sample_old) sample_new) (line_tokens (sn_text sample_old)) (line_tokens sample_new)"
    by code_simp
  from recovery_replays_moved_edit [OF r this] show ?thesis
    by (simp add: sample_old_def sample_new_def) metis
qed

end
