(* ===== verification/Path_Utils.thy ===== *)
theory Path_Utils
  imports Hashline_Snapshot
begin

text \<open>
  Working directories and paths of tool calls (\<^verbatim>\<open>manox-harness/src/core/tools/path_utils.rs\<close>): the
  \<^verbatim>\<open>cwd\<close> argument, the sticky working directory, tilde expansion, containment tests. What is asked of
  the file system is a \<open>penv\<close>: the home directory, which paths are directories, and \<open>realpath\<close>.
\<close>

section \<open>The working directory\<close>

record penv =
  pe_home :: "str option"
  pe_is_dir :: "path \<Rightarrow> bool"
  pe_realpath :: "path \<Rightarrow> path option"

datatype cwd_error = CwdRequired | CwdMissing path

record cwd_arg =
  ca_anchor :: str
  ca_route :: "str list"

definition cwd_is_shaped :: "json option \<Rightarrow> bool" where
  "cwd_is_shaped v =
     (case Option.bind v as_array of
        Some items \<Rightarrow> items \<noteq> [] \<and> list_all (\<lambda>i. as_str i \<noteq> None) items
      | None \<Rightarrow> False)"

definition collect_options :: "'a option list \<Rightarrow> 'a list option" where
  "collect_options xs = (if list_all (\<lambda>x. x \<noteq> None) xs then Some (map the xs) else None)"

definition parse_cwd_arg :: "json option \<Rightarrow> (cwd_error, cwd_arg) result" where
  "parse_cwd_arg v =
     (case Option.bind v as_array of
        None \<Rightarrow> Inl CwdRequired
      | Some [] \<Rightarrow> Inl CwdRequired
      | Some (item # items) \<Rightarrow>
          (case as_str item of
             None \<Rightarrow> Inl CwdRequired
           | Some anchor \<Rightarrow>
               (case collect_options (map as_str items) of
                  None \<Rightarrow> Inl CwdRequired
                | Some route \<Rightarrow> Inr \<lparr>ca_anchor = anchor, ca_route = route\<rparr>)))"

definition expand_tilde :: "penv \<Rightarrow> str \<Rightarrow> str" where
  "expand_tilde env s =
     (if starts_with s ''~/'' then (case pe_home env of Some home \<Rightarrow> home @ drop 1 s | None \<Rightarrow> s)
      else if s = ''~'' then (case pe_home env of Some home \<Rightarrow> home | None \<Rightarrow> s)
      else s)"

text \<open>An absolute path stands for itself, a relative one is joined onto a base.\<close>

definition onto :: "path \<Rightarrow> path \<Rightarrow> path" where
  "onto base p = (if fst p then p else path_join base p)"

definition resolve_path_str :: "penv \<Rightarrow> str \<Rightarrow> path \<Rightarrow> path" where
  "resolve_path_str env s cwd = onto cwd (path_components (expand_tilde env s))"

definition resolve_dirs ::
  "penv \<Rightarrow> path option \<Rightarrow> path \<Rightarrow> json option \<Rightarrow> (cwd_error, path option \<times> path) result" where
  "resolve_dirs env sticky session_cwd v =
     try_then (parse_cwd_arg v) (\<lambda>arg.
       let base = (case sticky of Some s \<Rightarrow> s | None \<Rightarrow> session_cwd) in
       try_then
         (if ca_anchor arg = [] then Inr None
          else let dir = resolve_path_str env (ca_anchor arg) base in
               if pe_is_dir env dir then Inr (Some dir) else Inl (CwdMissing dir))
         (\<lambda>anchor_dir.
            let start = (case anchor_dir of Some d \<Rightarrow> d | None \<Rightarrow> base);
                call_dir = foldl (\<lambda>d el. resolve_path_str env el d) start (ca_route arg)
            in if pe_is_dir env call_dir then Inr (anchor_dir, call_dir) else Inl (CwdMissing call_dir)))"

definition peek_effective_cwd ::
  "penv \<Rightarrow> path option \<Rightarrow> path \<Rightarrow> json option \<Rightarrow> (cwd_error, path) result" where
  "peek_effective_cwd env sticky session_cwd v =
     try_then (resolve_dirs env sticky session_cwd v) (\<lambda>(anchor_dir, call_dir). Inr call_dir)"

definition resolve_effective_cwd ::
  "penv \<Rightarrow> path option \<Rightarrow> path \<Rightarrow> json option \<Rightarrow> (cwd_error, path) result \<times> path option" where
  "resolve_effective_cwd env sticky session_cwd v =
     (case resolve_dirs env sticky session_cwd v of
        Inl e \<Rightarrow> (Inl e, sticky)
      | Inr (anchor_dir, call_dir) \<Rightarrow>
          (Inr call_dir, case anchor_dir of Some d \<Rightarrow> Some d | None \<Rightarrow> sticky))"

section \<open>Containment\<close>

definition path_starts_with :: "path \<Rightarrow> path \<Rightarrow> bool" where
  "path_starts_with p root \<longleftrightarrow>
     root = (False, []) \<or> (fst p = fst root \<and> take (length (snd root)) (snd p) = snd root)"

definition canonicalize_or :: "penv \<Rightarrow> path \<Rightarrow> path" where
  "canonicalize_or env p = (case pe_realpath env p of Some c \<Rightarrow> c | None \<Rightarrow> p)"

definition is_within :: "penv \<Rightarrow> path \<Rightarrow> path \<Rightarrow> bool" where
  "is_within env p root = path_starts_with (canonicalize_or env p) (canonicalize_or env root)"

definition resolve_safe :: "penv \<Rightarrow> str \<Rightarrow> path \<Rightarrow> (path, path) result" where
  "resolve_safe env s cwd =
     (let resolved = resolve_path_str env s cwd;
          canonical_p = canonicalize_or env resolved;
          cwd_canonical = canonicalize_or env cwd
      in if path_starts_with canonical_p cwd_canonical then Inr resolved else Inl canonical_p)"

section \<open>Properties\<close>

lemma collect_options_Some: "(\<exists>r. collect_options xs = Some r) \<longleftrightarrow> list_all (\<lambda>x. x \<noteq> None) xs"
  by (simp add: collect_options_def)

text \<open>The shape test that tells a malformed working directory from other argument errors agrees
  with the parser of the argument: it accepts exactly the arguments that parse.\<close>
lemma cwd_shape_iff_parses:
  "cwd_is_shaped v \<longleftrightarrow> (\<exists>arg. parse_cwd_arg v = Inr arg)"
proof (cases "Option.bind v as_array")
  case (Some items)
  show ?thesis
  proof (cases items)
    case (Cons i js)
    have "list_all (\<lambda>i. as_str i \<noteq> None) js \<longleftrightarrow> (\<exists>r. collect_options (map as_str js) = Some r)"
      by (simp add: collect_options_Some list_all_iff)
    with Some Cons show ?thesis
      by (cases "as_str i"; cases "collect_options (map as_str js)")
        (auto simp: cwd_is_shaped_def parse_cwd_arg_def)
  qed (use Some in \<open>simp add: cwd_is_shaped_def parse_cwd_arg_def\<close>)
qed (simp add: cwd_is_shaped_def parse_cwd_arg_def)

lemma resolve_dirs_dirs:
  "resolve_dirs env sticky cwd v = Inr (anchor_dir, call_dir) \<Longrightarrow>
     pe_is_dir env call_dir \<and> (\<forall>d. anchor_dir = Some d \<longrightarrow> pe_is_dir env d)"
  by (auto simp: resolve_dirs_def try_then_Inr_iff Let_def split: if_splits)

text \<open>A call never runs in, and the session never sticks to, a directory that does not exist:
  a resolved working directory is a directory, the sticky directory afterwards is the old one or a
  directory, a rejected argument leaves it as it was, and the directory the approval step predicts
  is the one the tool then uses.\<close>
lemma sticky_cwd_only_existing:
  "case resolve_effective_cwd env sticky cwd v of (r, sticky') \<Rightarrow>
     r = peek_effective_cwd env sticky cwd v
     \<and> (case r of Inl e \<Rightarrow> sticky' = sticky
         | Inr dir \<Rightarrow> pe_is_dir env dir \<and> (sticky' = sticky \<or> (\<exists>d. sticky' = Some d \<and> pe_is_dir env d)))"
proof (cases "resolve_dirs env sticky cwd v")
  case (Inr p)
  obtain a c where "p = (a, c)" by (cases p)
  with Inr resolve_dirs_dirs [of env sticky cwd v a c] show ?thesis
    by (auto simp: resolve_effective_cwd_def peek_effective_cwd_def split: option.splits)
qed (simp add: resolve_effective_cwd_def peek_effective_cwd_def)

text \<open>The containment check stops nothing that does not exist yet: with the working directory
  \<^verbatim>\<open>/w\<close>, the path \<^verbatim>\<open>../new\<close> of a file to be created is accepted although it lies outside.\<close>
lemma resolve_safe_admits_missing_escape:
  "let env = \<lparr>pe_home = None, pe_is_dir = (\<lambda>p. p = (True, [''w''])),
              pe_realpath = (\<lambda>p. if p = (True, [''w'']) then Some p else None)\<rparr>
   in resolve_safe env ''../new'' (True, [''w'']) = Inr (True, [''w'', ''..'', ''new''])
      \<and> resolve_safe (env\<lparr>pe_realpath := (\<lambda>p. if p = (True, [''w'', ''..'', ''new'']) then Some (True, [''new'']) else Some p)\<rparr>)
          ''../new'' (True, [''w'']) = Inl (True, [''new''])"
  by code_simp

end
