(* ===== verification/File_Mutation_Queue.thy ===== *)
theory File_Mutation_Queue
  imports Hashline_Snapshot "HOL-Library.List_Lexorder" "HOL-Library.Product_Lexorder" "HOL-Library.Char_ord"
begin

text \<open>
  Per-file locks (\<^verbatim>\<open>manox-harness/src/core/tools/file_mutation_queue.rs\<close>) and the order in which the
  edit tool takes them (\<^verbatim>\<open>tools/edit.rs\<close>). A lock is named by the key of its path; a call waits for a
  key as long as any call holds it, the call itself included. The interleavings of concurrent calls
  are the steps of an inductive relation.
\<close>

section \<open>Lock keys\<close>

fun clean_components :: "path \<Rightarrow> str list \<Rightarrow> path" where
  "clean_components cleaned [] = cleaned"
| "clean_components cleaned (c # cs) =
     (if c = ''..'' then clean_components (fst cleaned, butlast (snd cleaned)) cs
      else if c = ''.'' then clean_components cleaned cs
      else clean_components (fst cleaned, snd cleaned @ [c]) cs)"

definition normalize_for_lock :: "env \<Rightarrow> path \<Rightarrow> path" where
  "normalize_for_lock env p =
     (case en_realpath env p of Some c \<Rightarrow> c | None \<Rightarrow> clean_components (fst p, []) (snd p))"

text \<open>\<^verbatim>\<open>PathBuf\<close> compares its components: root, \<^verbatim>\<open>.\<close>, \<^verbatim>\<open>..\<close>, then names by their bytes.\<close>

definition component_key :: "str \<Rightarrow> nat \<times> str" where
  "component_key c = (if c = ''.'' then (2, []) else if c = ''..'' then (3, []) else (4, c))"

definition path_key :: "path \<Rightarrow> (nat \<times> str) list" where
  "path_key p = (if fst p then [(1, [])] else []) @ map component_key (snd p)"

text \<open>\<^verbatim>\<open>sort_by_key\<close> on the canonical path, then \<^verbatim>\<open>dedup_by\<close> on it.\<close>

fun dedup_by :: "('a \<Rightarrow> 'b) \<Rightarrow> 'a list \<Rightarrow> 'a list" where
  "dedup_by f (x # y # zs) = (if f x = f y then dedup_by f (x # zs) else x # dedup_by f (y # zs))"
| "dedup_by f xs = xs"

definition lock_paths :: "env \<Rightarrow> path list \<Rightarrow> path list" where
  "lock_paths env ps = dedup_by (canonical env) (sort_key (\<lambda>p. path_key (canonical env p)) ps)"

definition lock_plan :: "env \<Rightarrow> path list \<Rightarrow> path list" where
  "lock_plan env ps = map (normalize_for_lock env) (lock_paths env ps)"

section \<open>Concurrent calls\<close>

record lock_task =
  lt_held :: "path list"
  lt_todo :: "path list"

definition start_task :: "path list \<Rightarrow> lock_task" where
  "start_task keys = \<lparr>lt_held = [], lt_todo = keys\<rparr>"

definition held_by_any :: "lock_task list \<Rightarrow> path \<Rightarrow> bool" where
  "held_by_any ts k = list_ex (\<lambda>t. k \<in> set (lt_held t)) ts"

text \<open>A call takes its next lock when nobody holds it; a call with all its locks runs and drops them.\<close>

inductive lock_step :: "lock_task list \<Rightarrow> lock_task list \<Rightarrow> bool" where
  acquire: "i < length ts \<Longrightarrow> lt_todo (ts ! i) = k # ks \<Longrightarrow> \<not> held_by_any ts k \<Longrightarrow>
     lock_step ts (ts[i := \<lparr>lt_held = lt_held (ts ! i) @ [k], lt_todo = ks\<rparr>])"
| release: "i < length ts \<Longrightarrow> lt_todo (ts ! i) = [] \<Longrightarrow> lt_held (ts ! i) \<noteq> [] \<Longrightarrow>
     lock_step ts (ts[i := \<lparr>lt_held = [], lt_todo = []\<rparr>])"

inductive_cases lock_stepE: "lock_step ts ts'"

inductive lock_reach :: "path list list \<Rightarrow> lock_task list \<Rightarrow> bool" for plans where
  start: "lock_reach plans (map start_task plans)"
| step: "lock_reach plans ts \<Longrightarrow> lock_step ts ts' \<Longrightarrow> lock_reach plans ts'"

definition all_done :: "lock_task list \<Rightarrow> bool" where
  "all_done ts = list_all (\<lambda>t. lt_held t = [] \<and> lt_todo t = []) ts"

definition ordered_plan :: "path list \<Rightarrow> bool" where
  "ordered_plan ks \<longleftrightarrow> sorted_wrt (<) (map path_key ks)"

section \<open>Ordered plans do not deadlock\<close>

definition task_ordered :: "lock_task \<Rightarrow> bool" where
  "task_ordered t \<longleftrightarrow> ordered_plan (lt_held t @ lt_todo t)"

lemma lock_step_ordered:
  "lock_step ts ts' \<Longrightarrow> \<forall>t \<in> set ts. task_ordered t \<Longrightarrow> \<forall>t \<in> set ts'. task_ordered t"
proof (induction rule: lock_step.induct)
  case (acquire i ts k ks)
  then have "task_ordered (ts ! i)" by simp
  with acquire show ?case by (auto simp: task_ordered_def dest!: set_update_subset_insert [THEN subsetD])
next
  case (release i ts)
  then show ?case
    by (auto simp: task_ordered_def ordered_plan_def dest!: set_update_subset_insert [THEN subsetD])
qed

lemma lock_reach_ordered:
  assumes "\<forall>ks \<in> set plans. ordered_plan ks" and "lock_reach plans ts"
  shows "\<forall>t \<in> set ts. task_ordered t"
  using assms(2)
proof induction
  case start
  then show ?case using assms(1) by (auto simp: task_ordered_def start_task_def)
next
  case (step ts ts')
  then show ?case using lock_step_ordered by blast
qed

text \<open>Were all calls waiting, one of them would wait for the greatest key and wait for its holder,
  which itself waits for a greater one.\<close>

lemma ordered_progress:
  assumes ord: "\<forall>t \<in> set ts. task_ordered t" and "\<not> all_done ts"
  shows "\<exists>ts'. lock_step ts ts'"
proof (rule ccontr)
  assume stuck: "\<nexists>ts'. lock_step ts ts'"
  have busy: "lt_held t = []" if tt: "t \<in> set ts" "lt_todo t = []" for t
  proof (rule ccontr)
    assume "lt_held t \<noteq> []"
    moreover obtain i where "i < length ts" "ts ! i = t" using tt(1) by (auto simp: in_set_conv_nth)
    ultimately show False using release [of i ts] tt(2) stuck by auto
  qed
  have waits: "held_by_any ts (hd (lt_todo t))" if tt: "t \<in> set ts" "lt_todo t \<noteq> []" for t
  proof (rule ccontr)
    assume free: "\<not> held_by_any ts (hd (lt_todo t))"
    obtain i where "i < length ts" "ts ! i = t" using tt(1) by (auto simp: in_set_conv_nth)
    then show False using acquire [of i ts "hd (lt_todo t)" "tl (lt_todo t)"] free tt(2) stuck by auto
  qed
  let ?W = "{t \<in> set ts. lt_todo t \<noteq> []}" and ?key = "\<lambda>t. path_key (hd (lt_todo t))"
  have "?W \<noteq> {}" using assms(2) busy by (auto simp: all_done_def list_all_iff)
  then have "Max (?key ` ?W) \<in> ?key ` ?W" by (intro Max_in) auto
  then obtain t where t: "t \<in> ?W" "Max (?key ` ?W) = ?key t" by (elim imageE)
  have t: "t \<in> ?W" "\<forall>u \<in> ?W. ?key u \<le> ?key t"
    using t Max_ge [of "?key ` ?W"] by auto
  then obtain u where u: "u \<in> set ts" "hd (lt_todo t) \<in> set (lt_held u)"
    using waits [of t] by (auto simp: held_by_any_def list_ex_iff)
  then have "lt_todo u \<noteq> []" using busy [of u] by auto
  then obtain k ks where k: "lt_todo u = k # ks" by (cases "lt_todo u") auto
  have "path_key (hd (lt_todo t)) < path_key k"
    using ord u k by (auto simp: task_ordered_def ordered_plan_def sorted_wrt_append)
  moreover have "path_key k \<le> path_key (hd (lt_todo t))" using t u k by fastforce
  ultimately show False by simp
qed

section \<open>The plan of an edit\<close>

lemma component_key_inj: "component_key c = component_key d \<Longrightarrow> c = d"
  by (auto simp: component_key_def split: if_splits)

lemma path_key_inj: "path_key p = path_key q \<Longrightarrow> p = q"
proof -
  assume eq: "path_key p = path_key q"
  have one: "component_key c \<noteq> (1, [])" for c by (simp add: component_key_def)
  have "fst p = fst q"
  proof (rule ccontr)
    assume "fst p \<noteq> fst q"
    then consider "fst p" "\<not> fst q" | "\<not> fst p" "fst q" by blast
    then show False
      using eq one by cases (auto simp: path_key_def dest!: Cons_eq_map_D map_eq_Cons_D, metis)
  qed
  then have "map component_key (snd p) = map component_key (snd q)" using eq by (simp add: path_key_def)
  then have "snd p = snd q" using component_key_inj by (metis inj_def list.inj_map_strong)
  with \<open>fst p = fst q\<close> show ?thesis by (simp add: prod_eq_iff)
qed

lemma dedup_by_sorted:
  fixes g :: "'b \<Rightarrow> 'c :: linorder"
  assumes "inj g" "sorted (map (\<lambda>x. g (f x)) xs)"
  shows "sorted_wrt (<) (map (\<lambda>x. g (f x)) (dedup_by f xs)) \<and> set (dedup_by f xs) \<subseteq> set xs
    \<and> f ` set (dedup_by f xs) = f ` set xs \<and> (xs \<noteq> [] \<longrightarrow> dedup_by f xs \<noteq> [] \<and> hd (dedup_by f xs) = hd xs)"
  using assms(2)
proof (induction f xs rule: dedup_by.induct)
  case (1 f x y zs)
  show ?case
  proof (cases "f x = f y")
    case True
    with 1 show ?thesis by auto
  next
    case False
    let ?d = "dedup_by f (y # zs)"
    from False 1 have IH: "sorted_wrt (<) (map (\<lambda>x. g (f x)) ?d)" "set ?d \<subseteq> set (y # zs)" "f ` set ?d = f ` set (y # zs)"
      "?d \<noteq> []" "hd ?d = y" by auto
    have "g (f x) < g (f y)" using False 1(3) injD [OF assms(1)] by (auto simp: less_le)
    then have "\<forall>z \<in> set ?d. g (f x) < g (f z)"
      using IH(2) 1(3) by fastforce
    with IH False show ?thesis by auto
  qed
qed auto

text \<open>C38: Concurrent edits cannot deadlock: when every file an edit names exists, its locks are taken
  in strictly increasing order of one order on all paths, and calls that take their locks in such an
  order can always continue, whatever locks they hold at the moment, until all have finished.\<close>
theorem concurrent_edits_never_deadlock:
  assumes ex: "\<forall>ps \<in> set patches. \<forall>p \<in> set ps. en_realpath env p \<noteq> None"
    and reach: "lock_reach (map (lock_plan env) patches) ts" and "\<not> all_done ts"
  shows "\<exists>ts'. lock_step ts ts'"
proof -
  have "ordered_plan (lock_plan env ps)" if ps: "ps \<in> set patches" for ps
  proof -
    let ?xs = "sort_key (\<lambda>p. path_key (canonical env p)) ps"
    have "inj path_key" using path_key_inj by (auto simp: inj_def)
    moreover have "sorted (map (\<lambda>p. path_key (canonical env p)) ?xs)"
      by (rule sorted_sort_key)
    ultimately have d: "sorted_wrt (<) (map (\<lambda>p. path_key (canonical env p)) (lock_paths env ps))"
      "set (lock_paths env ps) \<subseteq> set ps"
      unfolding lock_paths_def using dedup_by_sorted [of path_key "canonical env" ?xs] by auto
    have "normalize_for_lock env p = canonical env p" if mem: "p \<in> set (lock_paths env ps)" for p
    proof -
      obtain c where "en_realpath env p = Some c" using mem d(2) ex ps by blast
      then show ?thesis by (simp add: normalize_for_lock_def canonical_def)
    qed
    then have "map path_key (lock_plan env ps) = map (\<lambda>p. path_key (canonical env p)) (lock_paths env ps)"
      by (simp add: lock_plan_def)
    with d(1) show ?thesis by (simp add: ordered_plan_def)
  qed
  then have "\<forall>ks \<in> set (map (lock_plan env) patches). ordered_plan ks" by auto
  with lock_reach_ordered [OF _ reach] assms(3) show ?thesis by (intro ordered_progress) auto
qed

theorem concurrent_edits_never_deadlock_witness:
  "\<exists>ts'. lock_step (map start_task (map (lock_plan plain_env)
      [[(True, [''b'']), (True, [''a''])], [(True, [''a'']), (True, [''b''])]])) ts'"
proof (rule concurrent_edits_never_deadlock)
  show "\<forall>ps \<in> set [[(True, [''b'']), (True, [''a''])], [(True, [''a'']), (True, [''b''])]].
      \<forall>p \<in> set ps. en_realpath plain_env p \<noteq> None"
    by (simp add: plain_env_def)
  show "\<not> all_done (map start_task (map (lock_plan plain_env)
      [[(True, [''b'']), (True, [''a''])], [(True, [''a'']), (True, [''b''])]]))"
    by code_simp
qed (rule start)

text \<open>An edit can wait for itself: for two missing files the lock keys are compared after a
  lexical clean-up while duplicates are removed by the resolved parent directory, so through a linked
  directory one call plans the same lock twice, takes it once and then waits for ever.\<close>
lemma edit_waits_for_itself:
  "let env = plain_env\<lparr>en_realpath := (\<lambda>p. if p = (True, [''x'']) then Some p
                else if p = (True, [''x'', ''link'', ''..'']) then Some (True, [''y'']) else None)\<rparr>;
       plan = lock_plan env [(True, [''x'', ''link'', ''..'', ''f'']), (True, [''x'', ''f''])]
   in plan = [(True, [''x'', ''f'']), (True, [''x'', ''f''])]
      \<and> (let ts = [\<lparr>lt_held = [(True, [''x'', ''f''])], lt_todo = [(True, [''x'', ''f''])]\<rparr>]
         in lock_step [start_task plan] ts \<and> \<not> all_done ts \<and> (\<nexists>ts'. lock_step ts ts'))"
proof -
  let ?env = "plain_env\<lparr>en_realpath := (\<lambda>p. if p = (True, [''x'']) then Some p
                else if p = (True, [''x'', ''link'', ''..'']) then Some (True, [''y'']) else None)\<rparr>"
  let ?k = "(True, [''x'', ''f''])"
  let ?ts = "[\<lparr>lt_held = [?k], lt_todo = [?k]\<rparr>]"
  have plan: "lock_plan ?env [(True, [''x'', ''link'', ''..'', ''f'']), ?k] = [?k, ?k]" by code_simp
  have "lock_step [start_task [?k, ?k]] ([start_task [?k, ?k]]
      [0 := \<lparr>lt_held = lt_held ([start_task [?k, ?k]] ! 0) @ [?k], lt_todo = [?k]\<rparr>])"
    by (rule acquire) (simp_all add: start_task_def held_by_any_def)
  then have "lock_step [start_task [?k, ?k]] ?ts" by (simp add: start_task_def)
  moreover have "\<nexists>ts'. lock_step ?ts ts'" by (auto elim!: lock_stepE simp: held_by_any_def)
  ultimately show ?thesis unfolding Let_def plan by (simp add: all_done_def)
qed

end
