(* ===== verification/Tool_Env.thy ===== *)
theory Tool_Env
  imports Path_Utils Hashline_Recovery
begin

unbundle bit_operations_syntax

text \<open>
  What the file tools run in: the session's tool state (\<^verbatim>\<open>manox-harness/src/core/tool.rs\<close>) and the file
  operations of the execution environment (\<^verbatim>\<open>core/env.rs\<close>). The files are part of the state, a map
  from the canonical location of a path to its content; the links and directories that decide the
  location are fixed during a call. Every operation may fail: a fault of the environment is an error
  value, and a failed write tells what it left in the file.
\<close>

section \<open>State\<close>

datatype file_error = NotFound path | PermissionDenied path | IsDirectory path | IoError

record tool_env =
  te_env :: env
  te_home :: "str option"
  te_is_dir :: "path \<Rightarrow> bool"
  te_cwd :: path
  te_read_fault :: "path \<Rightarrow> file_error option"
  te_write_fault :: "path \<Rightarrow> (file_error \<times> str option) option"
  te_remove_fault :: "path \<Rightarrow> file_error option"
  te_changes :: line_diff
  te_unified_diff :: "str \<Rightarrow> str \<Rightarrow> path \<Rightarrow> str"
  te_hash_ops :: "op list \<Rightarrow> 64 word"

type_synonym files = "path \<Rightarrow> str option"

record tool_state =
  ts_snapshots :: store
  ts_clipboard :: "str list"
  ts_noop_edits :: "path \<Rightarrow> (64 word \<times> nat) option"
  ts_sticky_cwd :: "path option"
  ts_nudge_flags :: "8 word"
  ts_files :: files

definition tool_state_new :: "files \<Rightarrow> tool_state" where
  "tool_state_new fs =
     \<lparr>ts_snapshots = store_new, ts_clipboard = [], ts_noop_edits = Map.empty, ts_sticky_cwd = None,
      ts_nudge_flags = 0, ts_files = fs\<rparr>"

definition with_snapshot_dir :: "(path \<Rightarrow> disk) \<Rightarrow> path \<Rightarrow> files \<Rightarrow> tool_state" where
  "with_snapshot_dir disks root fs = (tool_state_new fs)\<lparr>ts_snapshots := with_disk disks root\<rparr>"

definition penv_of :: "tool_env \<Rightarrow> penv" where
  "penv_of te = \<lparr>pe_home = te_home te, pe_is_dir = te_is_dir te, pe_realpath = en_realpath (te_env te)\<rparr>"

abbreviation location :: "tool_env \<Rightarrow> path \<Rightarrow> path" where
  "location te p \<equiv> canonical (te_env te) p"

section \<open>Nudges\<close>

definition nudge_has :: "8 word \<Rightarrow> 8 word \<Rightarrow> bool" where
  "nudge_has flags flag \<longleftrightarrow> flags AND flag \<noteq> 0"

definition nudge_mark :: "8 word \<Rightarrow> 8 word \<Rightarrow> bool \<times> 8 word" where
  "nudge_mark flags flag = (flags AND flag \<noteq> 0, flags OR flag)"

section \<open>File operations\<close>

definition slice_lines :: "nat option \<Rightarrow> nat option \<Rightarrow> str \<Rightarrow> str" where
  "slice_lines off limit content =
     (if off = None \<and> limit = None then content
      else
        let lines = str_lines content;
            start = min (case off of Some n \<Rightarrow> n | None \<Rightarrow> 0) (length lines);
            e = (case limit of Some l \<Rightarrow> min (start + l) (length lines) | None \<Rightarrow> length lines)
        in if start \<ge> length lines then [] else join [NL] (take (e - start) (drop start lines)))"

definition read_file ::
  "tool_env \<Rightarrow> path \<Rightarrow> nat option \<Rightarrow> nat option \<Rightarrow> files \<Rightarrow> (file_error, str) result" where
  "read_file te p off limit fs =
     (case te_read_fault te p of
        Some e \<Rightarrow> Inl e
      | None \<Rightarrow> (case fs (location te p) of
                   None \<Rightarrow> Inl (NotFound p)
                 | Some content \<Rightarrow> Inr (slice_lines off limit content)))"

definition write_file :: "tool_env \<Rightarrow> path \<Rightarrow> str \<Rightarrow> files \<Rightarrow> (file_error, unit) result \<times> files" where
  "write_file te p content fs =
     (case te_write_fault te p of
        Some (e, left) \<Rightarrow>
          (Inl e, case left of None \<Rightarrow> fs | Some s \<Rightarrow> fs(location te p \<mapsto> s))
      | None \<Rightarrow> (Inr (), fs(location te p \<mapsto> content)))"

definition remove_file :: "tool_env \<Rightarrow> path \<Rightarrow> files \<Rightarrow> (file_error, unit) result \<times> files" where
  "remove_file te p fs =
     (case te_remove_fault te p of
        Some e \<Rightarrow> (Inl e, fs)
      | None \<Rightarrow> (case fs (location te p) of
                   None \<Rightarrow> (Inl (NotFound p), fs)
                 | Some _ \<Rightarrow> (Inr (), fs(location te p := None))))"

text \<open>A file operation changes at most the file of its path.\<close>

lemma write_file_elsewhere:
  "q \<noteq> location te p \<Longrightarrow> snd (write_file te p s fs) q = fs q"
  by (auto simp: write_file_def split: option.splits)

lemma remove_file_elsewhere:
  "q \<noteq> location te p \<Longrightarrow> snd (remove_file te p fs) q = fs q"
  by (auto simp: remove_file_def split: option.splits)

lemma write_file_ok:
  "te_write_fault te p = None \<Longrightarrow> write_file te p s fs = (Inr (), fs(location te p \<mapsto> s))"
  by (simp add: write_file_def)

lemma write_file_cases:
  "write_file te p s fs = (Inr u, fs') \<Longrightarrow> fs' = fs(location te p \<mapsto> s)"
  by (auto simp: write_file_def split: option.splits)

section \<open>Arguments and diffs\<close>

definition arg_str :: "str \<Rightarrow> json \<Rightarrow> str option" where
  "arg_str k params = Option.bind (json_get k params) as_str"

definition arg_u64 :: "str \<Rightarrow> json \<Rightarrow> nat option" where
  "arg_u64 k params = Option.bind (json_get k params) as_u64"

definition is_diff_empty :: "str \<Rightarrow> bool" where
  "is_diff_empty diff \<longleftrightarrow> trim diff = []"

definition count_diff_hunks :: "str \<Rightarrow> nat" where
  "count_diff_hunks diff = length (filter (\<lambda>l. starts_with l ''@@'') (str_lines diff))"

text \<open>\<^verbatim>\<open>resolve_effective_cwd\<close> on the session's sticky directory.\<close>

definition enter_cwd :: "tool_env \<Rightarrow> json \<Rightarrow> tool_state \<Rightarrow> (cwd_error, path) result \<times> tool_state" where
  "enter_cwd te params st =
     (let (r, sticky) = resolve_effective_cwd (penv_of te) (ts_sticky_cwd st) (te_cwd te) (json_get ''cwd'' params)
      in (r, st\<lparr>ts_sticky_cwd := sticky\<rparr>))"

lemma enter_cwd_keeps [simp]:
  "ts_files (snd (enter_cwd te params st)) = ts_files st"
  "ts_snapshots (snd (enter_cwd te params st)) = ts_snapshots st"
  by (simp_all add: enter_cwd_def case_prod_beta)

text \<open>The lines of a text the model authored count as seen.\<close>

definition record_authored :: "tool_env \<Rightarrow> path \<Rightarrow> str \<Rightarrow> store \<Rightarrow> snapshot option \<times> store" where
  "record_authored te p s st =
     (if length s > SNAPSHOT_MAX_BYTES then (None, st)
      else
        let (snap, st') = store_record (te_env te) p s st
        in (Some snap, record_seen_lines (te_env te) p (sn_tag snap) {1..length (str_lines s)} st'))"

end
