(* ===== verification/Edit_Tool.thy ===== *)
theory Edit_Tool
  imports Tool_Env Hashline_Parser
begin

text \<open>
  The edit tool (\<^verbatim>\<open>manox-harness/src/core/tools/edit.rs\<close>): parse the patch, prepare every section
  (read, tag check, gate, apply or recover, byte shape), then commit them all. The call holds the locks
  of all its files (\<^verbatim>\<open>File_Mutation_Queue\<close>), so its file accesses are not interleaved. Messages are
  values that hold what they are built from; a panic of the applier is its error \<open>Panicked\<close>.
\<close>

section \<open>Errors, pending effects, results\<close>

text \<open>What a commit failure reports as landed.\<close>

datatype landed = LDeleted path | LMoved path | LWritten path

datatype edit_error =
    PatchRequired
  | PatchMalformed parse_error
  | BadCwd cwd_error
  | ReadFailed path file_error
  | FileChanged path str str
  | TagForeign path str str
  | MoveOntoItself path
  | MoveApplyFailed path apply_error
  | CutBlkFailed block_error
  | ClipboardEmpty
  | GateRejected gate_error
  | ApplyFailed path apply_error
  | RecoveryFailed path recover_error
  | RemoveFailed path file_error "landed list"
  | MoveWriteFailed path file_error "landed list"
  | MoveRemoveFailed path file_error "landed list"
  | WriteFailed path file_error "landed list"
  | NoopLoop path nat

record pending_write =
  pw_path :: path
  pw_persisted :: str
  pw_snap_text :: str
  pw_current :: str
  pw_old_tag :: str
  pw_recovered :: bool
  pw_payload_hash :: "64 word"

datatype pending =
    PWrite pending_write
  | PRemove path
  | PMove path path str

datatype edit_entry =
    Deleted path
  | Moved path path
  | Changed path "str option" str "(str \<times> str option) option"
  | Unchanged path "str option"

record edit_output =
  eo_results :: "edit_entry list"
  eo_warnings :: "warning list"

definition NOOP_HARD_LIMIT :: nat where
  "NOOP_HARD_LIMIT = 3"

section \<open>Byte shape\<close>

text \<open>The loop over \<^verbatim>\<open>split('\n').peekable()\<close> puts CR LF between the pieces.\<close>

definition persist :: "str \<Rightarrow> bool \<Rightarrow> bool \<Rightarrow> bool \<Rightarrow> str" where
  "persist s crlf bom trailing_nl =
     (if bom then BOM else [])
     @ (if crlf then join [CR, NL] (split_on NL s) else s)
     @ (if trailing_nl \<and> s \<noteq> [] then (if crlf then [CR, NL] else [NL]) else [])"

section \<open>Clipboard\<close>

fun expand_op :: "str list \<Rightarrow> op \<Rightarrow> str list \<Rightarrow> (edit_error, op) result \<times> str list" where
  "expand_op lines (Cut start e) clipboard =
     (let s = start - 1; e' = min e (length lines)
      in (Inr (Del start e), if s < e' then take (e' - s) (drop s lines) else clipboard))"
| "expand_op lines (CutBlk start) clipboard =
     (case resolve_block_range lines start of
        Inl err \<Rightarrow> (Inl (CutBlkFailed err), clipboard)
      | Inr (s, e) \<Rightarrow> (Inr (DelBlk start), take (e - (s - 1)) (drop (s - 1) lines)))"
| "expand_op lines (Paste pos anchor) clipboard =
     (if clipboard = [] then (Inl ClipboardEmpty, clipboard)
      else (Inr (Ins pos anchor clipboard), clipboard))"
| "expand_op lines p clipboard = (Inr p, clipboard)"

fun expand_loop :: "str list \<Rightarrow> op list \<Rightarrow> str list \<Rightarrow> (edit_error, op list) result \<times> str list" where
  "expand_loop lines [] clipboard = (Inr [], clipboard)"
| "expand_loop lines (p # ps) clipboard =
     (case expand_op lines p clipboard of
        (Inl e, clipboard') \<Rightarrow> (Inl e, clipboard')
      | (Inr p', clipboard') \<Rightarrow>
          (case expand_loop lines ps clipboard' of
             (Inl e, clipboard'') \<Rightarrow> (Inl e, clipboard'')
           | (Inr ps', clipboard'') \<Rightarrow> (Inr (p' # ps'), clipboard'')))"

definition expand_clipboard_ops ::
  "op list \<Rightarrow> str \<Rightarrow> tool_state \<Rightarrow> (edit_error, op list) result \<times> tool_state" where
  "expand_clipboard_ops ops current st =
     (let (r, clipboard) = expand_loop (str_lines current) ops (ts_clipboard st)
      in (r, st\<lparr>ts_clipboard := clipboard\<rparr>))"

section \<open>Preparation\<close>

definition resolve_path :: "str \<Rightarrow> path \<Rightarrow> path" where
  "resolve_path p cwd = onto cwd (path_components p)"

text \<open>Tag check, then removal or move of a file section.\<close>

definition prepare_file_op ::
  "tool_env \<Rightarrow> path \<Rightarrow> file_patch \<Rightarrow> file_op \<Rightarrow> tool_state \<Rightarrow> (edit_error, pending) result \<times> tool_state" where
  "prepare_file_op te cwd fp file_op st =
     (let path = resolve_path (fp_path fp) cwd in
      case read_file te path None None (ts_files st) of
        Inl e \<Rightarrow> (Inl (ReadFailed path e), st)
      | Inr raw \<Rightarrow>
          let current = normalize_to_lf raw; current_tag = compute_tag (en_xxh32 (te_env te)) current in
          if current_tag \<noteq> fp_tag fp then
            (case store_get (te_env te) path (fp_tag fp) (ts_snapshots st) of
               (known, store') \<Rightarrow>
                 (Inl (if known \<noteq> None then FileChanged path (fp_tag fp) current_tag
                       else TagForeign path (fp_tag fp) current_tag),
                  st\<lparr>ts_snapshots := store'\<rparr>))
          else
            case file_op of
              Rem \<Rightarrow> (Inr (PRemove path), st)
            | Move dest \<Rightarrow>
                let dest_path = resolve_path dest cwd in
                if canonical (te_env te) dest_path = canonical (te_env te) path
                then (Inl (MoveOntoItself path), st)
                else
                  case expand_clipboard_ops (fp_ops fp) current st of
                    (Inl e, st') \<Rightarrow> (Inl e, st')
                  | (Inr expanded, st') \<Rightarrow>
                      (case (if fp_ops fp = [] then Inr current
                             else map_sum id ar_text (apply_ops current expanded)) of
                         Inl e \<Rightarrow> (Inl (MoveApplyFailed path e), st')
                       | Inr effective \<Rightarrow>
                           (Inr (PMove path dest_path
                              (persist effective (detect_crlf raw) (has_bom raw) (ends_with raw [NL]))), st')))"

fun position_free_op :: "op \<Rightarrow> bool" where
  "position_free_op (Ins pos None body) = True"
| "position_free_op (Paste pos None) = True"
| "position_free_op _ = False"

text \<open>The new text of a section: gate and apply under a current tag, apply directly when no operation
  names a line, otherwise recovery.\<close>

definition edited_text ::
  "tool_env \<Rightarrow> bool \<Rightarrow> path \<Rightarrow> str \<Rightarrow> op list \<Rightarrow> str \<Rightarrow> store \<Rightarrow> (edit_error, str) result \<times> store" where
  "edited_text te enforce path tag expanded_ops current store =
     (let apply_now = (\<lambda>store. (case apply_ops current expanded_ops of
                                  Inl e \<Rightarrow> (Inl (ApplyFailed path e), store)
                                | Inr r \<Rightarrow> (Inr (ar_text r), store)))
      in if compute_tag (en_xxh32 (te_env te)) current = tag then
           (if enforce then
              (case assert_seen_lines (te_env te) path tag expanded_ops current store of
                 (Inl e, store') \<Rightarrow> (Inl (GateRejected e), store')
               | (Inr _, store') \<Rightarrow> apply_now store')
            else apply_now store)
         else if list_all position_free_op expanded_ops then apply_now store
         else
           (case try_recover (te_changes te) (te_env te) current tag expanded_ops path store of
              (Inl e, store') \<Rightarrow> (Inl (RecoveryFailed path e), store')
            | (Inr s, store') \<Rightarrow> (Inr s, store')))"

definition prepare_line_ops ::
  "tool_env \<Rightarrow> bool \<Rightarrow> path \<Rightarrow> file_patch \<Rightarrow> tool_state \<Rightarrow> (edit_error, pending) result \<times> tool_state" where
  "prepare_line_ops te enforce cwd fp st =
     (let path = resolve_path (fp_path fp) cwd in
      case read_file te path None None (ts_files st) of
        Inl e \<Rightarrow> (Inl (ReadFailed path e), st)
      | Inr raw \<Rightarrow>
          let current = normalize_to_lf raw; current_tag = compute_tag (en_xxh32 (te_env te)) current in
          case expand_clipboard_ops (fp_ops fp) current st of
            (Inl e, st') \<Rightarrow> (Inl e, st')
          | (Inr expanded_ops, st') \<Rightarrow>
              (case edited_text te enforce path (fp_tag fp) expanded_ops current (ts_snapshots st') of
                 (Inl e, store') \<Rightarrow> (Inl e, st'\<lparr>ts_snapshots := store'\<rparr>)
               | (Inr new_text, store') \<Rightarrow>
                   (Inr (PWrite
                      \<lparr>pw_path = path,
                       pw_persisted = persist new_text (detect_crlf raw) (has_bom raw) (ends_with raw [NL]),
                       pw_snap_text = normalize_to_lf new_text,
                       pw_current = current,
                       pw_old_tag = fp_tag fp,
                       pw_recovered = (current_tag \<noteq> fp_tag fp),
                       pw_payload_hash = te_hash_ops te (fp_ops fp)\<rparr>),
                    st'\<lparr>ts_snapshots := store'\<rparr>)))"

definition prepare ::
  "tool_env \<Rightarrow> bool \<Rightarrow> path \<Rightarrow> file_patch \<Rightarrow> tool_state \<Rightarrow> (edit_error, pending) result \<times> tool_state" where
  "prepare te enforce cwd fp st =
     (case fp_file_op fp of
        Some file_op \<Rightarrow> prepare_file_op te cwd fp file_op st
      | None \<Rightarrow> prepare_line_ops te enforce cwd fp st)"

fun prepare_all ::
  "tool_env \<Rightarrow> bool \<Rightarrow> path \<Rightarrow> file_patch list \<Rightarrow> tool_state \<Rightarrow> (edit_error, pending list) result \<times> tool_state" where
  "prepare_all te enforce cwd [] st = (Inr [], st)"
| "prepare_all te enforce cwd (fp # fps) st =
     (case prepare te enforce cwd fp st of
        (Inl e, st') \<Rightarrow> (Inl e, st')
      | (Inr p, st') \<Rightarrow>
          (case prepare_all te enforce cwd fps st' of
             (Inl e, st'') \<Rightarrow> (Inl e, st'')
           | (Inr ps, st'') \<Rightarrow> (Inr (p # ps), st'')))"

section \<open>Commit\<close>

text \<open>The no-op guard: the count of one payload in a row, and whether it is refused.\<close>

definition count_noop :: "path \<Rightarrow> 64 word \<Rightarrow> (path \<Rightarrow> (64 word \<times> nat) option) \<Rightarrow> nat \<times> (path \<Rightarrow> (64 word \<times> nat) option)" where
  "count_noop key payload_hash guard =
     (let entry = (case guard key of Some e \<Rightarrow> e | None \<Rightarrow> (payload_hash, 0));
          entry' = (if fst entry = payload_hash then (fst entry, snd entry + 1) else (payload_hash, 1))
      in (snd entry', guard(key \<mapsto> entry')))"

definition commit_write ::
  "tool_env \<Rightarrow> pending_write \<Rightarrow> landed list \<Rightarrow> tool_state \<Rightarrow> (edit_error, edit_entry \<times> landed) result \<times> tool_state" where
  "commit_write te w manifest st =
     (let path = pw_path w in
      case write_file te path (pw_persisted w) (ts_files st) of
        (Inl e, fs) \<Rightarrow> (Inl (WriteFailed path e manifest), st\<lparr>ts_files := fs\<rparr>)
      | (Inr _, fs) \<Rightarrow>
          let (new_snap, store') = record_authored te path (pw_snap_text w) (ts_snapshots st);
              st' = st\<lparr>ts_files := fs, ts_snapshots := store'\<rparr>;
              diff = te_unified_diff te (pw_current w) (pw_snap_text w) path;
              noop_key = canonical (te_env te) path;
              tag = map_option sn_tag new_snap
          in if \<not> is_diff_empty diff then
               (Inr (Changed path tag diff (if pw_recovered w then Some (pw_old_tag w, tag) else None), LWritten path),
                st'\<lparr>ts_noop_edits := (ts_noop_edits st')(noop_key := None)\<rparr>)
             else
               let (count, guard) = count_noop noop_key (pw_payload_hash w) (ts_noop_edits st');
                   st'' = st'\<lparr>ts_noop_edits := guard\<rparr>
               in if count \<ge> NOOP_HARD_LIMIT then (Inl (NoopLoop path count), st'')
                  else (Inr (Unchanged path tag, LWritten path), st''))"

fun commit ::
  "tool_env \<Rightarrow> pending \<Rightarrow> landed list \<Rightarrow> tool_state \<Rightarrow> (edit_error, edit_entry \<times> landed) result \<times> tool_state" where
  "commit te (PRemove path) manifest st =
     (case remove_file te path (ts_files st) of
        (Inl e, fs) \<Rightarrow> (Inl (RemoveFailed path e manifest), st\<lparr>ts_files := fs\<rparr>)
      | (Inr _, fs) \<Rightarrow>
          (Inr (Deleted path, LDeleted path),
           st\<lparr>ts_files := fs, ts_snapshots := invalidate (te_env te) path (ts_snapshots st)\<rparr>))"
| "commit te (PMove src dest persisted) manifest st =
     (case write_file te dest persisted (ts_files st) of
        (Inl e, fs) \<Rightarrow> (Inl (MoveWriteFailed src e manifest), st\<lparr>ts_files := fs\<rparr>)
      | (Inr _, fs) \<Rightarrow>
          (case remove_file te src fs of
             (Inl e, fs') \<Rightarrow> (Inl (MoveRemoveFailed src e manifest), st\<lparr>ts_files := fs'\<rparr>)
           | (Inr _, fs') \<Rightarrow>
               (Inr (Moved src dest, LMoved src),
                st\<lparr>ts_files := fs', ts_snapshots := relocate (te_env te) src dest (ts_snapshots st)\<rparr>)))"
| "commit te (PWrite w) manifest st = commit_write te w manifest st"

fun commit_all ::
  "tool_env \<Rightarrow> pending list \<Rightarrow> landed list \<Rightarrow> tool_state \<Rightarrow> (edit_error, edit_entry list) result \<times> tool_state" where
  "commit_all te [] manifest st = (Inr [], st)"
| "commit_all te (p # ps) manifest st =
     (case commit te p manifest st of
        (Inl e, st') \<Rightarrow> (Inl e, st')
      | (Inr (entry, l), st') \<Rightarrow>
          (case commit_all te ps (manifest @ [l]) st' of
             (Inl e, st'') \<Rightarrow> (Inl e, st'')
           | (Inr entries, st'') \<Rightarrow> (Inr (entry # entries), st'')))"

section \<open>The tool call\<close>

definition edit_execute ::
  "tool_env \<Rightarrow> bool \<Rightarrow> json \<Rightarrow> tool_state \<Rightarrow> (edit_error, edit_output) result \<times> tool_state" where
  "edit_execute te enforce params st =
     (case arg_str ''patch'' params of
        None \<Rightarrow> (Inl PatchRequired, st)
      | Some patch \<Rightarrow>
     (case parse_patch patch of
        Inl e \<Rightarrow> (Inl (PatchMalformed e), st)
      | Inr parsed \<Rightarrow>
     (case enter_cwd te params (st\<lparr>ts_clipboard := []\<rparr>) of
        (Inl e, st1) \<Rightarrow> (Inl (BadCwd e), st1)
      | (Inr cwd, st1) \<Rightarrow>
     (case prepare_all te enforce cwd (pp_files parsed) st1 of
        (Inl e, st2) \<Rightarrow> (Inl e, st2)
      | (Inr prepared, st2) \<Rightarrow>
     (case commit_all te prepared [] st2 of
        (Inl e, st3) \<Rightarrow> (Inl e, st3)
      | (Inr results, st3) \<Rightarrow>
          (Inr \<lparr>eo_results = results, eo_warnings = pp_warnings parsed\<rparr>, st3))))))"

section \<open>The plan of a call and its effect on the files\<close>

text \<open>What the call is going to write, decided before anything is written.\<close>

definition edit_plan :: "tool_env \<Rightarrow> bool \<Rightarrow> json \<Rightarrow> tool_state \<Rightarrow> pending list option" where
  "edit_plan te enforce params st =
     (case Option.bind (arg_str ''patch'' params) (\<lambda>p. case parse_patch p of Inl e \<Rightarrow> None | Inr r \<Rightarrow> Some r) of
        None \<Rightarrow> None
      | Some parsed \<Rightarrow>
          (case enter_cwd te params (st\<lparr>ts_clipboard := []\<rparr>) of
             (Inl e, st1) \<Rightarrow> None
           | (Inr cwd, st1) \<Rightarrow>
               (case fst (prepare_all te enforce cwd (pp_files parsed) st1) of
                  Inl e \<Rightarrow> None | Inr ps \<Rightarrow> Some ps)))"

fun pending_effect :: "tool_env \<Rightarrow> pending \<Rightarrow> files \<Rightarrow> files" where
  "pending_effect te (PWrite w) fs = fs(location te (pw_path w) \<mapsto> pw_persisted w)"
| "pending_effect te (PRemove p) fs = fs(location te p := None)"
| "pending_effect te (PMove src dest s) fs = (fs(location te dest \<mapsto> s))(location te src := None)"

fun pending_touches :: "tool_env \<Rightarrow> pending \<Rightarrow> path set" where
  "pending_touches te (PWrite w) = {location te (pw_path w)}"
| "pending_touches te (PRemove p) = {location te p}"
| "pending_touches te (PMove src dest s) = {location te src, location te dest}"

fun pending_landed :: "pending \<Rightarrow> landed" where
  "pending_landed (PWrite w) = LWritten (pw_path w)"
| "pending_landed (PRemove p) = LDeleted p"
| "pending_landed (PMove src dest s) = LMoved src"

fun commit_phase :: "edit_error \<Rightarrow> bool" where
  "commit_phase (RemoveFailed p e m) = True"
| "commit_phase (MoveWriteFailed p e m) = True"
| "commit_phase (MoveRemoveFailed p e m) = True"
| "commit_phase (WriteFailed p e m) = True"
| "commit_phase (NoopLoop p n) = True"
| "commit_phase _ = False"

fun manifest_of :: "edit_error \<Rightarrow> landed list option" where
  "manifest_of (RemoveFailed p e m) = Some m"
| "manifest_of (MoveWriteFailed p e m) = Some m"
| "manifest_of (MoveRemoveFailed p e m) = Some m"
| "manifest_of (WriteFailed p e m) = Some m"
| "manifest_of _ = None"

subsection \<open>Preparation reads only\<close>

lemma expand_clipboard_ops_keeps:
  "expand_clipboard_ops ops s st = (r, st') \<Longrightarrow> ts_files st' = ts_files st \<and> ts_snapshots st' = ts_snapshots st"
  by (auto simp: expand_clipboard_ops_def split: prod.splits)

lemma prepare_file_op_files: "ts_files (snd (prepare_file_op te cwd fp f st)) = ts_files st"
  by (auto simp: prepare_file_op_def Let_def dest!: expand_clipboard_ops_keeps
      split: sum.splits prod.splits file_op.splits)

lemma prepare_line_ops_files: "ts_files (snd (prepare_line_ops te enforce cwd fp st)) = ts_files st"
  by (auto simp: prepare_line_ops_def Let_def dest!: expand_clipboard_ops_keeps
      split: sum.splits prod.splits)

lemma prepare_files: "prepare te enforce cwd fp st = (r, st') \<Longrightarrow> ts_files st' = ts_files st"
  using prepare_file_op_files [of te cwd fp _ st] prepare_line_ops_files [of te enforce cwd fp st]
  by (auto simp: prepare_def split: option.splits) (metis snd_conv)+

lemma prepare_all_files:
  "prepare_all te enforce cwd fps st = (r, st') \<Longrightarrow> ts_files st' = ts_files st"
proof (induction fps arbitrary: r st st')
  case (Cons fp fps)
  obtain r1 st1 where p: "prepare te enforce cwd fp st = (r1, st1)" by (cases "prepare te enforce cwd fp st")
  obtain r2 st2 where q: "prepare_all te enforce cwd fps st1 = (r2, st2)"
    by (cases "prepare_all te enforce cwd fps st1")
  from Cons.prems p q have "st' = st1 \<or> st' = st2" by (cases r1; cases r2) auto
  then show ?case using prepare_files [OF p] Cons.IH [OF q] Cons.prems p q by auto
qed simp

text \<open>Preparation reports no error of the commit phase.\<close>

lemma expand_loop_error: "fst (expand_loop lines ops cb) = Inl e \<Longrightarrow> \<not> commit_phase e"
proof (induction ops arbitrary: cb)
  case (Cons p ps)
  have "fst (expand_op lines p cb) = Inl e' \<Longrightarrow> \<not> commit_phase e'" for e'
    by (cases p) (auto simp: Let_def split: sum.splits if_splits)
  with Cons show ?case by (auto split: prod.splits sum.splits) (metis fst_conv)+
qed simp

lemma expand_clipboard_ops_error:
  "expand_clipboard_ops ops s st = (Inl e, st') \<Longrightarrow> \<not> commit_phase e"
  using expand_loop_error by (auto simp: expand_clipboard_ops_def split: prod.splits) (metis fst_conv)

lemma edited_text_error: "edited_text te enforce p t ops s store = (Inl e, store') \<Longrightarrow> \<not> commit_phase e"
  by (auto simp: edited_text_def Let_def split: if_splits sum.splits prod.splits)

lemma prepare_error: "prepare te enforce cwd fp st = (Inl e, st') \<Longrightarrow> \<not> commit_phase e"
  by (auto simp: prepare_def prepare_file_op_def prepare_line_ops_def Let_def
      dest!: expand_clipboard_ops_error edited_text_error
      split: option.splits sum.splits prod.splits if_splits file_op.splits)

lemma prepare_all_error: "prepare_all te enforce cwd fps st = (Inl e, st') \<Longrightarrow> \<not> commit_phase e"
  by (induction fps arbitrary: st) (auto dest: prepare_error split: prod.splits sum.splits)

subsection \<open>The commit loop performs the effects one after the other\<close>

definition differs :: "files \<Rightarrow> files \<Rightarrow> path set" where
  "differs fs fs' = {q. fs q \<noteq> fs' q}"

lemma commit_write_ok:
  "commit_write te w m st = (Inr (entry, l), st') \<Longrightarrow>
     ts_files st' = pending_effect te (PWrite w) (ts_files st) \<and> l = pending_landed (PWrite w)"
  by (auto simp: commit_write_def Let_def dest!: write_file_cases split: prod.splits sum.splits if_splits)

lemma commit_ok:
  "commit te p m st = (Inr (entry, l), st') \<Longrightarrow>
     ts_files st' = pending_effect te p (ts_files st) \<and> l = pending_landed p"
proof (cases p)
  case (PWrite w)
  then show "commit te p m st = (Inr (entry, l), st') \<Longrightarrow> ?thesis"
    using commit_write_ok [of te w m st entry l st'] by simp
qed (auto dest!: write_file_cases simp: remove_file_def split: prod.splits sum.splits option.splits)

lemma commit_write_failed:
  "commit_write te w m st = (Inl e, st') \<Longrightarrow>
     commit_phase e \<and> (manifest_of e = None \<or> manifest_of e = Some m)
     \<and> differs (ts_files st) (ts_files st') \<subseteq> pending_touches te (PWrite w)"
  by (auto simp: commit_write_def Let_def write_file_def differs_def
      split: prod.splits sum.splits if_splits option.splits)

lemma commit_failed:
  "commit te p m st = (Inl e, st') \<Longrightarrow>
     commit_phase e \<and> (manifest_of e = None \<or> manifest_of e = Some m)
     \<and> differs (ts_files st) (ts_files st') \<subseteq> pending_touches te p"
proof (cases p)
  case (PWrite w)
  then show "commit te p m st = (Inl e, st') \<Longrightarrow> ?thesis"
    using commit_write_failed [of te w m st e st'] by simp
qed (auto simp: write_file_def remove_file_def differs_def split: prod.splits sum.splits if_splits option.splits)

lemma commit_all_ok:
  "commit_all te ps m st = (Inr entries, st') \<Longrightarrow>
     ts_files st' = fold (pending_effect te) ps (ts_files st) \<and> length entries = length ps"
proof (induction ps arbitrary: m st entries)
  case (Cons p ps)
  then obtain entry l st1 es where one: "commit te p m st = (Inr (entry, l), st1)"
    and "commit_all te ps (m @ [l]) st1 = (Inr es, st')" "entries = entry # es"
    by (auto split: prod.splits sum.splits)
  with Cons.IH commit_ok [OF one] show ?case by auto
qed simp

lemma commit_all_failed:
  "commit_all te ps m st = (Inl e, st') \<Longrightarrow>
     commit_phase e \<and>
     (\<exists>k < length ps. (manifest_of e = None \<or> manifest_of e = Some (m @ map pending_landed (take k ps)))
        \<and> differs (fold (pending_effect te) (take k ps) (ts_files st)) (ts_files st')
            \<subseteq> pending_touches te (ps ! k))"
proof (induction ps arbitrary: m st)
  case (Cons p ps)
  obtain r st1 where one: "commit te p m st = (r, st1)" by (cases "commit te p m st")
  show ?case
  proof (cases r)
    case (Inl e1)
    with one Cons.prems have "commit te p m st = (Inl e, st')" by simp
    from commit_failed [OF this] show ?thesis by (intro conjI exI [of _ 0]) auto
  next
    case (Inr el)
    obtain entry l where el: "el = (entry, l)" by (cases el)
    have ok: "ts_files st1 = pending_effect te p (ts_files st)" "l = pending_landed p"
      using commit_ok one Inr el by auto
    have "commit_all te ps (m @ [l]) st1 = (Inl e, st')"
      using Cons.prems one Inr el by (auto split: prod.splits sum.splits)
    from Cons.IH [OF this] obtain k where "commit_phase e" "k < length ps"
      "manifest_of e = None \<or> manifest_of e = Some ((m @ [l]) @ map pending_landed (take k ps))"
      "differs (fold (pending_effect te) (take k ps) (ts_files st1)) (ts_files st') \<subseteq> pending_touches te (ps ! k)"
      by blast
    with ok show ?thesis by (intro conjI exI [of _ "Suc k"]) auto
  qed
qed simp


section \<open>Byte shape\<close>

lemma join_crlf: "join [CR, NL] (split_on NL s) = to_crlf s"
proof (induction s)
  case (Cons c s)
  obtain p ps where ps: "split_on NL s = p # ps" by (cases "split_on NL s") auto
  with Cons show ?case by (cases ps) (auto simp: to_crlf_def)
qed (simp add: to_crlf_def)

lemma replace_crlf_append_plain: "c \<noteq> CR \<Longrightarrow> replace_crlf (c # s) = c # replace_crlf s"
  by (cases s) auto

lemma replace_crlf_to_crlf: "CR \<notin> set s \<Longrightarrow> replace_crlf (to_crlf s @ t) = s @ replace_crlf t"
  by (induction s) (auto simp: to_crlf_def replace_crlf_append_plain)

lemma replace_crlf_plain: "CR \<notin> set s \<Longrightarrow> replace_crlf (s @ t) = s @ replace_crlf t"
  by (induction s) (auto simp: replace_crlf_append_plain)

lemma str_contains_append_plain:
  assumes "p \<notin> set s"
  shows "str_contains (s @ t) (p # ps) = str_contains t (p # ps)"
  using assms by (induction s) (auto simp: str_contains_def starts_with_def)

lemma to_crlf_plain: "NL \<notin> set s \<Longrightarrow> to_crlf s = s"
  by (induction s) (auto simp: to_crlf_def)

lemma detect_crlf_to_crlf:
  assumes "CR \<notin> set s"
  shows "detect_crlf (to_crlf s @ t) \<longleftrightarrow> NL \<in> set s \<or> detect_crlf t"
  using assms
proof (induction s)
  case (Cons c s)
  then show ?case
    by (cases "c = NL")
      (auto simp: to_crlf_def detect_crlf_def str_contains_def starts_with_def)
qed (simp add: to_crlf_def)

lemma to_crlf_snoc: "to_crlf (s @ [NL]) = to_crlf s @ [CR, NL]"
  by (simp add: to_crlf_def)

lemma BOM_chars: "c \<in> set BOM \<Longrightarrow> c \<noteq> CR \<and> c \<noteq> NL"
  by (auto simp: BOM_def)

lemma BOM_no_CR: "CR \<notin> set BOM" "NL \<notin> set BOM"
  using BOM_chars by blast+

lemma to_crlf_BOM:
  "strip_prefix BOM (to_crlf s) = map_option to_crlf (strip_prefix BOM s)"
proof -
  have "NL \<notin> set p \<Longrightarrow> CR \<notin> set p \<Longrightarrow> strip_prefix p (to_crlf s) = map_option to_crlf (strip_prefix p s)" for p
  proof (induction p s rule: strip_prefix.induct)
    case (3 p ps c cs)
    then show ?case by (auto simp: to_crlf_def)
  qed (auto simp: to_crlf_def)
  then show ?thesis using BOM_no_CR by blast
qed

text \<open>The text that persisting writes, line ends aside.\<close>

definition full_text :: "str \<Rightarrow> bool \<Rightarrow> str" where
  "full_text s trailing_nl = (if trailing_nl \<and> s \<noteq> [] then s @ [NL] else s)"

lemma persist_eq:
  "persist s crlf bom nl =
     (if bom then BOM else []) @ (if crlf then to_crlf (full_text s nl) else full_text s nl)"
  by (simp add: persist_def full_text_def join_crlf to_crlf_snoc)

lemma full_text_BOM: "has_bom (full_text s nl) = has_bom s"
proof -
  have "starts_with (s @ [c]) p = starts_with s p" if "c \<notin> set p" for c p
    using that by (induction p s rule: strip_prefix.induct) (auto simp: starts_with_def)
  from this [OF BOM_no_CR(2)]
  show ?thesis by (simp add: full_text_def has_bom_def)
qed


lemma normalize_to_lf_persist:
  assumes "CR \<notin> set s" "\<not> has_bom s"
  shows "normalize_to_lf (persist s crlf bom nl) = full_text s nl"
proof -
  let ?t = "full_text s nl"
  have t: "CR \<notin> set ?t" "strip_prefix BOM ?t = None"
    using assms full_text_BOM [of s nl] by (auto simp: full_text_def has_bom_def starts_with_def)
  have "strip_prefix BOM (if crlf then to_crlf ?t else ?t) = None"
    using t(2) by (simp add: to_crlf_BOM)
  then have "(case strip_prefix BOM (persist s crlf bom nl) of Some r \<Rightarrow> r | None \<Rightarrow> persist s crlf bom nl)
      = (if crlf then to_crlf ?t else ?t)"
    using strip_prefix_Some_iff [of BOM "persist s crlf bom nl"] by (auto simp: persist_eq)
  moreover have "replace_crlf (if crlf then to_crlf ?t else ?t) = ?t"
    using replace_crlf_to_crlf [OF t(1), of "[]"] t(1) by (simp add: replace_crlf_no_cr)
  ultimately show ?thesis using t(1) by (simp add: normalize_to_lf_def replace_cr_id)
qed

lemma persist_shape:
  assumes "CR \<notin> set s" "\<not> has_bom s" "s \<noteq> []" "last s \<noteq> NL"
  shows "has_bom (persist s crlf bom nl) = bom"
    and "ends_with (persist s crlf bom nl) [NL] = nl"
    and "detect_crlf (persist s crlf bom nl) \<longleftrightarrow> crlf \<and> (nl \<or> NL \<in> set s)"
proof -
  let ?t = "full_text s nl"
  have t: "CR \<notin> set ?t" "strip_prefix BOM ?t = None"
    using assms full_text_BOM [of s nl] by (auto simp: full_text_def has_bom_def starts_with_def)
  show "has_bom (persist s crlf bom nl) = bom"
    using t(2) strip_prefix_Some_iff [of BOM "BOM @ x" x for x]
    by (cases bom) (simp_all add: persist_eq has_bom_def starts_with_def to_crlf_BOM)
  have e: "ends_with ?t [NL] = nl" "?t \<noteq> []" "last ?t = NL \<longleftrightarrow> nl"
    using assms(3,4) by (auto simp: full_text_def ends_with_iff)
  have l: "last (to_crlf u) = last u" "to_crlf u \<noteq> []" if "u \<noteq> []" for u
    using that by (induction u rule: rev_induct) (auto simp: to_crlf_def)
  have ends: "ends_with u [NL] \<longleftrightarrow> u \<noteq> [] \<and> last u = NL" for u
    by (auto simp: ends_with_iff) (metis append_butlast_last_id)
  show "ends_with (persist s crlf bom nl) [NL] = nl"
    using e l [OF e(2)] by (auto simp: ends persist_eq)
  have nl: "NL \<in> set ?t \<longleftrightarrow> nl \<or> NL \<in> set s" using assms(3) by (auto simp: full_text_def)
  have none: "\<not> detect_crlf u" if "CR \<notin> set u" for u
    using str_contains_append_plain [OF that, of "[]" "[NL]"] by (simp add: detect_crlf_def str_contains_def)
  have "detect_crlf (persist s crlf bom nl) = detect_crlf (if crlf then to_crlf ?t else ?t)"
    using str_contains_append_plain [OF BOM_no_CR(1)] by (auto simp: persist_eq detect_crlf_def)
  then show "detect_crlf (persist s crlf bom nl) \<longleftrightarrow> crlf \<and> (nl \<or> NL \<in> set s)"
    using detect_crlf_to_crlf [OF t(1), of "[]"] none [OF t(1)] none [of "[]"] nl by auto
qed



section \<open>Clipboard expansion\<close>

fun is_clipboard_op :: "op \<Rightarrow> bool" where
  "is_clipboard_op (Cut s e) = True"
| "is_clipboard_op (CutBlk s) = True"
| "is_clipboard_op (Paste p a) = True"
| "is_clipboard_op _ = False"

lemma expand_op_anchors:
  "expand_op lines p cb = (Inr p', cb') \<Longrightarrow> \<not> is_clipboard_op p' \<and> op_anchor_lines p' = op_anchor_lines p"
proof (cases p)
  case (Paste pos a)
  then show "expand_op lines p cb = (Inr p', cb') \<Longrightarrow> ?thesis" by (cases a) (auto split: if_splits)
qed (auto simp: Let_def split: sum.splits)

lemma expand_loop_anchors:
  "expand_loop lines ops cb = (Inr ops', cb') \<Longrightarrow>
     list_all2 (\<lambda>p p'. \<not> is_clipboard_op p' \<and> op_anchor_lines p' = op_anchor_lines p) ops ops'"
  by (induction ops arbitrary: cb ops') (auto dest: expand_op_anchors split: prod.splits sum.splits)

text \<open>Clipboard expansion leaves no cut or paste behind and refers to the same lines, operation by
  operation: the tag check, the seen-line gate and the recovery judge exactly the lines the patch names.\<close>
lemma clipboard_expansion_keeps_anchors:
  "case expand_clipboard_ops ops current st of
     (Inr ops', st') \<Rightarrow>
       list_all2 (\<lambda>p p'. \<not> is_clipboard_op p' \<and> op_anchor_lines p' = op_anchor_lines p) ops ops'
       \<and> collect_anchor_lines ops' = collect_anchor_lines ops
   | (Inl e, st') \<Rightarrow> \<not> commit_phase e \<and> ts_files st' = ts_files st"
proof -
  obtain r st' where r: "expand_clipboard_ops ops current st = (r, st')"
    by (cases "expand_clipboard_ops ops current st")
  show ?thesis
  proof (cases r)
    case (Inl e)
    with r expand_clipboard_ops_error expand_clipboard_ops_keeps show ?thesis by auto
  next
    case (Inr ops')
    with r have "list_all2 (\<lambda>p p'. \<not> is_clipboard_op p' \<and> op_anchor_lines p' = op_anchor_lines p) ops ops'"
      using expand_loop_anchors by (auto simp: expand_clipboard_ops_def split: prod.splits)
    moreover from this have "map op_anchor_lines ops' = map op_anchor_lines ops"
      by (induction rule: list_all2_induct) auto
    ultimately show ?thesis using r Inr by (simp add: collect_anchor_lines_def)
  qed
qed

section \<open>Every write is justified\<close>

text \<open>The result of a section on a text: applied under its current tag or without line anchors,
  otherwise recovered from a retained version that carries the cited tag.\<close>

definition text_justified :: "tool_env \<Rightarrow> str \<Rightarrow> op list \<Rightarrow> str \<Rightarrow> str \<Rightarrow> bool" where
  "text_justified te tag ops current new_text \<longleftrightarrow>
     (if compute_tag (en_xxh32 (te_env te)) current = tag \<or> list_all position_free_op ops
      then \<exists>r. apply_ops current ops = Inr r \<and> new_text = ar_text r
      else \<exists>snap. sn_tag snap = tag
             \<and> try_recover_with_snapshot (te_changes te) (en_xxh32 (te_env te)) current snap ops = Inr new_text)"

definition same_anchors :: "op list \<Rightarrow> op list \<Rightarrow> bool" where
  "same_anchors ops ops' \<longleftrightarrow>
     list_all2 (\<lambda>p p'. \<not> is_clipboard_op p' \<and> op_anchor_lines p' = op_anchor_lines p) ops ops'"

fun pending_justified :: "tool_env \<Rightarrow> path \<Rightarrow> file_patch \<Rightarrow> str \<Rightarrow> pending \<Rightarrow> bool" where
  "pending_justified te path fp raw (PRemove p) \<longleftrightarrow>
     p = path \<and> compute_tag (en_xxh32 (te_env te)) (normalize_to_lf raw) = fp_tag fp"
| "pending_justified te path fp raw (PMove src dest s) \<longleftrightarrow>
     src = path \<and> compute_tag (en_xxh32 (te_env te)) (normalize_to_lf raw) = fp_tag fp
     \<and> location te dest \<noteq> location te src"
| "pending_justified te path fp raw (PWrite w) \<longleftrightarrow>
     pw_path w = path
     \<and> (\<exists>ops new_text. same_anchors (fp_ops fp) ops
          \<and> text_justified te (fp_tag fp) ops (normalize_to_lf raw) new_text
          \<and> pw_persisted w = persist new_text (detect_crlf raw) (has_bom raw) (ends_with raw [NL]))"

definition section_justified :: "tool_env \<Rightarrow> path \<Rightarrow> files \<Rightarrow> file_patch \<Rightarrow> pending \<Rightarrow> bool" where
  "section_justified te cwd fs fp p \<longleftrightarrow>
     (\<exists>raw. fs (location te (resolve_path (fp_path fp) cwd)) = Some raw
        \<and> pending_justified te (resolve_path (fp_path fp) cwd) fp raw p)"

lemma store_get_tag: "store_get env p tag st = (Some s, st') \<Longrightarrow> sn_tag s = tag"
  by (auto simp: store_get_def Let_def find_Some_iff split: if_splits option.splits prod.splits)

lemma read_file_content:
  "read_file te p None None fs = Inr raw \<Longrightarrow> fs (location te p) = Some raw"
  by (auto simp: read_file_def slice_lines_def split: option.splits)

lemma expand_clipboard_ops_anchors:
  "expand_clipboard_ops ops current st = (Inr ops', st') \<Longrightarrow> same_anchors ops ops'"
  using expand_loop_anchors by (auto simp: expand_clipboard_ops_def same_anchors_def split: prod.splits)

lemma edited_text_justified:
  "edited_text te enforce path tag ops current store = (Inr new_text, store') \<Longrightarrow>
     text_justified te tag ops current new_text"
  by (auto simp: edited_text_def text_justified_def try_recover_def Let_def
      split: if_splits sum.splits prod.splits option.splits dest: store_get_tag)

lemma prepare_file_op_justified:
  "prepare_file_op te cwd fp f st = (Inr p, st') \<Longrightarrow> section_justified te cwd (ts_files st) fp p"
  by (auto simp: prepare_file_op_def section_justified_def Let_def
      dest!: read_file_content split: sum.splits prod.splits if_splits file_op.splits)

lemma prepare_line_ops_justified:
  assumes "prepare_line_ops te enforce cwd fp st = (Inr p, st')"
  shows "section_justified te cwd (ts_files st) fp p"
proof -
  let ?path = "resolve_path (fp_path fp) cwd"
  from assms obtain raw ops st1 new_text store' w where
    raw: "read_file te ?path None None (ts_files st) = Inr raw"
    and ops: "expand_clipboard_ops (fp_ops fp) (normalize_to_lf raw) st = (Inr ops, st1)"
    and new: "edited_text te enforce ?path (fp_tag fp) ops (normalize_to_lf raw) (ts_snapshots st1) = (Inr new_text, store')"
    and w: "p = PWrite w" "pw_path w = ?path"
      "pw_persisted w = persist new_text (detect_crlf raw) (has_bom raw) (ends_with raw [NL])"
    by (auto simp: prepare_line_ops_def Let_def split: sum.splits prod.splits)
  have "pending_justified te ?path fp raw p"
    using w expand_clipboard_ops_anchors [OF ops] edited_text_justified [OF new] by auto
  with read_file_content [OF raw] show ?thesis by (auto simp: section_justified_def)
qed

lemma prepare_justified:
  "prepare te enforce cwd fp st = (Inr p, st') \<Longrightarrow> section_justified te cwd (ts_files st) fp p"
  by (auto simp: prepare_def dest: prepare_file_op_justified prepare_line_ops_justified split: option.splits)

lemma prepare_all_justified:
  "prepare_all te enforce cwd fps st = (Inr ps, st') \<Longrightarrow>
     list_all2 (section_justified te cwd (ts_files st)) fps ps"
proof (induction fps arbitrary: st ps)
  case (Cons fp fps)
  then obtain p st1 qs where one: "prepare te enforce cwd fp st = (Inr p, st1)"
    and rest: "prepare_all te enforce cwd fps st1 = (Inr qs, st')" and "ps = p # qs"
    by (auto split: prod.splits sum.splits)
  with Cons.IH [OF rest] prepare_justified [OF one] prepare_files [OF one] show ?case by simp
qed simp


section \<open>The no-op guard\<close>

definition noop_key :: "tool_env \<Rightarrow> pending_write \<Rightarrow> path" where
  "noop_key te w = canonical (te_env te) (pw_path w)"

definition again :: "tool_env \<Rightarrow> pending_write \<Rightarrow> nat \<Rightarrow> tool_state \<Rightarrow> tool_state" where
  "again te w n = (\<lambda>st. snd (commit_write te w [] st)) ^^ n"

definition noop_count :: "tool_env \<Rightarrow> pending_write \<Rightarrow> tool_state \<Rightarrow> nat" where
  "noop_count te w st =
     (case ts_noop_edits st (noop_key te w) of
        None \<Rightarrow> 0 | Some (h, n) \<Rightarrow> if h = pw_payload_hash w then n else 0)"

lemma commit_write_noop:
  assumes "te_write_fault te (pw_path w) = None"
    and "is_diff_empty (te_unified_diff te (pw_current w) (pw_snap_text w) (pw_path w))"
  shows "noop_count te w (snd (commit_write te w m st)) = noop_count te w st + 1"
    and "case fst (commit_write te w m st) of
           Inl e \<Rightarrow> NOOP_HARD_LIMIT \<le> noop_count te w st + 1 \<and> e = NoopLoop (pw_path w) (noop_count te w st + 1)
         | Inr (entry, l) \<Rightarrow> noop_count te w st + 1 < NOOP_HARD_LIMIT \<and> (\<exists>tag. entry = Unchanged (pw_path w) tag)"
  using assms
  by (auto simp: commit_write_def write_file_ok Let_def noop_count_def noop_key_def count_noop_def
      split: prod.splits option.splits if_splits)

text \<open>The no-op guard stops a spinning model: of one payload sent again and again to a file it no
  longer changes, the first two calls answer that nothing changed and every later one is refused with
  the number of repetitions.\<close>
lemma noop_guard_refuses_third:
  assumes "te_write_fault te (pw_path w) = None"
    and "is_diff_empty (te_unified_diff te (pw_current w) (pw_snap_text w) (pw_path w))"
    and "ts_noop_edits st (noop_key te w) = None"
  shows "case fst (commit_write te w [] (again te w n st)) of
           Inl e \<Rightarrow> 2 \<le> n \<and> e = NoopLoop (pw_path w) (n + 1)
         | Inr (entry, l) \<Rightarrow> n < 2 \<and> (\<exists>tag. entry = Unchanged (pw_path w) tag)"
proof -
  have "noop_count te w (again te w n st) = n" for n
  proof (induction n)
    case (Suc n)
    then show ?case using commit_write_noop(1) [OF assms(1,2)] by (simp add: again_def)
  qed (simp add: again_def noop_count_def assms(3))
  from this [of n] commit_write_noop(2) [OF assms(1,2), where m = "[]" and st = "again te w n st"] show ?thesis
    by (auto simp: NOOP_HARD_LIMIT_def split: sum.splits)
qed

definition plain_te :: tool_env where
  "plain_te =
     \<lparr>te_env = plain_env, te_home = None, te_is_dir = (\<lambda>_. True), te_cwd = (True, [''w'']),
      te_read_fault = Map.empty, te_write_fault = Map.empty, te_remove_fault = Map.empty,
      te_changes = (\<lambda>_ _. []), te_unified_diff = (\<lambda>old new p. if old = new then [] else ''@@''),
      te_hash_ops = (\<lambda>_. 0)\<rparr>"

definition plain_write :: pending_write where
  "plain_write =
     \<lparr>pw_path = (True, [''w'', ''a'']), pw_persisted = ''x'', pw_snap_text = ''x'', pw_current = ''x'',
      pw_old_tag = ''000000'', pw_recovered = False, pw_payload_hash = 7\<rparr>"

section \<open>Where the code falls short\<close>

lemma normalize_text_snoc_differs: "normalize_text (s @ [NL]) \<noteq> normalize_text s"
  by (simp add: normalize_eq_iff split_on_snoc_sep)

text \<open>The tag an edit hands out is not the tag of the file it wrote: on a file that ends in a newline
  the recorded text lacks the final newline that is on disk, so the two hash different texts, and an
  edit that leaves the file as it was is compared with a different text and not counted as a no-op.\<close>
lemma edit_tag_misses_final_newline:
  assumes prep: "prepare_line_ops te enforce cwd fp st = (Inr (PWrite w), st')"
    and raw: "ts_files st (location te (pw_path w)) = Some raw" "ends_with raw [NL]"
    and lf: "CR \<notin> set (pw_persisted w)" "\<not> has_bom (pw_persisted w)" and ne: "pw_persisted w \<noteq> []"
  shows "normalize_to_lf (pw_persisted w) = pw_snap_text w @ [NL]
    \<and> normalize_text (normalize_to_lf (pw_persisted w)) \<noteq> normalize_text (pw_snap_text w)
    \<and> (pw_persisted w = raw \<longrightarrow> pw_current w = pw_snap_text w @ [NL])"
proof -
  let ?path = "resolve_path (fp_path fp) cwd"
  from prep obtain raw' new_text where
    r: "read_file te ?path None None (ts_files st) = Inr raw'" "pw_path w = ?path"
    and w: "pw_persisted w = persist new_text (detect_crlf raw') (has_bom raw') (ends_with raw' [NL])"
      "pw_snap_text w = normalize_to_lf new_text" "pw_current w = normalize_to_lf raw'"
    by (auto simp: prepare_line_ops_def Let_def split: sum.splits prod.splits)
  have raw': "raw' = raw" using read_file_content [OF r(1)] r(2) raw(1) by simp
  let ?c = "detect_crlf raw" and ?b = "has_bom raw"
  have p: "pw_persisted w = persist new_text ?c ?b True" using w(1) raw' raw(2) by simp
  have nb: "\<not> ?b" using lf(2) p by (auto simp: persist_eq has_bom_def starts_with_iff)
  have n: "new_text \<noteq> []" using ne nb p by (auto simp: persist_eq full_text_def to_crlf_def split: if_splits)
  have nc: "\<not> ?c" using lf(1) n p by (auto simp: persist_eq full_text_def to_crlf_snoc)
  have e: "pw_persisted w = new_text @ [NL]" using p nb nc n by (simp add: persist_eq full_text_def)
  have nl: "CR \<notin> set new_text" "\<not> has_bom new_text" using lf e by (auto simp: has_bom_def starts_with_iff)
  have snap: "pw_snap_text w = new_text" using w(2) normalize_to_lf_id [OF nl] by simp
  have disk: "normalize_to_lf (pw_persisted w) = new_text @ [NL]" using normalize_to_lf_id [OF lf] e by simp
  show ?thesis using disk snap normalize_text_snoc_differs w(3) raw' by auto
qed

text \<open>Two newline-terminated files, one section each way of spelling the first.\<close>

definition plain_files :: files where
  "plain_files = [(True, [''w'', ''a'']) \<mapsto> ''p'' @ [NL] @ ''q'' @ [NL]]"

definition swap_section :: "str \<Rightarrow> nat \<Rightarrow> str \<Rightarrow> str" where
  "swap_section p n row =
     ''['' @ p @ ''#000000]'' @ [NL] @ ''SWAP '' @ show_nat n @ ''.='' @ show_nat n @ '':'' @ [NL] @ ''+'' @ row @ [NL]"

definition patch_params :: "str \<Rightarrow> json" where
  "patch_params patch = JObj [(''patch'', JStr patch), (''cwd'', JArr [JStr []])]"

definition plain_section :: "str \<Rightarrow> op list \<Rightarrow> file_patch" where
  "plain_section p ops = \<lparr>fp_path = p, fp_tag = ''000000'', fp_ops = ops, fp_file_op = None\<rparr>"

text \<open>Two spellings of one file in one patch lose an edit: the sections \<^verbatim>\<open>a\<close> and \<^verbatim>\<open>./a\<close> are not merged,
  both are prepared on the same content, and the second write replaces the first, so only the second
  change is in the file although both are reported as landed.\<close>
lemma two_spellings_lose_edit:
  "case edit_plan plain_te False (patch_params (swap_section ''a'' 1 ''x'' @ swap_section ''./a'' 2 ''y''))
          (tool_state_new plain_files) of
     Some ps \<Rightarrow> map pending_landed ps = [LWritten (True, [''w'', ''a'']), LWritten (True, [''w'', ''a''])]
       \<and> fold (pending_effect plain_te) ps plain_files (True, [''w'', ''a'']) = Some (''p'' @ [NL] @ ''y'' @ [NL])
   | None \<Rightarrow> False"
  by code_simp

end
