(* ===== verification/Truncate.thy ===== *)
theory Truncate
  imports Hashline_Display
begin

text \<open>
  Output truncation (\<^verbatim>\<open>manox-harness/src/core/tools/truncate.rs\<close>): the tail of a shell transcript, the
  contiguous head of a file display, and the head and tail with a hole of everything else. Strings are
  bytes; cuts inside a line fall on the offsets of \<^verbatim>\<open>char_indices\<close>.
\<close>

section \<open>Operations\<close>

definition DEFAULT_MAX_BYTES :: nat where
  "DEFAULT_MAX_BYTES = 128 * 1024"

definition DEFAULT_MAX_LINES :: nat where
  "DEFAULT_MAX_LINES = 2000"

record truncate_config =
  tc_max_bytes :: nat
  tc_max_lines :: nat

definition default_config :: truncate_config where
  "default_config = \<lparr>tc_max_bytes = DEFAULT_MAX_BYTES, tc_max_lines = DEFAULT_MAX_LINES\<rparr>"

record truncated_output =
  to_content :: str
  to_was_truncated :: bool
  to_original_bytes :: nat
  to_original_lines :: nat

text \<open>Both one-sided loops keep whole lines while the budgets last, counting the separator of every
  line but the first kept; \<open>part\<close> is what is kept of a first line that alone exceeds the budget.\<close>

fun keep_lines :: "truncate_config \<Rightarrow> (str \<Rightarrow> str) \<Rightarrow> str list \<Rightarrow> nat \<Rightarrow> str list \<Rightarrow> str list" where
  "keep_lines cfg part kept kept_bytes [] = kept"
| "keep_lines cfg part kept kept_bytes (line # lines) =
     (if length kept \<ge> tc_max_lines cfg then kept
      else
        let line_bytes = length line + (if kept = [] then 0 else 1) in
        if kept_bytes + line_bytes > tc_max_bytes cfg
        then (if kept = [] then [part line] else kept)
        else keep_lines cfg part (kept @ [line]) (kept_bytes + line_bytes) lines)"

definition line_tail :: "truncate_config \<Rightarrow> str \<Rightarrow> str" where
  "line_tail cfg line =
     drop (case find (\<lambda>i. length line - i \<le> tc_max_bytes cfg) (char_indices line) of
             Some i \<Rightarrow> i | None \<Rightarrow> length line) line"

definition line_head :: "truncate_config \<Rightarrow> str \<Rightarrow> str" where
  "line_head cfg line =
     take (case takeWhile (\<lambda>i. i \<le> tc_max_bytes cfg) (char_indices line) of
             [] \<Rightarrow> 0 | i # is \<Rightarrow> last (i # is)) line"

definition fits :: "truncate_config \<Rightarrow> str \<Rightarrow> bool" where
  "fits cfg output \<longleftrightarrow>
     length (split_on NL output) \<le> tc_max_lines cfg \<and> length output \<le> tc_max_bytes cfg"

definition truncate_tail :: "str \<Rightarrow> truncate_config \<Rightarrow> truncated_output" where
  "truncate_tail output cfg =
     (let lines = split_on NL output;
          original = \<lparr>to_content = output, to_was_truncated = False,
                      to_original_bytes = length output, to_original_lines = length lines\<rparr>
      in if fits cfg output then original
         else original\<lparr>to_content := join [NL] (rev (keep_lines cfg (line_tail cfg) [] 0 (rev lines))),
                       to_was_truncated := True\<rparr>)"

definition truncate_head :: "str \<Rightarrow> truncate_config \<Rightarrow> truncated_output" where
  "truncate_head output cfg =
     (let lines = split_on NL output;
          original = \<lparr>to_content = output, to_was_truncated = False,
                      to_original_bytes = length output, to_original_lines = length lines\<rparr>
      in if fits cfg output then original
         else
           let kept = keep_lines cfg (line_head cfg) [] 0 lines;
               skipped = length lines - length kept;
               content = join [NL] kept;
               note = (if skipped > 0 then show_nat skipped @ '' more lines truncated] ...''
                       else show_nat (length output - length content) @ '' bytes truncated] ...'')
           in original\<lparr>to_content := content @ [NL, NL] @ ''... ['' @ note, to_was_truncated := True\<rparr>)"

definition with_hole :: "str \<Rightarrow> nat \<Rightarrow> str \<Rightarrow> str \<Rightarrow> str" where
  "with_hole head n what tail =
     head @ [NL, NL] @ ''... ['' @ show_nat n @ what @ '' truncated] ...'' @ [NL, NL] @ tail"

definition truncate :: "str \<Rightarrow> truncate_config \<Rightarrow> truncated_output" where
  "truncate output cfg =
     (let lines = str_lines output;
          original_lines = length lines;
          half = tc_max_lines cfg div 2;
          over_lines = (original_lines > tc_max_lines cfg);
          truncated =
            (if over_lines
             then with_hole (join [NL] (take half lines)) (original_lines - tc_max_lines cfg) '' lines''
                    (join [NL] (rev (take half (rev lines))))
             else output);
          over_bytes = (length truncated > tc_max_bytes cfg);
          head_len = tc_max_bytes cfg * 3 div 4;
          tail_len = tc_max_bytes cfg - head_len;
          head = (case nth_char truncated head_len of Some i \<Rightarrow> take i truncated | None \<Rightarrow> truncated);
          tail_start = length truncated - tail_len;
          tail = (case nth_char truncated tail_start of Some i \<Rightarrow> drop i truncated | None \<Rightarrow> []);
          skipped_bytes = length output - (length head + length tail)
      in \<lparr>to_content = (if over_bytes then with_hole head skipped_bytes '' bytes'' tail else truncated),
          to_was_truncated = (over_lines \<or> over_bytes),
          to_original_bytes = length output, to_original_lines = original_lines\<rparr>)"

section \<open>What the one-sided loops keep\<close>

lemma length_join:
  "ls \<noteq> [] \<Longrightarrow> length (join [c] ls) = sum_list (map length ls) + (length ls - 1)"
  by (induction "[c]" ls rule: join.induct) auto

lemma join_snoc: "join [c] (ls @ [l]) = (if ls = [] then l else join [c] ls @ [c] @ l)"
  by (simp add: join_append_single)

text \<open>The loop keeps a prefix of the lines within both budgets, or part of the first line.\<close>

lemma keep_lines_prefix:
  assumes "kept_bytes = length (join [NL] kept)" "kept_bytes \<le> tc_max_bytes cfg" "length kept \<le> tc_max_lines cfg"
    and "\<And>l. length (part l) \<le> tc_max_bytes cfg"
  shows "(\<exists>n \<le> length lines. keep_lines cfg part kept kept_bytes lines = kept @ take n lines)
      \<and> length (join [NL] (keep_lines cfg part kept kept_bytes lines)) \<le> tc_max_bytes cfg
      \<and> length (keep_lines cfg part kept kept_bytes lines) \<le> tc_max_lines cfg
    \<or> kept = [] \<and> lines \<noteq> [] \<and> tc_max_lines cfg > 0 \<and> length (hd lines) > tc_max_bytes cfg
      \<and> keep_lines cfg part kept kept_bytes lines = [part (hd lines)]"
  using assms(1-3)
proof (induction lines arbitrary: kept kept_bytes)
  case (Cons l ls)
  show ?case
  proof (cases "length kept \<ge> tc_max_lines cfg")
    case False
    let ?b = "length l + (if kept = [] then 0 else 1)"
    have step: "kept_bytes + ?b = length (join [NL] (kept @ [l]))"
      using Cons.prems(1) by (simp add: join_snoc)
    show ?thesis
    proof (cases "kept_bytes + ?b > tc_max_bytes cfg")
      case True
      with False Cons.prems show ?thesis by (cases "kept = []") (auto intro: exI [of _ 0])
    next
      case fit: False
      from Cons.IH [OF step] fit False obtain n where
        "n \<le> length ls" "keep_lines cfg part (kept @ [l]) (kept_bytes + ?b) ls = (kept @ [l]) @ take n ls"
        "length (join [NL] (keep_lines cfg part (kept @ [l]) (kept_bytes + ?b) ls)) \<le> tc_max_bytes cfg"
        "length (keep_lines cfg part (kept @ [l]) (kept_bytes + ?b) ls) \<le> tc_max_lines cfg"
        by auto
      with False fit show ?thesis by (intro disjI1 conjI exI [of _ "Suc n"]) auto
    qed
  qed (use Cons.prems in \<open>auto intro: exI [of _ 0]\<close>)
qed auto

lemma line_tail_fits: "length (line_tail cfg l) \<le> tc_max_bytes cfg"
  by (auto simp: line_tail_def find_Some_iff split: option.splits)

lemma line_head_fits: "length (line_head cfg l) \<le> tc_max_bytes cfg"
proof -
  let ?is = "takeWhile (\<lambda>i. i \<le> tc_max_bytes cfg) (char_indices l)"
  have "last ?is \<le> tc_max_bytes cfg" if "?is \<noteq> []"
    using last_in_set [OF that] by (auto dest: set_takeWhileD)
  then show ?thesis by (auto simp: line_head_def split: list.splits)
qed

lemma keep_lines_start:
  assumes "\<And>l. length (part l) \<le> tc_max_bytes cfg"
  shows "(\<exists>n \<le> length lines. keep_lines cfg part [] 0 lines = take n lines)
      \<and> length (join [NL] (keep_lines cfg part [] 0 lines)) \<le> tc_max_bytes cfg
      \<and> length (keep_lines cfg part [] 0 lines) \<le> tc_max_lines cfg
    \<or> lines \<noteq> [] \<and> tc_max_lines cfg > 0 \<and> length (hd lines) > tc_max_bytes cfg
      \<and> keep_lines cfg part [] 0 lines = [part (hd lines)]"
  using keep_lines_prefix [of 0 "[]" cfg part lines] assms by auto

lemma join_drop_suffix: "\<exists>pre. join sep xs = pre @ join sep (drop n xs)"
proof (induction n arbitrary: xs)
  case (Suc n)
  show ?case
  proof (cases xs)
    case (Cons x ys)
    obtain pre where "join sep ys = pre @ join sep (drop n ys)" using Suc by blast
    with Cons show ?thesis by (cases ys) auto
  qed simp
qed simp

lemma join_take_prefix: "\<exists>post. join sep xs = join sep (take n xs) @ post"
proof (induction n arbitrary: xs)
  case (Suc n)
  show ?case
  proof (cases xs)
    case (Cons x ys)
    obtain post where "join sep ys = join sep (take n ys) @ post" using Suc by blast
    with Cons show ?thesis by (cases ys; cases n) auto
  qed simp
qed simp

lemma drop_to_last: "xs \<noteq> [] \<Longrightarrow> drop (length xs - 1) xs = [last xs]"
  by (cases xs rule: rev_cases) auto

lemma pieces_of_join:
  assumes "\<And>l. l \<in> set ls \<Longrightarrow> NL \<notin> set l"
  shows "length (split_on NL (join [NL] ls)) = max 1 (length ls)"
  using split_on_join [of ls NL] assms by (cases ls) auto

lemma split_pieces_plain: "l \<in> set (take n (split_on NL s)) \<union> set (drop n (split_on NL s)) \<Longrightarrow> NL \<notin> set l"
  by (auto dest: in_set_takeD in_set_dropD split_on_no_sep)

text \<open>A truncated transcript is the end of the output: the content is a suffix of it, within the byte
  limit and with at most the allowed lines (one, cut, if the limit is none), and it is marked as
  truncated exactly when the output exceeds a limit.\<close>
lemma truncate_tail_keeps_suffix:
  "(\<exists>pre. output = pre @ to_content (truncate_tail output cfg))
   \<and> length (to_content (truncate_tail output cfg)) \<le> tc_max_bytes cfg
   \<and> length (split_on NL (to_content (truncate_tail output cfg))) \<le> max 1 (tc_max_lines cfg)
   \<and> to_was_truncated (truncate_tail output cfg) = (\<not> fits cfg output)"
proof (cases "fits cfg output")
  case True
  then show ?thesis by (auto simp: truncate_tail_def fits_def Let_def)
next
  case False
  let ?ls = "split_on NL output" and ?kept = "keep_lines cfg (line_tail cfg) [] 0 (rev (split_on NL output))"
  have c: "to_content (truncate_tail output cfg) = join [NL] (rev ?kept)" "to_was_truncated (truncate_tail output cfg)"
    using False by (simp_all add: truncate_tail_def Let_def)
  have last: "\<exists>pre. output = pre @ last ?ls"
    using join_drop_suffix [of "[NL]" ?ls "length ?ls - 1"] drop_to_last [of ?ls] by (simp add: join_split_on)
  consider n where "?kept = take n (rev ?ls)" "length (join [NL] ?kept) \<le> tc_max_bytes cfg" "length ?kept \<le> tc_max_lines cfg"
    | "tc_max_lines cfg > 0" "?kept = [line_tail cfg (last ?ls)]"
    using keep_lines_start [of "line_tail cfg" cfg "rev ?ls", OF line_tail_fits] by (auto simp: hd_rev)
  then show ?thesis
  proof cases
    case 1
    then have r: "rev ?kept = drop (length ?ls - n) ?ls" by (simp add: rev_take)
    have len: "length (join [NL] (rev ls)) = length (join [NL] ls)" for ls
      by (cases "ls = []") (simp_all add: length_join rev_map [symmetric] sum_list_rev)
    have "length (split_on NL (join [NL] (rev ?kept))) = max 1 (length (rev ?kept))"
      by (rule pieces_of_join) (use split_pieces_plain [of _ "length ?ls - n" "output"] r in auto)
    then have "length (split_on NL (join [NL] (rev ?kept))) = max 1 (length ?kept)" by simp
    with 1 r c False len [of ?kept] join_drop_suffix [of "[NL]" ?ls "length ?ls - n"] show ?thesis
      by (simp add: join_split_on)
  next
    case 2
    obtain k where k: "line_tail cfg (last ?ls) = drop k (last ?ls)" by (simp add: line_tail_def)
    have "NL \<notin> set (drop k (last ?ls))"
      using split_on_no_sep [of "last ?ls" NL "output"] by (auto dest: in_set_dropD)
    moreover have "\<exists>pre. output = pre @ drop k (last ?ls)"
      using last by (metis append.assoc append_take_drop_id)
    ultimately show ?thesis
      using 2 c False k line_tail_fits [of cfg "last ?ls"] by (simp add: split_on_plain)
  qed
qed

text \<open>A truncated display is a contiguous beginning of the output followed by the note: what is shown
  is a prefix of the output within the byte and line limits, so no shown line hides a gap before it.\<close>
lemma truncate_head_keeps_prefix:
  "if fits cfg output then truncate_head output cfg = \<lparr>to_content = output, to_was_truncated = False,
       to_original_bytes = length output, to_original_lines = length (split_on NL output)\<rparr>
   else to_was_truncated (truncate_head output cfg)
     \<and> (\<exists>shown post marker. output = shown @ post \<and> length shown \<le> tc_max_bytes cfg
          \<and> length (split_on NL shown) \<le> max 1 (tc_max_lines cfg)
          \<and> to_content (truncate_head output cfg) = shown @ [NL, NL] @ ''... ['' @ marker)"
proof (cases "fits cfg output")
  case False
  let ?ls = "split_on NL output" and ?kept = "keep_lines cfg (line_head cfg) [] 0 (split_on NL output)"
  obtain marker where c: "to_content (truncate_head output cfg) = join [NL] ?kept @ [NL, NL] @ ''... ['' @ marker"
    "to_was_truncated (truncate_head output cfg)"
    using False by (simp add: truncate_head_def Let_def)
  have "(\<exists>post. output = join [NL] ?kept @ post) \<and> length (join [NL] ?kept) \<le> tc_max_bytes cfg
      \<and> length (split_on NL (join [NL] ?kept)) \<le> max 1 (tc_max_lines cfg)"
  proof -
    consider n where "?kept = take n ?ls" "length (join [NL] ?kept) \<le> tc_max_bytes cfg" "length ?kept \<le> tc_max_lines cfg"
      | "tc_max_lines cfg > 0" "?kept = [line_head cfg (hd ?ls)]"
      using keep_lines_start [of "line_head cfg" cfg ?ls, OF line_head_fits] by auto
    then show ?thesis
    proof cases
      case 1
      have "length (split_on NL (join [NL] ?kept)) = max 1 (length ?kept)"
        using pieces_of_join [of ?kept] split_pieces_plain [of _ n "output"] 1(1) by simp
      with 1 join_take_prefix [of "[NL]" ?ls n] show ?thesis by (simp add: join_split_on)
    next
      case 2
      obtain k where k: "line_head cfg (hd ?ls) = take k (hd ?ls)" by (simp add: line_head_def)
      have "\<exists>post. output = hd ?ls @ post"
        using join_take_prefix [of "[NL]" ?ls 1] join_split_on [of NL "output"] by (cases ?ls) auto
      then have "\<exists>post. output = take k (hd ?ls) @ post" by (metis append.assoc append_take_drop_id)
      moreover have "NL \<notin> set (take k (hd ?ls))"
        using split_on_no_sep [of "hd ?ls" NL "output"] by (auto dest: in_set_takeD)
      ultimately show ?thesis using 2 k line_head_fits [of cfg "hd ?ls"] by (simp add: split_on_plain)
    qed
  qed
  with c False show ?thesis by auto
qed (simp add: truncate_head_def)

end
