(* ===== verification/File_Tools.thy ===== *)
theory File_Tools
  imports Tool_Env Truncate
begin

text \<open>
  The read and write tools (\<^verbatim>\<open>manox-harness/src/core/tools/read.rs\<close>, \<^verbatim>\<open>tools/write.rs\<close>). A read records
  the whole file under its tag, shows a slice, and takes as seen what the possibly truncated output
  still shows; a write strips a pasted display, writes, and takes every line as seen. A path is
  displayed through its components. The notes appended to the output are fields of the result.
\<close>

section \<open>Read\<close>

datatype read_error = RPathRequired | RBadCwd cwd_error | RReadFailed file_error

datatype read_note = ContinueAt nat nat | OutputTruncated nat nat

record read_output =
  ro_body :: str
  ro_note :: "read_note option"
  ro_no_snapshot :: bool

definition MAX_READ_LINES :: nat where
  "MAX_READ_LINES = 2000"

definition read_config :: truncate_config where
  "read_config = \<lparr>tc_max_bytes = 128 * 1024, tc_max_lines = 2000\<rparr>"

definition format_full_read :: "str \<Rightarrow> str \<Rightarrow> str option \<Rightarrow> str" where
  "format_full_read path_display txt tag =
     (let line_count = length (str_lines txt) in
      if line_count \<le> MAX_READ_LINES then format_numbered path_display txt tag
      else format_numbered_range path_display txt tag [\<lparr>lr_start = 1, lr_end = Some MAX_READ_LINES\<rparr>]
           @ [NL] @ ''[Showing lines 1-'' @ show_nat MAX_READ_LINES @ '' of '' @ show_nat line_count
           @ ''. Page through the rest with offset/limit, e.g. offset '' @ show_nat (MAX_READ_LINES + 1)
           @ '' limit '' @ show_nat MAX_READ_LINES @ '']'')"

definition USIZE_MAX :: nat where
  "USIZE_MAX = 2 ^ 64 - 1"

definition format_read :: "str \<Rightarrow> str \<Rightarrow> str option \<Rightarrow> nat option \<Rightarrow> nat option \<Rightarrow> str" where
  "format_read path_display txt tag off limit =
     (if off = None \<and> limit = None then format_full_read path_display txt tag
      else
        let start = (case off of Some n \<Rightarrow> n | None \<Rightarrow> 1);
            e = map_option (\<lambda>l. min (start + l) USIZE_MAX - 1) limit
        in format_numbered_range path_display txt tag [\<lparr>lr_start = start, lr_end = e\<rparr>])"

definition read_execute ::
  "tool_env \<Rightarrow> json \<Rightarrow> tool_state \<Rightarrow> (read_error, read_output) result \<times> tool_state" where
  "read_execute te params st =
     (case arg_str ''path'' params of
        None \<Rightarrow> (Inl RPathRequired, st)
      | Some path_str \<Rightarrow>
     (case enter_cwd te params st of
        (Inl e, st1) \<Rightarrow> (Inl (RBadCwd e), st1)
      | (Inr cwd, st1) \<Rightarrow>
          let path = path_join cwd (path_components path_str) in
          case read_file te path None None (ts_files st1) of
            Inl e \<Rightarrow> (Inl (RReadFailed e), st1)
          | Inr raw \<Rightarrow>
              let txt = normalize_to_lf raw;
                  (snap, store1) = record_read_snapshot (te_env te) path txt (ts_snapshots st1);
                  tag = map_option sn_tag snap;
                  formatted = format_read (path_string path) txt tag (arg_u64 ''offset'' params) (arg_u64 ''limit'' params);
                  result = truncate_head formatted read_config;
                  displayed = parse_seen_lines_from_body (to_content result);
                  store2 = (case snap of
                              Some s \<Rightarrow> if displayed \<noteq> {} then record_seen_lines (te_env te) path (sn_tag s) displayed store1
                                        else store1
                            | None \<Rightarrow> store1);
                  note' = (if to_was_truncated result
                           then Some (if displayed \<noteq> {} then ContinueAt (Max displayed + 1) (length (str_lines txt))
                                      else OutputTruncated (to_original_lines result) (to_original_bytes result))
                           else None)
              in (Inr \<lparr>ro_body = to_content result, ro_note = note', ro_no_snapshot = (snap = None)\<rparr>,
                  st1\<lparr>ts_snapshots := store2\<rparr>)))"

section \<open>Write\<close>

definition split_colon :: "str \<Rightarrow> (str \<times> str) option" where
  "split_colon l = map_option (\<lambda>i. (take i l, drop (i + 1) l)) (str_find '':'' l)"

definition is_numbered :: "str \<Rightarrow> bool" where
  "is_numbered l = (case split_colon l of Some (n, r) \<Rightarrow> parse_unsigned n \<noteq> None | None \<Rightarrow> False)"

definition strip_number :: "str \<Rightarrow> str" where
  "strip_number l = (case split_colon l of Some (n, rest) \<Rightarrow> rest | None \<Rightarrow> l)"

definition is_display_header :: "str \<Rightarrow> bool" where
  "is_display_header h \<longleftrightarrow>
     starts_with h ''['' \<and> ends_with h '']'' \<and> str_contains h ''#'' \<and> length h \<ge> 9"

definition strip_hashline_prefixes :: "str \<Rightarrow> str" where
  "strip_hashline_prefixes content =
     (case dropWhile (\<lambda>l. l = []) (str_lines content) of
        [] \<Rightarrow> content
      | header # rest \<Rightarrow>
          if \<not> is_display_header header then content
          else if \<not> list_all is_numbered (take 5 (filter (\<lambda>l. l \<noteq> []) rest)) then content
          else
            let result = concat (map (\<lambda>l. strip_number l @ [NL]) rest)
            in if \<not> ends_with content [NL] \<and> ends_with result [NL] then butlast result else result)"

datatype write_error = WPathRequired | WContentRequired | WBadCwd cwd_error | WWriteFailed file_error

datatype write_report = NewFile nat nat | DiffOf str nat | SameContent

record write_output =
  wo_path :: path
  wo_report :: write_report
  wo_tag :: "str option"

definition write_execute ::
  "tool_env \<Rightarrow> json \<Rightarrow> tool_state \<Rightarrow> (write_error, write_output) result \<times> tool_state" where
  "write_execute te params st =
     (case arg_str ''path'' params of
        None \<Rightarrow> (Inl WPathRequired, st)
      | Some path_str \<Rightarrow>
     (case arg_str ''content'' params of
        None \<Rightarrow> (Inl WContentRequired, st)
      | Some content0 \<Rightarrow>
     (case enter_cwd te params st of
        (Inl e, st1) \<Rightarrow> (Inl (WBadCwd e), st1)
      | (Inr cwd, st1) \<Rightarrow>
          let path = path_join cwd (path_components path_str);
              old_content = read_file te path None None (ts_files st1);
              content = strip_hashline_prefixes content0
          in case write_file te path content (ts_files st1) of
               (Inl e, fs) \<Rightarrow> (Inl (WWriteFailed e), st1\<lparr>ts_files := fs\<rparr>)
             | (Inr _, fs) \<Rightarrow>
                 let (snap, store') = record_authored te path (normalize_to_lf content) (ts_snapshots st1);
                     report = (case old_content of
                                 Inr old \<Rightarrow>
                                   let diff = te_unified_diff te old content path in
                                   if is_diff_empty diff then SameContent else DiffOf diff (count_diff_hunks diff)
                               | Inl _ \<Rightarrow> NewFile (length (str_lines content)) (length content))
                 in (Inr \<lparr>wo_path = path, wo_report = report, wo_tag = map_option sn_tag snap\<rparr>,
                     st1\<lparr>ts_files := fs, ts_snapshots := store'\<rparr>))))"

section \<open>A pasted display\<close>

lemma colon_free_number: "CHR '':'' \<notin> set (show_nat n)"
  using show_nat_digits [of n] by (auto simp: list_all_iff is_digit_def)

lemma numbered_row_strip:
  assumes "n < 2 ^ 64"
  shows "is_numbered (numbered_row ls n)" "strip_number (numbered_row ls n) = ls ! (n - 1)"
proof -
  have "split_colon (numbered_row ls n) = Some (show_nat n, ls ! (n - 1))"
    by (simp add: split_colon_def numbered_row_def str_find_char [OF colon_free_number])
  then show "is_numbered (numbered_row ls n)" "strip_number (numbered_row ls n) = ls ! (n - 1)"
    using parse_unsigned_show_nat [OF assms] by (simp_all add: is_numbered_def strip_number_def)
qed

lemma str_contains_char: "c \<in> set s \<Longrightarrow> str_contains s [c]"
  using split_list_first [of c s] str_find_char by (fastforce simp: str_contains_def)

lemma display_header_ok: "length t = 6 \<Longrightarrow> is_display_header (''['' @ path @ ''#'' @ t @ '']'')"
  using str_contains_char [of "CHR ''#''" "''['' @ path @ ''#'' @ t @ '']''"]
  by (auto simp: is_display_header_def starts_with_iff ends_with_iff)

lemma map_nth_rows: "map (\<lambda>n. ls ! (n - 1)) [1..<length ls + 1] = ls"
  by (intro nth_equalityI) (auto simp del: upt_Suc)

text \<open>Writing back what a read printed restores the file: the content of a write that is a full
  numbered display, header included, is stripped to exactly the lines of the displayed text.\<close>
lemma pasted_display_is_stripped:
  assumes ok: "display_ok path (Some t) txt" and t: "length t = 6"
  shows "strip_hashline_prefixes (format_numbered path txt (Some t)) = join [NL] (str_lines txt)"
proof -
  let ?ls = "str_lines txt" and ?h = "''['' @ path @ ''#'' @ t @ '']''"
  let ?rows = "map (numbered_row ?ls) [1..<length ?ls + 1]"
  let ?c = "format_numbered path txt (Some t)"
  from ok have cr: "CR \<notin> set txt" and b: "length ?ls < 2 ^ 64" by (simp_all add: display_ok_def)
  have n: "0 < n \<and> n \<le> length ?ls \<and> n < 2 ^ 64" if "n \<in> set [1..<length ?ls + 1]" for n
    using that b by auto
  have row: "line_ok r \<and> r \<noteq> [] \<and> is_numbered r" if "r \<in> set ?rows" for r
    using that n numbered_row_ok [OF cr] numbered_row_strip(1) by (auto simp del: upt_Suc)
  have h: "line_ok ?h \<and> ?h \<noteq> []" using header_line_ok [OF ok, of ?h] by (simp add: header_line_def)
  have c: "?c = join [NL] (?h # ?rows)" by (simp add: format_numbered_rows header_line_def del: upt_Suc)
  have ne: "last (?h # ?rows) \<noteq> []"
    using row h last_in_set [of "?h # ?rows"] by (metis list.distinct(1) set_ConsD)
  have all: "line_ok r" if "r \<in> set (?h # ?rows)" for r using that row h by (metis set_ConsD)
  have lines: "str_lines ?c = ?h # ?rows"
    unfolding c using all ne by (intro str_lines_join) blast+
  have last: "\<not> ends_with ?c [NL]"
  proof
    assume "ends_with ?c [NL]"
    then obtain r where "?c = r @ [NL]" by (auto simp: ends_with_iff)
    moreover have "split_on NL ?c = ?h # ?rows"
      unfolding c using row h by (intro split_on_join) (auto simp: line_ok_def simp del: upt_Suc)
    ultimately have "last (?h # ?rows) = []" using split_on_snoc_sep [of NL r] by (metis last_snoc)
    with ne show False ..
  qed
  have strip: "map strip_number ?rows = ?ls"
  proof -
    have "map strip_number ?rows = map (\<lambda>n. ?ls ! (n - 1)) [1..<length ?ls + 1]"
      unfolding map_map comp_def by (rule map_cong [OF refl]) (use numbered_row_strip(2) n in blast)
    then show ?thesis by (simp only: map_nth_rows)
  qed
  have "concat (map (\<lambda>l. strip_number l @ [NL]) ?rows) = concat (map (\<lambda>l. l @ [NL]) (map strip_number ?rows))"
    by (simp add: comp_def del: upt_Suc)
  then have res: "concat (map (\<lambda>l. strip_number l @ [NL]) ?rows) = end_lines ?ls"
    unfolding strip end_lines_def .
  have "list_all is_numbered (take 5 (filter (\<lambda>l. l \<noteq> []) ?rows))"
    using row by (auto simp: list_all_iff dest: in_set_takeD simp del: upt_Suc)
  then have "strip_hashline_prefixes ?c = pop_newline (end_lines ?ls)"
    unfolding strip_hashline_prefixes_def lines
    using h display_header_ok [OF t] res last by (simp add: Let_def pop_newline_def del: upt_Suc)
  then show ?thesis by (simp add: pop_end_lines)
qed

text \<open>The stripping of pasted displays can erase a file: a write whose only line is in brackets and
  contains a hash sign, such as a note on an issue, writes the empty file.\<close>
lemma bracketed_line_is_erased:
  "strip_hashline_prefixes (''[see issue #7]'') = [] \<and> strip_hashline_prefixes (''[see issue #7]'' @ [NL]) = []"
  by code_simp

end
