(* ===== verification/Tool_Session.thy ===== *)
theory Tool_Session
  imports Edit_Tool File_Tools
begin

text \<open>
  The file tools over one session: any sequence of reads, writes and edits on one tool state, with the
  files changing between the calls. The tools reach the snapshot store through a few operations only;
  the locale \<open>store_invariant\<close> states what an invariant of these operations promises, and its clients
  show that every tool call keeps it.
\<close>

section \<open>Invariants of the store under the tools\<close>

locale store_invariant =
  fixes env :: env and inv :: "store \<Rightarrow> bool"
  assumes record_keeps: "inv st \<Longrightarrow> inv (snd (store_record env p x st))"
    and get_keeps: "inv st \<Longrightarrow> inv (snd (store_get env p t st))"
    and get_mut_keeps: "inv st \<Longrightarrow> touches_seen_only f \<Longrightarrow> inv (get_mut env p t f st)"
    and relocate_keeps: "inv st \<Longrightarrow> inv (relocate env p q st)"
    and invalidate_keeps: "inv st \<Longrightarrow> inv (invalidate env p st)"
begin

lemma seen_keeps: "inv st \<Longrightarrow> inv (record_seen_lines env p t ls st)"
  by (simp add: record_seen_lines_def get_mut_keeps merge_seen_touches)

lemma get_result: "store_get env p t st = (r, st') \<Longrightarrow> inv st \<Longrightarrow> inv st'"
  using get_keeps [of st p t] by simp

lemma authored_keeps:
  assumes "te_env te = env" "inv st" "record_authored te p s st = (r, st')"
  shows "inv st'"
proof (cases "length s > SNAPSHOT_MAX_BYTES")
  case False
  obtain snap st1 where r: "store_record env p s st = (snap, st1)" by (cases "store_record env p s st")
  then have "inv st1" using record_keeps [OF assms(2), of p s] by simp
  then show ?thesis
    using seen_keeps [of st1 p "sn_tag snap"] assms(1,3) False r by (auto simp: record_authored_def)
qed (use assms in \<open>simp add: record_authored_def\<close>)

lemma read_snapshot_keeps:
  "inv st \<Longrightarrow> record_read_snapshot env p x st = (r, st') \<Longrightarrow> inv st'"
  using record_keeps [of st p x] by (auto simp: record_read_snapshot_def split: if_splits prod.splits)

lemma gate_keeps:
  assumes "inv st" "assert_seen_lines env p t ops cur st = (r, st')"
  shows "inv st'"
proof -
  obtain r1 st1 where g1: "store_get env p t st = (r1, st1)" by (cases "store_get env p t st")
  obtain r2 st2 where g2: "store_get env p t st1 = (r2, st2)" by (cases "store_get env p t st1")
  have i: "inv st1" "inv st2" using get_result assms(1) g1 g2 by blast+
  have "touches_seen_only (extend_seen ls)" for ls
    by (simp add: touches_seen_only_def extend_seen_def split: option.split)
  then have "inv (get_mut env p t (extend_seen ls) st2)" for ls using get_mut_keeps [OF i(2)] by blast
  with i show ?thesis
    using assms(2) g1 g2
    by (auto simp: assert_seen_lines_def Let_def split: if_splits)
qed

lemma recover_keeps:
  "inv st \<Longrightarrow> try_recover diff env cur t ops p st = (r, st') \<Longrightarrow> inv st'"
  by (auto simp: try_recover_def Let_def dest: get_result split: prod.splits option.splits)

lemma edited_text_keeps:
  assumes te: "te_env te = env" and i: "inv st" and r: "edited_text te enforce p t ops cur st = (r, st')"
  shows "inv st'"
  using i r
  by (auto simp: edited_text_def Let_def te dest: gate_keeps recover_keeps
      split: if_splits prod.splits sum.splits)

lemma prepare_line_ops_keeps:
  assumes te: "te_env te = env" and i: "inv (ts_snapshots st)" and p: "prepare_line_ops te enforce cwd fp st = (r, st')"
  shows "inv (ts_snapshots st')"
proof -
  let ?path = "resolve_path (fp_path fp) cwd"
  show ?thesis
  proof (cases "read_file te ?path None None (ts_files st)")
    case (Inr raw)
    let ?cur = "normalize_to_lf raw"
    obtain r1 st1 where x: "expand_clipboard_ops (fp_ops fp) ?cur st = (r1, st1)"
      by (cases "expand_clipboard_ops (fp_ops fp) ?cur st")
    have i1: "inv (ts_snapshots st1)" using expand_clipboard_ops_keeps [OF x] i by simp
    show ?thesis
    proof (cases r1)
      case r1: (Inr ops)
      obtain r2 st2 where e: "edited_text te enforce ?path (fp_tag fp) ops ?cur (ts_snapshots st1) = (r2, st2)"
        by (cases "edited_text te enforce ?path (fp_tag fp) ops ?cur (ts_snapshots st1)")
      with edited_text_keeps [OF te i1 e] p Inr x r1 show ?thesis
        by (cases r2) (auto simp: prepare_line_ops_def Let_def)
    qed (use p Inr x i1 in \<open>auto simp: prepare_line_ops_def Let_def\<close>)
  qed (use p i in \<open>auto simp: prepare_line_ops_def Let_def\<close>)
qed

lemma prepare_file_op_keeps:
  assumes te: "te_env te = env" and i: "inv (ts_snapshots st)" and p: "prepare_file_op te cwd fp f st = (r, st')"
  shows "inv (ts_snapshots st')"
proof -
  have x: "inv (ts_snapshots st1)" if "expand_clipboard_ops ops cur st = (r1, st1)" for ops cur r1 st1
    using expand_clipboard_ops_keeps [OF that] i by simp
  show ?thesis
    using p i
    by (auto simp: prepare_file_op_def Let_def te dest: get_result x
        split: sum.splits prod.splits if_splits file_op.splits)
qed

lemma prepare_keeps:
  assumes "te_env te = env" "inv (ts_snapshots st)" "prepare te enforce cwd fp st = (r, st')"
  shows "inv (ts_snapshots st')"
proof (cases "fp_file_op fp")
  case None
  with assms(3) have "prepare_line_ops te enforce cwd fp st = (r, st')" by (simp add: prepare_def)
  from prepare_line_ops_keeps [OF assms(1,2) this] show ?thesis .
next
  case (Some f)
  with assms(3) have "prepare_file_op te cwd fp f st = (r, st')" by (simp add: prepare_def)
  from prepare_file_op_keeps [OF assms(1,2) this] show ?thesis .
qed

lemma prepare_all_keeps:
  "te_env te = env \<Longrightarrow> inv (ts_snapshots st) \<Longrightarrow> prepare_all te enforce cwd fps st = (r, st')
     \<Longrightarrow> inv (ts_snapshots st')"
proof (induction fps arbitrary: st r)
  case (Cons fp fps)
  obtain r1 st1 where p: "prepare te enforce cwd fp st = (r1, st1)" by (cases "prepare te enforce cwd fp st")
  obtain r2 st2 where q: "prepare_all te enforce cwd fps st1 = (r2, st2)"
    by (cases "prepare_all te enforce cwd fps st1")
  have "inv (ts_snapshots st1)" using prepare_keeps [OF Cons.prems(1,2) p] .
  moreover from this have "st' = st2 \<Longrightarrow> inv (ts_snapshots st2)" using Cons.IH [OF Cons.prems(1) _] q by simp
  moreover have "st' = st1 \<or> st' = st2" using Cons.prems(3) p q by (cases r1; cases r2) auto
  ultimately show ?case by auto
qed simp

lemma commit_keeps:
  assumes te: "te_env te = env" and i: "inv (ts_snapshots st)" and c: "commit te p m st = (r, st')"
  shows "inv (ts_snapshots st')"
proof (cases p)
  case (PWrite w)
  then show ?thesis
    using c i
    by (auto simp: commit_write_def Let_def dest!: authored_keeps [OF te i]
        split: prod.splits sum.splits if_splits)
qed (use c i in \<open>auto simp: te intro: relocate_keeps invalidate_keeps split: prod.splits sum.splits\<close>)

lemma commit_all_keeps:
  "te_env te = env \<Longrightarrow> inv (ts_snapshots st) \<Longrightarrow> commit_all te ps m st = (r, st') \<Longrightarrow> inv (ts_snapshots st')"
proof (induction ps arbitrary: st m r)
  case (Cons p ps)
  obtain r1 st1 where c: "commit te p m st = (r1, st1)" by (cases "commit te p m st")
  have i: "inv (ts_snapshots st1)" using commit_keeps [OF Cons.prems(1,2) c] .
  show ?case
  proof (cases r1)
    case (Inr el)
    then obtain r2 where "commit_all te ps (m @ [snd el]) st1 = (r2, st')"
      using Cons.prems(3) c by (auto split: prod.splits sum.splits)
    from Cons.IH [OF Cons.prems(1) i this] show ?thesis .
  qed (use Cons.prems(3) c i in auto)
qed simp

lemma enter_keeps:
  "enter_cwd te params st = (r, st1) \<Longrightarrow> inv (ts_snapshots st) \<Longrightarrow> inv (ts_snapshots st1)"
  using enter_cwd_keeps(2) [of te params st] by simp

lemma edit_keeps:
  assumes te: "te_env te = env" and i: "inv (ts_snapshots st)"
  shows "inv (ts_snapshots (snd (edit_execute te enforce params st)))"
proof -
  let ?st0 = "st\<lparr>ts_clipboard := []\<rparr>"
  obtain r1 st1 where e: "enter_cwd te params ?st0 = (r1, st1)" by (cases "enter_cwd te params ?st0")
  have i1: "inv (ts_snapshots st1)" using enter_keeps [OF e] i by simp
  show ?thesis
  proof (cases "arg_str ''patch'' params")
    case (Some patch)
    note patch = Some
    show ?thesis
    proof (cases "parse_patch patch"; cases r1)
      fix parsed cwd
      assume ok: "parse_patch patch = Inr parsed" "r1 = Inr cwd"
      obtain r2 st2 where p: "prepare_all te enforce cwd (pp_files parsed) st1 = (r2, st2)"
        by (cases "prepare_all te enforce cwd (pp_files parsed) st1")
      note i2 = prepare_all_keeps [OF te i1 p]
      show ?thesis
      proof (cases r2)
        case (Inr ps)
        obtain r3 st3 where "commit_all te ps [] st2 = (r3, st3)" by (cases "commit_all te ps [] st2")
        with commit_all_keeps [OF te i2] patch ok e p Inr show ?thesis
          by (cases r3) (auto simp: edit_execute_def)
      qed (use patch ok e p i2 in \<open>simp add: edit_execute_def\<close>)
    qed (use patch e i i1 in \<open>simp_all add: edit_execute_def\<close>)
  qed (use i in \<open>simp add: edit_execute_def\<close>)
qed

lemma read_keeps:
  assumes te: "te_env te = env" and i: "inv (ts_snapshots st)"
  shows "inv (ts_snapshots (snd (read_execute te params st)))"
  using i
  by (auto simp: read_execute_def Let_def te dest: enter_keeps intro: read_snapshot_keeps seen_keeps
      split: option.splits sum.splits prod.splits)

lemma write_keeps:
  assumes te: "te_env te = env" and i: "inv (ts_snapshots st)"
  shows "inv (ts_snapshots (snd (write_execute te params st)))"
  using i
  by (auto simp: write_execute_def Let_def dest: enter_keeps intro: authored_keeps [OF te]
      split: option.splits sum.splits prod.splits)

end

section \<open>The store's own invariant\<close>

lemma store_get_order:
  "set (ss_path_order (snd (store_get env p tag st))) \<subseteq> insert (canonical env p) (set (ss_path_order st))"
proof -
  let ?p = "canonical env p"
  have "set (ss_path_order (snd (disk_hydrate env ?p tag st))) \<subseteq> insert ?p (set (ss_path_order st))"
    using touch_path_order [of env ?p "st\<lparr>ss_by_path := al, ss_total_bytes := n\<rparr>" for al n]
    by (simp add: disk_hydrate_def Let_def subset_insertI split: option.split prod.split)
  then show ?thesis by (auto simp: store_get_def Let_def split: prod.split option.split)
qed

lemma relocate_order:
  "set (ss_path_order (relocate env f t st)) \<subseteq> insert (canonical env t) (set (ss_path_order st))"
proof (cases "map_of (ss_by_path st) (canonical env f)")
  case (Some src)
  show ?thesis
    unfolding relocate_eq [OF Some refl refl]
    by (rule subset_trans [OF touch_path_order]) simp
qed (auto simp: relocate_def Let_def)

lemma store_fitI:
  assumes "store_fit env st" "store_ok (en_xxh32 env) st'"
    and "set (ss_path_order st') \<subseteq> insert (canonical env p) (set (ss_path_order st))"
  shows "store_fit env st'"
  using assms tracks_mono [OF store_fit_tracks [OF assms(1), of p] assms(3)]
  by (simp add: store_fit_def)

interpretation fit: store_invariant env "store_fit env" for env
proof
  fix st p and x t :: str and q
  assume f: "store_fit env st"
  then have ok: "store_ok (en_xxh32 env) st" by (simp add: store_fit_def)
  show "store_fit env (snd (store_record env p x st))"
    by (rule store_fitI [OF f store_record_ok [OF ok refl store_fit_tracks [OF f]] store_record_order])
  show "store_fit env (snd (store_get env p t st))"
    by (rule store_fitI [OF f store_get_ok [OF ok refl store_fit_tracks [OF f]] store_get_order])
  show "store_fit env (relocate env p q st)"
    by (rule store_fitI [OF f relocate_ok [OF ok store_fit_tracks [OF f]] relocate_order])
  show "store_fit env (invalidate env p st)"
  proof (rule store_fitI [OF f invalidate_ok [OF ok]])
    show "set (ss_path_order (invalidate env p st)) \<subseteq> insert (canonical env p) (set (ss_path_order st))"
      by (auto simp: invalidate_order)
  qed
next
  fix st f p and t :: str
  assume fit: "store_fit env st" and "touches_seen_only f"
  then have "store_ok (en_xxh32 env) (get_mut env p t f st)" by (auto simp: store_fit_def intro: get_mut_ok)
  then show "store_fit env (get_mut env p t f st)"
    by (rule store_fitI [OF fit, of _ p]) (auto simp: get_mut_def Let_def)
qed

section \<open>Sessions\<close>

text \<open>Surroundings that agree on links and on the hash; time, faults and directories may differ.\<close>

definition same_world :: "tool_env \<Rightarrow> tool_env \<Rightarrow> bool" where
  "same_world te te' \<longleftrightarrow>
     en_realpath (te_env te) = en_realpath (te_env te') \<and> en_xxh32 (te_env te) = en_xxh32 (te_env te')"

inductive tool_run :: "tool_env \<Rightarrow> tool_state \<Rightarrow> bool" for te where
  run_new: "tool_run te (tool_state_new fs)"
| run_with_dir: "tool_run te (with_snapshot_dir disks root fs)"
| run_read: "tool_run te st \<Longrightarrow> same_world te te' \<Longrightarrow> tool_run te (snd (read_execute te' params st))"
| run_write: "tool_run te st \<Longrightarrow> same_world te te' \<Longrightarrow> tool_run te (snd (write_execute te' params st))"
| run_edit: "tool_run te st \<Longrightarrow> same_world te te' \<Longrightarrow> tool_run te (snd (edit_execute te' enforce params st))"
| run_outside: "tool_run te st \<Longrightarrow> tool_run te (st\<lparr>ts_files := fs\<rparr>)"

lemma same_world_fit: "same_world te te' \<Longrightarrow> store_fit (te_env te) = store_fit (te_env te')"
proof -
  assume w: "same_world te te'"
  then have r: "en_realpath (te_env te) = en_realpath (te_env te')" by (simp add: same_world_def)
  have "canonical (te_env te) = canonical (te_env te')"
    by (intro ext) (unfold canonical_def r, rule refl)
  with w show ?thesis by (intro ext) (simp add: same_world_def store_fit_def tracks_def)
qed

lemma tool_run_fit:
  assumes "tool_run te st" and idem: "\<And>p. canonical (te_env te) (canonical (te_env te) p) = canonical (te_env te) p"
  shows "store_fit (te_env te) (ts_snapshots st)"
  using assms(1)
proof induction
  case (run_new fs)
  have "ss_path_order store_new = []" by (simp add: store_new_def)
  then show ?case using idem by (simp add: tool_state_new_def store_fit_def empty_store_ok tracks_def)
next
  case (run_with_dir disks root fs)
  have "ss_path_order (with_disk disks root) = []" by (simp add: with_disk_def)
  then show ?case
    using idem by (simp add: with_snapshot_dir_def store_fit_def empty_store_ok tracks_def)
next
  case (run_read st te' params)
  then show ?case using fit.read_keeps [of te' "te_env te'" st params] by (simp add: same_world_fit)
next
  case (run_write st te' params)
  then show ?case using fit.write_keeps [of te' "te_env te'" st params] by (simp add: same_world_fit)
next
  case (run_edit st te' enforce params)
  then show ?case using fit.edit_keeps [of te' "te_env te'" st enforce params] by (simp add: same_world_fit)
qed simp

text \<open>C7: The snapshot store keeps its invariant over a whole session: whatever reads, writes and edits
  ran, with whatever arguments, failures and changes of the files in between, the tracked paths are
  bounded and canonical, every history is short and each version is stored under the tag of its own
  text, so a tag that resolves always resolves to a text with that tag. The resolved form of a path
  is its own resolved form.\<close>
theorem session_keeps_store_invariant:
  assumes "tool_run te st"
    and "\<And>p. canonical (te_env te) (canonical (te_env te) p) = canonical (te_env te) p"
  shows "length (ss_path_order (ts_snapshots st)) \<le> MAX_PATHS
    \<and> (\<forall>q. length (versions (ts_snapshots st) q) \<le> MAX_VERSIONS_PER_PATH)
    \<and> retained (ts_snapshots st) \<le> ss_total_bytes (ts_snapshots st)
    \<and> (\<forall>p tag x. lookup_text (te_env te) p tag (ts_snapshots st) = Some x
         \<longrightarrow> compute_tag (en_xxh32 (te_env te)) x = tag)"
proof -
  have f: "store_fit (te_env te) (ts_snapshots st)" using tool_run_fit assms by blast
  then have ok: "store_core (en_xxh32 (te_env te)) (ts_snapshots st)" "length (ss_path_order (ts_snapshots st)) \<le> MAX_PATHS"
    by (simp_all add: store_fit_def store_ok_def)
  have "length (versions (ts_snapshots st) q) \<le> MAX_VERSIONS_PER_PATH" for q
    using versions_hist [OF ok(1), of q] by (cases "versions (ts_snapshots st) q = []") (simp_all add: hist_ok_def)
  moreover have "retained (ts_snapshots st) \<le> ss_total_bytes (ts_snapshots st)"
    using ok(1) by (simp add: store_core_def)
  ultimately show ?thesis using ok(2) snap.lookup_sound [OF f] by blast
qed

theorem session_keeps_store_invariant_witness:
  "length (ss_path_order (ts_snapshots (snd (read_execute plain_te (JObj [(''path'', JStr ''a''), (''cwd'', JArr [JStr []])])
      (tool_state_new plain_files))))) \<le> MAX_PATHS"
proof -
  have "tool_run plain_te (snd (read_execute plain_te (JObj [(''path'', JStr ''a''), (''cwd'', JArr [JStr []])])
      (tool_state_new plain_files)))"
    by (rule run_read [OF run_new]) (simp add: same_world_def)
  moreover have "canonical (te_env plain_te) (canonical (te_env plain_te) p) = canonical (te_env plain_te) p" for p
    by (simp add: plain_te_def)
  ultimately show ?thesis using session_keeps_store_invariant by blast
qed

section \<open>Reading, then editing\<close>

lemma recorded_tag_resolves:
  assumes "store_fit env st" "ss_total_bytes st + length x \<le> MAX_TOTAL_BYTES" "store_record env p x st = (snap, st')"
  obtains s where "sn_tag snap = compute_tag (en_xxh32 env) x"
    "find (\<lambda>s. sn_tag s = sn_tag snap) (versions st' (canonical env p)) = Some s"
proof -
  from assms have ok: "store_ok (en_xxh32 env) st" "record_fits env p x st"
    using store_fit_tracks [OF assms(1)] by (simp_all add: store_fit_def record_fits_def)
  from store_record_head [OF ok assms(3)] have "sn_tag snap = compute_tag (en_xxh32 env) x"
    "list_ex (\<lambda>s. sn_tag s = sn_tag snap) (versions st' (canonical env p))" by auto
  with list_ex_find that show thesis by blast
qed

text \<open>The file a read names.\<close>

definition read_path :: "tool_env \<Rightarrow> json \<Rightarrow> tool_state \<Rightarrow> path option" where
  "read_path te params st =
     (case (arg_str ''path'' params, fst (enter_cwd te params st)) of
        (Some path_str, Inr cwd) \<Rightarrow> Some (path_join cwd (path_components path_str))
      | _ \<Rightarrow> None)"

text \<open>A read leaves a store in which the shown lines are provenance of the file's tag.\<close>

lemma read_records_shown:
  assumes fit: "store_fit (te_env te) (ts_snapshots st)"
    and room: "ss_total_bytes (ts_snapshots st) + SNAPSHOT_MAX_BYTES \<le> MAX_TOTAL_BYTES"
    and r: "read_execute te params st = (Inr out, st')" and s: "\<not> ro_no_snapshot out"
  obtains path raw where "read_path te params st = Some path" "ts_files st (location te path) = Some raw"
    "parse_seen_lines_from_body (ro_body out)
       \<subseteq> seen_of (fst (store_get (te_env te) path (compute_tag (en_xxh32 (te_env te)) (normalize_to_lf raw)) (ts_snapshots st')))"
proof -
  let ?env = "te_env te"
  from r obtain path_str cwd st1 raw where
    e: "enter_cwd te params st = (Inr cwd, st1)"
    and p: "read_file te (path_join cwd (path_components path_str)) None None (ts_files st1) = Inr raw"
      "arg_str ''path'' params = Some path_str"
    by (auto simp: read_execute_def Let_def split: option.splits sum.splits prod.splits)
  let ?p = "path_join cwd (path_components path_str)" and ?x = "normalize_to_lf raw"
  have st1: "ts_files st1 = ts_files st" "ts_snapshots st1 = ts_snapshots st"
    using enter_cwd_keeps [of te params st] e by simp_all
  have on_disk: "ts_files st (location te ?p) = Some raw" using read_file_content [OF p(1)] st1 by simp
  obtain snap store1 where rec: "record_read_snapshot ?env ?p ?x (ts_snapshots st) = (snap, store1)"
    by (cases "record_read_snapshot ?env ?p ?x (ts_snapshots st)")
  have "snap \<noteq> None"
  proof
    assume "snap = None"
    then have "ro_no_snapshot out" using r e p st1 rec by (auto simp: read_execute_def Let_def)
    with s show False ..
  qed
  then obtain sn where sn: "snap = Some sn" by blast
  then have small: "length ?x \<le> SNAPSHOT_MAX_BYTES" and sr: "store_record ?env ?p ?x (ts_snapshots st) = (sn, store1)"
    using rec by (auto simp: record_read_snapshot_def split: if_splits prod.splits)
  obtain y where tag: "sn_tag sn = compute_tag (en_xxh32 ?env) ?x"
    and y: "find (\<lambda>s. sn_tag s = sn_tag sn) (versions store1 (canonical ?env ?p)) = Some y"
    using recorded_tag_resolves [OF fit _ sr] small room by auto
  let ?D = "parse_seen_lines_from_body (ro_body out)"
  let ?B = "to_content (truncate_head (format_read (path_string ?p) ?x (Some (sn_tag sn))
      (arg_u64 ''offset'' params) (arg_u64 ''limit'' params)) read_config)"
  from r e p st1 rec sn have "ro_body out = ?B"
    "ts_snapshots st' = (if parse_seen_lines_from_body ?B \<noteq> {}
       then record_seen_lines ?env ?p (sn_tag sn) (parse_seen_lines_from_body ?B) store1 else store1)"
    by (clarsimp simp: read_execute_def Let_def)+
  then have store': "ts_snapshots st' = (if ?D \<noteq> {} then record_seen_lines ?env ?p (sn_tag sn) ?D store1 else store1)"
    by simp
  have "?D \<subseteq> seen_of (fst (store_get ?env ?p (sn_tag sn) (ts_snapshots st')))"
  proof (cases "?D = {}")
    case False
    have "store_get ?env ?p (sn_tag sn) (get_mut ?env ?p (sn_tag sn) (merge_seen ?D) store1)
        = (Some (merge_seen ?D y), get_mut ?env ?p (sn_tag sn) (merge_seen ?D) store1)"
      by (rule get_mut_get [OF y]) (simp add: merge_seen_def)
    then show ?thesis
      using store' False by (auto simp: record_seen_lines_def seen_of_def merge_seen_def split: option.splits)
  qed simp
  moreover have "read_path te params st = Some ?p" using e p(2) by (simp add: read_path_def)
  ultimately show thesis using on_disk tag that by simp
qed

text \<open>C9: A model that edits what it was just shown is not stopped by the seen-line gate: after a read that
  took a snapshot, an edit under the tag of that content whose anchors are all among the lines the
  output still shows, after paging and truncation, is applied exactly as if the gate were off.\<close>
theorem shown_lines_are_editable:
  assumes "store_fit (te_env te) (ts_snapshots st)"
    and "ss_total_bytes (ts_snapshots st) + SNAPSHOT_MAX_BYTES \<le> MAX_TOTAL_BYTES"
    and "read_execute te params st = (Inr out, st')" and "\<not> ro_no_snapshot out"
    and "set (collect_anchor_lines ops) \<subseteq> parse_seen_lines_from_body (ro_body out)"
  shows "\<exists>path raw. read_path te params st = Some path \<and> ts_files st (location te path) = Some raw
    \<and> (let current = normalize_to_lf raw; tag = compute_tag (en_xxh32 (te_env te)) current in
        fst (edited_text te True path tag ops current (ts_snapshots st'))
          = fst (edited_text te False path tag ops current (ts_snapshots st')))"
proof -
  obtain path raw where named: "read_path te params st = Some path" "ts_files st (location te path) = Some raw"
    and seen: "parse_seen_lines_from_body (ro_body out)
       \<subseteq> seen_of (fst (store_get (te_env te) path (compute_tag (en_xxh32 (te_env te)) (normalize_to_lf raw)) (ts_snapshots st')))"
    by (rule read_records_shown [OF assms(1-4)])
  let ?cur = "normalize_to_lf raw"
  let ?tag = "compute_tag (en_xxh32 (te_env te)) ?cur"
  have "fst (assert_seen_lines (te_env te) path ?tag ops ?cur (ts_snapshots st')) = Inr ()"
    using gate_admits assms(5) seen by blast
  then have "fst (edited_text te True path ?tag ops ?cur (ts_snapshots st'))
      = fst (edited_text te False path ?tag ops ?cur (ts_snapshots st'))"
    by (auto simp: edited_text_def Let_def split: prod.splits sum.splits)
  with named show ?thesis unfolding Let_def by blast
qed

definition read_a :: json where
  "read_a = JObj [(''path'', JStr ''a''), (''cwd'', JArr [JStr []])]"

text \<open>The read of a two-line file, displayed in full.\<close>

lemma read_a_output:
  "\<exists>out st'. read_execute plain_te read_a (tool_state_new plain_files) = (Inr out, st') \<and> \<not> ro_no_snapshot out
     \<and> ro_body out = ''[/w/a#000000]'' @ [NL] @ ''1:p'' @ [NL] @ ''2:q''"
proof -
  let ?p = "(True, [''w'', ''a'']) :: path" and ?x = "''p'' @ [NL] @ ''q'' @ [NL]"
  let ?b = "''[/w/a#000000]'' @ [NL] @ ''1:p'' @ [NL] @ ''2:q''"
  have small: "ss_total_bytes store_new + length ?x \<le> MAX_TOTAL_BYTES"
    by (simp add: store_new_def MAX_TOTAL_BYTES_def)
  obtain sn store1 where sr: "store_record plain_env ?p ?x store_new = (sn, store1)"
    by (cases "store_record plain_env ?p ?x store_new")
  obtain y where "sn_tag sn = compute_tag (en_xxh32 plain_env) ?x"
    by (rule recorded_tag_resolves [OF plain_fit_new(1) small sr])
  then have tag: "sn_tag sn = ''000000''" by simp
  have e: "enter_cwd plain_te read_a (tool_state_new plain_files) = (Inr (True, [''w'']), tool_state_new plain_files)"
    by (simp add: enter_cwd_def read_a_def plain_te_def penv_of_def tool_state_new_def resolve_effective_cwd_def
        resolve_dirs_def parse_cwd_arg_def collect_options_def)
  have j: "path_join (True, [''w'']) (path_components ''a'') = ?p" "path_string ?p = ''/w/a''"
    "arg_str ''path'' read_a = Some ''a''" "arg_u64 ''offset'' read_a = None" "arg_u64 ''limit'' read_a = None"
    by code_simp+
  have rd: "read_file plain_te ?p None None plain_files = Inr ?x" "normalize_to_lf ?x = ?x"
    by code_simp+
  have f: "format_numbered ''/w/a'' ?x (Some ''000000'') = ?b" "length (str_lines ?x) = 2" "length (split_on NL ?b) = 3"
    by code_simp+
  have fr: "format_read ''/w/a'' ?x (Some ''000000'') None None = ?b"
    unfolding format_read_def format_full_read_def f by (simp add: MAX_READ_LINES_def)
  have "fits read_config ?b" unfolding fits_def f(3) by (simp add: read_config_def)
  then have t: "to_content (truncate_head ?b read_config) = ?b" by (simp add: truncate_head_def Let_def)
  have rr: "record_read_snapshot (te_env plain_te) ?p ?x (ts_snapshots (tool_state_new plain_files)) = (Some sn, store1)"
    using sr by (simp add: record_read_snapshot_def SNAPSHOT_MAX_BYTES_def plain_te_def tool_state_new_def)
  have files: "ts_files (tool_state_new plain_files) = plain_files" by (simp add: tool_state_new_def)
  obtain out st' where r: "read_execute plain_te read_a (tool_state_new plain_files) = (Inr out, st')"
    and o: "ro_no_snapshot out = (Some sn = None)"
      "ro_body out = to_content (truncate_head (format_read ''/w/a'' ?x (map_option sn_tag (Some sn)) None None) read_config)"
    unfolding read_execute_def j e files Let_def option.case prod.case sum.case rd rr by simp
  show ?thesis using r o tag fr t by auto
qed

theorem shown_lines_are_editable_witness:
  "\<exists>raw. plain_files (True, [''w'', ''a'']) = Some raw
     \<and> (let current = normalize_to_lf raw; tag = compute_tag (en_xxh32 (te_env plain_te)) current;
            st' = snd (read_execute plain_te read_a (tool_state_new plain_files)) in
        fst (edited_text plain_te True (True, [''w'', ''a'']) tag [Del 2 2] current (ts_snapshots st'))
          = fst (edited_text plain_te False (True, [''w'', ''a'']) tag [Del 2 2] current (ts_snapshots st')))"
proof -
  let ?st = "tool_state_new plain_files"
  obtain out st' where r: "read_execute plain_te read_a ?st = (Inr out, st')" "\<not> ro_no_snapshot out"
    and b: "ro_body out = ''[/w/a#000000]'' @ [NL] @ ''1:p'' @ [NL] @ ''2:q''"
    using read_a_output by blast
  have fit: "store_fit (te_env plain_te) (ts_snapshots ?st)"
    using plain_fit_new by (simp add: plain_te_def tool_state_new_def)
  have room: "ss_total_bytes (ts_snapshots ?st) + SNAPSHOT_MAX_BYTES \<le> MAX_TOTAL_BYTES"
    by (simp add: tool_state_new_def store_new_def SNAPSHOT_MAX_BYTES_def MAX_TOTAL_BYTES_def)
  have "set (collect_anchor_lines [Del 2 2]) \<subseteq> parse_seen_lines_from_body (ro_body out)"
    unfolding b by code_simp
  from shown_lines_are_editable [OF fit room r this] obtain path raw where
    p: "read_path plain_te read_a ?st = Some path" "ts_files ?st (location plain_te path) = Some raw"
      "fst (edited_text plain_te True path (compute_tag (en_xxh32 (te_env plain_te)) (normalize_to_lf raw)) [Del 2 2] (normalize_to_lf raw) (ts_snapshots st'))
       = fst (edited_text plain_te False path (compute_tag (en_xxh32 (te_env plain_te)) (normalize_to_lf raw)) [Del 2 2] (normalize_to_lf raw) (ts_snapshots st'))"
    unfolding Let_def by blast
  have "read_path plain_te read_a ?st = Some (True, [''w'', ''a''])" by code_simp
  with p(1) have path: "path = (True, [''w'', ''a''])" by simp
  have "plain_files (True, [''w'', ''a'']) = Some raw"
    using p(2) by (simp add: path tool_state_new_def plain_te_def)
  then show ?thesis using p(3) unfolding Let_def r(1) snd_conv path by blast
qed

end
