(* ===== verification/Net_Policy.thy ===== *)
theory Net_Policy
  imports Manox_Prelude "HOL-Library.Monad_Syntax"
begin

unbundle bit_operations_syntax

text \<open>
  The sandbox network policy (\<^verbatim>\<open>manox-agent/src/sandbox/netpolicy.rs\<close>): the compiled allowlist, the
  judgement of a CONNECT target, the private-address guard, session amendments, and the route a
  confined call runs under. Host names are byte strings. Name resolution, connecting, the platform's
  managed transport and the user's answers are parameters; the settings file is part of the state.
\<close>

section \<open>Addresses\<close>

text \<open>\<^verbatim>\<open>IpAddr::from_str\<close>: four decimal octets without leading zeros, or eight groups of at most four
  hexadecimal digits with at most one \<^verbatim>\<open>::\<close> and possibly an IPv4 tail.\<close>

datatype ip_addr = V4 "8 word" "8 word" "8 word" "8 word" | V6 "16 word list"

definition hex_val :: "char \<Rightarrow> nat option" where
  "hex_val c =
     (let n = of_char c in
      if 48 \<le> n \<and> n \<le> 57 then Some (n - 48)
      else if 97 \<le> n \<and> n \<le> 102 then Some (n - 87)
      else if 65 \<le> n \<and> n \<le> 70 then Some (n - 55) else None)"

definition to_digit :: "nat \<Rightarrow> char \<Rightarrow> nat option" where
  "to_digit radix c = (case hex_val c of Some d \<Rightarrow> if d < radix then Some d else None | None \<Rightarrow> None)"

definition read_number :: "nat \<Rightarrow> nat \<Rightarrow> bool \<Rightarrow> str \<Rightarrow> (nat \<times> str) option" where
  "read_number radix max_digits allow_zero_prefix s =
     (let ds = takeWhile (\<lambda>c. to_digit radix c \<noteq> None) s in
      if ds = [] \<or> length ds > max_digits \<or> (\<not> allow_zero_prefix \<and> hd ds = CHR ''0'' \<and> length ds > 1) then None
      else Some (foldl (\<lambda>n c. n * radix + the (to_digit radix c)) 0 ds, drop (length ds) s))"

definition read_u8 :: "str \<Rightarrow> (8 word \<times> str) option" where
  "read_u8 s = Option.bind (read_number 10 3 False s) (\<lambda>(n, r). if n < 256 then Some (of_nat n, r) else None)"

definition read_u16_hex :: "str \<Rightarrow> (16 word \<times> str) option" where
  "read_u16_hex s = map_option (\<lambda>(n, r). (of_nat n, r)) (read_number 16 4 True s)"

definition expect_char :: "char \<Rightarrow> str \<Rightarrow> str option" where
  "expect_char c s = (case s of [] \<Rightarrow> None | x # xs \<Rightarrow> if x = c then Some xs else None)"

definition read_ipv4 :: "str \<Rightarrow> (ip_addr \<times> str) option" where
  "read_ipv4 s =
     do { (a, s) \<leftarrow> read_u8 s; s \<leftarrow> expect_char (CHR ''.'') s;
          (b, s) \<leftarrow> read_u8 s; s \<leftarrow> expect_char (CHR ''.'') s;
          (c, s) \<leftarrow> read_u8 s; s \<leftarrow> expect_char (CHR ''.'') s;
          (d, s) \<leftarrow> read_u8 s;
          Some (V4 a b c d, s) }"

definition group_pair :: "8 word \<Rightarrow> 8 word \<Rightarrow> 16 word" where
  "group_pair a b = of_nat (unat a * 256 + unat b)"

fun read_groups :: "nat \<Rightarrow> nat \<Rightarrow> str \<Rightarrow> 16 word list \<times> bool \<times> str" where
  "read_groups 0 i s = ([], False, s)"
| "read_groups (Suc k) i s =
     (let s' = (if i > 0 then expect_char (CHR '':'') s else Some s) in
      case (if k > 0 then Option.bind s' read_ipv4 else None) of
        Some (V4 a b c d, r) \<Rightarrow> ([group_pair a b, group_pair c d], True, r)
      | _ \<Rightarrow>
          (case Option.bind s' read_u16_hex of
             Some (g, r) \<Rightarrow> (let (gs, v4, r') = read_groups k (i + 1) r in (g # gs, v4, r'))
           | None \<Rightarrow> ([], False, s)))"

definition read_ipv6 :: "str \<Rightarrow> (ip_addr \<times> str) option" where
  "read_ipv6 s =
     (let (head, head_v4, r) = read_groups 8 0 s in
      if length head = 8 then Some (V6 head, r)
      else if head_v4 then None
      else
        do { r1 \<leftarrow> expect_char (CHR '':'') r; r2 \<leftarrow> expect_char (CHR '':'') r1;
             let (tail, tail_v4, r3) = read_groups (8 - (length head + 1)) 0 r2 in
             Some (V6 (head @ replicate (8 - length head - length tail) 0 @ tail), r3) })"

definition parse_ip :: "str \<Rightarrow> ip_addr option" where
  "parse_ip s =
     (case (case read_ipv4 s of Some r \<Rightarrow> Some r | None \<Rightarrow> read_ipv6 s) of
        Some (ip, []) \<Rightarrow> Some ip | _ \<Rightarrow> None)"

fun is_private_ip :: "ip_addr \<Rightarrow> bool" where
  "is_private_ip (V4 a b c d) \<longleftrightarrow>
     a = 127
     \<or> (a = 10 \<or> (a = 172 \<and> 16 \<le> b \<and> b \<le> 31) \<or> (a = 192 \<and> b = 168))
     \<or> (a = 169 \<and> b = 254)
     \<or> (a = 0 \<and> b = 0 \<and> c = 0 \<and> d = 0)
     \<or> (a = 255 \<and> b = 255 \<and> c = 255 \<and> d = 255)
     \<or> (a = 100 \<and> b AND 0xc0 = 64)"
| "is_private_ip (V6 gs) \<longleftrightarrow>
     gs = [0, 0, 0, 0, 0, 0, 0, 1]
     \<or> gs = [0, 0, 0, 0, 0, 0, 0, 0]
     \<or> hd gs AND 0xffc0 = 0xfe80
     \<or> hd gs AND 0xfe00 = 0xfc00"

section \<open>Host names\<close>

definition ascii_lower :: "str \<Rightarrow> str" where
  "ascii_lower s =
     map (\<lambda>c. if 65 \<le> (of_char c :: nat) \<and> (of_char c :: nat) \<le> 90 then char_of ((of_char c :: nat) + 32) else c) s"

definition split_once :: "char \<Rightarrow> str \<Rightarrow> (str \<times> str) option" where
  "split_once c s = (if c \<in> set s then Some (takeWhile (\<lambda>x. x \<noteq> c) s, tl (dropWhile (\<lambda>x. x \<noteq> c) s)) else None)"

definition strip_port :: "str \<Rightarrow> str" where
  "strip_port host =
     (case split_once (CHR '':'') host of
        Some (head, port) \<Rightarrow>
          if count_list host (CHR '':'') = 1 \<and> port \<noteq> [] \<and> list_all is_digit port then head else host
      | None \<Rightarrow> host)"

definition normalize_host :: "str \<Rightarrow> str" where
  "normalize_host raw =
     (let host = ascii_lower (trim raw) in
      case (if starts_with host ''['' then str_find '']'' host else None) of
        Some e \<Rightarrow> take (e - 1) (drop 1 host)
      | None \<Rightarrow> trim_end_matches ''.'' (strip_port host))"

section \<open>The allowlist\<close>

datatype pattern =
    Exact str
  | Subdomains str
  | ApexAndSubdomains str
  | IpLit ip_addr

datatype host_verdict = Allow | NotAllowlisted

type_synonym allowlist = "pattern list"

definition compile_one :: "str \<Rightarrow> pattern option" where
  "compile_one raw =
     (let lowered = normalize_host (trim raw) in
      if lowered = [] \<or> lowered = ''*'' then None
      else
        case (case strip_prefix ''**.'' lowered of Some r \<Rightarrow> Some r | None \<Rightarrow> strip_prefix ''*.'' lowered) of
          Some rest \<Rightarrow>
            if rest = [] \<or> CHR ''*'' \<in> set rest then None
            else if starts_with lowered ''**.'' then Some (ApexAndSubdomains rest)
            else Some (Subdomains rest)
        | None \<Rightarrow>
            if CHR ''*'' \<in> set lowered then None
            else (case parse_ip lowered of Some ip \<Rightarrow> Some (IpLit ip) | None \<Rightarrow> Some (Exact lowered)))"

definition compile :: "str list \<Rightarrow> allowlist" where
  "compile patterns = List.map_filter compile_one patterns"

fun pattern_matches :: "str \<Rightarrow> pattern \<Rightarrow> bool" where
  "pattern_matches host (Exact exact) = (host = exact)"
| "pattern_matches host (Subdomains domain) =
     (ends_with host domain \<and> length host > length domain \<and> host ! (length host - length domain - 1) = CHR ''.'')"
| "pattern_matches host (ApexAndSubdomains domain) =
     (ends_with host domain \<and> length host > length domain \<and> host ! (length host - length domain - 1) = CHR ''.'')"
| "pattern_matches host (IpLit ip) = False"

fun apex_matches :: "str \<Rightarrow> pattern \<Rightarrow> bool" where
  "apex_matches host (ApexAndSubdomains domain) = (host = domain)"
| "apex_matches host _ = False"

definition judge :: "allowlist \<Rightarrow> str \<Rightarrow> host_verdict" where
  "judge patterns raw =
     (let host = normalize_host raw in
      if host = [] then NotAllowlisted
      else case parse_ip host of
        Some ip \<Rightarrow> if list_ex (\<lambda>p. p = IpLit ip) patterns then Allow else NotAllowlisted
      | None \<Rightarrow>
          if list_ex (pattern_matches host) patterns \<or> list_ex (apex_matches host) patterns
          then Allow else NotAllowlisted)"

section \<open>The judge context\<close>

datatype host_decision = AllowOnce | AllowSession | AllowPersistent | Deny

type_synonym approver = "str \<Rightarrow> nat \<Rightarrow> host_decision"

record judge_ctx =
  jc_allowlist :: allowlist
  jc_approver :: "approver option"
  jc_session_allow :: "str list"
  jc_settings_allow :: "str list"

definition judge_ctx_new :: "str list \<Rightarrow> judge_ctx" where
  "judge_ctx_new settings_allow =
     \<lparr>jc_allowlist = compile settings_allow, jc_approver = None, jc_session_allow = [],
      jc_settings_allow = settings_allow\<rparr>"

definition recompile :: "str list \<Rightarrow> judge_ctx \<Rightarrow> judge_ctx" where
  "recompile settings_allow ctx =
     ctx\<lparr>jc_settings_allow := settings_allow,
         jc_allowlist := compile (settings_allow @ jc_session_allow ctx)\<rparr>"

definition install_approver :: "approver \<Rightarrow> judge_ctx \<Rightarrow> judge_ctx" where
  "install_approver f ctx = ctx\<lparr>jc_approver := Some f\<rparr>"

definition admit :: "str \<Rightarrow> judge_ctx \<Rightarrow> judge_ctx" where
  "admit host ctx =
     (if list_ex (\<lambda>h. normalize_host h = normalize_host host) (jc_session_allow ctx) then ctx
      else
        let session = jc_session_allow ctx @ [host] in
        ctx\<lparr>jc_session_allow := session, jc_allowlist := compile (jc_settings_allow ctx @ session)\<rparr>)"

section \<open>Serving a connection\<close>

text \<open>What the proxy asks of its surroundings: resolution of a name, the success of a connection, and
  whether the settings file can be saved.\<close>

record net_env =
  ne_lookup :: "str \<Rightarrow> nat \<Rightarrow> ip_addr list option"
  ne_connects :: "ip_addr \<Rightarrow> nat \<Rightarrow> bool"
  ne_save_fails :: bool

text \<open>\<^verbatim>\<open>std::str::from_utf8\<close>.\<close>

definition is_cont :: "char \<Rightarrow> bool" where
  "is_cont c \<longleftrightarrow> 128 \<le> (of_char c :: nat) \<and> (of_char c :: nat) < 192"

definition between :: "nat \<Rightarrow> nat \<Rightarrow> char \<Rightarrow> bool" where
  "between lo hi c \<longleftrightarrow> lo \<le> (of_char c :: nat) \<and> (of_char c :: nat) \<le> hi"

fun is_utf8 :: "str \<Rightarrow> bool" where
  "is_utf8 [] = True"
| "is_utf8 (a # s) =
     (if between 0 127 a then is_utf8 s
      else (case s of
        [] \<Rightarrow> False
      | b # s1 \<Rightarrow>
          if between 194 223 a then is_cont b \<and> is_utf8 s1
          else (case s1 of
            [] \<Rightarrow> False
          | c # s2 \<Rightarrow>
              if between 224 239 a
              then is_cont b \<and> is_cont c \<and> (between 224 224 a \<longrightarrow> between 160 191 b)
                   \<and> (between 237 237 a \<longrightarrow> between 128 159 b) \<and> is_utf8 s2
              else (case s2 of
                [] \<Rightarrow> False
              | d # s3 \<Rightarrow>
                  between 240 244 a \<and> is_cont b \<and> is_cont c \<and> is_cont d
                  \<and> (between 240 240 a \<longrightarrow> between 144 191 b) \<and> (between 244 244 a \<longrightarrow> between 128 143 b)
                  \<and> is_utf8 s3))))"

text \<open>\<^verbatim>\<open>split_whitespace().next()\<close>.\<close>

fun take_word :: "str \<Rightarrow> str \<times> str" where
  "take_word [] = ([], [])"
| "take_word (c # cs) =
     (if strip_any ws_seqs (c # cs) \<noteq> None then ([], c # cs)
      else let (w, r) = take_word cs in (c # w, r))"

definition next_word :: "str \<Rightarrow> (str \<times> str) option" where
  "next_word s = (let (w, r) = take_word (trim_start s) in if w = [] then None else Some (w, r))"

definition parse_u16 :: "str \<Rightarrow> nat option" where
  "parse_u16 s = (case parse_unsigned s of Some n \<Rightarrow> if n < 2 ^ 16 then Some n else None | None \<Rightarrow> None)"

definition parse_connect_request :: "str \<Rightarrow> (str \<times> nat) option" where
  "parse_connect_request head =
     (if \<not> is_utf8 head then None
      else
        case str_lines head of
          [] \<Rightarrow> None
        | request_line # _ \<Rightarrow>
            do { (meth, r1) \<leftarrow> next_word request_line;
                 (if ascii_lower meth = ''connect'' then Some () else None);
                 (authority, r2) \<leftarrow> next_word r1;
                 (host, port) \<leftarrow> rsplit_at_char (CHR '':'') authority;
                 n \<leftarrow> parse_u16 port;
                 Some (normalize_host host, n) })"

text \<open>The settings file: an approved host is appended unless it is there already.\<close>

definition add_sandbox_network_allow :: "bool \<Rightarrow> str \<Rightarrow> str list \<Rightarrow> str list" where
  "add_sandbox_network_allow save_fails host allow =
     (if list_ex (\<lambda>h. ascii_lower (trim h) = ascii_lower (trim host)) allow then allow
      else if save_fails then allow else allow @ [host])"

definition ask_about_host :: "net_env \<Rightarrow> str \<Rightarrow> nat \<Rightarrow> judge_ctx \<Rightarrow> str list \<Rightarrow> bool \<times> judge_ctx \<times> str list" where
  "ask_about_host ne host port ctx saved =
     (case jc_approver ctx of
        None \<Rightarrow> (False, ctx, saved)
      | Some f \<Rightarrow>
          if judge (jc_allowlist ctx) host = Allow then (True, ctx, saved)
          else case f host port of
            AllowOnce \<Rightarrow> (True, ctx, saved)
          | AllowSession \<Rightarrow> (True, admit host ctx, saved)
          | AllowPersistent \<Rightarrow> (True, admit host ctx, add_sandbox_network_allow (ne_save_fails ne) host saved)
          | Deny \<Rightarrow> (False, ctx, saved))"

text \<open>The request head is read byte by byte up to a blank line, and never past 8193 bytes; a client that
  closes first gets no answer.\<close>

fun read_head :: "str \<Rightarrow> str \<Rightarrow> str option" where
  "read_head head [] = None"
| "read_head head (byte # rest) =
     (let head' = head @ [byte] in
      if ends_with head' [CR, NL, CR, NL] \<or> ends_with head' [NL, NL] \<or> length head' > 8192 then Some head'
      else read_head head' rest)"

datatype reply = Closed | MethodNotAllowed | Forbidden | BadGateway | Tunnel ip_addr nat

definition dial :: "net_env \<Rightarrow> str \<Rightarrow> nat \<Rightarrow> reply" where
  "dial ne host port =
     (case parse_ip host of
        Some literal \<Rightarrow> if ne_connects ne literal port then Tunnel literal port else BadGateway
      | None \<Rightarrow>
          (case ne_lookup ne host port of
             None \<Rightarrow> BadGateway
           | Some addrs \<Rightarrow>
               (case find (\<lambda>a. \<not> is_private_ip a) addrs of
                  None \<Rightarrow> Forbidden
                | Some upstream \<Rightarrow> if ne_connects ne upstream port then Tunnel upstream port else BadGateway)))"

definition serve_connection ::
  "net_env \<Rightarrow> str \<Rightarrow> judge_ctx \<Rightarrow> str list \<Rightarrow> reply \<times> judge_ctx \<times> str list" where
  "serve_connection ne incoming ctx saved =
     (case read_head [] incoming of None \<Rightarrow> (Closed, ctx, saved) | Some head \<Rightarrow>
      case parse_connect_request head of
        None \<Rightarrow> (MethodNotAllowed, ctx, saved)
      | Some (host, port) \<Rightarrow>
          (case (case judge (jc_allowlist ctx) host of
                   Allow \<Rightarrow> (True, ctx, saved)
                 | NotAllowlisted \<Rightarrow> ask_about_host ne host port ctx saved) of
             (allowed, ctx', saved') \<Rightarrow> (if allowed then dial ne host port else Forbidden, ctx', saved')))"

section \<open>The policy\<close>

datatype network_access = AccessOff | AccessOn

datatype network_route = Disabled | Direct | Managed nat

record network_policy =
  np_running :: "nat option"
  np_ctx :: judge_ctx

definition network_policy_new :: "str list \<Rightarrow> network_policy" where
  "network_policy_new saved = \<lparr>np_running = None, np_ctx = judge_ctx_new saved\<rparr>"

definition route_for :: "network_policy \<Rightarrow> network_access \<Rightarrow> network_route" where
  "route_for np access =
     (case access of
        AccessOff \<Rightarrow> Disabled
      | AccessOn \<Rightarrow>
          (case np_running np of
             Some port \<Rightarrow> Managed port
           | None \<Rightarrow> if jc_allowlist (np_ctx np) = [] then Direct else Disabled))"

text \<open>\<open>ready\<close>: the platform carries the managed route; \<open>bound\<close>: the port the listener got, if any.\<close>

definition set_enabled :: "bool \<Rightarrow> nat option \<Rightarrow> str list \<Rightarrow> network_access \<Rightarrow> network_policy \<Rightarrow> network_policy" where
  "set_enabled ready bound saved access np =
     (if access = AccessOff then np\<lparr>np_running := None\<rparr>
      else if np_running np \<noteq> None then np
      else
        let np' = np\<lparr>np_ctx := recompile saved (np_ctx np)\<rparr> in
        if jc_allowlist (np_ctx np') = [] then np'
        else if \<not> ready then np'
        else case bound of Some port \<Rightarrow> np'\<lparr>np_running := Some port\<rparr> | None \<Rightarrow> np')"


text \<open>A session of the policy: connections served, the switch thrown (re-reading the settings), the
  settings file edited by hand, an approver installed.\<close>

datatype net_event =
    Connection str
  | Switch network_access bool "nat option"
  | EditSettings "str list"
  | SetApprover approver

fun net_step :: "net_env \<Rightarrow> net_event \<Rightarrow> network_policy \<times> str list \<Rightarrow> network_policy \<times> str list" where
  "net_step ne (Connection incoming) (np, saved) =
     (let (r, ctx', saved') = serve_connection ne incoming (np_ctx np) saved in (np\<lparr>np_ctx := ctx'\<rparr>, saved'))"
| "net_step ne (Switch access ready bound) (np, saved) = (set_enabled ready bound saved access np, saved)"
| "net_step ne (EditSettings allow) (np, saved) = (np, allow)"
| "net_step ne (SetApprover f) (np, saved) = (np\<lparr>np_ctx := install_approver f (np_ctx np)\<rparr>, saved)"

definition net_run :: "net_env \<Rightarrow> net_event list \<Rightarrow> network_policy \<times> str list \<Rightarrow> network_policy \<times> str list" where
  "net_run ne = fold (net_step ne)"

section \<open>Addresses are well formed\<close>

fun wf_ip :: "ip_addr \<Rightarrow> bool" where
  "wf_ip (V4 a b c d) = True"
| "wf_ip (V6 gs) = (length gs = 8)"

lemma read_ipv4_shape: "read_ipv4 s = Some (ip, r) \<Longrightarrow> \<exists>a b c d. ip = V4 a b c d"
  by (auto simp: read_ipv4_def split: bind_splits)

lemma read_groups_length: "read_groups k i s = (gs, v4, r) \<Longrightarrow> length gs \<le> k"
proof (induction k arbitrary: i s gs v4 r)
  case (Suc k)
  let ?s = "if i > 0 then expect_char (CHR '':'') s else Some s"
  let ?v = "if k > 0 then Option.bind ?s read_ipv4 else None"
  show ?case
  proof (cases ?v)
    case None
    then show ?thesis
      using Suc by (auto simp: Let_def split: option.splits prod.splits)
  next
    case (Some v)
    moreover obtain ip r' where "v = (ip, r')" by (cases v)
    moreover from Some this have "k > 0" "\<exists>a b c d. ip = V4 a b c d"
      by (auto split: if_splits bind_splits intro: read_ipv4_shape)
    ultimately show ?thesis using Suc.prems by (auto simp: Let_def)
  qed
qed simp

lemma read_ipv6_wf:
  assumes "read_ipv6 s = Some (ip, r)"
  shows "wf_ip ip"
proof -
  obtain head v4 r1 where h: "read_groups 8 0 s = (head, v4, r1)" by (metis prod_cases3)
  have le: "length head \<le> 8" by (rule read_groups_length [OF h])
  obtain tail v4' r2 where t: "read_groups (7 - length head) 0 (drop 2 r1) = (tail, v4', r2)" by (metis prod_cases3)
  have le': "length tail \<le> 7 - length head" by (rule read_groups_length [OF t])
  show ?thesis
  proof (cases "length head = 8")
    case True
    then show ?thesis using assms by (auto simp: read_ipv6_def h)
  next
    case False
    have "ip = V6 (head @ replicate (8 - length head - length tail) 0 @ tail)"
      using assms t False
      by (auto simp: read_ipv6_def h expect_char_def numeral_2_eq_2 Let_def split: if_splits bind_splits list.splits)
    then show ?thesis using le le' False by simp
  qed
qed

lemma read_ipv4_wf: "read_ipv4 s = Some (ip, r) \<Longrightarrow> wf_ip ip"
  using read_ipv4_shape [of s ip r] by auto

lemma parse_ip_wf: "parse_ip s = Some ip \<Longrightarrow> wf_ip ip"
  by (auto simp: parse_ip_def split: option.splits list.splits dest: read_ipv4_wf read_ipv6_wf)

section \<open>The allowlist admits what its entries say\<close>

lemma normalize_host_trim [simp]: "normalize_host (trim s) = normalize_host s"
  by (simp add: normalize_host_def)

text \<open>The documented meaning of one entry: an address admits that address, a plain name admits itself,
  \<open>*.d\<close> the names below \<open>d\<close>, \<open>**.d\<close> also \<open>d\<close>; no other use of \<open>*\<close> admits anything.\<close>

definition below :: "str \<Rightarrow> str \<Rightarrow> bool" where
  "below host domain \<longleftrightarrow> (\<exists>label. host = label @ ''.'' @ domain)"

definition entry_admits :: "str \<Rightarrow> str \<Rightarrow> bool" where
  "entry_admits entry raw \<longleftrightarrow>
     (let e = normalize_host entry; h = normalize_host raw in
      e \<noteq> [] \<and> h \<noteq> [] \<and>
      (if CHR ''*'' \<in> set e
       then parse_ip h = None \<and>
            (\<exists>d. d \<noteq> [] \<and> CHR ''*'' \<notin> set d \<and>
              (e = ''*.'' @ d \<and> below h d \<or> e = ''**.'' @ d \<and> (h = d \<or> below h d)))
       else if parse_ip h = None then e = h else parse_ip e = parse_ip h))"

lemma below_iff:
  "below host domain \<longleftrightarrow>
     ends_with host domain \<and> length host > length domain
     \<and> host ! (length host - length domain - 1) = CHR ''.''"
proof
  assume r: "ends_with host domain \<and> length host > length domain
     \<and> host ! (length host - length domain - 1) = CHR ''.''"
  obtain u where u: "host = u @ domain" using r unfolding ends_with_iff by blast
  with r have ne: "u \<noteq> []" by auto
  with u have "last u = CHR ''.''" using r by (simp add: last_conv_nth nth_append)
  with u ne show "below host domain" by (metis append.assoc append_butlast_last_id below_def)
qed (auto simp: below_def ends_with_iff nth_append)


text \<open>A pattern's own judgement of a normalized host.\<close>

definition admits :: "pattern \<Rightarrow> str \<Rightarrow> bool" where
  "admits p h \<longleftrightarrow>
     (case parse_ip h of Some ip \<Rightarrow> p = IpLit ip | None \<Rightarrow> pattern_matches h p \<or> apex_matches h p)"

lemma judge_admits:
  "judge ps raw = Allow \<longleftrightarrow> normalize_host raw \<noteq> [] \<and> list_ex (\<lambda>p. admits p (normalize_host raw)) ps"
  by (cases "parse_ip (normalize_host raw)")
     (auto simp: judge_def admits_def Let_def list_ex_iff)

lemma compile_one_plain:
  assumes "CHR ''*'' \<notin> set (normalize_host entry)"
  shows "compile_one entry =
    (if normalize_host entry = [] then None
     else case parse_ip (normalize_host entry) of
       Some ip \<Rightarrow> Some (IpLit ip) | None \<Rightarrow> Some (Exact (normalize_host entry)))"
proof -
  have "strip_prefix ''**.'' (normalize_host entry) = None" "strip_prefix ''*.'' (normalize_host entry) = None"
    using assms by (auto simp: strip_prefix_None_iff)
  then show ?thesis using assms by (auto simp: compile_one_def Let_def)
qed

lemma compile_one_star:
  assumes "normalize_host entry = ''*.'' @ d"
  shows "compile_one entry = (if d = [] \<or> CHR ''*'' \<in> set d then None else Some (Subdomains d))"
  using assms by (simp add: compile_one_def Let_def starts_with_def)

lemma compile_one_double_star:
  assumes "normalize_host entry = ''**.'' @ d"
  shows "compile_one entry = (if d = [] \<or> CHR ''*'' \<in> set d then None else Some (ApexAndSubdomains d))"
  using assms by (simp add: compile_one_def Let_def starts_with_def)

lemma compile_one_other:
  assumes "CHR ''*'' \<in> set (normalize_host entry)"
    and "\<And>d. normalize_host entry \<noteq> ''*.'' @ d" and "\<And>d. normalize_host entry \<noteq> ''**.'' @ d"
  shows "compile_one entry = None"
proof -
  have "strip_prefix ''**.'' (normalize_host entry) = None" "strip_prefix ''*.'' (normalize_host entry) = None"
    using assms(2,3) by (auto simp: strip_prefix_None_iff)
  then show ?thesis using assms(1) by (simp add: compile_one_def Let_def)
qed

lemma entry_admits_compile:
  "entry_admits entry raw \<longleftrightarrow>
     normalize_host raw \<noteq> []
     \<and> (case compile_one entry of Some p \<Rightarrow> admits p (normalize_host raw) | None \<Rightarrow> False)"
proof -
  let ?e = "normalize_host entry" and ?h = "normalize_host raw"
  consider (plain) "CHR ''*'' \<notin> set ?e"
    | (star) d where "?e = ''*.'' @ d"
    | (double) d where "?e = ''**.'' @ d"
    | (other) "CHR ''*'' \<in> set ?e" "\<And>d. ?e \<noteq> ''*.'' @ d" "\<And>d. ?e \<noteq> ''**.'' @ d"
    by blast
  then show ?thesis
  proof cases
    case plain
    then show ?thesis
      by (auto simp: entry_admits_def Let_def compile_one_plain admits_def split: option.splits)
  next
    case star
    then show ?thesis
      by (auto simp: entry_admits_def Let_def compile_one_star admits_def below_iff split: option.splits)
  next
    case double
    then show ?thesis
      by (auto simp: entry_admits_def Let_def compile_one_double_star admits_def below_iff split: option.splits)
  next
    case other
    then show ?thesis by (auto simp: entry_admits_def Let_def compile_one_other)
  qed
qed

lemma list_ex_compile:
  "list_ex P (compile ps) \<longleftrightarrow> list_ex (\<lambda>e. case compile_one e of Some p \<Rightarrow> P p | None \<Rightarrow> False) ps"
  by (auto simp: compile_def List.map_filter_def list_ex_iff split: option.splits)

lemma compile_Nil_iff: "compile ps = [] \<longleftrightarrow> list_all (\<lambda>e. compile_one e = None) ps"
  by (auto simp: compile_def List.map_filter_def list_all_iff filter_empty_conv)

lemma judge_compile: "judge (compile es) t = Allow \<longleftrightarrow> list_ex (\<lambda>e. entry_admits e t) es"
proof (cases "normalize_host t = []")
  case True
  then show ?thesis by (simp add: judge_admits entry_admits_compile list_ex_iff)
next
  case False
  then show ?thesis by (simp add: judge_admits list_ex_compile entry_admits_compile)
qed

text \<open>C15: the proxy's judgement of a target is exactly the documented meaning of the configured
  entries: the target is allowed when some entry admits it by its own words (an address, a plain name,
  a name strictly below the domain of a \<open>*.\<close> entry, or that domain too for \<open>**.\<close>), and never by a
  look-alike suffix or by a malformed wildcard.\<close>

theorem judge_meaning:
  "judge (compile entries) target = Allow \<longleftrightarrow> list_ex (\<lambda>entry. entry_admits entry target) entries"
  by (rule judge_compile)

section \<open>Admitted hosts stay admitted\<close>

definition ctx_inv :: "judge_ctx \<Rightarrow> bool" where
  "ctx_inv ctx \<longleftrightarrow> jc_allowlist ctx = compile (jc_settings_allow ctx @ jc_session_allow ctx)"

definition nameable :: "str \<Rightarrow> bool" where
  "nameable host \<longleftrightarrow> normalize_host host \<noteq> [] \<and> CHR ''*'' \<notin> set (normalize_host host)"

lemma entry_admits_self:
  assumes "nameable host" and "normalize_host entry = normalize_host host"
  shows "entry_admits entry host"
  using assms by (simp add: entry_admits_def nameable_def)

lemma judge_session:
  assumes "ctx_inv ctx" and "nameable host"
    and "normalize_host host \<in> normalize_host ` set (jc_session_allow ctx)"
  shows "judge (jc_allowlist ctx) host = Allow"
proof -
  obtain e where e: "e \<in> set (jc_session_allow ctx)" "normalize_host e = normalize_host host"
    using assms(3) by auto
  then have "entry_admits e host" by (intro entry_admits_self assms(2)) simp
  with e show ?thesis
    using assms(1)
    by (auto simp: ctx_inv_def judge_compile list_ex_iff)
qed

lemma ctx_inv_new: "ctx_inv (judge_ctx_new settings)"
  by (simp add: ctx_inv_def judge_ctx_new_def)

lemma recompile_effect:
  "ctx_inv (recompile settings ctx)" "jc_session_allow (recompile settings ctx) = jc_session_allow ctx"
  by (simp_all add: ctx_inv_def recompile_def)

lemma admit_effect:
  assumes "ctx_inv ctx"
  shows "ctx_inv (admit host ctx)"
    and "set (jc_session_allow ctx) \<subseteq> set (jc_session_allow (admit host ctx))"
    and "normalize_host host \<in> normalize_host ` set (jc_session_allow (admit host ctx))"
    and "jc_approver (admit host ctx) = jc_approver ctx"
  using assms by (auto simp: ctx_inv_def admit_def Let_def list_ex_iff intro!: rev_image_eqI)

text \<open>What serving a connection can do to the context: nothing, or admit its target for the session.\<close>

lemma ask_about_host_ctx:
  assumes "ask_about_host ne host port ctx saved = (allowed, ctx', saved')"
  shows "ctx' = ctx \<or> ctx' = admit host ctx"
  using assms by (auto simp: ask_about_host_def split: option.splits if_splits host_decision.splits)

lemma serve_connection_ctx:
  assumes "serve_connection ne incoming ctx saved = (r, ctx', saved')"
  shows "ctx' = ctx \<or> (\<exists>host. ctx' = admit host ctx)"
  using assms
  by (auto simp: serve_connection_def split: option.splits prod.splits host_verdict.splits
      dest: ask_about_host_ctx)

definition keeps_session :: "judge_ctx \<Rightarrow> judge_ctx \<Rightarrow> bool" where
  "keeps_session ctx ctx' \<longleftrightarrow> ctx_inv ctx' \<and> set (jc_session_allow ctx) \<subseteq> set (jc_session_allow ctx')"

lemma net_step_keeps:
  assumes "ctx_inv (np_ctx np)"
  shows "keeps_session (np_ctx np) (np_ctx (fst (net_step ne ev (np, saved))))"
proof (cases ev)
  case (Connection incoming)
  obtain r ctx' saved' where s: "serve_connection ne incoming (np_ctx np) saved = (r, ctx', saved')"
    by (metis prod_cases3)
  with serve_connection_ctx [OF s] admit_effect [OF assms] assms Connection show ?thesis
    by (auto simp: keeps_session_def)
next
  case (Switch access ready bound)
  then show ?thesis
    using assms recompile_effect
    by (auto simp: keeps_session_def set_enabled_def Let_def split: option.splits)
qed (use assms in \<open>auto simp: keeps_session_def install_approver_def ctx_inv_def\<close>)

lemma net_run_keeps:
  assumes "ctx_inv (np_ctx (fst st))"
  shows "keeps_session (np_ctx (fst st)) (np_ctx (fst (net_run ne evs st)))"
  using assms
proof (induction evs arbitrary: st)
  case Nil
  then show ?case by (simp add: net_run_def keeps_session_def)
next
  case (Cons ev evs)
  have "keeps_session (np_ctx (fst st)) (np_ctx (fst (net_step ne ev st)))"
    using net_step_keeps [OF Cons.prems, of ne ev "snd st"] by simp
  with Cons.IH [of "net_step ne ev st"] show ?case
    by (auto simp: net_run_def keeps_session_def)
qed

lemma ctx_inv_run: "ctx_inv (np_ctx (fst (net_run ne evs (network_policy_new settings, saved))))"
  using net_run_keeps [of "(network_policy_new settings, saved)" ne evs]
  by (simp add: network_policy_new_def ctx_inv_new keeps_session_def)

lemma normalize_host_lower_trim:
  "ascii_lower (trim a) = ascii_lower (trim b) \<Longrightarrow> normalize_host a = normalize_host b"
  by (simp add: normalize_host_def)

lemma saved_admits:
  assumes "nameable host"
  shows "list_ex (\<lambda>e. entry_admits e host) (add_sandbox_network_allow False host saved)"
proof (cases "list_ex (\<lambda>h. ascii_lower (trim h) = ascii_lower (trim host)) saved")
  case True
  then obtain e where "e \<in> set saved" "normalize_host e = normalize_host host"
    by (auto simp: list_ex_iff dest: normalize_host_lower_trim)
  then show ?thesis
    using entry_admits_self [OF assms] True by (auto simp: add_sandbox_network_allow_def list_ex_iff)
next
  case False
  then show ?thesis using entry_admits_self [OF assms refl] by (simp add: add_sandbox_network_allow_def)
qed

text \<open>C17: a host the user approves for the session is asked about once: from the approved connection on,
  whatever connections, switches, settings edits and approver changes follow, the proxy judges it
  allowed; and a host approved for good is admitted by the settings a later session starts from.\<close>

theorem approved_host_stays_allowed:
  assumes run: "net_run ne before (network_policy_new settings, settings) = (np, saved)"
    and head: "read_head [] incoming = Some head" "parse_connect_request head = Some (host, port)"
    and miss: "judge (jc_allowlist (np_ctx np)) host = NotAllowlisted" "nameable host"
    and approver: "jc_approver (np_ctx np) = Some f" "f host port = AllowSession \<or> f host port = AllowPersistent"
  shows "judge (jc_allowlist (np_ctx (fst (net_run ne (Connection incoming # after) (np, saved))))) host = Allow
     \<and> (f host port = AllowPersistent \<and> \<not> ne_save_fails ne \<longrightarrow>
        judge (jc_allowlist (judge_ctx_new (snd (net_step ne (Connection incoming) (np, saved))))) host = Allow)"
proof -
  have inv: "ctx_inv (np_ctx np)" using ctx_inv_run [of ne before settings settings] run by simp
  have serve: "net_step ne (Connection incoming) (np, saved) =
      (np\<lparr>np_ctx := admit host (np_ctx np)\<rparr>,
       if f host port = AllowPersistent then add_sandbox_network_allow (ne_save_fails ne) host saved else saved)"
    using head miss approver by (auto simp: serve_connection_def ask_about_host_def)
  let ?st = "net_step ne (Connection incoming) (np, saved)"
  have ctx: "np_ctx (fst ?st) = admit host (np_ctx np)" by (simp only: serve) simp
  have "keeps_session (admit host (np_ctx np)) (np_ctx (fst (net_run ne after ?st)))"
    using net_run_keeps [of ?st ne after] unfolding ctx by (simp only: admit_effect(1) [OF inv])
  then have "judge (jc_allowlist (np_ctx (fst (net_run ne after ?st)))) host = Allow"
    using admit_effect(3) [OF inv, of host] miss(2)
    by (intro judge_session) (auto simp: keeps_session_def)
  moreover have "judge (compile (add_sandbox_network_allow False host saved)) host = Allow"
    by (simp add: judge_compile saved_admits miss(2))
  moreover have "net_run ne (Connection incoming # after) (np, saved) = net_run ne after ?st"
    by (simp add: net_run_def)
  ultimately show ?thesis unfolding serve by (simp add: judge_ctx_new_def)
qed

section \<open>What the proxy may reach\<close>

definition authorized :: "judge_ctx \<Rightarrow> str \<Rightarrow> nat \<Rightarrow> bool" where
  "authorized ctx host port \<longleftrightarrow>
     judge (jc_allowlist ctx) host = Allow
     \<or> (\<exists>f. jc_approver ctx = Some f \<and> f host port \<in> {AllowOnce, AllowSession, AllowPersistent})"

definition reachable_at :: "net_env \<Rightarrow> str \<Rightarrow> nat \<Rightarrow> ip_addr \<Rightarrow> bool" where
  "reachable_at ne host port ip \<longleftrightarrow>
     (case parse_ip host of
        Some literal \<Rightarrow> ip = literal
      | None \<Rightarrow> \<not> is_private_ip ip \<and> (\<exists>addrs. ne_lookup ne host port = Some addrs \<and> ip \<in> set addrs))"

lemma dial_reaches:
  "dial ne host port = Tunnel ip port' \<Longrightarrow> port' = port \<and> reachable_at ne host port ip"
  by (auto simp: dial_def reachable_at_def find_Some_iff split: option.splits if_splits)

lemma ask_authorizes:
  "ask_about_host ne host port ctx saved = (True, ctx', saved') \<Longrightarrow> authorized ctx host port"
  by (auto simp: ask_about_host_def authorized_def split: option.splits if_splits host_decision.splits)


section \<open>The route of a confined call\<close>

text \<open>After the switch is thrown the route of a confined call is determined: off closes the network;
  on keeps a running proxy, opens the network directly only when no configured or approved entry is
  valid, and otherwise routes through the proxy just bound or, without a managed transport or a free
  port, closes the network.\<close>

lemma route_after_switch:
  "route_for (set_enabled ready bound saved access np) access =
     (case access of
        AccessOff \<Rightarrow> Disabled
      | AccessOn \<Rightarrow>
          (case np_running np of
             Some port \<Rightarrow> Managed port
           | None \<Rightarrow>
               if list_all (\<lambda>entry. compile_one entry = None) (saved @ jc_session_allow (np_ctx np)) then Direct
               else case bound of Some port \<Rightarrow> if ready then Managed port else Disabled | None \<Rightarrow> Disabled))"
  by (auto simp: route_for_def set_enabled_def recompile_def Let_def compile_Nil_iff [symmetric]
      split: network_access.splits option.splits)

text \<open>A settings list of malformed wildcards compiles to an empty allowlist, and the open route.\<close>

lemma malformed_allowlist_opens_route:
  "route_for (set_enabled True (Some 8080) [''api.*.com''] AccessOn (network_policy_new [''api.*.com'']))
     AccessOn = Direct"
  by code_simp

text \<open>The guard does not look through IPv4-mapped addresses: \<open>::ffff:127.0.0.1\<close> counts as public.\<close>

lemma mapped_loopback_is_public:
  "is_private_ip (V4 127 0 0 1) \<and> \<not> is_private_ip (V6 [0, 0, 0, 0, 0, 0xffff, 0x7f00, 1])"
  by simp

text \<open>An approved target that spells a wildcard is compiled as a pattern: approving the one host \<open>*.com\<close>
  admits every name below \<open>com\<close>.\<close>

lemma approved_wildcard_is_a_pattern:
  "judge (jc_allowlist (admit ''*.com'' (judge_ctx_new []))) ''evil.com'' = Allow"
  by code_simp

lemma read_head_bounded:
  assumes "length head \<le> 8192" and "read_head head incoming = Some h"
  shows "length h \<le> 8193"
  using assms
proof (induction head incoming rule: read_head.induct)
  case (2 head byte rest)
  then show ?case by (auto simp: Let_def split: if_splits)
qed simp

lemma parse_connect_requestI:
  assumes "is_utf8 head" and "str_lines head = l # ls" and "next_word l = Some (meth, r1)"
    and "ascii_lower meth = ''connect''" and "next_word r1 = Some (authority, r2)"
    and "rsplit_at_char (CHR '':'') authority = Some (host, p)" and "parse_u16 p = Some n"
  shows "parse_connect_request head = Some (normalize_host host, n)"
  using assms by (simp add: parse_connect_request_def)

theorem approved_host_stays_allowed_witness:
  "judge (jc_allowlist (np_ctx (fst (net_run \<lparr>ne_lookup = \<lambda>_ _. None, ne_connects = \<lambda>_ _. False, ne_save_fails = False\<rparr>
     [Connection (''CONNECT a.io:443'' @ [CR, NL, CR, NL]), EditSettings [], Switch AccessOn True (Some 8080)]
     (\<lparr>np_running = None, np_ctx = install_approver (\<lambda>_ _. AllowSession) (judge_ctx_new [''b.io''])\<rparr>, [''b.io'']))))) ''a.io'' = Allow"
proof -
  let ?ne = "\<lparr>ne_lookup = \<lambda>_ _. None, ne_connects = \<lambda>_ _. False, ne_save_fails = False\<rparr> :: net_env"
  let ?np = "\<lparr>np_running = None, np_ctx = install_approver (\<lambda>_ _. AllowSession) (judge_ctx_new [''b.io''])\<rparr>"
  let ?in = "''CONNECT a.io:443'' @ [CR, NL, CR, NL]"
  have run: "net_run ?ne [SetApprover (\<lambda>_ _. AllowSession)] (network_policy_new [''b.io''], [''b.io'']) = (?np, [''b.io''])"
    by (simp add: net_run_def network_policy_new_def)
  have head: "read_head [] ?in = Some ?in" by code_simp
  have utf8: "is_utf8 ?in" by code_simp
  have ls: "str_lines ?in = [''CONNECT a.io:443'', []]" by code_simp
  have words: "next_word ''CONNECT a.io:443'' = Some (''CONNECT'', '' a.io:443'')"
    "next_word '' a.io:443'' = Some (''a.io:443'', [])" by code_simp+
  have parts: "ascii_lower ''CONNECT'' = ''connect''" "normalize_host ''a.io'' = ''a.io''"
    "rsplit_at_char (CHR '':'') ''a.io:443'' = Some (''a.io'', ''443'')" by code_simp+
  have port: "parse_u16 ''443'' = Some 443"
    by (simp add: parse_u16_def parse_unsigned_def parse_usize_def is_digit_def digits_val_def digit_val_def)
  have req: "parse_connect_request ?in = Some (''a.io'', 443)"
    using parse_connect_requestI [OF utf8 ls words(1) parts(1) words(2) parts(3) port] by (simp only: parts(2))
  have miss: "judge (jc_allowlist (np_ctx ?np)) ''a.io'' = NotAllowlisted" by code_simp
  have name: "nameable ''a.io''" by code_simp
  have app: "jc_approver (np_ctx ?np) = Some (\<lambda>_ _. AllowSession)" by (simp add: install_approver_def)
  show ?thesis
    using approved_host_stays_allowed [OF run head req miss name app disjI1 [OF refl],
        of "[EditSettings [], Switch AccessOn True (Some 8080)]"] by simp
qed

end
