(* ===== verification/Goal.thy ===== *)
theory Goal
  imports Manox_Prelude
begin

text \<open>
  The goal of a main thread (\<^verbatim>\<open>manox-agent/src/goal.rs\<close>, \<^verbatim>\<open>manox-agent/src/goal_tools.rs\<close>): the
  lifecycle states, the strict fold of the goal events, and the bridge, the single writer of a thread's
  goal stream, whose journal rows are full snapshots. Times and fresh identifiers are arguments of the
  operations that read the clock or draw one; journal rows are the values their JSON stands for.
  Counters are natural numbers; the token sum saturates at the 64-bit maximum as in the code.
\<close>

section \<open>Goals and events\<close>

datatype goal_status = Active | Paused | Blocked | BudgetLimited | Complete

definition is_terminal :: "goal_status \<Rightarrow> bool" where
  "is_terminal s \<longleftrightarrow> s = Blocked \<or> s = BudgetLimited \<or> s = Complete"

definition can_transition_to :: "goal_status \<Rightarrow> goal_status \<Rightarrow> bool" where
  "can_transition_to s n \<longleftrightarrow>
     s = n
     \<or> s = Active \<and> n \<in> {Paused, Blocked, BudgetLimited, Complete}
     \<or> s \<in> {Paused, Blocked, BudgetLimited} \<and> n = Active
     \<or> s = BudgetLimited \<and> n \<in> {Blocked, Complete}"

definition goal_status_str :: "goal_status \<Rightarrow> str" where
  "goal_status_str s =
     (case s of Active \<Rightarrow> ''active'' | Paused \<Rightarrow> ''paused'' | Blocked \<Rightarrow> ''blocked''
      | BudgetLimited \<Rightarrow> ''budget_limited'' | Complete \<Rightarrow> ''complete'')"

definition parse_goal_status :: "str \<Rightarrow> goal_status option" where
  "parse_goal_status v =
     (if v = ''active'' then Some Active else if v = ''paused'' then Some Paused
      else if v = ''blocked'' then Some Blocked else if v = ''budget_limited'' then Some BudgetLimited
      else if v = ''complete'' then Some Complete else None)"

datatype goal_actor = User | Model | System

record goal_block_reason =
  br_code :: str
  br_message :: str

datatype goal_operation = OpEdit | OpPause | OpResume | OpComplete | OpBlock

record thread_goal =
  tg_thread_id :: str
  tg_goal_id :: str
  tg_objective :: str
  tg_status :: goal_status
  tg_token_budget :: "nat option"
  tg_tokens_used :: nat
  tg_max_rounds :: "nat option"
  tg_rounds_started :: nat
  tg_revision :: nat
  tg_blocked_reason :: "goal_block_reason option"
  tg_created_at :: int
  tg_updated_at :: int

datatype goal_event_kind =
    Created goal_actor thread_goal int
  | Updated goal_actor goal_operation thread_goal "str option" int
  | Round str nat nat str nat int
  | Cleared goal_actor str nat int

record goal_event =
  ge_version :: nat
  ge_kind :: goal_event_kind

definition MAX_OBJECTIVE_CHARS :: nat where "MAX_OBJECTIVE_CHARS = 4000"
definition BLOCKED_MIN_GOAL_ROUNDS :: nat where "BLOCKED_MIN_GOAL_ROUNDS = 3"
definition GOAL_EVENT_VERSION :: nat where "GOAL_EVENT_VERSION = 1"

datatype goal_error =
    UnsupportedVersion nat
  | CreatedRevision nat
  | CreatedRounds
  | CreatedStatus goal_status
  | CreatedTokens
  | UnfinishedGoal
  | CreatedAtMismatch
  | UpdatedWithoutGoal
  | UpdatedGoalId
  | UpdatedRevision nat nat
  | UpdatedCreatedAt
  | UpdatedRounds
  | UpdatedRegressed
  | EditStatus
  | EditReason
  | PauseMove
  | ResumeMove
  | ResumeRounds
  | ResumeReason
  | CompleteMove
  | BlockMove
  | BlockReasonMissing
  | DefinitionChanged
  | RoundWithoutGoal
  | RoundGoalId
  | RoundStatus goal_status
  | RoundRevision
  | RoundNumber nat nat
  | RoundLimit nat
  | ClearedWithoutGoal
  | ClearedGoalId
  | ClearedRevision
  | ObjectiveEmpty
  | ObjectiveLong
  | BudgetZero
  | MaxRoundsZero
  | ReasonCode str
  | ReasonMessageEmpty
  | BudgetExhausted
  | RoundsExhausted
  | CompletedGoal
  | NoGoal
  | BadTransition goal_status goal_status
  | BudgetLimitedByFold
  | BlockedTooEarly nat
  | CannotReport goal_status
  | CorruptEvent
  | EventTypeMismatch str str

section \<open>Validation\<close>

text \<open>\<^verbatim>\<open>chars().count()\<close>: the bytes that start a scalar.\<close>

definition chars_count :: "str \<Rightarrow> nat" where
  "chars_count s = length (filter (\<lambda>c. (of_char c :: nat) < 128 \<or> 192 \<le> (of_char c :: nat)) s)"

definition validate_objective :: "str \<Rightarrow> (goal_error, str) result" where
  "validate_objective s =
     (let objective = trim s in
      if objective = [] then Inl ObjectiveEmpty
      else if chars_count objective > MAX_OBJECTIVE_CHARS then Inl ObjectiveLong else Inr objective)"

definition validate_budget :: "nat option \<Rightarrow> (goal_error, unit) result" where
  "validate_budget token_budget = (if token_budget = Some 0 then Inl BudgetZero else Inr ())"

definition validate_max_rounds :: "nat option \<Rightarrow> (goal_error, unit) result" where
  "validate_max_rounds max_rounds = (if max_rounds = Some 0 then Inl MaxRoundsZero else Inr ())"

definition is_ascii_lowercase :: "char \<Rightarrow> bool" where
  "is_ascii_lowercase c \<longleftrightarrow> 97 \<le> (of_char c :: nat) \<and> (of_char c :: nat) \<le> 122"

definition is_ascii_alphanumeric :: "char \<Rightarrow> bool" where
  "is_ascii_alphanumeric c \<longleftrightarrow>
     is_digit c \<or> is_ascii_lowercase c \<or> 65 \<le> (of_char c :: nat) \<and> (of_char c :: nat) \<le> 90"

fun kebab_loop :: "bool \<Rightarrow> str \<Rightarrow> bool" where
  "kebab_loop after_dash [] = (\<not> after_dash)"
| "kebab_loop after_dash (c # cs) =
     (if c = CHR ''-'' then (if after_dash then False else kebab_loop True cs)
      else if is_ascii_alphanumeric c then kebab_loop False cs
      else False)"

definition is_kebab_code :: "str \<Rightarrow> bool" where
  "is_kebab_code code =
     (case code of [] \<Rightarrow> False | first # cs \<Rightarrow> is_ascii_lowercase first \<and> kebab_loop False cs)"

definition validate_block_reason :: "goal_block_reason \<Rightarrow> (goal_error, unit) result" where
  "validate_block_reason reason =
     (if \<not> is_kebab_code (br_code reason) then Inl (ReasonCode (br_code reason))
      else if trim (br_message reason) = [] then Inl ReasonMessageEmpty else Inr ())"

definition thread_goal_new ::
  "str \<Rightarrow> str \<Rightarrow> nat option \<Rightarrow> nat option \<Rightarrow> str \<Rightarrow> int \<Rightarrow> (goal_error, thread_goal) result" where
  "thread_goal_new thread_id objective token_budget max_rounds uuid now =
     try_then (validate_objective objective) (\<lambda>objective.
     try_then (validate_budget token_budget) (\<lambda>_.
     try_then (validate_max_rounds max_rounds) (\<lambda>_.
       Inr \<lparr>tg_thread_id = thread_id, tg_goal_id = uuid, tg_objective = objective, tg_status = Active,
            tg_token_budget = token_budget, tg_tokens_used = 0, tg_max_rounds = max_rounds,
            tg_rounds_started = 0, tg_revision = 1, tg_blocked_reason = None,
            tg_created_at = now, tg_updated_at = now\<rparr>)))"

definition remaining_tokens :: "thread_goal \<Rightarrow> nat option" where
  "remaining_tokens g = map_option (\<lambda>budget. budget - tg_tokens_used g) (tg_token_budget g)"

text \<open>\<^verbatim>\<open>is_some_and(|limit| n >= limit)\<close>.\<close>

definition reached :: "nat option \<Rightarrow> nat \<Rightarrow> bool" where
  "reached limit n = (case limit of Some l \<Rightarrow> l \<le> n | None \<Rightarrow> False)"

definition can_resume :: "thread_goal \<Rightarrow> (goal_error, unit) result" where
  "can_resume g =
     (if reached (tg_token_budget g) (tg_tokens_used g) then Inl BudgetExhausted
      else if reached (tg_max_rounds g) (tg_rounds_started g) then Inl RoundsExhausted
      else if tg_status g = Complete then Inl CompletedGoal else Inr ())"

section \<open>The fold\<close>

record goal_fold_state =
  gf_current :: "thread_goal option"

definition require_same_definition :: "thread_goal \<Rightarrow> thread_goal \<Rightarrow> (goal_error, unit) result" where
  "require_same_definition current n =
     (if tg_objective current \<noteq> tg_objective n \<or> tg_token_budget current \<noteq> tg_token_budget n
         \<or> tg_max_rounds current \<noteq> tg_max_rounds n
      then Inl DefinitionChanged else Inr ())"

definition apply_operation ::
  "goal_operation \<Rightarrow> thread_goal \<Rightarrow> thread_goal \<Rightarrow> (goal_error, unit) result" where
  "apply_operation operation current goal =
     (case operation of
        OpEdit \<Rightarrow>
          if tg_status goal \<noteq> tg_status current then Inl EditStatus
          else if tg_blocked_reason goal \<noteq> tg_blocked_reason current then Inl EditReason else Inr ()
      | OpPause \<Rightarrow>
          if tg_status current \<noteq> Active \<or> tg_status goal \<noteq> Paused then Inl PauseMove
          else require_same_definition current goal
      | OpResume \<Rightarrow>
          if tg_status current \<notin> {Active, Paused, Blocked, BudgetLimited} \<or> tg_status goal \<noteq> Active
          then Inl ResumeMove
          else try_then (require_same_definition current goal) (\<lambda>_.
            if reached (tg_max_rounds goal) (tg_rounds_started goal) then Inl ResumeRounds
            else if tg_blocked_reason goal \<noteq> None then Inl ResumeReason else Inr ())
      | OpComplete \<Rightarrow>
          if tg_status current = Complete \<or> tg_status goal \<noteq> Complete then Inl CompleteMove
          else require_same_definition current goal
      | OpBlock \<Rightarrow>
          if tg_status current \<noteq> Active \<or> tg_status goal \<noteq> Blocked then Inl BlockMove
          else try_then (require_same_definition current goal) (\<lambda>_.
            if tg_blocked_reason goal = None then Inl BlockReasonMissing else Inr ()))"

definition U64_MAX :: nat where "U64_MAX = 2 ^ 64 - 1"

definition saturating_add :: "nat \<Rightarrow> nat \<Rightarrow> nat" where
  "saturating_add a b = min U64_MAX (a + b)"

definition budget_reason :: goal_block_reason where
  "budget_reason = \<lparr>br_code = ''budget-limited'', br_message = ''token budget exhausted''\<rparr>"

definition round_goal :: "nat \<Rightarrow> nat \<Rightarrow> int \<Rightarrow> thread_goal \<Rightarrow> thread_goal" where
  "round_goal round tokens_delta admitted_at current =
     (let n = current\<lparr>tg_rounds_started := round,
                      tg_tokens_used := saturating_add (tg_tokens_used current) tokens_delta,
                      tg_updated_at := admitted_at\<rparr> in
      if reached (tg_token_budget n) (tg_tokens_used n)
      then n\<lparr>tg_status := BudgetLimited, tg_blocked_reason := Some budget_reason\<rparr> else n)"

fun apply_kind :: "goal_event_kind \<Rightarrow> goal_fold_state \<Rightarrow> (goal_error, goal_fold_state) result" where
  "apply_kind (Created actor goal created_at) state =
     (if tg_revision goal \<noteq> 1 then Inl (CreatedRevision (tg_revision goal))
      else if tg_rounds_started goal \<noteq> 0 then Inl CreatedRounds
      else if tg_status goal \<noteq> Active then Inl (CreatedStatus (tg_status goal))
      else if tg_tokens_used goal \<noteq> 0 then Inl CreatedTokens
      else if (case gf_current state of Some c \<Rightarrow> tg_status c \<noteq> Complete | None \<Rightarrow> False) then Inl UnfinishedGoal
      else if tg_created_at goal \<noteq> created_at then Inl CreatedAtMismatch
      else Inr \<lparr>gf_current = Some goal\<rparr>)"
| "apply_kind (Updated actor operation goal turn_id created_at) state =
     (case gf_current state of
        None \<Rightarrow> Inl UpdatedWithoutGoal
      | Some current \<Rightarrow>
          if tg_goal_id current \<noteq> tg_goal_id goal then Inl UpdatedGoalId
          else if tg_revision goal \<noteq> tg_revision current + 1
            then Inl (UpdatedRevision (tg_revision current + 1) (tg_revision goal))
          else if tg_created_at goal \<noteq> tg_created_at current then Inl UpdatedCreatedAt
          else if tg_rounds_started goal \<noteq> tg_rounds_started current then Inl UpdatedRounds
          else if tg_updated_at goal < tg_updated_at current then Inl UpdatedRegressed
          else try_then (apply_operation operation current goal) (\<lambda>_. Inr \<lparr>gf_current = Some goal\<rparr>))"
| "apply_kind (Round goal_id revision round turn_id tokens_delta admitted_at) state =
     (case gf_current state of
        None \<Rightarrow> Inl RoundWithoutGoal
      | Some current \<Rightarrow>
          if tg_goal_id current \<noteq> goal_id then Inl RoundGoalId
          else if tg_status current \<noteq> Active then Inl (RoundStatus (tg_status current))
          else if tg_revision current \<noteq> revision then Inl RoundRevision
          else if round \<noteq> tg_rounds_started current + 1
            then Inl (RoundNumber (tg_rounds_started current + 1) round)
          else if (case tg_max_rounds current of Some m \<Rightarrow> m < round | None \<Rightarrow> False)
            then Inl (RoundLimit (the (tg_max_rounds current)))
          else Inr \<lparr>gf_current = Some (round_goal round tokens_delta admitted_at current)\<rparr>)"
| "apply_kind (Cleared actor goal_id revision cleared_at) state =
     (case gf_current state of
        None \<Rightarrow> Inl ClearedWithoutGoal
      | Some current \<Rightarrow>
          if tg_goal_id current \<noteq> goal_id then Inl ClearedGoalId
          else if tg_revision current + 1 \<noteq> revision then Inl ClearedRevision
          else Inr \<lparr>gf_current = None\<rparr>)"

definition apply_goal_event :: "goal_event \<Rightarrow> goal_fold_state \<Rightarrow> (goal_error, goal_fold_state) result" where
  "apply_goal_event event state =
     (if ge_version event \<noteq> GOAL_EVENT_VERSION then Inl (UnsupportedVersion (ge_version event))
      else apply_kind (ge_kind event) state)"

fun event_type :: "goal_event_kind \<Rightarrow> str" where
  "event_type (Created actor goal created_at) = ''goal_created''"
| "event_type (Updated actor operation goal turn_id created_at) = ''goal_updated''"
| "event_type (Round goal_id revision round turn_id tokens_delta admitted_at) = ''goal_round''"
| "event_type (Cleared actor goal_id revision cleared_at) = ''goal_cleared''"

text \<open>The deserialization of a stored payload is a parameter.\<close>

definition fold_goal_events ::
  "(str \<Rightarrow> goal_event option) \<Rightarrow> (str \<times> str) list \<Rightarrow> (goal_error, goal_fold_state) result" where
  "fold_goal_events from_str events =
     try_fold (\<lambda>(column, data) state.
       case from_str data of
         None \<Rightarrow> Inl CorruptEvent
       | Some event \<Rightarrow>
           if event_type (ge_kind event) \<noteq> column then Inl (EventTypeMismatch column (event_type (ge_kind event)))
           else apply_goal_event event state) events \<lparr>gf_current = None\<rparr>"

section \<open>Codes and states\<close>

lemma parse_goal_status_str: "parse_goal_status (goal_status_str s) = Some s"
  by (cases s) (simp_all add: parse_goal_status_def goal_status_str_def)

text \<open>A blocker code is a sequence of non-empty alphanumeric words joined by hyphens, the first letter
  lower case.\<close>

lemma kebab_loop_split:
  "kebab_loop after_dash s \<longleftrightarrow>
     list_all (\<lambda>w. list_all is_ascii_alphanumeric w) (split_on (CHR ''-'') s)
     \<and> list_all (\<lambda>w. w \<noteq> []) (tl (split_on (CHR ''-'') s))
     \<and> (after_dash \<longrightarrow> hd (split_on (CHR ''-'') s) \<noteq> [])"
proof (induction after_dash s rule: kebab_loop.induct)
  case (2 after_dash c cs)
  obtain w ws where ws: "split_on (CHR ''-'') cs = w # ws" by (cases "split_on (CHR ''-'') cs") auto
  have dash: "\<not> is_ascii_alphanumeric (CHR ''-'')"
    by (simp add: is_ascii_alphanumeric_def is_ascii_lowercase_def is_digit_def)
  show ?case
  proof (cases "c = CHR ''-''")
    case True
    then show ?thesis using 2 ws by auto
  next
    case False
    then show ?thesis using 2 ws by auto
  qed
qed auto

lemma is_kebab_code_words:
  "is_kebab_code code \<longleftrightarrow>
     code \<noteq> [] \<and> is_ascii_lowercase (hd code)
     \<and> list_all (\<lambda>w. w \<noteq> [] \<and> list_all is_ascii_alphanumeric w) (split_on (CHR ''-'') code)"
proof (cases code)
  case (Cons c cs)
  obtain w ws where ws: "split_on (CHR ''-'') cs = w # ws" by (cases "split_on (CHR ''-'') cs") auto
  have "c \<noteq> CHR ''-'' \<and> is_ascii_alphanumeric c" if "is_ascii_lowercase c"
    using that by (auto simp: is_ascii_lowercase_def is_ascii_alphanumeric_def)
  then show ?thesis
    using Cons ws by (auto simp: is_kebab_code_def kebab_loop_split list_all_iff)
qed (simp add: is_kebab_code_def)

text \<open>The documentation asks for lower-case words; upper-case letters are accepted behind the first.\<close>

lemma kebab_accepts_upper_case: "is_kebab_code ''bUDGET-Limit''"
  by code_simp

section \<open>Revisions\<close>

fun is_round :: "goal_event_kind \<Rightarrow> bool" where
  "is_round (Round goal_id revision round turn_id tokens_delta admitted_at) = True"
| "is_round _ = False"

text \<open>An event written against the snapshot \<open>g\<close>.\<close>

fun based_on :: "thread_goal \<Rightarrow> goal_event_kind \<Rightarrow> bool" where
  "based_on g (Created actor goal created_at) = False"
| "based_on g (Updated actor operation goal turn_id created_at) =
     (tg_goal_id goal = tg_goal_id g \<and> tg_revision goal = tg_revision g + 1)"
| "based_on g (Round goal_id revision round turn_id tokens_delta admitted_at) =
     (goal_id = tg_goal_id g \<and> revision = tg_revision g)"
| "based_on g (Cleared actor goal_id revision cleared_at) =
     (goal_id = tg_goal_id g \<and> revision = tg_revision g + 1)"

fun creates_id :: "str \<Rightarrow> goal_event_kind \<Rightarrow> bool" where
  "creates_id i (Created actor goal created_at) = (tg_goal_id goal = i)"
| "creates_id i _ = False"

text \<open>The life of one goal along the stream: its identifier is gone for good, or its revision has grown
  by the number of events that are not rounds.\<close>

definition lineage :: "str \<Rightarrow> nat \<Rightarrow> goal_fold_state \<Rightarrow> bool" where
  "lineage i r state = (case gf_current state of Some g \<Rightarrow> tg_goal_id g = i \<longrightarrow> r \<le> tg_revision g | None \<Rightarrow> True)"

lemma apply_goal_event_Inr:
  "apply_goal_event event state = Inr state' \<longleftrightarrow>
     ge_version event = GOAL_EVENT_VERSION \<and> apply_kind (ge_kind event) state = Inr state'"
  by (simp add: apply_goal_event_def)

lemma round_goal_same [simp]:
  "tg_goal_id (round_goal n t a g) = tg_goal_id g" "tg_revision (round_goal n t a g) = tg_revision g"
  "tg_max_rounds (round_goal n t a g) = tg_max_rounds g" "tg_rounds_started (round_goal n t a g) = n"
  "tg_objective (round_goal n t a g) = tg_objective g" "tg_token_budget (round_goal n t a g) = tg_token_budget g"
  "tg_thread_id (round_goal n t a g) = tg_thread_id g"
  by (simp_all add: round_goal_def Let_def)

lemma apply_kind_lineage:
  assumes "lineage i r state" and "\<not> creates_id i kind" and "apply_kind kind state = Inr state'"
  shows "lineage i r state'"
  using assms
  by (cases kind) (auto simp: lineage_def try_then_Inr_iff split: option.splits if_splits)

lemma apply_kind_step:
  assumes "gf_current state = Some g" and "\<not> creates_id (tg_goal_id g) kind"
    and "apply_kind kind state = Inr state'" and "\<not> is_round kind"
  shows "lineage (tg_goal_id g) (tg_revision g + 1) state'"
  using assms
  by (cases kind) (auto simp: lineage_def try_then_Inr_iff split: option.splits if_splits)

lemma apply_kind_round:
  assumes "gf_current state = Some g" and "apply_kind kind state = Inr state'" and "is_round kind"
  shows "\<exists>g'. gf_current state' = Some g' \<and> tg_goal_id g' = tg_goal_id g \<and> tg_revision g' = tg_revision g"
  using assms by (cases kind) (auto split: option.splits if_splits)

lemma based_on_current:
  assumes "based_on g kind" and "apply_kind kind state = Inr state'"
  shows "\<exists>c. gf_current state = Some c \<and> tg_goal_id c = tg_goal_id g \<and> tg_revision c = tg_revision g"
  using assms by (cases kind) (auto split: option.splits if_splits)

lemma lineage_run:
  assumes "lineage i r state" and "list_all (\<lambda>ev. \<not> creates_id i (ge_kind ev)) evs"
    and "try_fold apply_goal_event evs state = Inr state'"
  shows "lineage i r state'"
  using assms
proof (induction evs arbitrary: state)
  case (Cons ev evs)
  then obtain t where "apply_goal_event ev state = Inr t" "try_fold apply_goal_event evs t = Inr state'"
    by (auto simp: try_then_Inr_iff)
  with Cons show ?case by (auto simp: apply_goal_event_Inr intro: apply_kind_lineage)
qed simp

lemma rounds_only:
  assumes "gf_current state = Some g" and "list_all (\<lambda>ev. \<not> creates_id (tg_goal_id g) (ge_kind ev)) evs"
    and "try_fold apply_goal_event evs state = Inr state'"
    and "gf_current state' = Some c" "tg_goal_id c = tg_goal_id g" "tg_revision c = tg_revision g"
  shows "list_all (\<lambda>ev. is_round (ge_kind ev)) evs"
  using assms
proof (induction evs arbitrary: state g)
  case (Cons ev evs)
  obtain t where t: "apply_kind (ge_kind ev) state = Inr t" "try_fold apply_goal_event evs t = Inr state'"
    using Cons.prems(3) by (auto simp: try_then_Inr_iff apply_goal_event_Inr)
  have fresh: "list_all (\<lambda>ev. \<not> creates_id (tg_goal_id g) (ge_kind ev)) evs" "\<not> creates_id (tg_goal_id g) (ge_kind ev)"
    using Cons.prems(2) by simp_all
  show ?case
  proof (cases "is_round (ge_kind ev)")
    case True
    then obtain g' where "gf_current t = Some g'" "tg_goal_id g' = tg_goal_id g" "tg_revision g' = tg_revision g"
      using apply_kind_round [OF Cons.prems(1) t(1)] by blast
    with Cons.IH [of t g'] Cons.prems fresh t True show ?thesis by simp
  next
    case False
    have "lineage (tg_goal_id g) (tg_revision g + 1) state'"
      using apply_kind_step [OF Cons.prems(1) fresh(2) t(1) False] fresh(1) t(2) by (rule lineage_run)
    with Cons.prems(4-6) show ?thesis by (simp add: lineage_def)
  qed
qed simp

text \<open>C13: the revision is a compare-and-set identity: an event written against a snapshot of the goal (an
  update, a round, a clear) is accepted after further events only when all of them were rounds, which
  keep the revision; after any other accepted event it is refused, given that identifiers are not reused.\<close>

theorem stale_event_refused:
  assumes "try_fold apply_goal_event evs \<lparr>gf_current = Some g\<rparr> = Inr state"
    and "list_all (\<lambda>ev. \<not> creates_id (tg_goal_id g) (ge_kind ev)) evs"
    and "based_on g (ge_kind event)" and "apply_goal_event event state = Inr state'"
  shows "list_all (\<lambda>ev. is_round (ge_kind ev)) evs"
proof -
  obtain c where "gf_current state = Some c" "tg_goal_id c = tg_goal_id g" "tg_revision c = tg_revision g"
    using based_on_current assms(3,4) by (fastforce simp: apply_goal_event_Inr)
  then show ?thesis using rounds_only [OF _ assms(2,1)] by simp
qed

theorem stale_event_refused_witness:
  "let g = \<lparr>tg_thread_id = ''t'', tg_goal_id = ''g'', tg_objective = ''ship'', tg_status = Active,
            tg_token_budget = None, tg_tokens_used = 0, tg_max_rounds = Some 5, tg_rounds_started = 0,
            tg_revision = 1, tg_blocked_reason = None, tg_created_at = 0, tg_updated_at = 0\<rparr> in
   let evs = [\<lparr>ge_version = 1, ge_kind = Round ''g'' 1 1 [] 10 5\<rparr>] in
   let pause = \<lparr>ge_version = 1, ge_kind = Updated User OpPause
         (g\<lparr>tg_status := Paused, tg_tokens_used := 10, tg_rounds_started := 1, tg_revision := 2, tg_updated_at := 6\<rparr>) None 6\<rparr> in
   (\<exists>st st'. try_fold apply_goal_event evs \<lparr>gf_current = Some g\<rparr> = Inr st \<and> apply_goal_event pause st = Inr st')
   \<and> list_all (\<lambda>ev. is_round (ge_kind ev)) evs"
proof -
  let ?g = "\<lparr>tg_thread_id = ''t'', tg_goal_id = ''g'', tg_objective = ''ship'', tg_status = Active,
            tg_token_budget = None, tg_tokens_used = 0, tg_max_rounds = Some 5, tg_rounds_started = 0,
            tg_revision = 1, tg_blocked_reason = None, tg_created_at = 0, tg_updated_at = 0\<rparr> :: thread_goal"
  let ?evs = "[\<lparr>ge_version = 1, ge_kind = Round ''g'' 1 1 [] 10 5\<rparr>]"
  let ?g' = "round_goal 1 10 5 ?g"
  let ?p = "?g\<lparr>tg_status := Paused, tg_tokens_used := 10, tg_rounds_started := 1, tg_revision := 2, tg_updated_at := 6\<rparr>"
  let ?pause = "\<lparr>ge_version = 1, ge_kind = Updated User OpPause ?p None 6\<rparr>"
  have run: "try_fold apply_goal_event ?evs \<lparr>gf_current = Some ?g\<rparr> = Inr \<lparr>gf_current = Some ?g'\<rparr>"
    by (simp add: apply_goal_event_def GOAL_EVENT_VERSION_def)
  have pause: "apply_goal_event ?pause \<lparr>gf_current = Some ?g'\<rparr> = Inr \<lparr>gf_current = Some ?p\<rparr>"
    by (simp add: apply_goal_event_def GOAL_EVENT_VERSION_def apply_operation_def require_same_definition_def
        round_goal_def reached_def)
  have "list_all (\<lambda>ev. is_round (ge_kind ev)) ?evs"
    using stale_event_refused [OF run, of ?pause "\<lparr>gf_current = Some ?p\<rparr>"] pause by simp
  then show ?thesis unfolding Let_def using run pause by blast
qed

end
