(* ===== verification/Goal_Bridge.thy ===== *)
theory Goal_Bridge
  imports Goal
begin

text \<open>
  The goal bridge (\<^verbatim>\<open>GoalBridge\<close> of \<^verbatim>\<open>manox-agent/src/goal_tools.rs\<close>): every operation of the facade
  and of the goal tools on the shared goal state, the journal rows it routes, the notices it emits, and
  the process-local authority to continue.
\<close>

section \<open>Operations\<close>

datatype goal_row = NullRow | Snapshot thread_goal | CorruptRow

record goal_bridge =
  gb_thread_id :: str
  gb_sender :: bool
  gb_notices :: "thread_goal option list"
  gb_fold :: goal_fold_state
  gb_armed :: bool
  gb_round_active :: bool
  gb_store :: bool
  gb_journal :: "goal_row list"

abbreviation goal_snapshot :: "goal_bridge \<Rightarrow> thread_goal option" where
  "goal_snapshot b \<equiv> gf_current (gb_fold b)"

definition goal_bridge_new :: "str \<Rightarrow> bool \<Rightarrow> goal_bridge" where
  "goal_bridge_new thread_id store =
     \<lparr>gb_thread_id = thread_id, gb_sender = False, gb_notices = [], gb_fold = \<lparr>gf_current = None\<rparr>,
      gb_armed = False, gb_round_active = False, gb_store = store, gb_journal = []\<rparr>"

definition set_sender :: "goal_bridge \<Rightarrow> goal_bridge" where
  "set_sender b = b\<lparr>gb_sender := True\<rparr>"

definition disarm :: "goal_bridge \<Rightarrow> goal_bridge" where
  "disarm b = b\<lparr>gb_armed := False\<rparr>"

definition mark_goal_round_active :: "bool \<Rightarrow> goal_bridge \<Rightarrow> goal_bridge" where
  "mark_goal_round_active active b = b\<lparr>gb_round_active := active\<rparr>"

definition emit :: "thread_goal option \<Rightarrow> goal_bridge \<Rightarrow> goal_bridge" where
  "emit goal b = (if gb_sender b then b\<lparr>gb_notices := gb_notices b @ [goal]\<rparr> else b)"

definition row_of :: "thread_goal option \<Rightarrow> goal_row" where
  "row_of goal = (case goal of None \<Rightarrow> NullRow | Some g \<Rightarrow> Snapshot g)"

definition append_events :: "goal_event list \<Rightarrow> goal_bridge \<Rightarrow> (goal_error, unit) result \<times> goal_bridge" where
  "append_events events b =
     (case try_fold apply_goal_event events (gb_fold b) of
        Inl e \<Rightarrow> (Inl e, b)
      | Inr state \<Rightarrow>
          let b' = b\<lparr>gb_fold := state\<rparr> in
          (Inr (), if gb_store b' then b'\<lparr>gb_journal := gb_journal b' @ [row_of (gf_current state)]\<rparr> else b'))"

abbreviation event_of :: "goal_event_kind \<Rightarrow> goal_event" where
  "event_of kind \<equiv> \<lparr>ge_version = GOAL_EVENT_VERSION, ge_kind = kind\<rparr>"

definition append_event :: "goal_event \<Rightarrow> goal_bridge \<Rightarrow> (goal_error, unit) result \<times> goal_bridge" where
  "append_event event b = append_events [event] b"

text \<open>Append, and on success return the goal and set the authority to continue.\<close>

definition commit_goal ::
  "goal_event list \<Rightarrow> thread_goal \<Rightarrow> (bool \<Rightarrow> bool) \<Rightarrow> goal_bridge \<Rightarrow> (goal_error, thread_goal) result \<times> goal_bridge" where
  "commit_goal events goal arm b =
     (case append_events events b of
        (Inl e, b') \<Rightarrow> (Inl e, b')
      | (Inr _, b') \<Rightarrow> (Inr goal, b'\<lparr>gb_armed := arm (gb_armed b')\<rparr>))"

definition bridge_create ::
  "str \<Rightarrow> nat option \<Rightarrow> nat option \<Rightarrow> goal_actor \<Rightarrow> str \<Rightarrow> int \<Rightarrow> goal_bridge
   \<Rightarrow> (goal_error, thread_goal) result \<times> goal_bridge" where
  "bridge_create objective token_budget max_rounds actor uuid now b =
     (if (case goal_snapshot b of Some g \<Rightarrow> \<not> is_terminal (tg_status g) | None \<Rightarrow> False) then (Inl UnfinishedGoal, b)
      else case thread_goal_new (gb_thread_id b) objective token_budget max_rounds uuid now of
        Inl e \<Rightarrow> (Inl e, b)
      | Inr goal \<Rightarrow> commit_goal [event_of (Created actor goal (tg_created_at goal))] goal (\<lambda>_. True) b)"

definition bridge_edit ::
  "str \<Rightarrow> nat option \<Rightarrow> nat option \<Rightarrow> goal_actor \<Rightarrow> int \<Rightarrow> goal_bridge
   \<Rightarrow> (goal_error, thread_goal) result \<times> goal_bridge" where
  "bridge_edit objective token_budget max_rounds actor now b =
     (case goal_snapshot b of
        None \<Rightarrow> (Inl NoGoal, b)
      | Some current \<Rightarrow>
          (case try_then (validate_objective objective) (\<lambda>objective.
                try_then (validate_budget token_budget) (\<lambda>_.
                try_then (validate_max_rounds max_rounds) (\<lambda>_. Inr objective))) of
             Inl e \<Rightarrow> (Inl e, b)
           | Inr objective \<Rightarrow>
               let goal = current\<lparr>tg_objective := objective, tg_token_budget := token_budget,
                                  tg_max_rounds := max_rounds, tg_revision := tg_revision current + 1,
                                  tg_updated_at := now\<rparr> in
               commit_goal [event_of (Updated actor OpEdit goal None (tg_updated_at goal))] goal id b))"

definition bridge_replace ::
  "str \<Rightarrow> nat option \<Rightarrow> nat option \<Rightarrow> goal_actor \<Rightarrow> str \<Rightarrow> int \<Rightarrow> goal_bridge
   \<Rightarrow> (goal_error, thread_goal) result \<times> goal_bridge" where
  "bridge_replace objective token_budget max_rounds actor uuid now b =
     (case goal_snapshot b of
        None \<Rightarrow> (Inl NoGoal, b)
      | Some current \<Rightarrow>
          (case thread_goal_new (gb_thread_id b) objective token_budget max_rounds uuid now of
             Inl e \<Rightarrow> (Inl e, b)
           | Inr replacement \<Rightarrow>
               commit_goal
                 [event_of (Cleared actor (tg_goal_id current) (tg_revision current + 1) now),
                  event_of (Created actor replacement (tg_created_at replacement))] replacement (\<lambda>_. True) b))"

definition operation_of :: "goal_status \<Rightarrow> goal_operation option" where
  "operation_of status =
     (case status of Paused \<Rightarrow> Some OpPause | Active \<Rightarrow> Some OpResume | Complete \<Rightarrow> Some OpComplete
      | Blocked \<Rightarrow> Some OpBlock | BudgetLimited \<Rightarrow> None)"

definition set_status ::
  "goal_status \<Rightarrow> goal_block_reason option \<Rightarrow> goal_actor \<Rightarrow> int \<Rightarrow> goal_bridge
   \<Rightarrow> (goal_error, thread_goal) result \<times> goal_bridge" where
  "set_status status reason actor now b =
     (case goal_snapshot b of
        None \<Rightarrow> (Inl NoGoal, b)
      | Some current \<Rightarrow>
          if \<not> can_transition_to (tg_status current) status then (Inl (BadTransition (tg_status current) status), b)
          else case (if status = Active then can_resume current else Inr ()) of
            Inl e \<Rightarrow> (Inl e, b)
          | Inr _ \<Rightarrow>
              (case operation_of status of
                 None \<Rightarrow> (Inl BudgetLimitedByFold, b)
               | Some operation \<Rightarrow>
                   (case (case reason of Some r \<Rightarrow> validate_block_reason r | None \<Rightarrow> Inr ()) of
                      Inl e \<Rightarrow> (Inl e, b)
                    | Inr _ \<Rightarrow>
                        let goal = current\<lparr>tg_blocked_reason := if status \<in> {Paused, Blocked} then reason else None,
                                           tg_status := status, tg_revision := tg_revision current + 1,
                                           tg_updated_at := now\<rparr> in
                        commit_goal [event_of (Updated actor operation goal None (tg_updated_at goal))] goal
                          (\<lambda>_. status = Active) b)))"

definition clear_goal :: "goal_actor \<Rightarrow> int \<Rightarrow> goal_bridge \<Rightarrow> (goal_error, unit) result \<times> goal_bridge" where
  "clear_goal actor now b =
     (case goal_snapshot b of
        None \<Rightarrow> (Inr (), b)
      | Some current \<Rightarrow>
          (case append_event (event_of (Cleared actor (tg_goal_id current) (tg_revision current + 1) now)) b of
             (Inl e, b') \<Rightarrow> (Inl e, b')
           | (Inr _, b') \<Rightarrow> (Inr (), emit None (disarm b'))))"

definition account_round ::
  "nat \<Rightarrow> nat \<Rightarrow> str \<Rightarrow> nat \<Rightarrow> int \<Rightarrow> goal_bridge \<Rightarrow> (goal_error, thread_goal) result \<times> goal_bridge" where
  "account_round round revision goal_id tokens_delta now b =
     (case append_event (event_of (Round goal_id revision round [] tokens_delta now)) b of
        (Inl e, b') \<Rightarrow> (Inl e, b')
      | (Inr _, b') \<Rightarrow>
          (case goal_snapshot b' of
             None \<Rightarrow> (Inl NoGoal, b')
           | Some goal \<Rightarrow>
               let b'' = (if tg_status goal \<noteq> Active then disarm b' else b') in
               (Inr goal, emit (Some goal) b'')))"

text \<open>The facade entry points announce the goal they return.\<close>

definition announce ::
  "(goal_error, thread_goal) result \<times> goal_bridge \<Rightarrow> (goal_error, thread_goal) result \<times> goal_bridge" where
  "announce r = (case r of (Inl e, b) \<Rightarrow> (Inl e, b) | (Inr goal, b) \<Rightarrow> (Inr goal, emit (Some goal) b))"

definition create_goal ::
  "str \<Rightarrow> nat option \<Rightarrow> nat option \<Rightarrow> goal_actor \<Rightarrow> str \<Rightarrow> int \<Rightarrow> goal_bridge
   \<Rightarrow> (goal_error, thread_goal) result \<times> goal_bridge" where
  "create_goal objective token_budget max_rounds actor uuid now b =
     announce (bridge_create objective token_budget max_rounds actor uuid now b)"

definition edit_goal ::
  "str \<Rightarrow> nat option \<Rightarrow> nat option \<Rightarrow> goal_actor \<Rightarrow> int \<Rightarrow> goal_bridge
   \<Rightarrow> (goal_error, thread_goal) result \<times> goal_bridge" where
  "edit_goal objective token_budget max_rounds actor now b =
     announce (bridge_edit objective token_budget max_rounds actor now b)"

definition replace_goal ::
  "str \<Rightarrow> nat option \<Rightarrow> nat option \<Rightarrow> goal_actor \<Rightarrow> str \<Rightarrow> int \<Rightarrow> goal_bridge
   \<Rightarrow> (goal_error, thread_goal) result \<times> goal_bridge" where
  "replace_goal objective token_budget max_rounds actor uuid now b =
     announce (bridge_replace objective token_budget max_rounds actor uuid now b)"

definition set_goal_status ::
  "goal_status \<Rightarrow> goal_block_reason option \<Rightarrow> goal_actor \<Rightarrow> int \<Rightarrow> goal_bridge
   \<Rightarrow> (goal_error, thread_goal) result \<times> goal_bridge" where
  "set_goal_status status reason actor now b = announce (set_status status reason actor now b)"

datatype update_reply =
    CompleteWrapup str
  | BlockedWrapup str str
  | SnapshotReply "thread_goal option"

definition model_update ::
  "goal_status \<Rightarrow> str option \<Rightarrow> int \<Rightarrow> goal_bridge \<Rightarrow> (goal_error, update_reply) result \<times> goal_bridge" where
  "model_update status reason now b =
     (case status of
        Complete \<Rightarrow>
          (case announce (set_status Complete None Model now b) of
             (Inl e, b') \<Rightarrow> (Inl e, b')
           | (Inr goal, b') \<Rightarrow>
               (Inr (if gb_round_active b' then CompleteWrapup (tg_objective goal)
                     else SnapshotReply (goal_snapshot b')), b'))
      | Blocked \<Rightarrow>
          (case goal_snapshot b of
             None \<Rightarrow> (Inl NoGoal, b)
           | Some current \<Rightarrow>
               if tg_rounds_started current < BLOCKED_MIN_GOAL_ROUNDS
               then (Inl (BlockedTooEarly (tg_rounds_started current)), b)
               else
                 let message = (case reason of Some m \<Rightarrow> m | None \<Rightarrow> []) in
                 (case announce (set_status Blocked (Some \<lparr>br_code = ''model-reported'', br_message = message\<rparr>) Model now b) of
                    (Inl e, b') \<Rightarrow> (Inl e, b')
                  | (Inr goal, b') \<Rightarrow>
                      (Inr (if gb_round_active b' then BlockedWrapup (tg_objective goal) message
                            else SnapshotReply (goal_snapshot b')), b')))
      | other \<Rightarrow> (Inl (CannotReport other), b))"

definition restart_reason :: goal_block_reason where
  "restart_reason = \<lparr>br_code = ''restart-paused'', br_message = ''paused after application restart''\<rparr>"

definition seed_from_journal :: "goal_row option \<Rightarrow> int \<Rightarrow> goal_bridge \<Rightarrow> goal_bridge" where
  "seed_from_journal goal now b =
     (case (case goal of None \<Rightarrow> None | Some NullRow \<Rightarrow> Some None | Some (Snapshot g) \<Rightarrow> Some (Some g)
            | Some CorruptRow \<Rightarrow> None) of
        None \<Rightarrow> b
      | Some seeded \<Rightarrow>
          let b' = b\<lparr>gb_fold := (gb_fold b)\<lparr>gf_current := seeded\<rparr>\<rparr> in
          if (case goal_snapshot b' of Some g \<Rightarrow> tg_status g = Active | None \<Rightarrow> False)
          then snd (set_status Paused (Some restart_reason) System now b') else b')"

section \<open>The invariant of the bridge\<close>

definition valid_reason :: "goal_block_reason \<Rightarrow> bool" where
  "valid_reason r \<longleftrightarrow> validate_block_reason r = Inr ()"

definition reason_fits :: "goal_status \<Rightarrow> goal_block_reason option \<Rightarrow> bool" where
  "reason_fits status reason =
     (case status of
        Active \<Rightarrow> reason = None
      | Complete \<Rightarrow> reason = None
      | Paused \<Rightarrow> pred_option valid_reason reason
      | Blocked \<Rightarrow> reason \<noteq> None \<and> pred_option valid_reason reason
      | BudgetLimited \<Rightarrow> reason = Some budget_reason)"

definition wf_goal :: "str \<Rightarrow> thread_goal \<Rightarrow> bool" where
  "wf_goal thread_id g \<longleftrightarrow>
     tg_thread_id g = thread_id
     \<and> validate_objective (tg_objective g) = Inr (tg_objective g)
     \<and> tg_token_budget g \<noteq> Some 0 \<and> tg_max_rounds g \<noteq> Some 0
     \<and> 1 \<le> tg_revision g \<and> tg_tokens_used g \<le> U64_MAX
     \<and> reason_fits (tg_status g) (tg_blocked_reason g)"

fun goal_ok :: "str \<Rightarrow> bool \<Rightarrow> thread_goal option \<Rightarrow> bool" where
  "goal_ok thread_id armed None = (\<not> armed)"
| "goal_ok thread_id armed (Some g) = (wf_goal thread_id g \<and> (armed \<longrightarrow> tg_status g = Active))"

definition bridge_inv :: "goal_bridge \<Rightarrow> bool" where
  "bridge_inv b \<longleftrightarrow>
     goal_ok (gb_thread_id b) (gb_armed b) (goal_snapshot b)
     \<and> (if gb_journal b = [] then gb_store b \<longrightarrow> goal_snapshot b = None
         else gb_store b \<and> last (gb_journal b) = row_of (goal_snapshot b))"

lemma validate_objective_Inr: "validate_objective s = Inr t \<Longrightarrow> validate_objective t = Inr t"
  by (auto simp: validate_objective_def Let_def split: if_splits)

lemma validate_simps [simp]:
  "validate_budget x = Inr u \<longleftrightarrow> x \<noteq> Some 0" "validate_max_rounds x = Inr u \<longleftrightarrow> x \<noteq> Some 0"
  by (simp_all add: validate_budget_def validate_max_rounds_def)

lemma thread_goal_new_wf:
  assumes "thread_goal_new tid objective budget rounds uuid now = Inr g"
  shows "wf_goal tid g" "tg_status g = Active" "tg_goal_id g = uuid"
  using assms
  by (auto simp: thread_goal_new_def try_then_Inr_iff wf_goal_def reason_fits_def dest: validate_objective_Inr)

lemma append_events_state:
  assumes "append_events events b = (Inr u, b')"
  shows "\<exists>st. try_fold apply_goal_event events (gb_fold b) = Inr st \<and>
           b' = (if gb_store b then b\<lparr>gb_fold := st, gb_journal := gb_journal b @ [row_of (gf_current st)]\<rparr>
                 else b\<lparr>gb_fold := st\<rparr>)"
  using assms by (auto simp: append_events_def Let_def split: sum.splits)

lemma append_events_error: "append_events events b = (Inl e, b') \<Longrightarrow> b' = b"
  by (auto simp: append_events_def Let_def split: sum.splits)

lemma commit_goal_inv:
  assumes "bridge_inv b"
    and "\<And>st. try_fold apply_goal_event events (gb_fold b) = Inr st \<Longrightarrow>
           gf_current st = Some goal \<and> wf_goal (gb_thread_id b) goal"
    and "arm (gb_armed b) \<longrightarrow> tg_status goal = Active"
    and "commit_goal events goal arm b = (r, b')"
  shows "bridge_inv b'"
proof (cases "append_events events b")
  case (Pair x b1)
  show ?thesis
  proof (cases x)
    case (Inl e)
    then show ?thesis using assms(1,4) Pair append_events_error [of events b e b1] by (simp add: commit_goal_def)
  next
    case (Inr u)
    with Pair obtain st where st: "try_fold apply_goal_event events (gb_fold b) = Inr st"
      and b1: "b1 = (if gb_store b then b\<lparr>gb_fold := st, gb_journal := gb_journal b @ [row_of (gf_current st)]\<rparr>
                 else b\<lparr>gb_fold := st\<rparr>)"
      using append_events_state by blast
    have b': "b' = b1\<lparr>gb_armed := arm (gb_armed b1)\<rparr>" using assms(4) Pair Inr by (simp add: commit_goal_def)
    show ?thesis
      using assms(1,3) assms(2) [OF st] unfolding b' b1 by (auto simp: bridge_inv_def split: if_splits)
  qed
qed

lemma emit_fields [simp]:
  "gb_fold (emit g b) = gb_fold b" "gb_armed (emit g b) = gb_armed b" "gb_journal (emit g b) = gb_journal b"
  "gb_store (emit g b) = gb_store b" "gb_thread_id (emit g b) = gb_thread_id b"
  "gb_round_active (emit g b) = gb_round_active b"
  by (simp_all add: emit_def)

lemma bridge_inv_frame [simp]:
  "bridge_inv (emit g b) = bridge_inv b" "bridge_inv (mark_goal_round_active a b) = bridge_inv b"
  "bridge_inv (set_sender b) = bridge_inv b"
  by (simp_all add: bridge_inv_def mark_goal_round_active_def set_sender_def)

lemma bridge_inv_disarm: "bridge_inv b \<Longrightarrow> bridge_inv (disarm b)"
  by (cases "goal_snapshot b") (auto simp: bridge_inv_def disarm_def)

lemma announce_inv: "announce r = (x, b') \<Longrightarrow> bridge_inv (snd r) \<Longrightarrow> bridge_inv b'"
  by (auto simp: announce_def split: prod.splits sum.splits)

lemma bridge_create_inv: "bridge_inv b \<Longrightarrow> bridge_inv (snd (bridge_create objective budget rounds actor uuid now b))"
  unfolding bridge_create_def
  by (auto split: sum.splits intro!: commit_goal_inv [OF _ _ _ prod.collapse [symmetric]]
      simp: apply_goal_event_def dest: thread_goal_new_wf split: if_splits)

lemma bridge_replace_inv: "bridge_inv b \<Longrightarrow> bridge_inv (snd (bridge_replace objective budget rounds actor uuid now b))"
  unfolding bridge_replace_def
  by (auto split: sum.splits option.splits intro!: commit_goal_inv [OF _ _ _ prod.collapse [symmetric]]
      simp: apply_goal_event_def try_then_Inr_iff dest: thread_goal_new_wf split: if_splits)

lemma bridge_edit_inv: "bridge_inv b \<Longrightarrow> bridge_inv (snd (bridge_edit objective budget rounds actor now b))"
proof (cases "goal_snapshot b")
  case (Some g)
  assume inv: "bridge_inv b"
  then have g: "wf_goal (gb_thread_id b) g" "gb_armed b \<longrightarrow> tg_status g = Active"
    using Some by (simp_all add: bridge_inv_def)
  show ?thesis
    unfolding bridge_edit_def Some
    using inv g
    by (auto simp: Let_def apply_goal_event_def try_then_Inr_iff wf_goal_def Some
        intro!: commit_goal_inv [OF _ _ _ prod.collapse [symmetric]]
        dest: validate_objective_Inr split: sum.splits if_splits)
qed (simp add: bridge_edit_def)

lemma set_status_inv: "bridge_inv b \<Longrightarrow> bridge_inv (snd (set_status status reason actor now b))"
proof (cases "goal_snapshot b")
  case (Some g)
  assume inv: "bridge_inv b"
  then have g: "wf_goal (gb_thread_id b) g" using Some by (simp add: bridge_inv_def)
  show ?thesis
    unfolding set_status_def Some
    using inv g
    by (auto simp: Let_def apply_goal_event_def apply_operation_def operation_of_def try_then_Inr_iff
        wf_goal_def reason_fits_def valid_reason_def Some
        intro!: commit_goal_inv [OF _ _ _ prod.collapse [symmetric]]
        split: sum.splits if_splits goal_status.splits option.splits)
qed (simp add: set_status_def)

lemma clear_goal_inv: "bridge_inv b \<Longrightarrow> bridge_inv (snd (clear_goal actor now b))"
  by (auto simp: clear_goal_def append_event_def append_events_def apply_goal_event_def Let_def
      bridge_inv_def disarm_def row_of_def split: option.splits if_splits)

lemma round_goal_wf:
  assumes "wf_goal tid g" "tg_status g = Active"
  shows "wf_goal tid (round_goal n t a g)"
  using assms by (auto simp: wf_goal_def round_goal_def Let_def reason_fits_def saturating_add_def)

lemma account_round_inv: "bridge_inv b \<Longrightarrow> bridge_inv (snd (account_round round revision goal_id delta now b))"
proof (cases "goal_snapshot b")
  case (Some g)
  assume inv: "bridge_inv b"
  then have g: "wf_goal (gb_thread_id b) g" "gb_armed b \<longrightarrow> tg_status g = Active"
    using Some by (simp_all add: bridge_inv_def)
  show ?thesis
    using inv g round_goal_wf
    by (auto simp: account_round_def append_event_def append_events_def apply_goal_event_def Let_def Some
        bridge_inv_def disarm_def row_of_def split: if_splits)
next
  case None
  assume "bridge_inv b"
  with None show ?thesis
    by (simp add: account_round_def append_event_def append_events_def apply_goal_event_def GOAL_EVENT_VERSION_def)
qed

lemma model_update_inv: "bridge_inv b \<Longrightarrow> bridge_inv (snd (model_update status reason now b))"
proof -
  assume inv: "bridge_inv b"
  have "bridge_inv b'" if "announce (set_status st r Model now b) = (x, b')" for st r x b'
    using that set_status_inv [OF inv] by (rule announce_inv)
  then show ?thesis
    using inv by (auto simp: model_update_def Let_def split: goal_status.splits option.splits prod.splits sum.splits)
qed

section \<open>Restarts\<close>

text \<open>The application restarts: a fresh bridge is seeded with the last goal row of the journal.\<close>

definition restart_goal :: "int \<Rightarrow> goal_bridge \<Rightarrow> goal_bridge" where
  "restart_goal now b =
     seed_from_journal (if gb_journal b = [] then None else Some (last (gb_journal b))) now
       ((goal_bridge_new (gb_thread_id b) (gb_store b))\<lparr>gb_journal := gb_journal b\<rparr>)"

definition demoted :: "int \<Rightarrow> thread_goal \<Rightarrow> thread_goal" where
  "demoted now g =
     (if tg_status g = Active \<and> tg_updated_at g \<le> now
      then g\<lparr>tg_status := Paused, tg_blocked_reason := Some restart_reason, tg_revision := tg_revision g + 1,
             tg_updated_at := now\<rparr>
      else g)"

lemma restart_reason_valid: "validate_block_reason restart_reason = Inr ()"
proof -
  have "is_kebab_code ''restart-paused''" by code_simp
  moreover have "trim ''paused after application restart'' = ''paused after application restart''"
    by (rule trim_solid) (simp_all add: solid_ascii)
  ultimately show ?thesis by (simp add: validate_block_reason_def restart_reason_def)
qed

lemma set_status_pause:
  assumes "goal_snapshot b = Some g" "tg_status g = Active"
  shows "goal_snapshot (snd (set_status Paused (Some restart_reason) actor now b)) = Some (demoted now g)"
    and "gb_armed (snd (set_status Paused (Some restart_reason) actor now b)) \<longrightarrow> gb_armed b \<and> now < tg_updated_at g"
  using assms restart_reason_valid
  by (auto simp: set_status_def can_transition_to_def operation_of_def commit_goal_def append_events_def
      apply_goal_event_def apply_operation_def require_same_definition_def Let_def demoted_def)

lemma seed_from_journal_row:
  assumes "\<not> gb_armed b"
  shows "goal_snapshot (seed_from_journal (Some (row_of g)) now b) = map_option (demoted now) g"
    and "\<not> gb_armed (seed_from_journal (Some (row_of g)) now b)"
  using assms set_status_pause [of "b\<lparr>gb_fold := gb_fold b\<lparr>gf_current := g\<rparr>\<rparr>"]
  by (cases g; simp add: seed_from_journal_def row_of_def Let_def demoted_def)+

lemma bridge_inv_new: "bridge_inv (goal_bridge_new tid store)"
  by (simp add: bridge_inv_def goal_bridge_new_def)

lemma restart_goal_inv:
  assumes "bridge_inv b"
  shows "bridge_inv (restart_goal now b)"
proof (cases "gb_journal b = []")
  case True
  then show ?thesis
    by (simp add: restart_goal_def seed_from_journal_def goal_bridge_new_def bridge_inv_def)
next
  case False
  let ?b = "(goal_bridge_new (gb_thread_id b) (gb_store b))\<lparr>gb_journal := gb_journal b, gb_fold := \<lparr>gf_current = goal_snapshot b\<rparr>\<rparr>"
  have last: "last (gb_journal b) = row_of (goal_snapshot b)" using assms False by (simp add: bridge_inv_def)
  have inv: "bridge_inv ?b"
    using assms False by (cases "goal_snapshot b") (simp_all add: bridge_inv_def goal_bridge_new_def)
  then show ?thesis
    using set_status_inv [OF inv] False
    by (cases "goal_snapshot b")
       (simp_all add: restart_goal_def last seed_from_journal_def row_of_def goal_bridge_new_def Let_def)
qed

lemma restart_goal_restores:
  assumes "bridge_inv b" and "gb_store b"
  shows "goal_snapshot (restart_goal now b) = map_option (demoted now) (goal_snapshot b)"
    and "\<not> gb_armed (restart_goal now b)"
proof -
  let ?b = "(goal_bridge_new (gb_thread_id b) (gb_store b))\<lparr>gb_journal := gb_journal b\<rparr>"
  have "\<not> gb_armed ?b" by (simp add: goal_bridge_new_def)
  note seed = seed_from_journal_row [OF this, of "goal_snapshot b" now]
  show "goal_snapshot (restart_goal now b) = map_option (demoted now) (goal_snapshot b)" "\<not> gb_armed (restart_goal now b)"
    using assms seed
    by (auto simp: restart_goal_def bridge_inv_def seed_from_journal_def goal_bridge_new_def split: if_splits)
qed

section \<open>Rounds are charged exactly\<close>

lemma account_round_error: "account_round round revision goal_id delta now b = (Inl e, b') \<Longrightarrow> b' = b"
  by (cases "goal_snapshot b")
     (auto simp: account_round_def append_event_def append_events_def apply_goal_event_def GOAL_EVENT_VERSION_def
      Let_def split: if_splits)

lemma account_round_ok:
  assumes "account_round round revision goal_id delta now b = (Inr g', b')"
  shows "\<exists>g. goal_snapshot b = Some g \<and> tg_status g = Active \<and> tg_goal_id g = goal_id \<and> tg_revision g = revision
    \<and> round = tg_rounds_started g + 1 \<and> \<not> reached (tg_max_rounds g) (tg_rounds_started g)
    \<and> g' = round_goal round delta now g
    \<and> goal_snapshot b' = Some g' \<and> gb_armed b' = (gb_armed b \<and> tg_status g' = Active)"
proof (cases "goal_snapshot b")
  case (Some g)
  have lim: "(case tg_max_rounds g of Some m \<Rightarrow> m < Suc (tg_rounds_started g) | None \<Rightarrow> False)
      = reached (tg_max_rounds g) (tg_rounds_started g)"
    by (auto simp: reached_def split: option.splits)
  from assms Some show ?thesis
    by (auto simp: account_round_def append_event_def append_events_def apply_goal_event_def Let_def lim disarm_def
        split: if_splits)
qed (use assms in \<open>auto simp: account_round_def append_event_def append_events_def apply_goal_event_def split: if_splits\<close>)

text \<open>Charging a round either is refused and changes nothing, or was the next round of the active goal at
  the revision it was queued for and within the limit; then exactly its tokens are added (saturating), and
  when the budget is reached the goal is budget limited, the authority to continue is withdrawn, and a
  resume is refused as long as the budget is not edited.\<close>

lemma account_round_effect:
  "case account_round round revision goal_id delta now b of
     (Inl e, b') \<Rightarrow> b' = b
   | (Inr g', b') \<Rightarrow>
       goal_snapshot b' = Some g' \<and>
       (\<exists>g. goal_snapshot b = Some g \<and> tg_status g = Active \<and> tg_goal_id g = goal_id \<and> tg_revision g = revision
         \<and> round = tg_rounds_started g + 1 \<and> \<not> reached (tg_max_rounds g) (tg_rounds_started g)
         \<and> tg_rounds_started g' = round \<and> tg_tokens_used g' = min U64_MAX (tg_tokens_used g + delta)
         \<and> (if reached (tg_token_budget g) (tg_tokens_used g')
            then tg_status g' = BudgetLimited \<and> \<not> gb_armed b'
                 \<and> fst (set_status Active reason actor later b') = Inl BudgetExhausted
            else tg_status g' = Active \<and> gb_armed b' = gb_armed b))"
proof (cases "account_round round revision goal_id delta now b")
  case (Pair r b')
  show ?thesis
  proof (cases r)
    case (Inl e)
    then show ?thesis using Pair account_round_error by simp
  next
    case (Inr g')
    obtain g where g: "goal_snapshot b = Some g" "tg_status g = Active" "tg_goal_id g = goal_id" "tg_revision g = revision"
        "round = tg_rounds_started g + 1" "\<not> reached (tg_max_rounds g) (tg_rounds_started g)"
      and g': "g' = round_goal round delta now g"
      and b': "goal_snapshot b' = Some g'" "gb_armed b' = (gb_armed b \<and> tg_status g' = Active)"
      using account_round_ok Pair Inr by blast
    have "fst (set_status Active reason actor later b') = Inl BudgetExhausted"
      if "reached (tg_token_budget g') (tg_tokens_used g')" "tg_status g' = BudgetLimited"
      using that b'(1) by (simp add: set_status_def can_transition_to_def can_resume_def)
    moreover have "tg_status g' = (if reached (tg_token_budget g') (tg_tokens_used g') then BudgetLimited else Active)"
      "tg_tokens_used g' = min U64_MAX (tg_tokens_used g + delta)" "tg_token_budget g' = tg_token_budget g"
      using g(2) by (simp_all add: g' round_goal_def Let_def saturating_add_def)
    ultimately show ?thesis using Pair Inr g b' g' by simp
  qed
qed

lemma commit_goal_refused:
  "apply_kind kind (gb_fold b) = Inl e \<Longrightarrow> commit_goal (event_of kind # evs) goal arm b = (Inl e, b)"
  by (simp add: commit_goal_def append_events_def apply_goal_event_def)

text \<open>The guard on transitions is wider than the fold: blocking a budget-limited goal and pausing a paused
  one pass the guard and are refused behind it.\<close>

lemma guarded_transitions_refused:
  assumes "goal_snapshot b = Some g" and "tg_status g = BudgetLimited \<and> s = Blocked \<or> tg_status g = Paused \<and> s = Paused"
  shows "can_transition_to (tg_status g) s \<and> (\<exists>e. set_status s reason actor now b = (Inl e, b))"
proof -
  let ?v = "case reason of Some r \<Rightarrow> validate_block_reason r | None \<Rightarrow> Inr ()"
  let ?g = "g\<lparr>tg_blocked_reason := reason, tg_status := s, tg_revision := Suc (tg_revision g), tg_updated_at := now\<rparr>"
  obtain op where op: "operation_of s = Some op" and s: "s \<in> {Paused, Blocked}" "s \<noteq> Active"
    using assms(2) by (auto simp: operation_of_def)
  have can: "can_transition_to (tg_status g) s" using assms(2) by (auto simp: can_transition_to_def)
  have "\<exists>e. apply_kind (Updated actor op ?g None now) (gb_fold b) = Inl e"
    using assms op s by (cases s) (simp_all add: apply_operation_def operation_of_def)
  then obtain e where e: "apply_kind (Updated actor op ?g None now) (gb_fold b) = Inl e" by blast
  have "\<exists>e. set_status s reason actor now b = (Inl e, b)"
    unfolding set_status_def assms(1) using can s
    by (cases ?v) (simp_all add: op Let_def commit_goal_refused [OF e])
  with can show ?thesis by blast
qed

text \<open>The same for a new goal after a blocked or budget-limited one.\<close>

lemma create_after_blocked_refused:
  assumes "goal_snapshot b = Some g" and "tg_status g = Blocked \<or> tg_status g = BudgetLimited"
  shows "\<exists>e. create_goal objective budget rounds actor uuid now b = (Inl e, b)"
proof (cases "thread_goal_new (gb_thread_id b) objective budget rounds uuid now")
  case (Inl e)
  then show ?thesis using assms by (auto simp: create_goal_def bridge_create_def announce_def is_terminal_def)
next
  case (Inr n)
  have "\<exists>e. apply_kind (Created actor n (tg_created_at n)) (gb_fold b) = Inl e"
    using assms by auto
  then obtain e where e: "apply_kind (Created actor n (tg_created_at n)) (gb_fold b) = Inl e" by blast
  show ?thesis
    using assms Inr commit_goal_refused [OF e] by (auto simp: create_goal_def bridge_create_def announce_def is_terminal_def)
qed

end
