(* ===== verification/Goal_Driver.thy ===== *)
theory Goal_Driver
  imports Goal_Bridge
begin

text \<open>
  The round driver (\<^verbatim>\<open>manox-agent/src/goal_driver.rs\<close>) and the loop that chains automatic rounds
  (\<^verbatim>\<open>goal_housekeeping\<close> and \<^verbatim>\<open>chain_goal_rounds\<close> of \<^verbatim>\<open>manox-agent/src/engine/run.rs\<close>). What one run of
  the agent does to the transcript, to the goal and to the flags of the engine is a parameter of the loop.
\<close>

section \<open>Rounds\<close>

record goal_round_identity =
  ri_goal_id :: str
  ri_revision :: nat
  ri_round :: nat

record usage =
  us_input :: nat
  us_cache_creation :: nat
  us_cache_read :: nat
  us_output :: nat

definition budget_from_pi_usage :: "usage \<Rightarrow> nat" where
  "budget_from_pi_usage u = us_input u + us_cache_creation u + us_output u"

text \<open>The messages the driver tells apart; the round message carries the goal it was rendered from.\<close>

datatype agent_message =
    Assistant usage
  | ToolResult "usage option"
  | GoalRound thread_goal goal_round_identity
  | OtherMessage

record driver =
  dr_bridge :: goal_bridge
  dr_reserved :: bool
  dr_round :: "goal_round_identity option"
  dr_follow_up :: "agent_message list"
  dr_steer :: "agent_message list"

definition round_limit_reason :: "thread_goal \<Rightarrow> goal_block_reason" where
  "round_limit_reason goal =
     \<lparr>br_code = ''round-limit'',
      br_message = ''Goal reached its configured limit of ''
        @ show_nat (case tg_max_rounds goal of Some m \<Rightarrow> m | None \<Rightarrow> 0) @ '' rounds.''\<rparr>"

definition next_identity :: "thread_goal \<Rightarrow> goal_round_identity" where
  "next_identity goal =
     \<lparr>ri_goal_id = tg_goal_id goal, ri_revision = tg_revision goal, ri_round = tg_rounds_started goal + 1\<rparr>"

text \<open>\<open>competing\<close>: input of the user is queued; \<open>tail_assistant\<close>: the transcript ends on the assistant.\<close>

definition maybe_queue_goal_round :: "bool \<Rightarrow> bool \<Rightarrow> int \<Rightarrow> driver \<Rightarrow> bool \<times> driver" where
  "maybe_queue_goal_round competing tail_assistant now d =
     (if dr_reserved d then (False, d)
      else case goal_snapshot (dr_bridge d) of
        None \<Rightarrow> (False, d)
      | Some goal \<Rightarrow>
          if tg_status goal \<noteq> Active \<or> \<not> gb_armed (dr_bridge d) then (False, d)
          else if reached (tg_max_rounds goal) (tg_rounds_started goal)
          then (False, d\<lparr>dr_bridge := snd (set_status Blocked (Some (round_limit_reason goal)) System now (dr_bridge d))\<rparr>)
          else if competing then (False, d)
          else
            let message = GoalRound goal (next_identity goal);
                d' = (if tail_assistant then d\<lparr>dr_follow_up := dr_follow_up d @ [message]\<rparr>
                      else d\<lparr>dr_steer := dr_steer d @ [message]\<rparr>) in
            (True, d'\<lparr>dr_reserved := True, dr_round := Some (next_identity goal),
                      dr_bridge := mark_goal_round_active True (dr_bridge d)\<rparr>))"

definition transcript_contains_round :: "agent_message list \<Rightarrow> goal_round_identity \<Rightarrow> bool" where
  "transcript_contains_round transcript identity =
     list_ex (\<lambda>m. case m of GoalRound _ i \<Rightarrow> i = identity | _ \<Rightarrow> False) transcript"

definition message_tokens :: "agent_message \<Rightarrow> nat" where
  "message_tokens m =
     (case m of
        Assistant u \<Rightarrow> budget_from_pi_usage u
      | ToolResult (Some u) \<Rightarrow> budget_from_pi_usage u
      | _ \<Rightarrow> 0)"

definition interrupted_reason :: goal_block_reason where
  "interrupted_reason = \<lparr>br_code = ''round-interrupted'', br_message = ''goal round was interrupted''\<rparr>"

text \<open>\<open>run_result\<close> is \<open>None\<close> for a failed run.\<close>

definition settle_goal_round ::
  "agent_message list \<Rightarrow> agent_message list option \<Rightarrow> bool \<Rightarrow> int \<Rightarrow> driver \<Rightarrow> driver" where
  "settle_goal_round transcript run_result abort_requested now d =
     (case dr_round d of
        None \<Rightarrow> d
      | Some identity \<Rightarrow>
          let b = dr_bridge d;
              b' = (if transcript_contains_round transcript identity
                    then
                      let tokens_delta = (case run_result of Some ms \<Rightarrow> sum_list (map message_tokens ms) | None \<Rightarrow> 0);
                          b1 = (case account_round (ri_round identity) (ri_revision identity) (ri_goal_id identity)
                                       tokens_delta now b of
                                  (Inl _, b1) \<Rightarrow> disarm b1
                                | (Inr _, b1) \<Rightarrow> b1)
                      in if abort_requested
                         then snd (set_status Paused (Some interrupted_reason) System now b1) else b1
                    else disarm b)
          in d\<lparr>dr_round := None, dr_reserved := False, dr_bridge := mark_goal_round_active False b'\<rparr>)"

definition goal_housekeeping ::
  "agent_message list \<Rightarrow> agent_message list option \<Rightarrow> bool \<Rightarrow> int \<Rightarrow> driver \<Rightarrow> driver" where
  "goal_housekeeping transcript result abort_requested now d =
     (let d' = (if abort_requested \<or> result = None then d\<lparr>dr_bridge := disarm (dr_bridge d)\<rparr> else d) in
      if gb_round_active (dr_bridge d') then settle_goal_round transcript result abort_requested now d' else d')"

section \<open>Operations and the chain\<close>

text \<open>The calls of the user and of the model on the bridge.\<close>

datatype goal_call =
    CallCreate str "nat option" "nat option" goal_actor str int
  | CallEdit str "nat option" "nat option" goal_actor int
  | CallReplace str "nat option" "nat option" goal_actor str int
  | CallStatus goal_status "goal_block_reason option" goal_actor int
  | CallClear goal_actor int
  | CallReport goal_status "str option" int

fun perform_call :: "goal_call \<Rightarrow> goal_bridge \<Rightarrow> goal_bridge" where
  "perform_call (CallCreate objective budget rounds actor uuid now) b = snd (create_goal objective budget rounds actor uuid now b)"
| "perform_call (CallEdit objective budget rounds actor now) b = snd (edit_goal objective budget rounds actor now b)"
| "perform_call (CallReplace objective budget rounds actor uuid now) b = snd (replace_goal objective budget rounds actor uuid now b)"
| "perform_call (CallStatus status reason actor now) b = snd (set_goal_status status reason actor now b)"
| "perform_call (CallClear actor now) b = snd (clear_goal actor now b)"
| "perform_call (CallReport status reason now) b = snd (model_update status reason now b)"

text \<open>What happens in one iteration: the state of the queues at the gate, the calls made while the round
  runs, the transcript and the result it ends with, an abort, a shutdown, a question left open.\<close>

record round_run =
  rr_competing :: bool
  rr_tail_assistant :: bool
  rr_calls :: "goal_call list"
  rr_transcript :: "agent_message list"
  rr_result :: "agent_message list option"
  rr_abort :: bool
  rr_shutdown :: bool
  rr_awaiting :: bool
  rr_now :: int

definition run_round :: "round_run \<Rightarrow> driver \<Rightarrow> driver" where
  "run_round r d = d\<lparr>dr_bridge := fold perform_call (rr_calls r) (dr_bridge d)\<rparr>"

text \<open>The loop takes its runs from a stream; \<open>None\<close> means that \<open>fuel\<close> iterations were not enough. The
  number returned counts the rounds that were run.\<close>

fun chain_loop :: "nat \<Rightarrow> (nat \<Rightarrow> round_run) \<Rightarrow> nat \<Rightarrow> driver \<Rightarrow> (nat \<times> driver) option" where
  "chain_loop 0 runs i d = None"
| "chain_loop (Suc fuel) runs i d =
     (let r = runs i in
      case maybe_queue_goal_round (rr_competing r) (rr_tail_assistant r) (rr_now r) d of
        (False, d') \<Rightarrow> Some (i, d')
      | (True, d') \<Rightarrow>
          let d1 = run_round r d' in
          if rr_shutdown r then Some (i + 1, d1)
          else
            let d2 = goal_housekeeping (rr_transcript r) (rr_result r) (rr_abort r) (rr_now r) d1 in
            if rr_awaiting r then Some (i + 1, d2) else chain_loop fuel runs (i + 1) d2)"

definition chain_goal_rounds :: "bool \<Rightarrow> nat \<Rightarrow> (nat \<Rightarrow> round_run) \<Rightarrow> driver \<Rightarrow> (nat \<times> driver) option" where
  "chain_goal_rounds awaiting fuel runs d = (if awaiting then Some (0, d) else chain_loop fuel runs 0 d)"

text \<open>A session of the driver: calls, gates, settled runs and restarts in any order.\<close>

datatype driver_event =
    Call goal_call
  | Gate bool bool int
  | Settle "agent_message list" "agent_message list option" bool int
  | Restart int

definition driver_new :: "goal_bridge \<Rightarrow> driver" where
  "driver_new b = \<lparr>dr_bridge = b, dr_reserved = False, dr_round = None, dr_follow_up = [], dr_steer = []\<rparr>"

fun driver_step :: "driver_event \<Rightarrow> driver \<Rightarrow> driver" where
  "driver_step (Call c) d = d\<lparr>dr_bridge := perform_call c (dr_bridge d)\<rparr>"
| "driver_step (Gate competing tail_assistant now) d = snd (maybe_queue_goal_round competing tail_assistant now d)"
| "driver_step (Settle transcript result abort now) d = goal_housekeeping transcript result abort now d"
| "driver_step (Restart now) d = driver_new (restart_goal now (dr_bridge d))"

definition driver_run :: "driver_event list \<Rightarrow> driver \<Rightarrow> driver" where
  "driver_run evs d = fold driver_step evs d"

section \<open>The invariant over sessions\<close>

lemma announce_snd_inv: "bridge_inv (snd r) \<Longrightarrow> bridge_inv (snd (announce r))"
  using announce_inv [of r] by (metis prod.collapse)

lemma perform_call_inv: "bridge_inv b \<Longrightarrow> bridge_inv (perform_call c b)"
  by (cases c) (simp_all add: create_goal_def edit_goal_def replace_goal_def set_goal_status_def announce_snd_inv
      bridge_create_inv bridge_edit_inv bridge_replace_inv set_status_inv clear_goal_inv model_update_inv)

lemma gate_inv: "bridge_inv (dr_bridge d) \<Longrightarrow> bridge_inv (dr_bridge (snd (maybe_queue_goal_round c t now d)))"
  by (auto simp: maybe_queue_goal_round_def Let_def set_status_inv split: option.splits)

lemma account_round_keeps: "account_round r v i t now b = (x, b') \<Longrightarrow> bridge_inv b \<Longrightarrow> bridge_inv b'"
  using account_round_inv [of b r v i t now] by simp

lemma settle_inv: "bridge_inv (dr_bridge d) \<Longrightarrow> bridge_inv (dr_bridge (settle_goal_round tr res ab now d))"
  by (auto simp: settle_goal_round_def Let_def bridge_inv_disarm set_status_inv
      split: option.splits prod.splits sum.splits
      dest!: account_round_keeps intro!: set_status_inv bridge_inv_disarm)

lemma housekeeping_inv: "bridge_inv (dr_bridge d) \<Longrightarrow> bridge_inv (dr_bridge (goal_housekeeping tr res ab now d))"
  by (simp add: goal_housekeeping_def Let_def settle_inv bridge_inv_disarm)

lemma driver_step_inv: "bridge_inv (dr_bridge d) \<Longrightarrow> bridge_inv (dr_bridge (driver_step ev d))"
  by (cases ev) (simp_all add: perform_call_inv gate_inv housekeeping_inv restart_goal_inv driver_new_def)

lemma driver_run_inv: "bridge_inv (dr_bridge d) \<Longrightarrow> bridge_inv (dr_bridge (driver_run evs d))"
  by (induction evs arbitrary: d) (simp_all add: driver_run_def driver_step_inv)

text \<open>C12: whatever the user, the model and the driver do, restarts included, the goal of a thread is well
  formed (trimmed bounded objective, positive limits, a reason exactly where the status asks for one), the
  authority to continue exists only for an active goal, and the last journal row is the current goal.\<close>

theorem goal_session_invariant:
  "bridge_inv (dr_bridge (driver_run evs (driver_new (goal_bridge_new thread_id store))))"
  by (rule driver_run_inv) (simp add: driver_new_def bridge_inv_new)

section \<open>What the operations leave alone\<close>

definition cap :: "goal_bridge \<Rightarrow> (nat option \<times> nat) option" where
  "cap b = map_option (\<lambda>g. (tg_max_rounds g, tg_rounds_started g)) (goal_snapshot b)"

text \<open>The flags of the bridge that only its constructor and the driver set.\<close>

definition flags :: "goal_bridge \<Rightarrow> bool \<times> bool" where
  "flags b = (gb_store b, gb_round_active b)"

lemma append_events_flags: "append_events evs b = (x, b') \<Longrightarrow> flags b' = flags b"
  by (auto simp: append_events_def flags_def Let_def split: sum.splits if_splits)

lemma commit_goal_flags [simp]: "flags (snd (commit_goal evs g arm b)) = flags b"
  by (auto simp: commit_goal_def flags_def split: prod.splits sum.splits dest: append_events_flags [unfolded flags_def])

lemma frame_flags [simp]: "flags (emit g b) = flags b" "flags (disarm b) = flags b"
  by (simp_all add: flags_def disarm_def)

lemma announce_flags [simp]: "flags (snd (announce r)) = flags (snd r)"
  by (auto simp: announce_def split: prod.splits sum.splits)

lemma set_status_flags [simp]: "flags (snd (set_status s r a now b)) = flags b"
  by (auto simp: set_status_def Let_def split: option.splits sum.splits)

lemma account_round_flags [simp]: "flags (snd (account_round r v i t now b)) = flags b"
  by (auto simp: account_round_def append_event_def Let_def split: prod.splits sum.splits option.splits
      dest: append_events_flags)

lemma announced_status_flags: "announce (set_status s r a now b) = (x, b') \<Longrightarrow> flags b' = flags b"
  using announce_flags [of "set_status s r a now b"] by simp

lemma perform_call_flags [simp]: "flags (perform_call c b) = flags b"
proof (cases c)
  case (CallClear actor now)
  then show ?thesis
    by (auto simp: clear_goal_def append_event_def split: option.splits prod.splits sum.splits
        dest: append_events_flags)
next
  case (CallReport status reason now)
  then show ?thesis
    by (auto simp: model_update_def Let_def split: goal_status.splits option.splits prod.splits sum.splits
        dest: announced_status_flags)
qed (auto simp: create_goal_def edit_goal_def replace_goal_def set_goal_status_def bridge_create_def bridge_edit_def
      bridge_replace_def Let_def split: sum.splits option.splits)

lemma run_round_flags [simp]: "flags (dr_bridge (run_round r d)) = flags (dr_bridge d)"
proof -
  have "flags (fold perform_call cs b) = flags b" for cs b by (induction cs arbitrary: b) simp_all
  then show ?thesis by (simp add: run_round_def)
qed

lemma commit_goal_cap:
  assumes "goal_snapshot b = Some g" "tg_max_rounds goal = tg_max_rounds g" "tg_rounds_started goal = tg_rounds_started g"
    and "\<And>st. try_fold apply_goal_event evs (gb_fold b) = Inr st \<Longrightarrow> gf_current st = Some goal"
  shows "cap (snd (commit_goal evs goal arm b)) = Some (tg_max_rounds g, tg_rounds_started g)"
  using assms by (auto simp: commit_goal_def append_events_def cap_def Let_def split: sum.splits)

lemma set_status_cap [simp]: "cap (snd (set_status s r a now b)) = cap b"
proof (cases "goal_snapshot b")
  case (Some g)
  then have capg: "cap b = Some (tg_max_rounds g, tg_rounds_started g)" by (simp add: cap_def)
  show ?thesis
    unfolding set_status_def Some
    by (auto simp: Let_def Some capg apply_goal_event_def try_then_Inr_iff
        intro!: commit_goal_cap split: option.splits sum.splits if_splits)
qed (simp add: set_status_def)

lemma announce_cap [simp]: "cap (snd (announce r)) = cap (snd r)"
  by (auto simp: announce_def cap_def split: prod.splits sum.splits)

lemma announced_status_cap: "announce (set_status s r a now b) = (x, b') \<Longrightarrow> cap b' = cap b"
  using announce_cap [of "set_status s r a now b"] by simp

text \<open>The calls that neither start a goal nor change its definition.\<close>

fun keeps_cap :: "goal_call \<Rightarrow> bool" where
  "keeps_cap (CallStatus status reason actor now) = True"
| "keeps_cap (CallClear actor now) = True"
| "keeps_cap (CallReport status reason now) = True"
| "keeps_cap _ = False"

lemma perform_call_cap: "keeps_cap c \<Longrightarrow> cap (perform_call c b) = cap b \<or> cap (perform_call c b) = None"
proof (cases c)
  case (CallClear actor now)
  then show ?thesis
    by (cases "goal_snapshot b")
       (auto simp: clear_goal_def append_event_def append_events_def apply_goal_event_def cap_def disarm_def Let_def)
next
  case (CallReport status reason now)
  then show ?thesis
    by (auto simp: model_update_def Let_def split: goal_status.splits option.splits prod.splits sum.splits
        dest: announced_status_cap)
qed (simp_all add: set_goal_status_def)

lemma run_round_cap:
  assumes "list_all keeps_cap (rr_calls r)"
  shows "cap (dr_bridge (run_round r d)) = cap (dr_bridge d) \<or> cap (dr_bridge (run_round r d)) = None"
proof -
  have "cap (fold perform_call cs b) = cap b \<or> cap (fold perform_call cs b) = None" if "list_all keeps_cap cs" for cs b
    using that
  proof (induction cs arbitrary: b)
    case (Cons c cs)
    then have "cap (perform_call c b) = cap b \<or> cap (perform_call c b) = None" by (simp add: perform_call_cap)
    with Cons.IH [of "perform_call c b"] Cons.prems show ?case by auto
  qed simp
  with assms show ?thesis by (simp add: run_round_def)
qed

section \<open>The chain of rounds ends\<close>

lemma gate_queued:
  assumes "maybe_queue_goal_round c t now d = (True, d')"
  shows "\<exists>g. goal_snapshot (dr_bridge d) = Some g \<and> tg_status g = Active \<and> gb_armed (dr_bridge d)
    \<and> \<not> reached (tg_max_rounds g) (tg_rounds_started g) \<and> \<not> c \<and> dr_round d' = Some (next_identity g)
    \<and> dr_bridge d' = mark_goal_round_active True (dr_bridge d)"
  using assms by (auto simp: maybe_queue_goal_round_def Let_def split: if_splits option.splits)

text \<open>A settled round is counted, or the authority to continue is gone.\<close>

lemma settle_counts:
  assumes "dr_round d = Some i" and "cap (dr_bridge d) = Some (m, n) \<or> cap (dr_bridge d) = None"
  shows "\<not> gb_armed (dr_bridge (settle_goal_round tr res ab now d))
    \<or> cap (dr_bridge (settle_goal_round tr res ab now d)) = Some (m, n + 1)"
proof -
  let ?t = "case res of Some ms \<Rightarrow> sum_list (map message_tokens ms) | None \<Rightarrow> 0"
  let ?a = "account_round (ri_round i) (ri_revision i) (ri_goal_id i) ?t now (dr_bridge d)"
  have armed: "\<not> gb_armed (snd (set_status Paused r a now b))" if "\<not> gb_armed b" for r a b
    using that by (auto simp: set_status_def commit_goal_def append_events_def Let_def
        split: option.splits sum.splits)
  obtain x b1 where a: "?a = (x, b1)" by (cases ?a)
  show ?thesis
  proof (cases x)
    case (Inl e)
    then show ?thesis
      using assms(1) a armed
      by (auto simp: settle_goal_round_def Let_def disarm_def mark_goal_round_active_def)
  next
    case (Inr g')
    then have "cap b1 = Some (m, n + 1)"
      using account_round_ok [of "ri_round i" "ri_revision i" "ri_goal_id i" ?t now "dr_bridge d" g' b1] a assms(2)
      by (auto simp: cap_def)
    then show ?thesis
      using assms(1) a Inr set_status_cap [of Paused "Some interrupted_reason" System now b1]
      by (auto simp: settle_goal_round_def Let_def disarm_def mark_goal_round_active_def cap_def)
  qed
qed

lemma housekeeping_counts:
  assumes "dr_round d = Some i" and "gb_round_active (dr_bridge d)"
    and "cap (dr_bridge d) = Some (m, n) \<or> cap (dr_bridge d) = None"
  shows "\<not> gb_armed (dr_bridge (goal_housekeeping tr res ab now d))
    \<or> cap (dr_bridge (goal_housekeeping tr res ab now d)) = Some (m, n + 1)"
proof -
  let ?d = "if ab \<or> res = None then d\<lparr>dr_bridge := disarm (dr_bridge d)\<rparr> else d"
  have "cap (dr_bridge ?d) = cap (dr_bridge d)" "gb_round_active (dr_bridge ?d)" "dr_round ?d = Some i"
    using assms(1,2) by (auto simp: cap_def disarm_def)
  then show ?thesis
    using settle_counts [of ?d i m n tr res ab now] assms(3) by (simp add: goal_housekeeping_def Let_def)
qed

lemma iteration_counts:
  assumes "maybe_queue_goal_round c t now d = (True, d')" and "cap (dr_bridge d) = Some (m, n)"
    and "list_all keeps_cap (rr_calls r)"
  shows "\<not> gb_armed (dr_bridge (goal_housekeeping tr res ab now (run_round r d')))
    \<or> cap (dr_bridge (goal_housekeeping tr res ab now (run_round r d'))) = Some (m, n + 1)"
proof -
  obtain g where g: "dr_round d' = Some (next_identity g)" "dr_bridge d' = mark_goal_round_active True (dr_bridge d)"
    using gate_queued [OF assms(1)] by blast
  have "flags (dr_bridge (run_round r d')) = flags (dr_bridge d')" by simp
  then have active: "gb_round_active (dr_bridge (run_round r d'))"
    by (simp add: g flags_def mark_goal_round_active_def)
  have "cap (dr_bridge d') = Some (m, n)" using assms(2) by (simp add: g cap_def mark_goal_round_active_def)
  with run_round_cap [OF assms(3), of d']
  have "cap (dr_bridge (run_round r d')) = Some (m, n) \<or> cap (dr_bridge (run_round r d')) = None" by simp
  moreover have "dr_round (run_round r d') = Some (next_identity g)" by (simp add: run_round_def g)
  ultimately show ?thesis using active by (intro housekeeping_counts)
qed

lemma chain_loop_ends:
  assumes "\<not> gb_armed (dr_bridge d) \<or> (\<exists>k. cap (dr_bridge d) = Some (Some m, k) \<and> m - k \<le> n)"
    and "\<And>i. list_all keeps_cap (rr_calls (runs i))"
  shows "\<exists>j d'. chain_loop (Suc n) runs i d = Some (j, d') \<and> j \<le> i + n"
  using assms(1)
proof (induction n arbitrary: i d)
  case 0
  let ?g = "maybe_queue_goal_round (rr_competing (runs i)) (rr_tail_assistant (runs i)) (rr_now (runs i)) d"
  have "\<not> fst ?g"
    using 0 gate_queued [of "rr_competing (runs i)" "rr_tail_assistant (runs i)" "rr_now (runs i)" d "snd ?g"]
    by (cases ?g) (auto simp: cap_def reached_def)
  then show ?case by (cases ?g) (auto simp: Let_def split: bool.splits)
next
  case (Suc n)
  let ?r = "runs i"
  let ?g = "maybe_queue_goal_round (rr_competing ?r) (rr_tail_assistant ?r) (rr_now ?r) d"
  show ?case
  proof (cases "fst ?g")
    case False
    then show ?thesis by (cases ?g) (auto simp: Let_def split: bool.splits)
  next
    case True
    then obtain d' where d': "?g = (True, d')" by (cases ?g) auto
    then obtain k where k: "cap (dr_bridge d) = Some (Some m, k)" "m - k \<le> Suc n" "k < m"
      using Suc.prems gate_queued [OF d'] by (auto simp: cap_def reached_def)
    let ?d2 = "goal_housekeeping (rr_transcript ?r) (rr_result ?r) (rr_abort ?r) (rr_now ?r) (run_round ?r d')"
    have "\<not> gb_armed (dr_bridge ?d2) \<or> cap (dr_bridge ?d2) = Some (Some m, k + 1)"
      by (rule iteration_counts [OF d' k(1) assms(2)])
    with k(2,3) have "\<exists>j d''. chain_loop (Suc n) runs (i + 1) ?d2 = Some (j, d'') \<and> j \<le> (i + 1) + n"
      by (intro Suc.IH) auto
    then obtain j d'' where "chain_loop (Suc n) runs (i + 1) ?d2 = Some (j, d'')" "j \<le> (i + 1) + n" by blast
    then show ?thesis by (subst chain_loop.simps) (auto simp: Let_def d' simp del: chain_loop.simps)
  qed
qed



section \<open>Restarts\<close>

lemma restart_goal_store: "gb_store (restart_goal now b) = gb_store b"
proof -
  have "gb_store (snd (set_status s r a now b)) = gb_store b" for s r a b
    using set_status_flags [of s r a now b] by (simp add: flags_def del: set_status_flags)
  then show ?thesis
    by (simp add: restart_goal_def seed_from_journal_def goal_bridge_new_def Let_def
        split: option.splits goal_row.splits)
qed

lemma settle_flags: "gb_store (dr_bridge (settle_goal_round tr res ab now d)) = gb_store (dr_bridge d)"
proof -
  have acc: "gb_store b' = gb_store b" if "account_round r v i t now b = (x, b')" for r v i t x b b'
    using account_round_flags [of r v i t now b] that by (simp add: flags_def del: account_round_flags)
  have st: "gb_store (snd (set_status s r a now b)) = gb_store b" for s r a b
    using set_status_flags [of s r a now b] by (simp add: flags_def del: set_status_flags)
  show ?thesis
    by (auto simp: settle_goal_round_def Let_def st disarm_def mark_goal_round_active_def
        split: option.splits prod.splits sum.splits dest: acc)
qed

lemma driver_run_store: "gb_store (dr_bridge (driver_run evs d)) = gb_store (dr_bridge d)"
proof (induction evs arbitrary: d)
  case (Cons ev evs)
  have call: "gb_store (perform_call c b) = gb_store b" for c b
    using perform_call_flags [of c b] by (simp add: flags_def del: perform_call_flags)
  have st: "gb_store (snd (set_status s r a now b)) = gb_store b" for s r a now b
    using set_status_flags [of s r a now b] by (simp add: flags_def del: set_status_flags)
  have "gb_store (dr_bridge (driver_step ev d)) = gb_store (dr_bridge d)"
    by (cases ev)
       (auto simp: call st settle_flags restart_goal_store driver_new_def maybe_queue_goal_round_def
        goal_housekeeping_def mark_goal_round_active_def disarm_def Let_def split: option.splits)
  with Cons show ?case by (simp add: driver_run_def)
qed (simp add: driver_run_def)


section \<open>Rounds the driver does not charge\<close>

text \<open>A round during which the goal is edited is refused as stale when it settles: it is not charged, and
  the goal stays active without the authority to continue, although an edit is to preserve it.\<close>

lemma edit_during_round_disarms:
  assumes "goal_snapshot (dr_bridge d) = Some g" and "dr_round d = Some (next_identity g)"
    and "edit_goal objective budget rounds actor t (dr_bridge d) = (Inr g', b')"
    and "transcript_contains_round tr (next_identity g)"
  shows "goal_snapshot (dr_bridge (settle_goal_round tr res False now (d\<lparr>dr_bridge := b'\<rparr>))) = Some g'
    \<and> tg_rounds_started g' = tg_rounds_started g \<and> tg_status g' = tg_status g
    \<and> \<not> gb_armed (dr_bridge (settle_goal_round tr res False now (d\<lparr>dr_bridge := b'\<rparr>)))"
proof -
  have g': "goal_snapshot b' = Some g'" "tg_revision g' = tg_revision g + 1" "tg_goal_id g' = tg_goal_id g"
    "tg_rounds_started g' = tg_rounds_started g" "tg_status g' = tg_status g"
    using assms(1,3)
    by (auto simp: edit_goal_def announce_def bridge_edit_def Let_def commit_goal_def append_events_def
        apply_goal_event_def try_then_Inr_iff split: sum.splits prod.splits if_splits)
  have "\<exists>e. account_round (ri_round (next_identity g)) (ri_revision (next_identity g)) (ri_goal_id (next_identity g))
      x now b' = (Inl e, b')" for x
    by (cases "tg_status g = Active")
       (simp_all add: g' account_round_def append_event_def append_events_def apply_goal_event_def next_identity_def)
  from this [of "case res of Some ms \<Rightarrow> sum_list (map message_tokens ms) | None \<Rightarrow> 0"] show ?thesis
    using assms(2,4) g' by (auto simp: settle_goal_round_def Let_def disarm_def mark_goal_round_active_def)
qed

text \<open>The round in which the model reports completion is not charged either.\<close>

lemma completing_round_uncharged:
  assumes "goal_snapshot (dr_bridge d) = Some g" and "tg_status g = Complete" and "dr_round d = Some i"
  shows "goal_snapshot (dr_bridge (settle_goal_round tr res False now d)) = Some g"
  using assms
  by (auto simp: settle_goal_round_def Let_def account_round_def append_event_def append_events_def apply_goal_event_def
      disarm_def mark_goal_round_active_def split: if_splits)

end
