(* ===== verification/Agent_Message.thy ===== *)
theory Agent_Message
  imports Manox_Prelude
begin

text \<open>
  The messages of a conversation (\<^verbatim>\<open>manox-harness/src/core/types.rs\<close>): content blocks, the assistant's turn with
  its stop reason and token usage, tool results, shell executions and custom messages. Token counts are 64-bit
  words; the floating-point cost is an uninterpreted value.
\<close>

datatype content_block =
    TextBlock str "str option"
  | ImageBlock str str
  | ToolUseBlock str str json "str option"
  | ThinkingBlock str "str option" "bool option"

datatype stop_reason = StopTurn | StopLength | StopToolUse | StopError | StopAborted

datatype token_usage =
  Usage (us_input: "64 word") (us_output: "64 word") (us_cache_read: "64 word") (us_cache_creation: "64 word")
    (us_cache_write_1h: "64 word option") (us_reasoning: "64 word option") (us_total: "64 word") (us_cost: "json option")

datatype assistant =
  Assistant (as_content: "content_block list") (as_model: str) (as_provider: str) (as_api: str)
    (as_response_model: "str option") (as_response_id: "str option") (as_diagnostics: "json list option")
    (as_stop: "stop_reason option") (as_raw_stop: "str option") (as_usage: token_usage) (as_error: "str option") (as_time: int)

datatype tool_result =
  ToolResult (tr_call: str) (tr_tool: str) (tr_content: "content_block list") (tr_is_error: bool)
    (tr_details: "json option") (tr_usage: "token_usage option") (tr_added: "str list option") (tr_time: int)

datatype bash_run =
  BashRun (bx_command: str) (bx_stdout: str) (bx_exit: "int option") (bx_cancelled: bool) (bx_truncated: bool)
    (bx_full_path: "str option") (bx_excluded: "bool option") (bx_time: int)

datatype message =
    UserMsg "content_block list" int "str option"
  | AssistantMsg assistant
  | ToolResultMsg tool_result
  | BashMsg bash_run
  | CustomMsg str "content_block list" "json option" bool int

fun msg_time :: "message \<Rightarrow> int" where
  "msg_time (UserMsg _ t _) = t"
| "msg_time (AssistantMsg a) = as_time a"
| "msg_time (ToolResultMsg r) = tr_time r"
| "msg_time (BashMsg b) = bx_time b"
| "msg_time (CustomMsg _ _ _ _ t) = t"

definition no_usage :: token_usage where
  "no_usage = Usage 0 0 0 0 None None 0 None"

definition user_message :: "str \<Rightarrow> int \<Rightarrow> message" where
  "user_message t now = UserMsg [TextBlock t None] now None"

fun is_user :: "message \<Rightarrow> bool" where
  "is_user (UserMsg _ _ _) = True"
| "is_user _ = False"

text \<open>A model; its metadata is an association list.\<close>

datatype thinking_kind = NoThinking | EnabledThinking | AdaptiveThinking

record model =
  md_provider :: str
  md_api :: str
  md_id :: str
  md_window :: "64 word"
  md_max_tokens :: "64 word"
  md_thinking :: thinking_kind
  md_metadata :: "(str \<times> json) list"

section \<open>Blocks\<close>

definition block_text :: "content_block \<Rightarrow> str option" where
  "block_text b = (case b of TextBlock t _ \<Rightarrow> Some t | _ \<Rightarrow> None)"

definition block_thinking :: "content_block \<Rightarrow> str option" where
  "block_thinking b = (case b of ThinkingBlock t _ _ \<Rightarrow> Some t | _ \<Rightarrow> None)"

text \<open>\<^verbatim>\<open>filter_map(..)\<close>.\<close>

definition filter_map :: "('a \<Rightarrow> 'b option) \<Rightarrow> 'a list \<Rightarrow> 'b list" where
  "filter_map f xs = concat (map (\<lambda>x. case f x of Some y \<Rightarrow> [y] | None \<Rightarrow> []) xs)"

lemma filter_map_simps [simp]:
  "filter_map f [] = []"
  "filter_map f (x # xs) = (case f x of Some y \<Rightarrow> y # filter_map f xs | None \<Rightarrow> filter_map f xs)"
  "filter_map f (xs @ ys) = filter_map f xs @ filter_map f ys"
  by (auto simp: filter_map_def split: option.splits)

lemma set_filter_map: "y \<in> set (filter_map f xs) \<longleftrightarrow> (\<exists>x\<in>set xs. f x = Some y)"
  by (induction xs) (auto split: option.splits)

text \<open>Text blocks joined by newlines, as the summaries and the editor read them.\<close>

definition content_text :: "content_block list \<Rightarrow> str" where
  "content_text content = join [NL] (filter_map block_text content)"

text \<open>The calls of an assistant's turn: id and tool name.\<close>

definition block_call :: "content_block \<Rightarrow> (str \<times> str) option" where
  "block_call b = (case b of ToolUseBlock i name _ _ \<Rightarrow> Some (i, name) | _ \<Rightarrow> None)"

definition tool_calls :: "assistant \<Rightarrow> (str \<times> str) list" where
  "tool_calls a = filter_map block_call (as_content a)"

text \<open>UTF-16 code units of UTF-8 bytes: two for a scalar of four bytes, one for every other.\<close>

definition utf16_count :: "str \<Rightarrow> nat" where
  "utf16_count s =
     sum_list (map (\<lambda>c. if is_continuation c then 0 else if 240 \<le> (of_char c :: nat) then 2 else 1) s)"

lemma utf16_count_append [simp]: "utf16_count (s @ t) = utf16_count s + utf16_count t"
  by (simp add: utf16_count_def)

text \<open>\<^verbatim>\<open>format!("{code}")\<close> of a signed number.\<close>

definition show_int :: "int \<Rightarrow> str" where
  "show_int n = (if n < 0 then CHR 0x2D # show_nat (nat (- n)) else show_nat (nat n))"

end
