(* ===== verification/Session_Log.thy ===== *)
theory Session_Log
  imports Agent_Message "HOL-Library.Countable"
begin

text \<open>
  The session log (\<^verbatim>\<open>manox-harness/src/core/session/jsonl.rs\<close>, \<^verbatim>\<open>session/mod.rs\<close>, \<^verbatim>\<open>session/event.rs\<close>): the
  entries of the session tree, the lines of a session file, and the loader, which checks every line, computes
  the depth of every entry in the tree and repairs the order of the lines. A file is its bytes. Printing and
  parsing of JSON and the derived serialization of headers and entries are a parameter \<open>w :: wire\<close>. Entry
  kinds whose fields no function here reads are \<open>OtherEntry\<close>.
\<close>

section \<open>Entries\<close>

datatype entry_body =
    Message message "str option"
  | Compaction str "str option" nat "message list option" "token_usage option" "json option" "bool option"
  | ModelChange str str
  | ThinkingLevelChange str
  | AccessModeChange str
  | CwdChange str
  | ActiveToolsChange "str list"
  | BranchSummary str str "json option" "token_usage option" "bool option"
  | CustomEntry str "json option"
  | CustomMessage str "content_block list" "json option" bool
  | Label str "str option"
  | SessionInfo "str option"
  | Leaf "str option"
  | OtherEntry str json

datatype entry = Entry (en_id: str) (en_parent: "str option") (en_time: int) (en_body: entry_body)

definition leaf_cursor_after :: "entry \<Rightarrow> str option" where
  "leaf_cursor_after e = (case en_body e of Leaf target \<Rightarrow> target | _ \<Rightarrow> Some (en_id e))"

record header =
  hd_id :: str
  hd_time :: int
  hd_cwd :: str
  hd_parent_session :: "str option"
  hd_metadata :: "(str \<times> json) list option"

definition FORMAT_VERSION :: nat where "FORMAT_VERSION = 4"
definition LEGACY_FORMAT_VERSION :: nat where "LEGACY_FORMAT_VERSION = 3"

text \<open>\<open>serde_json\<close> and the derived serializations; an entry and a header are written as objects.\<close>

record wire =
  wr_print :: "json \<Rightarrow> str"
  wr_parse :: "str \<Rightarrow> json option"
  wr_value :: "entry \<Rightarrow> (str \<times> json) list"
  wr_entry :: "json \<Rightarrow> entry option"
  wr_header_value :: "nat \<Rightarrow> header \<Rightarrow> (str \<times> json) list"
  wr_header :: "json \<Rightarrow> (nat \<times> header) option"
  wr_time :: "int \<Rightarrow> json"

datatype session_error =
    FileEmpty
  | HeaderBlank
  | HeaderInvalid
  | HeaderNotObject
  | NotASession
  | VersionMissing
  | VersionUnsupported nat
  | HeaderIdMissing
  | HeaderCwdMissing
  | HeaderTimestampMissing
  | ParentSessionNotString
  | MetadataNotObject
  | LineUnparseable
  | EntryNotObject
  | BadParentId str
  | BadTargetId
  | EntryInvalid
  | EmptyId
  | DuplicateId str
  | UnknownParent str str
  | ChainCycle str
  | SeqMismatch str nat nat
  | SeqMissing str
  | NotFound str
  | ChainBroken str
  | LeafNotFound str
  | Deferred
  | OldVersion
  | FileExists
  | SeqIndexMissing str
  | PayloadNotObject str
  | ReservedKey str str
  | OwnAppendPath str
  | LimitZero
  | IoError

section \<open>Lines\<close>

definition json_of_id :: "str option \<Rightarrow> json" where
  "json_of_id i = (case i of None \<Rightarrow> JNull | Some x \<Rightarrow> JStr x)"

text \<open>\<^verbatim>\<open>obj.insert(key, value)\<close>.\<close>

fun put_key :: "str \<Rightarrow> json \<Rightarrow> (str \<times> json) list \<Rightarrow> (str \<times> json) list" where
  "put_key k v [] = [(k, v)]"
| "put_key k v ((k', v') # fs) = (if k = k' then (k, v) # fs else (k', v') # put_key k v fs)"

definition v4_line :: "wire \<Rightarrow> entry \<Rightarrow> nat \<Rightarrow> str" where
  "v4_line w e seq = wr_print w (JObj (put_key ''seq'' (JNum (int seq)) (wr_value w e))) @ [NL]"

definition session_header_line :: "wire \<Rightarrow> header \<Rightarrow> str" where
  "session_header_line w h = wr_print w (JObj (wr_header_value w FORMAT_VERSION h)) @ [NL]"

definition is_string :: "json option \<Rightarrow> bool" where
  "is_string v = (case v of Some (JStr _) \<Rightarrow> True | _ \<Rightarrow> False)"

definition is_object :: "json option \<Rightarrow> bool" where
  "is_object v = (case v of Some (JObj _) \<Rightarrow> True | _ \<Rightarrow> False)"

definition nonempty_string :: "json option \<Rightarrow> bool" where
  "nonempty_string v = (case v of Some (JStr s) \<Rightarrow> s \<noteq> [] | _ \<Rightarrow> False)"

definition validate_header_wire :: "json \<Rightarrow> (session_error, unit) result" where
  "validate_header_wire value =
     (if \<not> is_object (Some value) then Inl HeaderNotObject
      else if Option.bind (json_get ''type'' value) as_str \<noteq> Some ''session'' then Inl NotASession
      else case Option.bind (json_get ''version'' value) as_u64 of
        None \<Rightarrow> Inl VersionMissing
      | Some version \<Rightarrow>
          if version \<noteq> FORMAT_VERSION \<and> version \<noteq> LEGACY_FORMAT_VERSION then Inl (VersionUnsupported version)
          else if \<not> nonempty_string (json_get ''id'' value) then Inl HeaderIdMissing
          else if \<not> nonempty_string (json_get ''cwd'' value) then Inl HeaderCwdMissing
          else if \<not> is_string (json_get ''timestamp'' value) then Inl HeaderTimestampMissing
          else if json_get ''parentSession'' value \<noteq> None \<and> \<not> is_string (json_get ''parentSession'' value)
            then Inl ParentSessionNotString
          else if json_get ''metadata'' value \<noteq> None \<and> \<not> is_object (json_get ''metadata'' value)
            then Inl MetadataNotObject
          else Inr ())"

definition null_or_string :: "json option \<Rightarrow> bool" where
  "null_or_string v = (case v of Some JNull \<Rightarrow> True | Some (JStr _) \<Rightarrow> True | _ \<Rightarrow> False)"

definition validate_entry_wire :: "json \<Rightarrow> (session_error, unit) result" where
  "validate_entry_wire value =
     (if \<not> is_object (Some value) then Inl EntryNotObject
      else
        let kind = (case Option.bind (json_get ''type'' value) as_str of Some k \<Rightarrow> k | None \<Rightarrow> []) in
        if \<not> null_or_string (json_get ''parentId'' value) then Inl (BadParentId kind)
        else if kind = ''leaf'' \<and> \<not> null_or_string (json_get ''targetId'' value) then Inl BadTargetId
        else Inr ())"

section \<open>The loader\<close>

text \<open>\<^verbatim>\<open>u8::is_ascii_whitespace\<close>.\<close>

definition ascii_space :: "char \<Rightarrow> bool" where
  "ascii_space c \<longleftrightarrow> c \<in> {CHR 0x20, CHR 0x09, CHR 0x0A, CHR 0x0C, CHR 0x0D}"

definition blank :: "str \<Rightarrow> bool" where
  "blank line = list_all ascii_space line"

text \<open>Pass 1: every line parses, has the wire shape, deserializes, and has a unique non-empty id; only the
  last line of a file that does not end with a newline may be torn.\<close>

fun parse_entry_lines ::
  "wire \<Rightarrow> bool \<Rightarrow> str list \<Rightarrow> str list \<Rightarrow> (session_error, (entry \<times> nat option) list) result" where
  "parse_entry_lines w ends_with_newline seen [] = Inr []"
| "parse_entry_lines w ends_with_newline seen (line # rest) =
     (case wr_parse w line of
        None \<Rightarrow> if \<not> ends_with_newline \<and> rest = [] then Inr [] else Inl LineUnparseable
      | Some value \<Rightarrow>
          try_then (validate_entry_wire value) (\<lambda>_.
          let seq = Option.bind (json_get ''seq'' value) as_u64 in
          case wr_entry w value of
            None \<Rightarrow> Inl EntryInvalid
          | Some e \<Rightarrow>
              if en_id e = [] then Inl EmptyId
              else if en_id e \<in> set seen then Inl (DuplicateId (en_id e))
              else try_then (parse_entry_lines w ends_with_newline (en_id e # seen) rest) (\<lambda>es. Inr ((e, seq) # es))))"

text \<open>Pass 2: the depth of every entry, by a memoized walk to the root.\<close>

definition id_pos :: "entry list \<Rightarrow> str \<Rightarrow> nat option" where
  "id_pos es = map_of (zip (map en_id es) [0..<length es])"

function walk_up ::
  "entry list \<Rightarrow> nat \<Rightarrow> nat option list \<Rightarrow> nat list \<Rightarrow> nat \<Rightarrow> (session_error, nat option list \<times> nat list) result" where
  "walk_up es start depth stack cursor =
     (case en_parent (es ! cursor) of
        None \<Rightarrow> Inr (depth[cursor := Some 0], stack)
      | Some parent \<Rightarrow>
          (case id_pos es parent of
             None \<Rightarrow> Inl (UnknownParent (en_id (es ! cursor)) parent)
           | Some parent_index \<Rightarrow>
               if depth ! parent_index \<noteq> None then Inr (depth, cursor # stack)
               else if length (cursor # stack) > length es then Inl (ChainCycle (en_id (es ! start)))
               else walk_up es start depth (cursor # stack) parent_index))"
  by pat_completeness auto
termination
  by (relation "measure (\<lambda>(es, start, depth, stack, cursor). Suc (length es) - length stack)") auto

declare walk_up.simps [simp del]

fun unwind :: "entry list \<Rightarrow> nat option list \<Rightarrow> nat list \<Rightarrow> nat option list" where
  "unwind es depth [] = depth"
| "unwind es depth (node # stack) =
     unwind es (depth[node := map_option Suc (depth ! the (id_pos es (the (en_parent (es ! node)))))]) stack"

definition depth_step ::
  "entry list \<Rightarrow> nat \<Rightarrow> nat option list \<Rightarrow> (session_error, nat option list) result" where
  "depth_step es start depth =
     (if depth ! start \<noteq> None then Inr depth
      else try_then (walk_up es start depth [] start) (\<lambda>(depth, stack). Inr (unwind es depth stack)))"

definition chain_depths :: "entry list \<Rightarrow> (session_error, nat list) result" where
  "chain_depths es =
     try_then (try_fold (depth_step es) [0..<length es] (replicate (length es) None))
       (\<lambda>depth. Inr (map the depth))"

fun check_seqs :: "entry list \<Rightarrow> nat option list \<Rightarrow> nat list \<Rightarrow> (session_error, unit) result" where
  "check_seqs (e # es) (seq # seqs) (d # ds) =
     (case seq of
        None \<Rightarrow> Inl (SeqMissing (en_id e))
      | Some s \<Rightarrow> if s = d then check_seqs es seqs ds else Inl (SeqMismatch (en_id e) s d))"
| "check_seqs _ _ _ = Inr ()"

definition inverted :: "entry list \<Rightarrow> bool" where
  "inverted es =
     list_ex (\<lambda>i. case en_parent (es ! i) of Some p \<Rightarrow> the (id_pos es p) > i | None \<Rightarrow> False) [0..<length es]"

text \<open>The stable sort keeps the file position as the tie-break.\<close>

definition chain_order :: "entry list \<Rightarrow> nat list \<Rightarrow> entry list" where
  "chain_order es depth = map (\<lambda>i. es ! i) (sort_key (\<lambda>i. depth ! i) [0..<length es])"

definition tail_cursor :: "entry list \<Rightarrow> str option" where
  "tail_cursor es = (if es = [] then None else leaf_cursor_after (last es))"

record parsed_file =
  pf_header :: header
  pf_version :: nat
  pf_entries :: "entry list"
  pf_seq :: "str \<Rightarrow> nat option"
  pf_leaf :: "str option"
  pf_needs_rewrite :: bool

definition assemble :: "header \<Rightarrow> nat \<Rightarrow> (entry \<times> nat option) list \<Rightarrow> (session_error, parsed_file) result" where
  "assemble h version rows =
     (let es = map fst rows in
      try_then (chain_depths es) (\<lambda>depth.
      try_then (if version \<ge> FORMAT_VERSION then check_seqs es (map snd rows) depth else Inr ()) (\<lambda>_.
        let needs_rewrite = inverted es;
            es' = (if needs_rewrite then chain_order es depth else es)
        in Inr \<lparr>pf_header = h, pf_version = version, pf_entries = es',
                pf_seq = map_of (zip (map en_id es) depth), pf_leaf = tail_cursor es',
                pf_needs_rewrite = needs_rewrite\<rparr>)))"

definition parse_header :: "wire \<Rightarrow> str \<Rightarrow> (session_error, nat \<times> header) result" where
  "parse_header w line =
     (case wr_parse w line of
        None \<Rightarrow> Inl HeaderInvalid
      | Some value \<Rightarrow>
          try_then (validate_header_wire value) (\<lambda>_.
          case wr_header w value of None \<Rightarrow> Inl HeaderInvalid | Some vh \<Rightarrow> Inr vh))"

definition parse_file :: "wire \<Rightarrow> str \<Rightarrow> (session_error, parsed_file) result" where
  "parse_file w bytes =
     (if bytes = [] then Inl FileEmpty
      else
        let ends_with_newline = (last bytes = NL);
            raw_lines = split_on NL bytes
        in if blank (hd raw_lines) then Inl HeaderBlank
           else
             try_then (parse_header w (hd raw_lines)) (\<lambda>(version, h).
             try_then (parse_entry_lines w ends_with_newline [] (filter (\<lambda>l. \<not> blank l) (tl raw_lines))) (\<lambda>rows.
               assemble h version rows)))"

section \<open>Depths\<close>

text \<open>The reference: the depth of an id in the tree spanned by a set of entries.\<close>

inductive dep :: "entry set \<Rightarrow> str \<Rightarrow> nat \<Rightarrow> bool" for E where
  dep_root: "e \<in> E \<Longrightarrow> en_parent e = None \<Longrightarrow> dep E (en_id e) 0"
| dep_step: "e \<in> E \<Longrightarrow> en_parent e = Some p \<Longrightarrow> dep E p d \<Longrightarrow> dep E (en_id e) (Suc d)"

definition unique_ids :: "entry list \<Rightarrow> bool" where
  "unique_ids es \<longleftrightarrow> distinct (map en_id es)"

lemma unique_idsD: "unique_ids es \<Longrightarrow> e \<in> set es \<Longrightarrow> e' \<in> set es \<Longrightarrow> en_id e = en_id e' \<Longrightarrow> e = e'"
  by (auto simp: unique_ids_def distinct_map dest: inj_onD)

lemma dep_root_iff:
  assumes "unique_ids es" "e \<in> set es" "en_parent e = None"
  shows "dep (set es) (en_id e) d \<longleftrightarrow> d = 0"
proof
  assume "dep (set es) (en_id e) d"
  then show "d = 0"
  proof cases
    case (dep_step e' p d')
    then have "e' = e" using unique_idsD [OF assms(1) _ assms(2)] by simp
    then show ?thesis using dep_step assms(3) by simp
  qed simp
qed (use assms in \<open>auto intro: dep.dep_root\<close>)

lemma dep_step_iff:
  assumes "unique_ids es" "e \<in> set es" "en_parent e = Some p"
  shows "dep (set es) (en_id e) d \<longleftrightarrow> (\<exists>d'. d = Suc d' \<and> dep (set es) p d')"
proof
  assume "dep (set es) (en_id e) d"
  then show "\<exists>d'. d = Suc d' \<and> dep (set es) p d'"
  proof cases
    case (dep_root e')
    then have "e' = e" using unique_idsD [OF assms(1) _ assms(2)] by simp
    then show ?thesis using dep_root assms(3) by simp
  next
    case (dep_step e' p' d')
    then have "e' = e" using unique_idsD [OF assms(1) _ assms(2)] by simp
    then show ?thesis using dep_step assms(3) by simp
  qed
qed (use assms in \<open>auto intro: dep.dep_step\<close>)

lemma dep_unique:
  assumes "unique_ids es" "dep (set es) i d" "dep (set es) i d'"
  shows "d = d'"
  using assms(2,3)
proof (induction arbitrary: d')
  case (dep_root e)
  then show ?case using dep_root_iff [OF assms(1)] by simp
next
  case (dep_step e p d)
  obtain d'' where "d' = Suc d''" "dep (set es) p d''"
    using dep_step_iff [OF assms(1) dep_step.hyps(1,2)] dep_step.prems by blast
  then show ?case using dep_step.IH by blast
qed

lemma dep_entry: "dep (set es) i d \<Longrightarrow> \<exists>e \<in> set es. en_id e = i"
  by (erule dep.cases) auto

lemma id_pos_iff:
  assumes "unique_ids es"
  shows "id_pos es p = Some j \<longleftrightarrow> j < length es \<and> en_id (es ! j) = p"
proof -
  have "id_pos es p = Some j \<longleftrightarrow> (p, j) \<in> set (zip (map en_id es) [0..<length es])"
    using assms by (simp add: id_pos_def unique_ids_def)
  also have "\<dots> \<longleftrightarrow> j < length es \<and> en_id (es ! j) = p"
  proof
    assume "(p, j) \<in> set (zip (map en_id es) [0..<length es])"
    then show "j < length es \<and> en_id (es ! j) = p" by (auto simp: set_zip)
  next
    assume "j < length es \<and> en_id (es ! j) = p"
    then show "(p, j) \<in> set (zip (map en_id es) [0..<length es])"
      by (simp add: in_set_zip) (intro exI [of _ j], simp)
  qed
  finally show ?thesis .
qed

lemma id_pos_None: "unique_ids es \<Longrightarrow> id_pos es p = None \<longleftrightarrow> p \<notin> en_id ` set es"
  by (auto simp: id_pos_def unique_ids_def map_of_zip_is_None)

text \<open>The memo of the walk holds depths, and the walk's stack is a path whose top has a known parent.\<close>

definition memo :: "entry list \<Rightarrow> nat option list \<Rightarrow> bool" where
  "memo es depth \<longleftrightarrow>
     length depth = length es \<and> (\<forall>i < length es. \<forall>d. depth ! i = Some d \<longrightarrow> dep (set es) (en_id (es ! i)) d)"

definition grows :: "nat option list \<Rightarrow> nat option list \<Rightarrow> bool" where
  "grows depth depth' \<longleftrightarrow> (\<forall>i < length depth. depth ! i \<noteq> None \<longrightarrow> depth' ! i \<noteq> None)"

fun linked :: "entry list \<Rightarrow> nat list \<Rightarrow> nat \<Rightarrow> bool" where
  "linked es [] c = True"
| "linked es (n # stack) c =
     (n < length es \<and> (\<exists>p. en_parent (es ! n) = Some p \<and> id_pos es p = Some c) \<and> linked es stack n)"

lemma memo_update:
  assumes "memo es depth" "n < length es" "dep (set es) (en_id (es ! n)) d"
  shows "memo es (depth[n := Some d])"
  using assms by (auto simp: memo_def nth_list_update)

lemma unwind_memo:
  assumes "unique_ids es" "memo es depth" "linked es stack c" "c < length es" "depth ! c \<noteq> None"
  shows "memo es (unwind es depth stack) \<and> grows depth (unwind es depth stack)
    \<and> (\<forall>n \<in> set stack. unwind es depth stack ! n \<noteq> None)"
  using assms(2-)
proof (induction stack arbitrary: depth c)
  case Nil
  then show ?case by (simp add: grows_def)
next
  case (Cons n stack)
  obtain p d where p: "en_parent (es ! n) = Some p" "id_pos es p = Some c" and d: "depth ! c = Some d"
    and n: "n < length es" "linked es stack n"
    using Cons.prems by auto
  let ?depth = "depth[n := Some (Suc d)]"
  have "dep (set es) (en_id (es ! c)) d" using Cons.prems(1,3) d by (simp add: memo_def)
  moreover have "en_id (es ! c) = p" using p(2) id_pos_iff [OF assms(1)] by simp
  ultimately have "dep (set es) (en_id (es ! n)) (Suc d)" using p(1) n(1) by (intro dep_step) auto
  then have m: "memo es ?depth" using Cons.prems(1) n(1) by (intro memo_update)
  have len: "length depth = length es" using Cons.prems(1) by (simp add: memo_def)
  have "memo es (unwind es ?depth stack) \<and> grows ?depth (unwind es ?depth stack)
      \<and> (\<forall>n \<in> set stack. unwind es ?depth stack ! n \<noteq> None)"
    using Cons.IH [OF m n(2) n(1)] n(1) len by simp
  then show ?case using p d n(1) len by (auto simp: grows_def nth_list_update)
qed

lemma walk_up_memo:
  assumes "unique_ids es" "memo es depth" "linked es stack cursor" "cursor < length es"
    and "walk_up es start depth stack cursor = Inr (depth', stack')"
  shows "memo es depth' \<and> grows depth depth' \<and> set stack \<subseteq> set stack'
    \<and> (cursor \<in> set stack' \<or> depth' ! cursor \<noteq> None)
    \<and> (\<exists>c < length es. depth' ! c \<noteq> None \<and> linked es stack' c)"
  using assms(2-)
proof (induction es start depth stack cursor rule: walk_up.induct)
  case (1 es start depth stack cursor)
  have len: "length depth = length es" using "1.prems"(1) by (simp add: memo_def)
  show ?case
  proof (cases "en_parent (es ! cursor)")
    case None
    have "dep (set es) (en_id (es ! cursor)) 0" using None "1.prems"(3) by (intro dep_root) auto
    moreover have "depth' = depth[cursor := Some 0]" "stack' = stack"
      using "1.prems"(4) None by (simp_all add: walk_up.simps [of es])
    ultimately show ?thesis
      using "1.prems"(1-3) len memo_update [of es depth cursor 0] by (auto simp: grows_def nth_list_update)
  next
    case (Some p)
    then obtain j where j: "id_pos es p = Some j"
      using "1.prems"(4) by (cases "id_pos es p") (simp_all add: walk_up.simps [of es])
    have jl: "j < length es" using j by (auto simp: id_pos_def dest!: map_of_SomeD set_zip_rightD)
    have l: "linked es (cursor # stack) j" using Some j "1.prems"(2,3) by simp
    show ?thesis
    proof (cases "depth ! j = None")
      case False
      then have "depth' = depth" "stack' = cursor # stack"
        using "1.prems"(4) Some j by (auto simp: walk_up.simps [of es])
      then show ?thesis using "1.prems"(1) l jl False by (auto simp: grows_def)
    next
      case True
      then have w: "walk_up es start depth (cursor # stack) j = Inr (depth', stack')"
        and c: "\<not> length es < length (cursor # stack)"
        using "1.prems"(4) Some j by (auto simp: walk_up.simps [of es start depth stack] split: if_splits)
      show ?thesis using "1.IH" [OF Some j _ c "1.prems"(1) l jl w] True by auto
    qed
  qed
qed

lemma dep_child:
  assumes "unique_ids es" "cursor < length es" "dep (set es) (en_id (es ! cursor)) d" "en_parent (es ! cursor) = Some p"
  shows "\<exists>j d'. id_pos es p = Some j \<and> j < length es \<and> d = Suc d' \<and> dep (set es) (en_id (es ! j)) d'"
proof -
  obtain d' where d': "d = Suc d'" "dep (set es) p d'"
    using dep_step_iff [OF assms(1) nth_mem [OF assms(2)] assms(4)] assms(3) by blast
  then obtain j where "j < length es" "en_id (es ! j) = p" using dep_entry by (metis in_set_conv_nth)
  with d' show ?thesis using id_pos_iff [OF assms(1)] by auto
qed

lemma walk_up_total:
  assumes "unique_ids es" "cursor < length es" "dep (set es) (en_id (es ! cursor)) d"
    and "distinct stack" "\<forall>n \<in> set stack. n < length es \<and> (\<exists>k > d. dep (set es) (en_id (es ! n)) k)"
  shows "\<exists>r. walk_up es start depth stack cursor = Inr r"
  using assms
proof (induction es start depth stack cursor arbitrary: d rule: walk_up.induct)
  case (1 es start depth stack cursor)
  show ?case
  proof (cases "en_parent (es ! cursor)")
    case None
    then show ?thesis by (simp add: walk_up.simps [of es])
  next
    case (Some p)
    obtain j d' where j: "id_pos es p = Some j" "j < length es" "d = Suc d'" "dep (set es) (en_id (es ! j)) d'"
      using dep_child [OF "1.prems"(1-3) Some] by blast
    have "cursor \<notin> set stack" using dep_unique [OF "1.prems"(1,3)] "1.prems"(5) by blast
    then have dist: "distinct (cursor # stack)" using "1.prems"(4) by simp
    have sub: "set (cursor # stack) \<subseteq> {..< length es}" using "1.prems"(2,5) by auto
    have len: "\<not> length es < length (cursor # stack)"
      using card_mono [OF _ sub] distinct_card [OF dist] by simp
    have deep: "\<forall>n \<in> set (cursor # stack). n < length es \<and> (\<exists>k > d'. dep (set es) (en_id (es ! n)) k)"
      using "1.prems"(2,3,5) j(3) by (auto intro: Suc_lessD)
    show ?thesis
    proof (cases "depth ! j = None")
      case False
      then show ?thesis using Some j(1) by (simp add: walk_up.simps [of es])
    next
      case True
      have "\<exists>r. walk_up es start depth (cursor # stack) j = Inr r"
        using "1.IH" [OF Some j(1) _ len "1.prems"(1) j(2,4) dist deep] True by simp
      then show ?thesis using Some j(1) True len by (simp add: walk_up.simps [of es start depth stack])
    qed
  qed
qed

lemma depth_step_memo:
  assumes "unique_ids es" "memo es depth" "start < length es" "depth_step es start depth = Inr depth'"
  shows "memo es depth' \<and> grows depth depth' \<and> depth' ! start \<noteq> None"
proof (cases "depth ! start = None")
  case False
  then show ?thesis using assms(2,4) by (auto simp: depth_step_def grows_def)
next
  case True
  then obtain d1 stack where w: "walk_up es start depth [] start = Inr (d1, stack)" "depth' = unwind es d1 stack"
    using assms(4) by (auto simp: depth_step_def try_then_Inr_iff)
  obtain c where c: "c < length es" "d1 ! c \<noteq> None" "linked es stack c" and m: "memo es d1" "grows depth d1"
    and s: "start \<in> set stack \<or> d1 ! start \<noteq> None"
    using walk_up_memo [OF assms(1,2) _ assms(3) w(1)] by auto
  from unwind_memo [OF assms(1) m(1) c(3,1,2)] show ?thesis
    using m s w(2) assms(2,3) by (auto simp: grows_def memo_def)
qed

lemma depth_step_total:
  assumes "unique_ids es" "start < length es" "\<exists>d. dep (set es) (en_id (es ! start)) d"
  shows "\<exists>depth'. depth_step es start depth = Inr depth'"
  using assms walk_up_total [of es start _ "[]" start depth] by (fastforce simp: depth_step_def)

lemma depth_loop:
  assumes "unique_ids es" "memo es depth" "set starts \<subseteq> {..< length es}"
    and "try_fold (depth_step es) starts depth = Inr depth'"
  shows "memo es depth' \<and> grows depth depth' \<and> (\<forall>s \<in> set starts. depth' ! s \<noteq> None)"
  using assms(2-)
proof (induction starts arbitrary: depth)
  case Nil
  then show ?case by (simp add: grows_def)
next
  case (Cons s starts)
  then obtain d1 where d1: "depth_step es s depth = Inr d1" "try_fold (depth_step es) starts d1 = Inr depth'"
    by (auto simp: try_then_Inr_iff)
  have 1: "memo es d1 \<and> grows depth d1 \<and> d1 ! s \<noteq> None"
    using Cons.prems by (intro depth_step_memo [OF assms(1) _ _ d1(1)]) auto
  moreover have "memo es depth' \<and> grows d1 depth' \<and> (\<forall>s \<in> set starts. depth' ! s \<noteq> None)"
    using Cons.IH [OF _ _ d1(2)] 1 Cons.prems(2) by simp
  moreover have "length d1 = length depth" "s < length depth"
    using 1 Cons.prems(1,2) by (auto simp: memo_def)
  ultimately show ?case by (auto simp: grows_def)
qed

lemma depth_loop_total:
  assumes "unique_ids es" "set starts \<subseteq> {..< length es}" "\<forall>e \<in> set es. \<exists>d. dep (set es) (en_id e) d"
  shows "\<exists>depth'. try_fold (depth_step es) starts depth = Inr depth'"
  using assms(2)
proof (induction starts arbitrary: depth)
  case (Cons s starts)
  then obtain d1 where "depth_step es s depth = Inr d1"
    using depth_step_total [OF assms(1), of s depth] assms(3) by auto
  then show ?case using Cons by simp
qed simp

lemma upto_below: "set [0..<n] \<subseteq> {..< n}"
  by auto

text \<open>The memoized walk computes the reference depths, and fails exactly when some entry has none: its chain
  of parents leaves the file or runs into a cycle.\<close>

lemma chain_depths_Inr:
  assumes "unique_ids es"
  shows "chain_depths es = Inr ds \<longleftrightarrow>
    length ds = length es \<and> (\<forall>i < length es. dep (set es) (en_id (es ! i)) (ds ! i))"
proof
  assume "chain_depths es = Inr ds"
  then obtain depth where depth: "try_fold (depth_step es) [0..<length es] (replicate (length es) None) = Inr depth"
    and ds: "ds = map the depth"
    by (auto simp: chain_depths_def try_then_Inr_iff)
  have "memo es (replicate (length es) None)" by (simp add: memo_def)
  from depth_loop [OF assms this upto_below depth] show "length ds = length es \<and> (\<forall>i < length es. dep (set es) (en_id (es ! i)) (ds ! i))"
    by (auto simp: memo_def ds)
next
  assume r: "length ds = length es \<and> (\<forall>i < length es. dep (set es) (en_id (es ! i)) (ds ! i))"
  then have "\<forall>e \<in> set es. \<exists>d. dep (set es) (en_id e) d" by (metis in_set_conv_nth)
  then obtain depth where depth: "try_fold (depth_step es) [0..<length es] (replicate (length es) None) = Inr depth"
    using depth_loop_total [OF assms upto_below] by blast
  have "memo es (replicate (length es) None)" by (simp add: memo_def)
  from depth_loop [OF assms this upto_below depth] have m: "memo es depth" "\<forall>i < length es. depth ! i \<noteq> None" by auto
  have "map the depth = ds"
  proof (rule nth_equalityI)
    show "length (map the depth) = length ds" using m(1) r by (simp add: memo_def)
    fix i assume "i < length (map the depth)"
    then have i: "i < length es" "i < length depth" using m(1) by (simp_all add: memo_def)
    then obtain d where "depth ! i = Some d" using m(2) by blast
    then show "map the depth ! i = ds ! i"
      using m(1) r i dep_unique [OF assms, of "en_id (es ! i)" d "ds ! i"] by (simp add: memo_def)
  qed
  with depth show "chain_depths es = Inr ds" by (simp add: chain_depths_def)
qed

lemma chain_depths_Inl:
  assumes "unique_ids es"
  shows "(\<exists>err. chain_depths es = Inl err) \<longleftrightarrow> (\<exists>e \<in> set es. \<forall>d. \<not> dep (set es) (en_id e) d)"
proof (cases "chain_depths es")
  case (Inl err)
  have "\<exists>e \<in> set es. \<forall>d. \<not> dep (set es) (en_id e) d"
  proof (rule ccontr)
    assume "\<not> ?thesis"
    then obtain depth where "try_fold (depth_step es) [0..<length es] (replicate (length es) None) = Inr depth"
      using depth_loop_total [OF assms upto_below] by blast
    with Inl show False by (simp add: chain_depths_def)
  qed
  with Inl show ?thesis by simp
next
  case (Inr ds)
  then have "\<forall>e \<in> set es. \<exists>d. dep (set es) (en_id e) d"
    using chain_depths_Inr [OF assms, of ds] by (metis in_set_conv_nth)
  with Inr show ?thesis by auto
qed

end
