(* ===== verification/Session_Storage.thy ===== *)
theory Session_Storage
  imports Session_Log
begin

text \<open>
  The storage of one session (\<^verbatim>\<open>JsonlSessionStorage\<close>, \<^verbatim>\<open>session/jsonl.rs\<close>): the in-memory view of one
  instance, and every operation over it and the one file it is about. An operation holds the instance's lock
  and, while the file exists, the write fence, so it is one step: a function from the view and the file to the
  outcome, the new view and the new file. \<open>None\<close> is an absent file. A view survives an error as the code
  leaves it, so the outcome is beside the view and not around it. The ids and the clock are arguments; the
  bound \<open>2^64\<close> on chain depths is never reached.
\<close>

section \<open>State\<close>

record storage =
  st_entries :: "entry list"
  st_leaf :: "str option"
  st_seq :: "str \<Rightarrow> nat option"
  st_version :: nat
  st_journal :: "(nat \<times> entry) list"
  st_metadata :: header
  st_deferred :: bool
  st_rewrite :: bool
  st_disk_size :: nat

type_synonym disk_file = "str option"
type_synonym outcome = "(session_error, unit) result"

definition fresh_storage :: "header \<Rightarrow> bool \<Rightarrow> nat \<Rightarrow> storage" where
  "fresh_storage h deferred n =
     \<lparr>st_entries = [], st_leaf = None, st_seq = (\<lambda>_. None), st_version = FORMAT_VERSION, st_journal = [],
      st_metadata = h, st_deferred = deferred, st_rewrite = False, st_disk_size = n\<rparr>"

definition has_id :: "storage \<Rightarrow> str \<Rightarrow> bool" where
  "has_id st i = list_ex (\<lambda>e. en_id e = i) (st_entries st)"

section \<open>Creating and opening\<close>

definition create :: "wire \<Rightarrow> header \<Rightarrow> disk_file \<Rightarrow> (session_error, storage \<times> disk_file) result" where
  "create w h f =
     (if f \<noteq> None then Inl FileExists
      else try_then (validate_header_wire (JObj (wr_header_value w FORMAT_VERSION h))) (\<lambda>_.
        Inr (fresh_storage h False (length (session_header_line w h)), Some (session_header_line w h))))"

definition create_deferred :: "wire \<Rightarrow> header \<Rightarrow> disk_file \<Rightarrow> (session_error, storage) result" where
  "create_deferred w h f =
     (if f \<noteq> None then Inl FileExists
      else try_then (validate_header_wire (JObj (wr_header_value w FORMAT_VERSION h))) (\<lambda>_.
        Inr (fresh_storage h True 0)))"

definition load :: "wire \<Rightarrow> disk_file \<Rightarrow> (session_error, storage) result" where
  "load w f =
     (case f of
        None \<Rightarrow> Inl IoError
      | Some bytes \<Rightarrow>
          try_then (parse_file w bytes) (\<lambda>parsed. Inr
            \<lparr>st_entries = pf_entries parsed, st_leaf = pf_leaf parsed, st_seq = pf_seq parsed,
             st_version = pf_version parsed, st_journal = [], st_metadata = pf_header parsed,
             st_deferred = False, st_rewrite = pf_needs_rewrite parsed, st_disk_size = length bytes\<rparr>))"

definition reload_under_fence :: "wire \<Rightarrow> str \<Rightarrow> storage \<Rightarrow> (session_error, storage) result" where
  "reload_under_fence w bytes st =
     try_then (parse_file w bytes) (\<lambda>parsed. Inr (st
       \<lparr>st_entries := pf_entries parsed, st_seq := pf_seq parsed, st_leaf := pf_leaf parsed,
        st_version := pf_version parsed, st_rewrite := pf_needs_rewrite parsed, st_disk_size := length bytes\<rparr>))"

section \<open>Appending\<close>

definition reparent_entry :: "wire \<Rightarrow> entry \<Rightarrow> str option \<Rightarrow> (session_error, entry) result" where
  "reparent_entry w e parent =
     (case wr_entry w (JObj (put_key ''parentId'' (json_of_id parent) (wr_value w e))) of
        None \<Rightarrow> Inl EntryInvalid
      | Some e' \<Rightarrow> Inr e')"

definition seq_after :: "(str \<Rightarrow> nat option) \<Rightarrow> entry \<Rightarrow> (session_error, nat) result" where
  "seq_after index e =
     (case en_parent e of
        None \<Rightarrow> Inr 0
      | Some parent \<Rightarrow>
          (case index parent of
             None \<Rightarrow> Inl (UnknownParent (en_id e) parent)
           | Some depth \<Rightarrow> Inr (depth + 1)))"

definition is_assistant :: "entry \<Rightarrow> bool" where
  "is_assistant e = (case en_body e of Message (AssistantMsg _) _ \<Rightarrow> True | _ \<Rightarrow> False)"

text \<open>The whole-file replace: the header, every indexed entry with its stamped depth, and one more text.\<close>

definition rewrite_file_v4 :: "wire \<Rightarrow> str \<Rightarrow> storage \<Rightarrow> (session_error, storage \<times> str) result" where
  "rewrite_file_v4 w extra st =
     try_then (try_map (\<lambda>e. case st_seq st (en_id e) of
         None \<Rightarrow> Inl (SeqIndexMissing (en_id e))
       | Some seq \<Rightarrow> Inr (v4_line w e seq)) (st_entries st)) (\<lambda>ls.
       Inr (st\<lparr>st_version := FORMAT_VERSION\<rparr>, session_header_line w (st_metadata st) @ concat ls @ extra))"

text \<open>The stale-view guard: when the file is not as long as this view last saw it, the view reloads and an
  append onto what was the leaf is pointed at the current one.\<close>

definition refresh :: "wire \<Rightarrow> entry \<Rightarrow> storage \<Rightarrow> disk_file \<Rightarrow> (session_error, entry) result \<times> storage" where
  "refresh w e st f =
     (case f of
        None \<Rightarrow> (Inr e, st)
      | Some bytes \<Rightarrow>
          if length bytes = st_disk_size st then (Inr e, st)
          else case reload_under_fence w bytes st of
            Inl err \<Rightarrow> (Inl err, st)
          | Inr st' \<Rightarrow>
              (try_then
                 (if en_parent e = st_leaf st \<and> en_parent e \<noteq> st_leaf st' then reparent_entry w e (st_leaf st')
                  else Inr e)
                 (\<lambda>e'. if has_id st' (en_id e') then Inl (DuplicateId (en_id e')) else Inr e'), st'))"

definition write_line ::
  "wire \<Rightarrow> entry \<Rightarrow> str \<Rightarrow> bool \<Rightarrow> storage \<Rightarrow> disk_file \<Rightarrow> (session_error, storage \<times> disk_file) result" where
  "write_line w e line force st f =
     (if st_deferred st then
        if is_assistant e \<or> force then
          try_then (rewrite_file_v4 w line st) (\<lambda>(st', content).
            Inr (st'\<lparr>st_deferred := False, st_disk_size := length content\<rparr>, Some content))
        else Inr (st, f)
      else
        case f of
          None \<Rightarrow>
            try_then (rewrite_file_v4 w line st) (\<lambda>(st', content).
              Inr (st'\<lparr>st_rewrite := False, st_disk_size := length content\<rparr>, Some content))
        | Some bytes \<Rightarrow>
            if st_version st < FORMAT_VERSION \<or> st_rewrite st then
              try_then (rewrite_file_v4 w line st) (\<lambda>(st', content).
                Inr (st'\<lparr>st_rewrite := False, st_disk_size := length content\<rparr>, Some content))
            else Inr (st\<lparr>st_disk_size := st_disk_size st + length line\<rparr>, Some (bytes @ line)))"

definition index_entry :: "entry \<Rightarrow> nat \<Rightarrow> storage \<Rightarrow> storage" where
  "index_entry e seq st =
     st\<lparr>st_entries := st_entries st @ [e], st_seq := (st_seq st)(en_id e \<mapsto> seq),
        st_leaf := leaf_cursor_after e, st_journal := st_journal st @ [(seq, e)]\<rparr>"

definition stamp_entry ::
  "wire \<Rightarrow> bool \<Rightarrow> entry \<Rightarrow> storage \<Rightarrow> disk_file \<Rightarrow> outcome \<times> storage \<times> disk_file" where
  "stamp_entry w force e st f =
     (case seq_after (st_seq st) e of
        Inl err \<Rightarrow> (Inl err, st, f)
      | Inr seq \<Rightarrow>
          (case write_line w e (v4_line w e seq) force st f of
             Inl err \<Rightarrow> (Inl err, st, f)
           | Inr (st', f') \<Rightarrow> (Inr (), index_entry e seq st', f')))"

definition append_entry_locked ::
  "wire \<Rightarrow> bool \<Rightarrow> entry \<Rightarrow> storage \<Rightarrow> disk_file \<Rightarrow> outcome \<times> storage \<times> disk_file" where
  "append_entry_locked w force e0 st0 f =
     (if en_id e0 = [] then (Inl EmptyId, st0, f)
      else if has_id st0 (en_id e0) then (Inl (DuplicateId (en_id e0)), st0, f)
      else
        case refresh w e0 st0 f of
          (Inl err, st) \<Rightarrow> (Inl err, st, f)
        | (Inr e, st) \<Rightarrow> stamp_entry w force e st f)"

definition set_leaf_id ::
  "wire \<Rightarrow> str \<Rightarrow> int \<Rightarrow> str option \<Rightarrow> storage \<Rightarrow> disk_file \<Rightarrow> outcome \<times> storage \<times> disk_file" where
  "set_leaf_id w new_id now target st f =
     (if (case target of Some i \<Rightarrow> \<not> has_id st i | None \<Rightarrow> False) then (Inl (NotFound (the target)), st, f)
      else append_entry_locked w False (Entry new_id (st_leaf st) now (Leaf target)) st f)"

section \<open>Appending a batch\<close>

text \<open>Phase 1: validate and serialize the whole batch against the ids and depths of the view.\<close>

fun batch_lines ::
  "wire \<Rightarrow> storage \<Rightarrow> (str \<Rightarrow> nat option) \<Rightarrow> str list \<Rightarrow> entry list \<Rightarrow> (session_error, str \<times> nat list) result" where
  "batch_lines w st depths batch_ids [] = Inr ([], [])"
| "batch_lines w st depths batch_ids (e # es) =
     (if en_id e = [] then Inl EmptyId
      else if has_id st (en_id e) \<or> en_id e \<in> set batch_ids then Inl (DuplicateId (en_id e))
      else try_then (seq_after depths e) (\<lambda>seq.
           try_then (batch_lines w st (depths(en_id e \<mapsto> seq)) (en_id e # batch_ids) es) (\<lambda>(text, seqs).
             Inr (v4_line w e seq @ text, seq # seqs))))"

fun append_each :: "wire \<Rightarrow> entry list \<Rightarrow> storage \<Rightarrow> disk_file \<Rightarrow> outcome \<times> storage \<times> disk_file" where
  "append_each w [] st f = (Inr (), st, f)"
| "append_each w (e # es) st f =
     (case append_entry_locked w False e st f of
        (Inl err, st', f') \<Rightarrow> (Inl err, st', f')
      | (Inr _, st', f') \<Rightarrow> append_each w es st' f')"

fun index_seqs :: "(str \<Rightarrow> nat option) \<Rightarrow> entry list \<Rightarrow> nat list \<Rightarrow> str \<Rightarrow> nat option" where
  "index_seqs index (e # es) (seq # seqs) = index_seqs (index(en_id e \<mapsto> seq)) es seqs"
| "index_seqs index _ _ = index"

definition index_batch :: "entry list \<Rightarrow> nat list \<Rightarrow> storage \<Rightarrow> storage" where
  "index_batch es seqs st =
     st\<lparr>st_entries := st_entries st @ es, st_seq := index_seqs (st_seq st) es seqs,
        st_leaf := leaf_cursor_after (last es), st_journal := st_journal st @ zip seqs es\<rparr>"

definition append_entries :: "wire \<Rightarrow> entry list \<Rightarrow> storage \<Rightarrow> disk_file \<Rightarrow> outcome \<times> storage \<times> disk_file" where
  "append_entries w es st0 f =
     (if st_deferred st0 then (Inl Deferred, st0, f)
      else if st_version st0 < FORMAT_VERSION then (Inl OldVersion, st0, f)
      else if es = [] then (Inr (), st0, f)
      else
        case (case f of
                Some bytes \<Rightarrow> if length bytes = st_disk_size st0 then Inr st0 else reload_under_fence w bytes st0
              | None \<Rightarrow> Inr st0) of
          Inl err \<Rightarrow> (Inl err, st0, f)
        | Inr st \<Rightarrow>
            if st_version st < FORMAT_VERSION then (Inl OldVersion, st, f)
            else if st_rewrite st then append_each w es st f
            else
              (case batch_lines w st (st_seq st) [] es of
                 Inl err \<Rightarrow> (Inl err, st, f)
               | Inr (text, seqs) \<Rightarrow>
                   (case f of
                      Some bytes \<Rightarrow>
                        (Inr (), index_batch es seqs (st\<lparr>st_disk_size := st_disk_size st + length text\<rparr>),
                         Some (bytes @ text))
                    | None \<Rightarrow>
                        (case rewrite_file_v4 w text st of
                           Inl err \<Rightarrow> (Inl err, st, f)
                         | Inr (st', content) \<Rightarrow>
                             (Inr (), index_batch es seqs (st'\<lparr>st_rewrite := False, st_disk_size := length content\<rparr>),
                              Some content)))))"

section \<open>Reading\<close>

definition get_entry :: "storage \<Rightarrow> str \<Rightarrow> entry option" where
  "get_entry st i = find (\<lambda>e. en_id e = i) (st_entries st)"

definition get_leaf_id :: "storage \<Rightarrow> (session_error, str option) result" where
  "get_leaf_id st =
     (case st_leaf st of
        Some i \<Rightarrow> if has_id st i then Inr (Some i) else Inl (LeafNotFound i)
      | None \<Rightarrow> Inr None)"

definition get_entries :: "nat \<Rightarrow> nat option \<Rightarrow> storage \<Rightarrow> entry list" where
  "get_entries after limit st =
     (let tail = drop after (st_entries st) in case limit of Some n \<Rightarrow> take n tail | None \<Rightarrow> tail)"

definition get_label :: "storage \<Rightarrow> str \<Rightarrow> str option" where
  "get_label st i =
     (case List.map_filter (\<lambda>e. case en_body e of
         Label t label \<Rightarrow> if t = i then Some (trim (case label of Some l \<Rightarrow> l | None \<Rightarrow> [])) else None
       | _ \<Rightarrow> None) (st_entries st) of
        [] \<Rightarrow> None
      | ls \<Rightarrow> if last ls = [] then None else Some (last ls))"

definition get_session_name :: "storage \<Rightarrow> str option" where
  "get_session_name st =
     (case List.map_filter (\<lambda>e. case en_body e of
         SessionInfo name \<Rightarrow> Some (trim (case name of Some n \<Rightarrow> n | None \<Rightarrow> []))
       | _ \<Rightarrow> None) (st_entries st) of
        [] \<Rightarrow> None
      | ns \<Rightarrow> if last ns = [] then None else Some (last ns))"

text \<open>The walk removes every entry it visits from its index; the index collected from a list keeps the last
  entry of an id.\<close>

definition drop_id :: "str \<Rightarrow> entry list \<Rightarrow> entry list" where
  "drop_id i = filter (\<lambda>e. en_id e \<noteq> i)"

lemma drop_id_shorter: "find (\<lambda>e. en_id e = i) (rev es) = Some e \<Longrightarrow> length (drop_id i es) < length es"
  unfolding drop_id_def
proof (rule length_filter_less [of e])
  assume "find (\<lambda>e. en_id e = i) (rev es) = Some e"
  then obtain k where "k < length (rev es)" "e = rev es ! k" "en_id e = i" by (auto simp: find_Some_iff)
  then show "e \<in> set es" "\<not> en_id e \<noteq> i" using nth_mem [of k "rev es"] by simp_all
qed

function walk_chain :: "entry list \<Rightarrow> str option \<Rightarrow> (session_error, entry list) result" where
  "walk_chain index None = Inr []"
| "walk_chain index (Some i) =
     (case find (\<lambda>e. en_id e = i) (rev index) of
        None \<Rightarrow> Inl (ChainBroken i)
      | Some e \<Rightarrow> try_then (walk_chain (drop_id i index) (en_parent e)) (\<lambda>es. Inr (e # es)))"
  by pat_completeness auto
termination
  by (relation "measure (\<lambda>(index, i). length index)") (auto dest: drop_id_shorter)

declare walk_chain.simps(2) [simp del]

definition get_path :: "storage \<Rightarrow> str option \<Rightarrow> (session_error, entry list) result" where
  "get_path st leaf =
     (case leaf of
        None \<Rightarrow> Inr []
      | Some i \<Rightarrow>
          if has_id st i then try_then (walk_chain (st_entries st) (Some i)) (\<lambda>es. Inr (rev es))
          else Inl (NotFound i))"

definition journal_cursor :: "storage \<Rightarrow> nat" where
  "journal_cursor st =
     (case st_leaf st of None \<Rightarrow> 0 | Some i \<Rightarrow> (case st_seq st i of Some s \<Rightarrow> s | None \<Rightarrow> 0))"

definition journal_range :: "nat \<Rightarrow> nat \<Rightarrow> storage \<Rightarrow> (session_error, (nat \<times> entry) list) result" where
  "journal_range from_seq to_seq st =
     (case st_leaf st of
        None \<Rightarrow> Inr []
      | Some i \<Rightarrow>
          if has_id st i then
            try_then (walk_chain (st_entries st) (Some i)) (\<lambda>es.
              Inr (filter (\<lambda>(seq, e). from_seq \<le> seq \<and> seq \<le> to_seq) (enumerate 0 (rev es))))
          else Inr [])"

end
