(* ===== verification/Session_File.thy ===== *)
theory Session_File
  imports Session_Log
begin

text \<open>
  What the loader makes of the files the storage writes: any file of stamped lines whose entries form a tree
  loads, in whatever order the lines are, with every entry at its depth and parents before children; a torn
  last line is dropped. The laws of the parameter \<open>w\<close> are what \<^verbatim>\<open>serde_json\<close> and the derived serializations
  do: texts parse back, contain no newline, no object's text has a proper prefix that parses, and an object's
  text behind a part of another one's is not a text; an entry is written with its envelope keys and read back
  as it was, except for the caller's id of a user message, which is never written, and under another parent
  when that key was replaced.
\<close>

section \<open>Laws of the wire\<close>

fun durable_msg :: "message \<Rightarrow> message" where
  "durable_msg (UserMsg content t i) = UserMsg content t None"
| "durable_msg m = m"

fun durable_body :: "entry_body \<Rightarrow> entry_body" where
  "durable_body (Message m origin) = Message (durable_msg m) origin"
| "durable_body (Compaction s f t tail u d h) = Compaction s f t (map_option (map durable_msg) tail) u d h"
| "durable_body b = b"

definition durable :: "entry \<Rightarrow> entry" where
  "durable e = Entry (en_id e) (en_parent e) (en_time e) (durable_body (en_body e))"

definition with_parent :: "str option \<Rightarrow> entry \<Rightarrow> entry" where
  "with_parent p e = Entry (en_id e) p (en_time e) (en_body e)"

definition text_laws :: "wire \<Rightarrow> bool" where
  "text_laws w \<longleftrightarrow>
     (\<forall>v. wr_parse w (wr_print w v) = Some v \<and> NL \<notin> set (wr_print w v))
     \<and> (\<forall>fs. \<not> blank (wr_print w (JObj fs)))
     \<and> (\<forall>fs p s. wr_print w (JObj fs) = p @ s \<and> s \<noteq> [] \<longrightarrow> wr_parse w p = None)
     \<and> (\<forall>fs gs p s. wr_print w (JObj fs) = p @ s \<and> p \<noteq> [] \<longrightarrow> wr_parse w (p @ wr_print w (JObj gs)) = None)"

definition entry_laws :: "wire \<Rightarrow> bool" where
  "entry_laws w \<longleftrightarrow>
     (\<forall>e. map_of (wr_value w e) ''parentId'' = Some (json_of_id (en_parent e))
          \<and> (case en_body e of
               Leaf t \<Rightarrow> map_of (wr_value w e) ''targetId'' = Some (json_of_id t)
             | _ \<Rightarrow> map_of (wr_value w e) ''type'' \<noteq> Some (JStr ''leaf''))
          \<and> wr_value w (durable e) = wr_value w e
          \<and> (\<forall>n. wr_entry w (JObj (put_key ''seq'' (JNum n) (wr_value w e))) = Some (durable e))
          \<and> (\<forall>p. wr_entry w (JObj (put_key ''parentId'' (json_of_id p) (wr_value w e))) = Some (with_parent p (durable e))))"

definition session_header_ok :: "header \<Rightarrow> bool" where
  "session_header_ok h \<longleftrightarrow> hd_id h \<noteq> [] \<and> hd_cwd h \<noteq> []"

definition header_laws :: "wire \<Rightarrow> bool" where
  "header_laws w \<longleftrightarrow>
     (\<forall>v h. let fs = wr_header_value w v h in
        map_of fs ''type'' = Some (JStr ''session'') \<and> map_of fs ''version'' = Some (JNum (int v))
        \<and> map_of fs ''id'' = Some (JStr (hd_id h)) \<and> map_of fs ''cwd'' = Some (JStr (hd_cwd h))
        \<and> is_string (map_of fs ''timestamp'')
        \<and> map_of fs ''parentSession'' = map_option JStr (hd_parent_session h)
        \<and> map_of fs ''metadata'' = map_option JObj (hd_metadata h)
        \<and> wr_header w (JObj fs) = Some (v, h))"

definition wire_ok :: "wire \<Rightarrow> bool" where
  "wire_ok w \<longleftrightarrow> text_laws w \<and> entry_laws w \<and> header_laws w"

lemma text_lawsD:
  assumes "text_laws w"
  shows "wr_parse w (wr_print w v) = Some v" "NL \<notin> set (wr_print w v)" "\<not> blank (wr_print w (JObj fs))"
    and "wr_print w (JObj fs) = p @ s \<Longrightarrow> s \<noteq> [] \<Longrightarrow> wr_parse w p = None"
    and "wr_print w (JObj fs) = p @ s \<Longrightarrow> p \<noteq> [] \<Longrightarrow> wr_parse w (p @ wr_print w (JObj gs)) = None"
  using assms unfolding text_laws_def by blast+

section \<open>Files\<close>

definition row_line :: "wire \<Rightarrow> entry \<times> nat \<Rightarrow> str" where
  "row_line w r = wr_print w (JObj (put_key ''seq'' (JNum (int (snd r))) (wr_value w (fst r))))"

definition depths :: "entry list \<Rightarrow> nat list" where
  "depths es = (case chain_depths es of Inr ds \<Rightarrow> ds | Inl _ \<Rightarrow> [])"

definition rows_of :: "entry list \<Rightarrow> (entry \<times> nat) list" where
  "rows_of es = zip es (depths es)"

definition file_of :: "wire \<Rightarrow> header \<Rightarrow> entry list \<Rightarrow> str" where
  "file_of w h es = session_header_line w h @ concat (map (\<lambda>r. v4_line w (fst r) (snd r)) (rows_of es))"

text \<open>A tree of entries: unique non-empty ids, and every entry has a depth.\<close>

definition tree_ok :: "entry list \<Rightarrow> bool" where
  "tree_ok es \<longleftrightarrow>
     unique_ids es \<and> [] \<notin> en_id ` set es \<and> (\<forall>e \<in> set es. \<exists>d. dep (set es) (en_id e) d) \<and> length es \<le> 2 ^ 64"

lemma durable_fields [simp]:
  "en_id (durable e) = en_id e" "en_parent (durable e) = en_parent e" "en_time (durable e) = en_time e"
  "leaf_cursor_after (durable e) = leaf_cursor_after e"
proof -
  show "en_id (durable e) = en_id e" "en_parent (durable e) = en_parent e" "en_time (durable e) = en_time e"
    by (simp_all add: durable_def)
  show "leaf_cursor_after (durable e) = leaf_cursor_after e"
    by (cases "en_body e") (simp_all add: durable_def leaf_cursor_after_def)
qed

lemma durable_idem [simp]: "durable (durable e) = durable e"
proof -
  have m: "durable_msg (durable_msg m) = durable_msg m" for m by (cases m) simp_all
  then have "durable_body (durable_body b) = durable_body b" for b
    by (cases b) (simp_all add: option.map_comp comp_def m)
  then show ?thesis by (simp add: durable_def)
qed

lemma durable_ids [simp]: "map en_id (map durable es) = map en_id es" "unique_ids (map durable es) = unique_ids es"
  by (simp_all add: unique_ids_def comp_def)

lemma dep_durable [simp]: "dep (durable ` E) i d = dep E i d"
proof
  show "dep (durable ` E) i d \<Longrightarrow> dep E i d"
  proof (induction rule: dep.induct)
    case (dep_root e)
    then show ?case using dep.dep_root [of _ E] by fastforce
  next
    case (dep_step e p d)
    then show ?case using dep.dep_step [of _ E] by fastforce
  qed
  show "dep E i d \<Longrightarrow> dep (durable ` E) i d"
  proof (induction rule: dep.induct)
    case (dep_root e)
    then show ?case using dep.dep_root [of "durable e" "durable ` E"] by simp
  next
    case (dep_step e p d)
    then show ?case using dep.dep_step [of "durable e" "durable ` E"] by simp
  qed
qed

lemma tree_ok_durable [simp]: "tree_ok (map durable es) = tree_ok es"
  by (simp add: tree_ok_def image_image)

lemma depths_dep:
  assumes "tree_ok es"
  shows "length (depths es) = length es" "\<And>i. i < length es \<Longrightarrow> dep (set es) (en_id (es ! i)) (depths es ! i)"
    and "chain_depths es = Inr (depths es)"
proof -
  have u: "unique_ids es" using assms by (simp add: tree_ok_def)
  obtain ds where ds: "chain_depths es = Inr ds"
    using chain_depths_Inl [OF u] assms by (cases "chain_depths es") (auto simp: tree_ok_def)
  then show "chain_depths es = Inr (depths es)" by (simp add: depths_def)
  with chain_depths_Inr [OF u, of "depths es"]
  show "length (depths es) = length es" "\<And>i. i < length es \<Longrightarrow> dep (set es) (en_id (es ! i)) (depths es ! i)"
    by simp_all
qed

lemma chain_depths_durable:
  assumes "tree_ok es"
  shows "chain_depths (map durable es) = Inr (depths es)"
proof -
  have "unique_ids (map durable es)" using assms by (simp add: tree_ok_def)
  then show ?thesis using depths_dep [OF assms] by (simp add: chain_depths_Inr)
qed

lemma dep_below: "dep E i d \<Longrightarrow> k \<le> d \<Longrightarrow> \<exists>j. dep E j k"
proof (induction rule: dep.induct)
  case (dep_root e)
  then show ?case using dep.dep_root [of e E] by auto
next
  case (dep_step e p d)
  then show ?case using dep.dep_step [of e E p d] by (cases "k = Suc d") auto
qed

lemma dep_bound:
  assumes "unique_ids es" "dep (set es) i d"
  shows "d < length es"
proof -
  define f where "f k = (SOME j. dep (set es) j k)" for k
  have f: "dep (set es) (f k) k" if "k \<le> d" for k
    unfolding f_def using dep_below [OF assms(2) that] by (rule someI_ex)
  have "inj_on f {..d}" using f dep_unique [OF assms(1)] by (metis atMost_iff inj_onI)
  moreover have "f ` {..d} \<subseteq> set (map en_id es)"
  proof
    fix x assume "x \<in> f ` {..d}"
    then obtain k where "k \<le> d" "x = f k" by auto
    then obtain e where "e \<in> set es" "en_id e = x" using dep_entry [OF f] by blast
    then show "x \<in> set (map en_id es)" by auto
  qed
  ultimately have "card {..d} \<le> card (set (map en_id es))" by (intro card_inj_on_le) auto
  then show ?thesis using card_length [of "map en_id es"] by simp
qed

lemma depths_bound:
  assumes "tree_ok es" "d \<in> set (depths es)"
  shows "d < 2 ^ 64"
proof -
  obtain i where "i < length es" "depths es ! i = d"
    using assms(2) depths_dep(1) [OF assms(1)] by (auto simp: in_set_conv_nth)
  then have "dep (set es) (en_id (es ! i)) d" using depths_dep(2) [OF assms(1)] by blast
  moreover have "unique_ids es" "length es \<le> 2 ^ 64" using assms(1) by (simp_all add: tree_ok_def)
  ultimately show ?thesis using dep_bound by fastforce
qed

lemma map_of_put_key: "map_of (put_key k v fs) k' = (if k' = k then Some v else map_of fs k')"
  by (induction k v fs rule: put_key.induct) auto

lemma as_u64_int: "n < 2 ^ 64 \<Longrightarrow> as_u64 (JNum (int n)) = Some n"
  by (simp add: nat_less_iff)

lemma row_valid:
  assumes "entry_laws w"
  shows "validate_entry_wire (JObj (put_key ''seq'' (JNum n) (wr_value w e))) = Inr ()"
proof -
  have null: "null_or_string (Some (json_of_id x))" for x by (cases x) (simp_all add: null_or_string_def json_of_id_def)
  have e: "map_of (wr_value w e) ''parentId'' = Some (json_of_id (en_parent e))"
    "case en_body e of Leaf t \<Rightarrow> map_of (wr_value w e) ''targetId'' = Some (json_of_id t)
       | _ \<Rightarrow> map_of (wr_value w e) ''type'' \<noteq> Some (JStr ''leaf'')"
    using assms by (auto simp: entry_laws_def)
  have leaf: "map_of (wr_value w e) ''type'' \<noteq> Some (JStr ''leaf'') \<or> null_or_string (map_of (wr_value w e) ''targetId'')"
    using e(2) null by (cases "en_body e") auto
  have "Option.bind v as_str = Some k \<Longrightarrow> v = Some (JStr k)" for v k
    by (cases v; cases "the v") auto
  then show ?thesis
    using leaf by (auto simp: validate_entry_wire_def map_of_put_key e(1) null is_object_def Let_def split: option.splits)
qed

lemma parse_entry_lines_rows:
  assumes w: "wire_ok w"
    and "distinct (map (en_id \<circ> fst) rows)" "\<forall>r \<in> set rows. en_id (fst r) \<noteq> [] \<and> en_id (fst r) \<notin> set seen \<and> snd r < 2 ^ 64"
  shows "parse_entry_lines w nl seen (map (row_line w) rows @ tail) =
    try_then (parse_entry_lines w nl (rev (map (en_id \<circ> fst) rows) @ seen) tail)
      (\<lambda>rest. Inr (map (\<lambda>(e, d). (durable e, Some d)) rows @ rest))"
  using assms(2,3)
proof (induction rows arbitrary: seen)
  case Nil
  then show ?case by (cases "parse_entry_lines w nl seen tail") simp_all
next
  case (Cons r rows)
  obtain e d where r: "r = (e, d)" by (cases r)
  let ?v = "JObj (put_key ''seq'' (JNum (int d)) (wr_value w e))"
  have "wr_parse w (row_line w r) = Some ?v" "wr_entry w ?v = Some (durable e)"
    using w by (simp_all add: wire_ok_def text_lawsD entry_laws_def row_line_def r)
  moreover have "validate_entry_wire ?v = Inr ()" using w row_valid by (simp add: wire_ok_def)
  moreover have "Option.bind (json_get ''seq'' ?v) as_u64 = Some d"
    using Cons.prems(2) by (simp add: map_of_put_key r as_u64_int del: as_u64.simps)
  moreover have "parse_entry_lines w nl (en_id e # seen) (map (row_line w) rows @ tail)
      = try_then (parse_entry_lines w nl (rev (map (en_id \<circ> fst) rows) @ en_id e # seen) tail)
          (\<lambda>rest. Inr (map (\<lambda>(e, d). (durable e, Some d)) rows @ rest))"
    using Cons.prems by (intro Cons.IH) (auto simp: r rev_image_eqI)
  ultimately show ?case
    using Cons.prems
    by (cases "parse_entry_lines w nl (rev (map (en_id \<circ> fst) rows) @ en_id e # seen) tail") (simp_all add: r comp_def del: json_get.simps)
qed

lemma check_seqs_same: "length ds = length es \<Longrightarrow> check_seqs es (map Some ds) ds = Inr ()"
proof (induction ds arbitrary: es)
  case (Cons d ds)
  then show ?case by (cases es) auto
qed simp

lemma header_valid:
  assumes "wire_ok w" "session_header_ok h"
  shows "parse_header w (wr_print w (JObj (wr_header_value w FORMAT_VERSION h))) = Inr (FORMAT_VERSION, h)"
proof -
  let ?fs = "wr_header_value w FORMAT_VERSION h"
  have fs: "map_of ?fs ''type'' = Some (JStr ''session'')" "map_of ?fs ''version'' = Some (JNum 4)"
    "map_of ?fs ''id'' = Some (JStr (hd_id h))" "map_of ?fs ''cwd'' = Some (JStr (hd_cwd h))"
    "is_string (map_of ?fs ''timestamp'')" "map_of ?fs ''parentSession'' = map_option JStr (hd_parent_session h)"
    "map_of ?fs ''metadata'' = map_option JObj (hd_metadata h)" "wr_header w (JObj ?fs) = Some (FORMAT_VERSION, h)"
    "wr_parse w (wr_print w (JObj ?fs)) = Some (JObj ?fs)"
    using assms(1) by (simp_all add: wire_ok_def header_laws_def text_lawsD Let_def FORMAT_VERSION_def)
  have "validate_header_wire (JObj ?fs) = Inr ()"
    using assms(2) fs(1-7)
    by (cases "hd_parent_session h"; cases "hd_metadata h")
       (simp_all add: validate_header_wire_def is_object_def is_string_def nonempty_string_def session_header_ok_def FORMAT_VERSION_def)
  with fs(8,9) show ?thesis by (simp add: parse_header_def)
qed

lemma split_rows:
  assumes "text_laws w"
  shows "split_on NL (concat (map (\<lambda>r. v4_line w (fst r) (snd r)) rows) @ p) = map (row_line w) rows @ split_on NL p"
  by (induction rows) (simp_all add: v4_line_def row_line_def text_lawsD [OF assms] split_on_append)

definition loaded :: "header \<Rightarrow> entry list \<Rightarrow> parsed_file" where
  "loaded h es =
     (let es' = (if inverted es then chain_order es (depths es) else es)
      in \<lparr>pf_header = h, pf_version = FORMAT_VERSION, pf_entries = map durable es',
          pf_seq = map_of (zip (map en_id es) (depths es)), pf_leaf = tail_cursor es', pf_needs_rewrite = inverted es\<rparr>)"

lemma id_pos_durable [simp]: "id_pos (map durable es) = id_pos es"
  by (simp add: id_pos_def comp_def)

lemma inverted_durable [simp]: "inverted (map durable es) = inverted es"
proof -
  have "list_ex (\<lambda>i. case en_parent (map durable es ! i) of Some p \<Rightarrow> the (id_pos es p) > i | None \<Rightarrow> False) xs
      = list_ex (\<lambda>i. case en_parent (es ! i) of Some p \<Rightarrow> the (id_pos es p) > i | None \<Rightarrow> False) xs"
    if "set xs \<subseteq> {..< length es}" for xs
    using that by (induction xs) auto
  from this [OF upto_below] show ?thesis unfolding inverted_def id_pos_durable by simp
qed

lemma tail_cursor_durable [simp]: "tail_cursor (map durable es) = tail_cursor es"
  by (simp add: tail_cursor_def last_map)

lemma chain_order_durable:
  "chain_order (map durable es) ds = map durable (chain_order es ds)"
proof -
  have "i < length es" if "i \<in> set (sort_key (\<lambda>i. ds ! i) [0..<length es])" for i using that by simp
  then show ?thesis by (simp add: chain_order_def)
qed

lemma assemble_rows:
  assumes "tree_ok es"
  shows "assemble h FORMAT_VERSION (map (\<lambda>(e, d). (durable e, Some d)) (rows_of es)) = Inr (loaded h es)"
proof -
  have len: "length (depths es) = length es" by (rule depths_dep(1) [OF assms])
  have "map fst (map (\<lambda>(e, d). (durable e, Some d)) (rows_of es)) = map durable es"
    "map snd (map (\<lambda>(e, d). (durable e, Some d)) (rows_of es)) = map Some (depths es)"
    using len by (simp_all add: rows_of_def comp_def case_prod_beta' map_fst_zip_take flip: map_map [unfolded comp_def])
  then show ?thesis
    using len by (simp add: assemble_def chain_depths_durable [OF assms] check_seqs_same loaded_def Let_def
        chain_order_durable comp_def)
qed

lemma rows_of_mem: "r \<in> set (rows_of es) \<Longrightarrow> fst r \<in> set es \<and> snd r \<in> set (depths es)"
  by (cases r) (auto simp: rows_of_def dest: set_zip_leftD set_zip_rightD)

lemma rows_of_ids:
  assumes "tree_ok es"
  shows "map (en_id \<circ> fst) (rows_of es) = map en_id es"
  using depths_dep(1) [OF assms] by (simp add: rows_of_def flip: map_map)

text \<open>What follows the stamped lines of a tree is read behind their rows.\<close>

lemma parse_file_tail:
  assumes w: "wire_ok w" and h: "session_header_ok h" and es: "tree_ok es"
  shows "parse_file w (file_of w h es @ t) =
    try_then (parse_entry_lines w (last (file_of w h es @ t) = NL) (rev (map en_id es)) (filter (\<lambda>l. \<not> blank l) (split_on NL t)))
      (\<lambda>rest. assemble h FORMAT_VERSION (map (\<lambda>(e, d). (durable e, Some d)) (rows_of es) @ rest))"
proof -
  let ?h = "wr_print w (JObj (wr_header_value w FORMAT_VERSION h))"
  let ?rest = "concat (map (\<lambda>r. v4_line w (fst r) (snd r)) (rows_of es)) @ t"
  have tl: "text_laws w" using w by (simp add: wire_ok_def)
  have bytes: "file_of w h es @ t = ?h @ NL # ?rest" by (simp add: file_of_def session_header_line_def)
  have split: "split_on NL (file_of w h es @ t) = ?h # map (row_line w) (rows_of es) @ split_on NL t"
    unfolding bytes using tl by (simp add: split_on_append split_rows [OF tl] text_lawsD [OF tl])
  have nb: "\<not> blank (row_line w r)" for r using tl by (simp add: row_line_def text_lawsD)
  have rows: "distinct (map (en_id \<circ> fst) (rows_of es))"
    "\<forall>r \<in> set (rows_of es). en_id (fst r) \<noteq> [] \<and> en_id (fst r) \<notin> set [] \<and> snd r < 2 ^ 64"
    using es unfolding rows_of_ids [OF es]
    by (fastforce simp: tree_ok_def unique_ids_def image_iff dest!: rows_of_mem intro: depths_bound [OF es])+
  have "filter (\<lambda>l. \<not> blank l) (map (row_line w) (rows_of es) @ split_on NL t)
      = map (row_line w) (rows_of es) @ filter (\<lambda>l. \<not> blank l) (split_on NL t)"
    by (simp add: nb filter_id_conv)
  moreover have "\<not> blank ?h" using tl by (simp add: text_lawsD)
  moreover have "file_of w h es \<noteq> []" by (simp add: file_of_def session_header_line_def)
  ultimately show ?thesis
    unfolding parse_file_def Let_def split using header_valid [OF w h]
      parse_entry_lines_rows [OF w rows, of "last (file_of w h es @ t) = NL"] rows_of_ids [OF es]
    by (cases "parse_entry_lines w (last (file_of w h es @ t) = NL) (rev (map en_id es)) (filter (\<lambda>l. \<not> blank l) (split_on NL t))")
       (simp_all add: comp_def)
qed

text \<open>A file of stamped lines loads whatever the order of its lines, also with a torn line behind it.\<close>

lemma parse_file_rows:
  assumes w: "wire_ok w" and h: "session_header_ok h" and es: "tree_ok es"
    and p: "NL \<notin> set p" "blank p \<or> wr_parse w p = None"
  shows "parse_file w (file_of w h es @ p) = Inr (loaded h es)"
proof -
  have "last (file_of w h es @ p) \<noteq> NL" if "\<not> blank p"
  proof -
    have "p \<noteq> []" using that by (auto simp: blank_def)
    then show ?thesis using p(1) last_in_set [of p] by (metis last_appendR)
  qed
  then show ?thesis
    using p(2) assemble_rows [OF es, of h] by (auto simp: parse_file_tail [OF w h es] split_on_plain [OF p(1)])
qed

section \<open>Order of the lines\<close>

lemma tree_ok_mset:
  assumes "mset es = mset es'"
  shows "tree_ok es = tree_ok es'"
proof -
  have "set es = set es'" "length es = length es'" using assms by (auto dest: mset_eq_setD mset_eq_length)
  moreover have "mset (map en_id es) = mset (map en_id es')" using assms by simp
  then have "distinct (map en_id es) = distinct (map en_id es')" by (rule mset_eq_imp_distinct_iff)
  ultimately show ?thesis by (simp add: tree_ok_def unique_ids_def)
qed

lemma chain_order_mset: "mset (chain_order es ds) = mset es"
proof -
  have "mset (chain_order es ds) = mset (map (\<lambda>i. es ! i) [0..<length es])"
    by (simp only: chain_order_def mset_map mset_sort)
  then show ?thesis by (simp add: map_nth)
qed

lemma inverted_iff:
  "inverted es \<longleftrightarrow> (\<exists>i < length es. \<exists>p. en_parent (es ! i) = Some p \<and> the (id_pos es p) > i)"
  by (auto simp: inverted_def list_ex_iff Bex_def split: option.splits)

lemma sorted_not_inverted:
  assumes "tree_ok es" "\<And>i. i < length es \<Longrightarrow> dep (set es) (en_id (es ! i)) (ds i)"
    and "\<And>i j. i < j \<Longrightarrow> j < length es \<Longrightarrow> ds i \<le> ds j"
  shows "\<not> inverted es"
proof
  assume "inverted es"
  then obtain i p where i: "i < length es" "en_parent (es ! i) = Some p" "the (id_pos es p) > i"
    by (auto simp: inverted_iff)
  have u: "unique_ids es" using assms(1) by (simp add: tree_ok_def)
  obtain j d where j: "id_pos es p = Some j" "j < length es" "ds i = Suc d" "dep (set es) (en_id (es ! j)) d"
    using dep_child [OF u i(1) assms(2) [OF i(1)] i(2)] by blast
  then have "ds j = d" using dep_unique [OF u] assms(2) by blast
  then show False using assms(3) [of i j] i j by simp
qed

lemma chain_order_sorted:
  assumes "tree_ok es"
  shows "\<not> inverted (chain_order es (depths es))"
proof -
  let ?ix = "sort_key (\<lambda>i. depths es ! i) [0..<length es]"
  let ?es = "chain_order es (depths es)"
  have len: "length ?es = length es" "length ?ix = length es" by (simp_all add: chain_order_def)
  have set: "set ?es = set es" using chain_order_mset by (metis mset_eq_setD)
  have ix: "?ix ! i < length es" if "i < length es" for i
    using that len(2) nth_mem [of i ?ix] by simp
  have nth: "?es ! i = es ! (?ix ! i)" if "i < length es" for i using that by (simp add: chain_order_def)
  show ?thesis
  proof (rule sorted_not_inverted [where ds = "\<lambda>i. depths es ! (?ix ! i)"])
    show "tree_ok ?es" using assms tree_ok_mset [OF chain_order_mset] by simp
    show "dep (set ?es) (en_id (?es ! i)) (depths es ! (?ix ! i))" if "i < length ?es" for i
      using that ix nth depths_dep(2) [OF assms] by (simp add: len set)
    show "depths es ! (?ix ! i) \<le> depths es ! (?ix ! j)" if "i < j" "j < length ?es" for i j
      using that sorted_nth_mono [of "map (\<lambda>i. depths es ! i) ?ix" i j] len by simp
  qed
qed

lemma depth_index:
  assumes u: "unique_ids es" and l: "length (depths es) = length es"
    and d: "\<And>i. i < length es \<Longrightarrow> dep (set es) (en_id (es ! i)) (depths es ! i)"
  shows "map_of (zip (map en_id es) (depths es)) i = Some k \<longleftrightarrow> dep (set es) i k"
proof -
  have len: "length (map en_id es) = length (depths es)" using l by simp
  have "map_of (zip (map en_id es) (depths es)) i = Some k \<longleftrightarrow> (i, k) \<in> set (zip (map en_id es) (depths es))"
    using u len by (simp add: unique_ids_def)
  also have "\<dots> \<longleftrightarrow> (\<exists>n < length es. en_id (es ! n) = i \<and> depths es ! n = k)"
    using len by (simp add: in_set_zip) (metis nth_map)
  also have "\<dots> \<longleftrightarrow> dep (set es) i k"
  proof
    show "\<exists>n < length es. en_id (es ! n) = i \<and> depths es ! n = k \<Longrightarrow> dep (set es) i k" using d by blast
    assume k: "dep (set es) i k"
    then obtain n where "n < length es" "en_id (es ! n) = i" using dep_entry by (metis in_set_conv_nth)
    then show "\<exists>n < length es. en_id (es ! n) = i \<and> depths es ! n = k"
      using dep_unique [OF u k] d [of n] by auto
  qed
  finally show ?thesis .
qed

lemma loaded_seq:
  assumes "tree_ok lines"
  shows "pf_seq (loaded h lines) i = Some d \<longleftrightarrow> dep (set lines) i d"
  using assms depth_index [OF _ depths_dep(1,2) [OF assms]] by (simp add: loaded_def Let_def tree_ok_def)

end
