(* ===== verification/Session_Wire.thy ===== *)
theory Session_Wire
  imports Session_File
begin

text \<open>
  One concrete wire, so that what is proved of every wire with the laws is about something: a text is a number
  in unary between braces, an entry is its envelope keys and a number for the rest.
\<close>

instance json :: countable
  by countable_datatype

instance content_block :: countable
  by countable_datatype

instance stop_reason :: countable
  by countable_datatype

instance token_usage :: countable
  by countable_datatype

instance assistant :: countable
  by countable_datatype

instance tool_result :: countable
  by countable_datatype

instance bash_run :: countable
  by countable_datatype

instance message :: countable
  by countable_datatype

instance entry_body :: countable
  by countable_datatype

instance entry :: countable
  by countable_datatype

definition unary :: "json \<Rightarrow> str" where
  "unary v = CHR 0x7B # replicate (to_nat v) (CHR 0x78) @ [CHR 0x7D]"

definition of_unary :: "str \<Rightarrow> json option" where
  "of_unary s =
     (if s = CHR 0x7B # replicate (length s - 2) (CHR 0x78) @ [CHR 0x7D] then Some (from_nat (length s - 2)) else None)"

definition demo_value :: "entry \<Rightarrow> (str \<times> json) list" where
  "demo_value e =
     [(''type'', JStr (case en_body e of Leaf _ \<Rightarrow> ''leaf'' | _ \<Rightarrow> ''entry'')), (''parentId'', json_of_id (en_parent e)),
      (''targetId'', case en_body e of Leaf t \<Rightarrow> json_of_id t | _ \<Rightarrow> JNull),
      (''rest'', JNum (int (to_nat (with_parent None (durable e)))))]"

definition demo_entry :: "json \<Rightarrow> entry option" where
  "demo_entry v =
     (case (json_get ''rest'' v, json_get ''parentId'' v) of
        (Some (JNum n), Some p) \<Rightarrow> Some (with_parent (as_str p) (from_nat (nat n)))
      | _ \<Rightarrow> None)"

definition opt_field :: "str \<Rightarrow> json option \<Rightarrow> (str \<times> json) list" where
  "opt_field k v = (case v of None \<Rightarrow> [] | Some x \<Rightarrow> [(k, x)])"

definition demo_header_value :: "nat \<Rightarrow> header \<Rightarrow> (str \<times> json) list" where
  "demo_header_value v h =
     [(''type'', JStr ''session''), (''version'', JNum (int v)), (''id'', JStr (hd_id h)), (''cwd'', JStr (hd_cwd h)),
      (''timestamp'', JStr []),
      (''rest'', JNum (int (to_nat (v, hd_id h, hd_time h, hd_cwd h, hd_parent_session h, hd_metadata h))))]
     @ opt_field ''parentSession'' (map_option JStr (hd_parent_session h))
     @ opt_field ''metadata'' (map_option JObj (hd_metadata h))"

definition demo_header :: "json \<Rightarrow> (nat \<times> header) option" where
  "demo_header v =
     (case json_get ''rest'' v of
        Some (JNum n) \<Rightarrow>
          (case from_nat (nat n) of (version, i, t, c, p, m) \<Rightarrow>
             Some (version, \<lparr>hd_id = i, hd_time = t, hd_cwd = c, hd_parent_session = p, hd_metadata = m\<rparr>))
      | _ \<Rightarrow> None)"

definition demo_wire :: wire where
  "demo_wire = \<lparr>wr_print = unary, wr_parse = of_unary, wr_value = demo_value, wr_entry = demo_entry,
     wr_header_value = demo_header_value, wr_header = demo_header, wr_time = JNum\<rparr>"

lemma unary_text:
  assumes "of_unary s = Some v"
  shows "s \<noteq> [] \<and> hd s = CHR 0x7B \<and> last s = CHR 0x7D \<and> CHR 0x7D \<notin> set (butlast s) \<and> CHR 0x7B \<notin> set (tl s)"
proof -
  obtain n where "s = CHR 0x7B # replicate n (CHR 0x78) @ [CHR 0x7D]"
    using assms by (auto simp: of_unary_def split: if_splits)
  then show ?thesis by (simp add: butlast_append)
qed

lemma unary_parse: "of_unary (unary v) = Some v"
  by (simp add: of_unary_def unary_def)

lemma demo_text_laws: "text_laws demo_wire"
proof -
  have nl: "NL \<notin> set (unary v)" "\<not> blank (unary v)" for v
    by (simp_all add: unary_def blank_def ascii_space_def)
  have prefix: "of_unary p = None" if "unary v = p @ s" "s \<noteq> []" for v p s
  proof (rule ccontr)
    assume "of_unary p \<noteq> None"
    then have p: "p \<noteq> []" "last p = CHR 0x7D" using unary_text by blast+
    have "butlast (unary v) = p @ butlast s" using that(2) unfolding that(1) by (simp add: butlast_append)
    then have "set p \<subseteq> set (butlast (unary v))" by (metis Un_upper1 set_append)
    moreover have "CHR 0x7D \<in> set p" using last_in_set [OF p(1)] p(2) by simp
    ultimately have "CHR 0x7D \<in> set (butlast (unary v))" by (rule subsetD)
    then show False using unary_text [OF unary_parse [of v]] by simp
  qed
  have glue: "of_unary (p @ unary u) = None" if "unary v = p @ s" "p \<noteq> []" for v u p s
  proof (rule ccontr)
    assume "of_unary (p @ unary u) \<noteq> None"
    then have "CHR 0x7B \<notin> set (tl (p @ unary u))" using unary_text by fastforce
    then show False using that(2) by (simp add: unary_def)
  qed
  show ?thesis
    using nl prefix glue unary_parse by (simp add: text_laws_def demo_wire_def) blast
qed

lemma demo_entry_laws: "entry_laws demo_wire"
proof -
  have p: "as_str (json_of_id p) = p" for p by (cases p) (simp_all add: json_of_id_def)
  have w: "with_parent p (with_parent q e) = with_parent p e" "with_parent (en_parent e) (durable e) = durable e"
    for p q e by (cases e; simp add: with_parent_def durable_def)+
  have b: "(case en_body (durable e) of Leaf t \<Rightarrow> f t | _ \<Rightarrow> c) = (case en_body e of Leaf t \<Rightarrow> f t | _ \<Rightarrow> c)" for e f c
    by (cases "en_body e") (simp_all add: durable_def)
  have v: "demo_value (durable e) = demo_value e" for e
    by (simp add: demo_value_def b)
  have m: "map_of (demo_value e) ''parentId'' = Some (json_of_id (en_parent e))"
    "map_of (demo_value e) ''rest'' = Some (JNum (int (to_nat (with_parent None (durable e)))))"
    "case en_body e of Leaf t \<Rightarrow> map_of (demo_value e) ''targetId'' = Some (json_of_id t)
      | _ \<Rightarrow> map_of (demo_value e) ''type'' \<noteq> Some (JStr ''leaf'')" for e
    by (cases "en_body e"; simp add: demo_value_def)+
  have "demo_entry (JObj (put_key ''seq'' (JNum n) (demo_value e))) = Some (durable e)" for n e
    using w(2) [of e] by (simp add: demo_entry_def map_of_put_key m p w(1))
  moreover have "demo_entry (JObj (put_key ''parentId'' (json_of_id q) (demo_value e))) = Some (with_parent q (durable e))" for q e
    by (simp add: demo_entry_def map_of_put_key m p w(1))
  moreover have "wr_value demo_wire = demo_value" "wr_entry demo_wire = demo_entry" by (simp_all add: demo_wire_def)
  ultimately show ?thesis unfolding entry_laws_def using m(1,3) v by presburger
qed

lemma demo_header_laws: "header_laws demo_wire"
  by (auto simp: header_laws_def demo_wire_def demo_header_value_def demo_header_def opt_field_def is_string_def Let_def
      split: option.splits)

lemma demo_wire_ok: "wire_ok demo_wire"
  by (simp add: wire_ok_def demo_text_laws demo_entry_laws demo_header_laws)

end
