(* ===== verification/Session_Append.thy ===== *)
theory Session_Append
  imports Session_Storage Session_Wire "HOL-Library.Sublist"
begin

text \<open>
  What appending does to the file: a log whose entries follow their parents (\<open>grown\<close>) is extended line by line,
  and every operation of an instance, however stale its view, keeps the file the header and the stamped lines of
  all entries that were ever reported appended, in that order.
\<close>

section \<open>Grown logs\<close>

definition ids :: "entry list \<Rightarrow> str set" where
  "ids es = en_id ` set es"

definition grown :: "entry list \<Rightarrow> bool" where
  "grown es \<longleftrightarrow> unique_ids es \<and> [] \<notin> ids es
     \<and> (\<forall>i < length es. \<forall>p. en_parent (es ! i) = Some p \<longrightarrow> p \<in> ids (take i es))"

definition follows :: "entry list \<Rightarrow> entry \<Rightarrow> bool" where
  "follows es e \<longleftrightarrow> en_id e \<noteq> [] \<and> en_id e \<notin> ids es \<and> (\<forall>p. en_parent e = Some p \<longrightarrow> p \<in> ids es)"

definition seq_of :: "entry list \<Rightarrow> str \<Rightarrow> nat option" where
  "seq_of es = map_of (zip (map en_id es) (depths es))"

lemma ids_simps [simp]: "ids [] = {}" "ids (es @ es') = ids es \<union> ids es'" "ids (e # es) = insert (en_id e) (ids es)"
  "ids (map durable es) = ids es"
  by (simp_all add: ids_def image_Un image_image)

lemma grown_Nil [simp]: "grown []"
  by (simp add: grown_def unique_ids_def)

lemma grown_snoc [simp]: "grown (es @ [e]) \<longleftrightarrow> grown es \<and> follows es e"
proof -
  have "(\<forall>i < Suc (length es). P i) \<longleftrightarrow> (\<forall>i < length es. P i) \<and> P (length es)" for P
    by (auto simp: less_Suc_eq)
  then show ?thesis by (auto simp: grown_def follows_def unique_ids_def ids_def nth_append)
qed

lemma grown_take: "grown es \<Longrightarrow> grown (take k es)"
proof (induction es rule: rev_induct)
  case (snoc e es)
  then show ?case by (cases "k \<le> length es") simp_all
qed simp

lemma dep_mono: "dep E i d \<Longrightarrow> E \<subseteq> E' \<Longrightarrow> dep E' i d"
  by (induction rule: dep.induct) (auto intro: dep.intros)

lemma grown_dep: "grown es \<Longrightarrow> i \<in> ids es \<Longrightarrow> \<exists>d. dep (set es) i d"
proof (induction es arbitrary: i rule: rev_induct)
  case (snoc e es)
  have old: "\<exists>d. dep (set (es @ [e])) j d" if "j \<in> ids es" for j
    using snoc that dep_mono [of "set es" j _ "set (es @ [e])"] by auto
  show ?case
  proof (cases "en_parent e")
    case None
    then show ?thesis using old snoc.prems(2) dep.dep_root [of e "set (es @ [e])"] by auto
  next
    case (Some p)
    then obtain d where "dep (set (es @ [e])) p d" using old snoc.prems(1) by (auto simp: follows_def)
    then show ?thesis using Some old snoc.prems(2) dep.dep_step [of e "set (es @ [e])" p d] by auto
  qed
qed simp

lemma grown_unique: "grown es \<Longrightarrow> unique_ids es"
  by (simp add: grown_def)

lemma grown_tree: "grown es \<Longrightarrow> length es \<le> 2 ^ 64 \<Longrightarrow> tree_ok es"
  using grown_dep by (auto simp: tree_ok_def grown_def ids_def)

lemma grown_depths:
  assumes "grown es"
  shows "chain_depths es = Inr (depths es)" "length (depths es) = length es"
    and "\<And>i. i < length es \<Longrightarrow> dep (set es) (en_id (es ! i)) (depths es ! i)"
proof -
  have "\<nexists>err. chain_depths es = Inl err"
    using chain_depths_Inl [OF grown_unique [OF assms]] grown_dep [OF assms] by (auto simp: ids_def)
  then obtain ds where ds: "chain_depths es = Inr ds" by (cases "chain_depths es") auto
  then show "chain_depths es = Inr (depths es)" by (simp add: depths_def)
  then show "length (depths es) = length es" "\<And>i. i < length es \<Longrightarrow> dep (set es) (en_id (es ! i)) (depths es ! i)"
    using chain_depths_Inr [OF grown_unique [OF assms]] by blast+
qed

lemma grown_not_inverted:
  assumes "grown es"
  shows "\<not> inverted es"
proof
  assume "inverted es"
  then obtain i p where i: "i < length es" "en_parent (es ! i) = Some p" "the (id_pos es p) > i"
    by (auto simp: inverted_iff)
  then have "p \<in> ids (take i es)" using assms by (simp add: grown_def)
  then obtain j where "j < i" "en_id (es ! j) = p" using i(1) by (auto simp: ids_def in_set_conv_nth)
  then have "id_pos es p = Some j" using id_pos_iff [OF grown_unique [OF assms]] i(1) by simp
  then show False using i(3) \<open>j < i\<close> by simp
qed

lemma seq_of_dep: "grown es \<Longrightarrow> seq_of es i = Some d \<longleftrightarrow> dep (set es) i d"
  unfolding seq_of_def by (intro depth_index grown_unique grown_depths)

lemma seq_of_None:
  assumes "grown es"
  shows "seq_of es i = None \<longleftrightarrow> i \<notin> ids es"
proof -
  have "seq_of es i = None \<longleftrightarrow> (\<forall>d. \<not> dep (set es) i d)"
    by (metis not_None_eq option.distinct(1) seq_of_dep [OF assms])
  moreover have "i \<in> ids es" if "dep (set es) i d" for d using dep_entry [OF that] by (auto simp: ids_def)
  ultimately show ?thesis using grown_dep [OF assms, of i] by blast
qed

definition next_seq :: "entry list \<Rightarrow> entry \<Rightarrow> nat" where
  "next_seq es e = (case en_parent e of None \<Rightarrow> 0 | Some p \<Rightarrow> the (seq_of es p) + 1)"

lemma seq_after_known:
  assumes "grown es"
  shows "seq_after (seq_of es) e =
    (case en_parent e of
       Some p \<Rightarrow> if p \<in> ids es then Inr (next_seq es e) else Inl (UnknownParent (en_id e) p)
     | None \<Rightarrow> Inr (next_seq es e))"
proof (cases "en_parent e")
  case (Some p)
  then show ?thesis
    using seq_of_None [OF assms, of p] by (cases "seq_of es p") (simp_all add: seq_after_def next_seq_def)
qed (simp add: seq_after_def next_seq_def)

lemma next_seq_dep:
  assumes "grown es" "follows es e"
  shows "dep (set (es @ [e])) (en_id e) (next_seq es e)"
proof (cases "en_parent e")
  case None
  then show ?thesis by (auto simp: next_seq_def intro: dep.dep_root)
next
  case (Some p)
  then obtain d where d: "seq_of es p = Some d" using assms seq_of_None [OF assms(1)] by (auto simp: follows_def)
  then have "dep (set (es @ [e])) p d"
    using seq_of_dep [OF assms(1)] dep_mono [of "set es" p d "set (es @ [e])"] by auto
  then show ?thesis using Some d by (auto simp: next_seq_def intro: dep.dep_step)
qed

lemma depths_snoc:
  assumes "grown es" "follows es e"
  shows "depths (es @ [e]) = depths es @ [next_seq es e]"
proof -
  have "chain_depths (es @ [e]) = Inr (depths es @ [next_seq es e])"
    unfolding chain_depths_Inr [OF grown_unique [of "es @ [e]", unfolded grown_snoc, OF conjI, OF assms]]
  proof (intro conjI allI impI)
    show "length (depths es @ [next_seq es e]) = length (es @ [e])" using grown_depths(2) [OF assms(1)] by simp
    fix i assume "i < length (es @ [e])"
    then show "dep (set (es @ [e])) (en_id ((es @ [e]) ! i)) ((depths es @ [next_seq es e]) ! i)"
      using grown_depths(2,3) [OF assms(1)] next_seq_dep [OF assms] dep_mono [of "set es" _ _ "set (es @ [e])"]
      by (cases "i = length es") (simp_all add: nth_append subset_insertI)
  qed
  then show ?thesis by (simp add: depths_def)
qed

lemma seq_of_snoc:
  assumes "grown es" "follows es e"
  shows "seq_of (es @ [e]) = (seq_of es)(en_id e \<mapsto> next_seq es e)"
proof -
  have "seq_of es (en_id e) = None" using seq_of_None [OF assms(1)] assms(2) by (simp add: follows_def)
  then have "[en_id e \<mapsto> next_seq es e] ++ seq_of es = (seq_of es)(en_id e \<mapsto> next_seq es e)"
    by (intro ext) (simp add: map_add_def split: option.splits)
  then show ?thesis
    using grown_depths(2) [OF assms(1)] by (simp add: seq_of_def depths_snoc [OF assms])
qed

lemma file_of_snoc:
  assumes "grown es" "follows es e"
  shows "file_of w h (es @ [e]) = file_of w h es @ v4_line w e (next_seq es e)"
  using grown_depths(2) [OF assms(1)] by (simp add: file_of_def rows_of_def depths_snoc [OF assms])

lemma file_of_shorter:
  assumes "grown es" "k < length es"
  shows "length (file_of w h (take k es)) < length (file_of w h es)"
  using assms
proof (induction es rule: rev_induct)
  case (snoc e es)
  have "length (file_of w h es) < length (file_of w h (es @ [e]))"
    using snoc.prems(1) by (simp add: file_of_snoc v4_line_def)
  then show ?case using snoc by (cases "k = length es") auto
qed simp

lemma file_of_Nil: "file_of w h [] = session_header_line w h"
  by (simp add: file_of_def rows_of_def)


section \<open>Views\<close>

definition rows :: "header \<Rightarrow> entry list \<Rightarrow> storage \<Rightarrow> bool" where
  "rows h es st \<longleftrightarrow> grown es \<and> map durable (st_entries st) = map durable es \<and> st_leaf st = tail_cursor es
     \<and> st_seq st = seq_of es \<and> st_metadata st = h"

lemma rows_has_id:
  assumes "rows h es st"
  shows "has_id st i \<longleftrightarrow> i \<in> ids es"
proof -
  have "ids (map durable (st_entries st)) = ids (map durable es)" using assms by (simp add: rows_def del: ids_simps)
  then have "ids (st_entries st) = ids es" by (simp only: ids_simps)
  moreover have "has_id st i \<longleftrightarrow> i \<in> ids (st_entries st)" by (auto simp: has_id_def list_ex_iff ids_def)
  ultimately show ?thesis by simp
qed

lemma durable_line:
  assumes "wire_ok w" "durable e = durable e'"
  shows "v4_line w e d = v4_line w e' d"
proof -
  have "wr_value w e = wr_value w e'" using assms by (metis entry_laws_def wire_ok_def)
  then show ?thesis by (simp add: v4_line_def)
qed

lemma rewrite_rows:
  assumes w: "wire_ok w" and r: "rows h es st"
  shows "rewrite_file_v4 w extra st = Inr (st\<lparr>st_version := FORMAT_VERSION\<rparr>, file_of w h es @ extra)"
proof -
  let ?f = "\<lambda>e. case st_seq st (en_id e) of None \<Rightarrow> Inl (SeqIndexMissing (en_id e)) | Some seq \<Rightarrow> Inr (v4_line w e seq)"
  let ?ls = "map (\<lambda>r. v4_line w (fst r) (snd r)) (rows_of es)"
  have g: "grown es" and d: "map durable (st_entries st) = map durable es" and s: "st_seq st = seq_of es"
    using r by (simp_all add: rows_def)
  have len: "length (st_entries st) = length es" using d by (metis length_map)
  have "try_map ?f (st_entries st) = Inr ?ls"
    unfolding try_map_Inr_iff list_all2_conv_all_nth
  proof (intro conjI allI impI)
    show "length (st_entries st) = length ?ls" using len grown_depths(2) [OF g] by (simp add: rows_of_def)
    fix i assume "i < length (st_entries st)"
    then have i: "i < length es" "durable (st_entries st ! i) = durable (es ! i)"
      using len d by (simp, metis nth_map)
    then have "en_id (st_entries st ! i) = en_id (es ! i)" by (metis durable_fields(1))
    moreover have "seq_of es (en_id (es ! i)) = Some (depths es ! i)"
      using seq_of_dep [OF g] grown_depths(3) [OF g i(1)] by simp
    ultimately show "?f (st_entries st ! i) = Inr (?ls ! i)"
      using i durable_line [OF w i(2)] grown_depths(2) [OF g] by (simp add: s rows_of_def)
  qed
  then show ?thesis using r by (simp add: rewrite_file_v4_def file_of_def rows_def)
qed

lemma rows_index:
  assumes "rows h es st" "follows es e"
  shows "rows h (es @ [e]) (index_entry e (next_seq es e) st)"
  using assms by (simp add: rows_def index_entry_def seq_of_snoc tail_cursor_def)

text \<open>What one stamped append does on every branch of the write.\<close>

definition direct :: "storage \<Rightarrow> disk_file \<Rightarrow> bool" where
  "direct st f \<longleftrightarrow> \<not> st_deferred st \<and> f \<noteq> None \<and> st_version st \<ge> FORMAT_VERSION \<and> \<not> st_rewrite st"

definition buffered :: "storage \<Rightarrow> bool \<Rightarrow> entry \<Rightarrow> bool" where
  "buffered st force e \<longleftrightarrow> st_deferred st \<and> \<not> is_assistant e \<and> \<not> force"

definition stamped :: "wire \<Rightarrow> header \<Rightarrow> entry list \<Rightarrow> bool \<Rightarrow> entry \<Rightarrow> storage \<Rightarrow> disk_file \<Rightarrow> storage \<times> disk_file" where
  "stamped w h es force e st f =
     (let d = next_seq es e; whole = file_of w h (es @ [e]) in
      if buffered st force e then (index_entry e d st, f)
      else if direct st f
        then (index_entry e d (st\<lparr>st_disk_size := st_disk_size st + length (v4_line w e d)\<rparr>), Some (the f @ v4_line w e d))
      else (index_entry e d (st\<lparr>st_version := FORMAT_VERSION, st_deferred := False,
              st_rewrite := (if st_deferred st then st_rewrite st else False), st_disk_size := length whole\<rparr>), Some whole))"

lemma stamp_rows:
  assumes w: "wire_ok w" and r: "rows h es st" and e: "follows es e"
  shows "stamp_entry w force e st f = (Inr (), stamped w h es force e st f)"
proof -
  have g: "grown es" and s: "st_seq st = seq_of es" using r by (simp_all add: rows_def)
  have keep: "st\<lparr>st_version := v, st_deferred := False, st_rewrite := x, st_disk_size := n\<rparr>
      = st\<lparr>st_version := v, st_rewrite := x, st_disk_size := n\<rparr>" if "\<not> st_deferred st" for v x n
    using that by (cases st) simp
  have "seq_after (st_seq st) e = Inr (next_seq es e)"
    using e by (auto simp: s seq_after_known [OF g] follows_def split: option.splits)
  then show ?thesis
    by (cases f) (auto simp: stamp_entry_def write_line_def rewrite_rows [OF w r] stamped_def Let_def buffered_def
        direct_def file_of_snoc [OF g e] keep)
qed

lemma stamped_rows: "rows h es st \<Longrightarrow> follows es e \<Longrightarrow> rows h (es @ [e]) (fst (stamped w h es force e st f))"
  using rows_index [of h es] by (simp add: stamped_def Let_def rows_def)

lemma stamp_unknown:
  assumes "rows h es st" "en_parent e = Some p" "p \<notin> ids es"
  shows "stamp_entry w force e st f = (Inl (UnknownParent (en_id e) p), st, f)"
  using assms seq_after_known [of es e] by (simp add: stamp_entry_def rows_def)

section \<open>Fresh and stale views of one file\<close>

definition current :: "wire \<Rightarrow> header \<Rightarrow> entry list \<Rightarrow> storage \<Rightarrow> bool" where
  "current w h es st \<longleftrightarrow> rows h es st \<and> \<not> st_deferred st \<and> st_version st = FORMAT_VERSION \<and> \<not> st_rewrite st
     \<and> st_disk_size st = length (file_of w h es)"

definition stale :: "wire \<Rightarrow> header \<Rightarrow> entry list \<Rightarrow> storage \<Rightarrow> bool" where
  "stale w h es st \<longleftrightarrow> (\<exists>k \<le> length es. current w h (take k es) st)"

lemma stale_grow: "stale w h es st \<Longrightarrow> stale w h (es @ es') st"
  unfolding stale_def
proof (elim exE conjE)
  fix k assume "k \<le> length es" "current w h (take k es) st"
  then show "\<exists>k \<le> length (es @ es'). current w h (take k (es @ es')) st" by (intro exI [of _ k]) simp
qed

lemma current_stale: "current w h es st \<Longrightarrow> stale w h es st"
  unfolding stale_def by (rule exI [of _ "length es"]) simp

lemma stale_current:
  assumes "grown es" "stale w h es st" "st_disk_size st = length (file_of w h es)"
  shows "current w h es st"
proof -
  obtain k where k: "k \<le> length es" "current w h (take k es) st" using assms(2) by (auto simp: stale_def)
  have "length (file_of w h (take k es)) = length (file_of w h es)" using k(2) assms(3) by (simp add: current_def)
  then have "\<not> k < length es" using file_of_shorter [OF assms(1), of k w h] by (cases "k < length es") simp_all
  then have "take k es = es" using k(1) by simp
  then show ?thesis using k(2) by simp
qed

lemma parse_grown:
  assumes "wire_ok w" "session_header_ok h" "grown es" "length es \<le> 2 ^ 64"
  shows "parse_file w (file_of w h es) = Inr
    \<lparr>pf_header = h, pf_version = FORMAT_VERSION, pf_entries = map durable es, pf_seq = seq_of es,
     pf_leaf = tail_cursor es, pf_needs_rewrite = False\<rparr>"
  using parse_file_rows [OF assms(1,2) grown_tree [OF assms(3,4)], of "[]"] grown_not_inverted [OF assms(3)]
  by (simp add: blank_def loaded_def seq_of_def)

lemma reload_current:
  assumes "wire_ok w" "session_header_ok h" "grown es" "length es \<le> 2 ^ 64" "stale w h es st"
  shows "\<exists>st'. reload_under_fence w (file_of w h es) st = Inr st' \<and> current w h es st' \<and> st_journal st' = st_journal st"
  using assms(5)
  by (auto simp: reload_under_fence_def parse_grown [OF assms(1-4)] current_def rows_def stale_def assms(3) comp_def)

definition synced :: "wire \<Rightarrow> header \<Rightarrow> entry list \<Rightarrow> storage \<Rightarrow> entry \<Rightarrow> entry" where
  "synced w h es st e =
     (if st_disk_size st \<noteq> length (file_of w h es) \<and> en_parent e = st_leaf st \<and> en_parent e \<noteq> tail_cursor es
      then with_parent (tail_cursor es) (durable e) else e)"

lemma synced_id [simp]: "en_id (synced w h es st e) = en_id e"
  by (simp add: synced_def with_parent_def)

lemma refresh_stale:
  assumes "wire_ok w" "session_header_ok h" "grown es" "length es \<le> 2 ^ 64" "stale w h es st" "\<not> has_id st (en_id e)"
  shows "\<exists>st'. refresh w e st (Some (file_of w h es)) =
      (if en_id e \<in> ids es then Inl (DuplicateId (en_id e)) else Inr (synced w h es st e), st')
    \<and> current w h es st' \<and> st_journal st' = st_journal st"
proof (cases "st_disk_size st = length (file_of w h es)")
  case True
  then have "current w h es st" using stale_current assms(3,5) by blast
  moreover from this have "en_id e \<notin> ids es" using assms(6) rows_has_id by (auto simp: current_def)
  ultimately show ?thesis using True by (auto simp: refresh_def synced_def)
next
  case False
  obtain st' where st': "reload_under_fence w (file_of w h es) st = Inr st'" "current w h es st'"
    "st_journal st' = st_journal st"
    using reload_current [OF assms(1-5)] by blast
  have "reparent_entry w e p = Inr (with_parent p (durable e))" for p
    using assms(1) by (simp add: reparent_entry_def wire_ok_def entry_laws_def)
  moreover have "st_leaf st' = tail_cursor es" "\<And>i. has_id st' i \<longleftrightarrow> i \<in> ids es"
    using st'(2) rows_has_id by (auto simp: current_def rows_def)
  ultimately show ?thesis
    using False st' by (auto simp: refresh_def synced_def with_parent_def)
qed

text \<open>Every outcome of an append on a file that exists: the file grows by one stamped line or not at all.\<close>

lemma append_stale:
  assumes "wire_ok w" "session_header_ok h" "grown es" "length es \<le> 2 ^ 64" "stale w h es st"
    and a: "append_entry_locked w force e st (Some (file_of w h es)) = (r, st', f')"
  shows "(\<exists>err. r = Inl err) \<and> f' = Some (file_of w h es) \<and> stale w h es st' \<and> st_journal st' = st_journal st
    \<or> r = Inr () \<and> follows es (synced w h es st e) \<and> f' = Some (file_of w h (es @ [synced w h es st e]))
      \<and> current w h (es @ [synced w h es st e]) st'
      \<and> st_journal st' = st_journal st @ [(next_seq es (synced w h es st e), synced w h es st e)]"
proof (cases "en_id e = [] \<or> has_id st (en_id e)")
  case True
  then show ?thesis using a assms(5) by (simp add: append_entry_locked_def split: if_splits) blast+
next
  case False
  let ?e = "synced w h es st e"
  from False obtain st1 where st1: "current w h es st1" "st_journal st1 = st_journal st"
    and ref: "refresh w e st (Some (file_of w h es)) = (if en_id e \<in> ids es then Inl (DuplicateId (en_id e)) else Inr ?e, st1)"
    using refresh_stale [OF assms(1-5), of e] by blast
  show ?thesis
  proof (cases "en_id e \<in> ids es")
    case True
    then show ?thesis using a False ref st1 current_stale by (auto simp: append_entry_locked_def)
  next
    case new: False
    then have s: "stamp_entry w force ?e st1 (Some (file_of w h es)) = (r, st', f')"
      using a False ref by (simp add: append_entry_locked_def)
    have r1: "rows h es st1" using st1(1) by (simp add: current_def)
    show ?thesis
    proof (cases "follows es ?e")
      case True
      have "stamp_entry w force ?e st1 (Some (file_of w h es)) = (Inr (), stamped w h es force ?e st1 (Some (file_of w h es)))"
        by (rule stamp_rows [OF assms(1) r1 True])
      moreover have "stamped w h es force ?e st1 (Some (file_of w h es)) =
          (index_entry ?e (next_seq es ?e) (st1\<lparr>st_disk_size := length (file_of w h (es @ [?e]))\<rparr>),
           Some (file_of w h (es @ [?e])))"
        using st1(1) by (simp add: stamped_def Let_def buffered_def direct_def current_def file_of_snoc [OF assms(3) True])
      moreover have "rows h (es @ [?e]) (index_entry ?e (next_seq es ?e) (st1\<lparr>st_disk_size := n\<rparr>))" for n
        using r1 True by (intro rows_index) (simp_all add: rows_def)
      ultimately show ?thesis
        using s st1 True by (auto simp: current_def index_entry_def)
    next
      case False
      then obtain p where "en_parent ?e = Some p" "p \<notin> ids es"
        using new \<open>\<not> (en_id e = [] \<or> has_id st (en_id e))\<close> by (auto simp: follows_def)
      then show ?thesis using s st1 stamp_unknown [OF r1, of ?e p] current_stale by auto
    qed
  qed
qed

section \<open>Batches\<close>

fun fits_all :: "entry list \<Rightarrow> entry list \<Rightarrow> bool" where
  "fits_all es [] = True"
| "fits_all es (e # new) = (follows es e \<and> fits_all (es @ [e]) new)"

fun seqs_from :: "entry list \<Rightarrow> entry list \<Rightarrow> nat list" where
  "seqs_from es [] = []"
| "seqs_from es (e # new) = next_seq es e # seqs_from (es @ [e]) new"

lemma fits_all_grown: "grown es \<Longrightarrow> fits_all es new \<Longrightarrow> grown (es @ new)"
proof (induction new arbitrary: es)
  case (Cons e new)
  then show ?case using Cons.IH [of "es @ [e]"] by simp
qed simp

lemma batch_lines_fits:
  assumes "grown es" "batch_lines w st (seq_of es) seen new = Inr (lns, seqs)"
    and "\<And>i. has_id st i \<or> i \<in> set seen \<longleftrightarrow> i \<in> ids es"
  shows "fits_all es new \<and> seqs = seqs_from es new \<and> file_of w h (es @ new) = file_of w h es @ lns
    \<and> index_seqs (seq_of es) new (seqs_from es new) = seq_of (es @ new)"
  using assms
proof (induction new arbitrary: es seen lns seqs)
  case (Cons e new)
  have "\<forall>p. en_parent e = Some p \<longrightarrow> p \<in> ids es" and seq: "seq_after (seq_of es) e = Inr (next_seq es e)"
    using Cons.prems(2) seq_after_known [OF Cons.prems(1), of e]
    by (auto simp: try_then_Inr_iff split: if_splits option.splits)
  then have e: "follows es e"
    using Cons.prems(2,3) by (auto simp: follows_def split: if_splits)
  obtain lns' seqs' where rec: "batch_lines w st ((seq_of es)(en_id e \<mapsto> next_seq es e)) (en_id e # seen) new = Inr (lns', seqs')"
    and out: "lns = v4_line w e (next_seq es e) @ lns'" "seqs = next_seq es e # seqs'"
    using Cons.prems(2) seq by (auto simp: try_then_Inr_iff split: if_splits)
  have "fits_all (es @ [e]) new \<and> seqs' = seqs_from (es @ [e]) new
    \<and> file_of w h ((es @ [e]) @ new) = file_of w h (es @ [e]) @ lns'
    \<and> index_seqs (seq_of (es @ [e])) new (seqs_from (es @ [e]) new) = seq_of ((es @ [e]) @ new)"
  proof (rule Cons.IH)
    show "grown (es @ [e])" using Cons.prems(1) e by simp
    show "batch_lines w st (seq_of (es @ [e])) (en_id e # seen) new = Inr (lns', seqs')"
      using rec by (simp add: seq_of_snoc [OF Cons.prems(1) e])
    show "has_id st i \<or> i \<in> set (en_id e # seen) \<longleftrightarrow> i \<in> ids (es @ [e])" for i
      using Cons.prems(3) [of i] by auto
  qed
  then show ?case
    using e out by (simp add: file_of_snoc [OF Cons.prems(1) e] seq_of_snoc [OF Cons.prems(1) e])
qed simp

lemma seqs_from_length [simp]: "length (seqs_from es new) = length new"
  by (induction new arbitrary: es) simp_all

lemma rows_batch:
  assumes "rows h es st" "new \<noteq> []" "batch_lines w st (seq_of es) [] new = Inr (lns, seqs)"
  shows "rows h (es @ new) (index_batch new seqs st)"
proof -
  have g: "grown es" using assms(1) by (simp add: rows_def)
  have "fits_all es new \<and> seqs = seqs_from es new \<and> file_of w h (es @ new) = file_of w h es @ lns
    \<and> index_seqs (seq_of es) new (seqs_from es new) = seq_of (es @ new)"
    by (rule batch_lines_fits [OF g assms(3)]) (simp add: rows_has_id [OF assms(1)])
  then show ?thesis
    using assms(1,2) fits_all_grown [OF g] by (simp add: rows_def index_batch_def Let_def tail_cursor_def)
qed

lemma batch_stale:
  assumes "wire_ok w" "session_header_ok h" "grown es" "length es \<le> 2 ^ 64" "stale w h es st"
    and a: "append_entries w new st (Some (file_of w h es)) = (r, st', f')"
  shows "((\<exists>err. r = Inl err) \<or> new = []) \<and> f' = Some (file_of w h es) \<and> stale w h es st' \<and> st_journal st' = st_journal st
    \<or> r = Inr () \<and> fits_all es new \<and> f' = Some (file_of w h (es @ new)) \<and> current w h (es @ new) st'
      \<and> st_journal st' = st_journal st @ zip (seqs_from es new) new"
proof (cases "new = []")
  case True
  then show ?thesis using a assms(5) by (auto simp: append_entries_def stale_def current_def)
next
  case False
  obtain st1 where st1: "current w h es st1" "st_journal st1 = st_journal st"
    and view: "(if length (file_of w h es) = st_disk_size st then Inr st
      else reload_under_fence w (file_of w h es) st) = Inr st1"
    using reload_current [OF assms(1-5)] stale_current [OF assms(3,5)] by (cases "length (file_of w h es) = st_disk_size st") auto
  have st: "\<not> st_deferred st" "\<not> st_version st < FORMAT_VERSION" using assms(5) by (auto simp: stale_def current_def)
  have r1: "rows h es st1" and c: "\<not> st_rewrite st1" "st_version st1 = FORMAT_VERSION" "st_seq st1 = seq_of es"
      "st_disk_size st1 = length (file_of w h es)"
    using st1(1) by (simp_all add: current_def rows_def)
  show ?thesis
  proof (cases "batch_lines w st1 (seq_of es) [] new")
    case (Inl err)
    then show ?thesis using a False st view c st1 current_stale by (auto simp: append_entries_def)
  next
    case (Inr res)
    obtain lns seqs where b: "batch_lines w st1 (seq_of es) [] new = Inr (lns, seqs)" using Inr by (cases res) simp
    have f: "fits_all es new \<and> seqs = seqs_from es new \<and> file_of w h (es @ new) = file_of w h es @ lns
        \<and> index_seqs (seq_of es) new (seqs_from es new) = seq_of (es @ new)"
      by (rule batch_lines_fits [OF assms(3) b]) (simp add: rows_has_id [OF r1])
    have "rows h (es @ new) (index_batch new seqs (st1\<lparr>st_disk_size := n\<rparr>))" for n
    proof (rule rows_batch)
      show "rows h es (st1\<lparr>st_disk_size := n\<rparr>)" using r1 by (simp add: rows_def)
      have "batch_lines w (st1\<lparr>st_disk_size := n\<rparr>) d seen new = batch_lines w st1 d seen new" for d seen
        by (induction new arbitrary: d seen) (simp_all add: has_id_def)
      then show "batch_lines w (st1\<lparr>st_disk_size := n\<rparr>) (seq_of es) [] new = Inr (lns, seqs)" using b by simp
    qed (rule False)
    then show ?thesis
      using a False st view c st1 b f
      by (auto simp: append_entries_def current_def index_batch_def)
  qed
qed

section \<open>All instances over one file\<close>

datatype session_op =
    Append bool entry
  | MoveTo str int "str option"
  | Batch "entry list"

fun perform :: "wire \<Rightarrow> session_op \<Rightarrow> storage \<Rightarrow> disk_file \<Rightarrow> outcome \<times> storage \<times> disk_file" where
  "perform w (Append force e) st f = append_entry_locked w force e st f"
| "perform w (MoveTo new_id now target) st f = set_leaf_id w new_id now target st f"
| "perform w (Batch es) st f = append_entries w es st f"

text \<open>The entries an operation reported to the followers of its instance.\<close>

definition reported :: "storage \<Rightarrow> storage \<Rightarrow> entry list" where
  "reported st st' = map snd (drop (length (st_journal st)) (st_journal st'))"

record system =
  sys_disk :: disk_file
  sys_views :: "nat \<Rightarrow> storage option"
  sys_log :: "entry list"

inductive reach :: "wire \<Rightarrow> header \<Rightarrow> system \<Rightarrow> bool" for w h where
  created: "create w h None = Inr (st, f) \<Longrightarrow> reach w h \<lparr>sys_disk = f, sys_views = [0 \<mapsto> st], sys_log = []\<rparr>"
| deferred: "create_deferred w h None = Inr st \<Longrightarrow> reach w h \<lparr>sys_disk = None, sys_views = [0 \<mapsto> st], sys_log = []\<rparr>"
| opened: "reach w h s \<Longrightarrow> load w (sys_disk s) = Inr st \<Longrightarrow> reach w h (s\<lparr>sys_views := (sys_views s)(i \<mapsto> st)\<rparr>)"
| acted: "reach w h s \<Longrightarrow> sys_views s i = Some st \<Longrightarrow> perform w op st (sys_disk s) = (r, st', f') \<Longrightarrow>
    reach w h \<lparr>sys_disk = f', sys_views = (sys_views s)(i \<mapsto> st'), sys_log = sys_log s @ reported st st'\<rparr>"

definition pending_view :: "header \<Rightarrow> entry list \<Rightarrow> storage \<Rightarrow> bool" where
  "pending_view h es st \<longleftrightarrow> rows h es st \<and> st_deferred st \<and> st_version st = FORMAT_VERSION \<and> \<not> st_rewrite st"

definition sys_ok :: "wire \<Rightarrow> header \<Rightarrow> system \<Rightarrow> bool" where
  "sys_ok w h s \<longleftrightarrow> grown (sys_log s) \<and>
     (case sys_disk s of
        None \<Rightarrow> \<exists>st. sys_views s = [0 \<mapsto> st] \<and> pending_view h (sys_log s) st
      | Some bytes \<Rightarrow> bytes = file_of w h (sys_log s) \<and> (\<forall>i st. sys_views s i = Some st \<longrightarrow> stale w h (sys_log s) st))"

text \<open>Every operation on a file that exists is an extension of the log.\<close>

lemma perform_stale:
  assumes "wire_ok w" "session_header_ok h" "grown es" "length es \<le> 2 ^ 64" "stale w h es st"
    and "perform w op st (Some (file_of w h es)) = (r, st', f')"
  shows "grown (es @ reported st st') \<and> f' = Some (file_of w h (es @ reported st st')) \<and> stale w h (es @ reported st st') st'"
proof -
  have app: ?thesis if "append_entry_locked w force e st (Some (file_of w h es)) = (r, st', f')" for force e
    using append_stale [OF assms(1-5) that] assms(3) current_stale by (auto simp: reported_def)
  show ?thesis
  proof (cases op)
    case (Append force e)
    then show ?thesis using assms(6) app by simp
  next
    case (MoveTo new_id now target)
    then show ?thesis using assms(3,5,6) app by (auto simp: set_leaf_id_def reported_def split: if_splits)
  next
    case (Batch new)
    then have "append_entries w new st (Some (file_of w h es)) = (r, st', f')" using assms(6) by simp
    from batch_stale [OF assms(1-5) this] show ?thesis
      using assms(3) fits_all_grown current_stale by (auto simp: reported_def)
  qed
qed

lemma append_pending:
  assumes w: "wire_ok w" and p: "pending_view h es st"
    and a: "append_entry_locked w force e st None = (r, st', f')"
  shows "grown (es @ reported st st') \<and>
    (f' = None \<and> pending_view h (es @ reported st st') st'
     \<or> f' = Some (file_of w h (es @ reported st st')) \<and> current w h (es @ reported st st') st')"
proof -
  have r: "rows h es st" and g: "grown es" using p by (simp_all add: pending_view_def rows_def)
  have s: "st' = st \<and> f' = None \<or> stamp_entry w force e st None = (r, st', f') \<and> en_id e \<noteq> [] \<and> en_id e \<notin> ids es"
    using a by (auto simp: append_entry_locked_def refresh_def rows_has_id [OF r] split: if_splits)
  show ?thesis
  proof (cases "st' = st \<and> f' = None")
    case True
    then show ?thesis using p g by (simp add: reported_def)
  next
    case False
    with s have s: "stamp_entry w force e st None = (r, st', f')" "en_id e \<noteq> []" "en_id e \<notin> ids es" by auto
    show ?thesis
    proof (cases "follows es e")
      case True
      have rows: "rows h (es @ [e]) st'" using stamp_rows [OF w r True, of force None] stamped_rows [OF r True] s(1) by (metis fst_conv snd_conv)
      have "(st', f') = stamped w h es force e st None" using stamp_rows [OF w r True, of force None] s(1) by simp
      then show ?thesis
        using p True g rows by (auto simp: stamped_def Let_def pending_view_def current_def reported_def index_entry_def direct_def split: if_splits)
    next
      case False
      then obtain q where "en_parent e = Some q" "q \<notin> ids es" using s by (auto simp: follows_def)
      then have "st' = st \<and> f' = None" using s(1) stamp_unknown [OF r, of e q] by simp
      then show ?thesis using \<open>\<not> (st' = st \<and> f' = None)\<close> by simp
    qed
  qed
qed

lemma header_validated:
  assumes "wire_ok w" "validate_header_wire (JObj (wr_header_value w v h)) = Inr ()"
  shows "session_header_ok h"
proof -
  have "map_of (wr_header_value w v h) ''id'' = Some (JStr (hd_id h))" "map_of (wr_header_value w v h) ''cwd'' = Some (JStr (hd_cwd h))"
    using assms(1) by (simp_all add: wire_ok_def header_laws_def Let_def)
  then show ?thesis
    using assms(2) by (auto simp: validate_header_wire_def session_header_ok_def nonempty_string_def split: if_splits option.splits)
qed

lemma fresh_rows: "rows h [] (fresh_storage h d n)"
  by (simp add: rows_def fresh_storage_def tail_cursor_def seq_of_def)

lemma create_current:
  assumes "wire_ok w" "create w h None = Inr (st, f)"
  shows "session_header_ok h \<and> f = Some (file_of w h []) \<and> current w h [] st"
  using assms header_validated [OF assms(1), of FORMAT_VERSION h]
  by (auto simp: create_def try_then_Inr_iff file_of_Nil current_def fresh_rows) (simp_all add: fresh_storage_def)

lemma create_deferred_pending:
  assumes "wire_ok w" "create_deferred w h None = Inr st"
  shows "session_header_ok h \<and> pending_view h [] st"
  using assms header_validated [OF assms(1), of FORMAT_VERSION h]
  by (auto simp: create_deferred_def try_then_Inr_iff pending_view_def fresh_rows) (simp_all add: fresh_storage_def)

lemma load_current:
  assumes "wire_ok w" "session_header_ok h" "grown es" "length es \<le> 2 ^ 64" "load w (Some (file_of w h es)) = Inr st"
  shows "current w h es st"
  using assms(5) by (auto simp: load_def parse_grown [OF assms(1-4)] current_def rows_def assms(3))

lemma perform_pending:
  assumes w: "wire_ok w" and p: "pending_view h es st" and a: "perform w op st None = (r, st', f')"
  shows "grown (es @ reported st st') \<and>
    (f' = None \<and> pending_view h (es @ reported st st') st'
     \<or> f' = Some (file_of w h (es @ reported st st')) \<and> current w h (es @ reported st st') st')"
proof (cases op)
  case (Append force e)
  then show ?thesis using append_pending [OF w p] a by simp
next
  case (MoveTo new_id now target)
  then show ?thesis
    using append_pending [OF w p, of False "Entry new_id (st_leaf st) now (Leaf target)" r st' f'] a p
    by (auto simp: set_leaf_id_def reported_def pending_view_def rows_def split: if_splits)
next
  case (Batch new)
  then have "st' = st" "f' = None" using a p by (auto simp: append_entries_def pending_view_def)
  then show ?thesis using p by (simp add: reported_def pending_view_def rows_def)
qed

lemma reach_ok:
  assumes w: "wire_ok w"
  shows "reach w h s \<Longrightarrow> length (sys_log s) \<le> 2 ^ 64 \<Longrightarrow> session_header_ok h \<and> sys_ok w h s"
proof (induction rule: reach.induct)
  case (created st f)
  then show ?case using create_current [OF w created(1)] current_stale by (auto simp: sys_ok_def)
next
  case (deferred st)
  then show ?case using create_deferred_pending [OF w deferred(1)] by (auto simp: sys_ok_def)
next
  case (opened s st i)
  then obtain bytes where b: "sys_disk s = Some bytes" by (cases "sys_disk s") (auto simp: load_def)
  have ok: "session_header_ok h" "sys_ok w h s" "length (sys_log s) \<le> 2 ^ 64" using opened by simp_all
  then have "stale w h (sys_log s) st"
    using load_current [OF w ok(1)] opened.hyps(2) b current_stale by (auto simp: sys_ok_def)
  then show ?case using ok b by (auto simp: sys_ok_def)
next
  case (acted s i st op r st' f')
  have len: "length (sys_log s) \<le> 2 ^ 64" using acted.prems by simp
  then have ok: "session_header_ok h" "sys_ok w h s" using acted.IH by simp_all
  let ?log = "sys_log s @ reported st st'"
  show ?case
  proof (cases "sys_disk s")
    case None
    then have "st = the (sys_views s 0)" "i = 0" "sys_views s = [0 \<mapsto> st]" "pending_view h (sys_log s) st"
      using ok(2) acted.hyps(2) by (auto simp: sys_ok_def split: if_splits)
    then show ?thesis
      using perform_pending [OF w, of h "sys_log s" st op r st' f'] acted.hyps(3) None ok(1) current_stale
      by (auto simp: sys_ok_def)
  next
    case (Some bytes)
    then have b: "bytes = file_of w h (sys_log s)" "grown (sys_log s)" "\<And>j x. sys_views s j = Some x \<Longrightarrow> stale w h (sys_log s) x"
      using ok(2) by (auto simp: sys_ok_def)
    have "perform w op st (Some (file_of w h (sys_log s))) = (r, st', f')" using acted.hyps(3) Some b(1) by simp
    then have "grown ?log \<and> f' = Some (file_of w h ?log) \<and> stale w h ?log st'"
      by (rule perform_stale [OF w ok(1) b(2) len b(3) [OF acted.hyps(2)]])
    then show ?thesis using ok(1) b(3) stale_grow by (auto simp: sys_ok_def)
  qed
qed

text \<open>C10: instances linearize: however many instances of one session file act in whatever order (one that
  created the file at once or deferred, and any number that opened it, with views of any age), the file holds
  the header and exactly the entries that were reported appended, in the order of the reports, parents first;
  loading it gives these entries and nothing to repair; and every instance's view is an earlier part of them.\<close>

theorem appends_linearize:
  assumes "wire_ok w" and "reach w h s" and "length (sys_log s) \<le> 2 ^ 64"
  shows "tree_ok (sys_log s) \<and> \<not> inverted (sys_log s)
    \<and> (\<forall>bytes. sys_disk s = Some bytes \<longrightarrow> bytes = file_of w h (sys_log s)
        \<and> (\<exists>st. load w (sys_disk s) = Inr st \<and> st_entries st = map durable (sys_log s) \<and> \<not> st_rewrite st))
    \<and> (\<forall>i st. sys_views s i = Some st \<longrightarrow> prefix (map durable (st_entries st)) (map durable (sys_log s)))"
proof -
  have ok: "session_header_ok h" "sys_ok w h s" using reach_ok assms by blast+
  then have g: "grown (sys_log s)" by (simp add: sys_ok_def)
  have "prefix (map durable (st_entries st)) (map durable (sys_log s))" if v: "sys_views s i = Some st" for i st
  proof (cases "sys_disk s")
    case None
    then have "pending_view h (sys_log s) st" using ok(2) v by (auto simp: sys_ok_def split: if_splits)
    then show ?thesis by (simp add: pending_view_def rows_def)
  next
    case (Some bytes)
    then obtain k where "rows h (take k (sys_log s)) st" using ok(2) v by (auto simp: sys_ok_def stale_def current_def)
    then show ?thesis by (simp add: rows_def map_mono_prefix take_is_prefix)
  qed
  moreover have "bytes = file_of w h (sys_log s)
      \<and> (\<exists>st. load w (sys_disk s) = Inr st \<and> st_entries st = map durable (sys_log s) \<and> \<not> st_rewrite st)"
    if "sys_disk s = Some bytes" for bytes
    using that ok(2) by (auto simp: sys_ok_def load_def parse_grown [OF assms(1) ok(1) g assms(3)])
  ultimately show ?thesis using grown_tree [OF g assms(3)] grown_not_inverted [OF g] by blast
qed

definition demo_head :: header where
  "demo_head = \<lparr>hd_id = ''s'', hd_time = 0, hd_cwd = ''/'', hd_parent_session = None, hd_metadata = None\<rparr>"

definition demo_note :: "str \<Rightarrow> str option \<Rightarrow> entry" where
  "demo_note i parent = Entry i parent 0 (CustomEntry ''note'' None)"

lemma demo_header_valid: "validate_header_wire (JObj (wr_header_value demo_wire FORMAT_VERSION demo_head)) = Inr ()"
  by (simp add: validate_header_wire_def demo_wire_def demo_header_value_def demo_head_def is_object_def is_string_def
      nonempty_string_def opt_field_def FORMAT_VERSION_def)

lemma demo_create:
  "create demo_wire demo_head None = Inr (fresh_storage demo_head False (length (session_header_line demo_wire demo_head)),
     Some (file_of demo_wire demo_head []))"
  by (simp add: create_def demo_header_valid file_of_Nil)

lemma demo_grown: "grown [demo_note ''a'' None, demo_note ''b'' (Some ''a'')]" "grown [demo_note ''a'' None]"
  by (simp_all add: grown_def unique_ids_def ids_def demo_note_def less_Suc_eq nth_Cons')

lemma stale_has_id: "stale w h es st \<Longrightarrow> has_id st i \<Longrightarrow> i \<in> ids es"
  by (auto simp: stale_def current_def rows_has_id ids_def) (meson image_eqI in_set_takeD)

lemma append_fits:
  assumes "wire_ok w" "session_header_ok h" "grown es" "length es \<le> 2 ^ 64" "stale w h es st" "follows es (synced w h es st e)"
  shows "fst (append_entry_locked w force e st (Some (file_of w h es))) = Inr ()"
proof -
  let ?e = "synced w h es st e"
  have e: "en_id e \<noteq> []" "en_id e \<notin> ids es" using assms(6) by (auto simp: follows_def)
  then have new: "\<not> has_id st (en_id e)" using stale_has_id [OF assms(5)] by blast
  then obtain st1 where st1: "refresh w e st (Some (file_of w h es)) = (Inr ?e, st1)" "current w h es st1"
    using refresh_stale [OF assms(1-5) new] e(2) by auto
  then have "stamp_entry w force ?e st1 (Some (file_of w h es)) = (Inr (), stamped w h es force ?e st1 (Some (file_of w h es)))"
    using stamp_rows [OF assms(1) _ assms(6)] by (simp add: current_def)
  then show ?thesis using st1(1) e(1) new by (simp add: append_entry_locked_def)
qed

lemma act_fits:
  assumes "wire_ok w" "reach w h s" "length (sys_log s) \<le> 2 ^ 64" "sys_views s i = Some st"
    and "sys_disk s = Some (file_of w h (sys_log s))" "follows (sys_log s) (synced w h (sys_log s) st e)"
  shows "\<exists>st'. reach w h \<lparr>sys_disk = Some (file_of w h (sys_log s @ [synced w h (sys_log s) st e])),
    sys_views = (sys_views s)(i \<mapsto> st'), sys_log = sys_log s @ [synced w h (sys_log s) st e]\<rparr>"
proof -
  let ?f = "Some (file_of w h (sys_log s))" and ?e = "synced w h (sys_log s) st e"
  have ok: "session_header_ok h" "sys_ok w h s" using reach_ok assms(1-3) by blast+
  then have g: "grown (sys_log s)" and st: "stale w h (sys_log s) st" using assms(4,5) by (auto simp: sys_ok_def)
  obtain r st' f' where a: "append_entry_locked w False e st ?f = (r, st', f')" by (metis prod_cases3)
  have "r = Inr ()" using append_fits [OF assms(1) ok(1) g assms(3) st assms(6), of False] a by simp
  then have "f' = Some (file_of w h (sys_log s @ [?e]))" "reported st st' = [?e]"
    using append_stale [OF assms(1) ok(1) g assms(3) st a] by (auto simp: reported_def)
  moreover have "perform w (Append False e) st (sys_disk s) = (r, st', f')" using a assms(5) by simp
  ultimately show ?thesis using acted [OF assms(2,4), of "Append False e"] by metis
qed

text \<open>Two instances open before the first append; the second one's row follows the first one's.\<close>

lemma demo_reach:
  "\<exists>s. reach demo_wire demo_head s \<and> sys_log s = [demo_note ''a'' None, demo_note ''b'' (Some ''a'')]
     \<and> sys_disk s = Some (file_of demo_wire demo_head (sys_log s))"
proof -
  let ?w = demo_wire and ?h = demo_head
  let ?st = "fresh_storage ?h False (length (session_header_line ?w ?h))"
  let ?s0 = "\<lparr>sys_disk = Some (file_of ?w ?h []), sys_views = [0 \<mapsto> ?st], sys_log = []\<rparr>"
  have r0: "reach ?w ?h ?s0" by (rule created [OF demo_create])
  have ok: "session_header_ok ?h" by (simp add: session_header_ok_def demo_head_def)
  obtain st1 where st1: "load ?w (sys_disk ?s0) = Inr st1"
    by (simp add: load_def parse_grown [OF demo_wire_ok ok])
  let ?s1 = "?s0\<lparr>sys_views := (sys_views ?s0)(1 \<mapsto> st1)\<rparr>"
  have r1: "reach ?w ?h ?s1" using r0 st1 by (rule opened)
  have f: "synced ?w ?h [] ?st (demo_note ''a'' None) = demo_note ''a'' None" "follows [] (demo_note ''a'' None)"
    by (simp_all add: synced_def fresh_storage_def file_of_Nil follows_def demo_note_def)
  obtain st' where r2: "reach ?w ?h \<lparr>sys_disk = Some (file_of ?w ?h [demo_note ''a'' None]),
      sys_views = [0 \<mapsto> ?st, 1 \<mapsto> st1, 0 \<mapsto> st'], sys_log = [demo_note ''a'' None]\<rparr>"
    using act_fits [OF demo_wire_ok r1, of 0 ?st "demo_note ''a'' None"] f by auto
  have "current ?w ?h [] st1" using load_current [OF demo_wire_ok ok _ _] st1 by simp
  then have "st_leaf st1 = None" "st_disk_size st1 = length (file_of ?w ?h [])" by (simp_all add: current_def rows_def tail_cursor_def)
  moreover have "length (file_of ?w ?h []) < length (file_of ?w ?h [demo_note ''a'' None])"
    using file_of_shorter [OF demo_grown(2), of 0] by simp
  ultimately have b: "synced ?w ?h [demo_note ''a'' None] st1 (demo_note ''b'' None) = demo_note ''b'' (Some ''a'')"
    by (simp add: synced_def tail_cursor_def leaf_cursor_after_def demo_note_def with_parent_def durable_def)
  have "follows [demo_note ''a'' None] (demo_note ''b'' (Some ''a''))" by (simp add: follows_def demo_note_def)
  then obtain st2 where "reach ?w ?h \<lparr>sys_disk = Some (file_of ?w ?h [demo_note ''a'' None, demo_note ''b'' (Some ''a'')]),
      sys_views = [0 \<mapsto> ?st, 1 \<mapsto> st1, 0 \<mapsto> st', 1 \<mapsto> st2], sys_log = [demo_note ''a'' None, demo_note ''b'' (Some ''a'')]\<rparr>"
    using act_fits [OF demo_wire_ok r2, of 1 st1 "demo_note ''b'' None"] b by auto
  then show ?thesis by force
qed

theorem appends_linearize_witness:
  "\<exists>s. reach demo_wire demo_head s \<and> sys_log s = [demo_note ''a'' None, demo_note ''b'' (Some ''a'')]
    \<and> tree_ok (sys_log s)
    \<and> (\<exists>st. load demo_wire (sys_disk s) = Inr st \<and> st_entries st = map durable (sys_log s) \<and> \<not> st_rewrite st)"
proof -
  obtain s where s: "reach demo_wire demo_head s" "sys_log s = [demo_note ''a'' None, demo_note ''b'' (Some ''a'')]"
    "sys_disk s = Some (file_of demo_wire demo_head (sys_log s))"
    using demo_reach by blast
  then have "length (sys_log s) \<le> 2 ^ 64" by simp
  from appends_linearize [OF demo_wire_ok s(1) this] s show ?thesis by blast
qed

end
