(* ===== verification/Session_Path.thy ===== *)
theory Session_Path
  imports Session_Append
begin

text \<open>
  Reading a session (\<^verbatim>\<open>JsonlSessionStorage::get_path\<close>, \<open>journal_range\<close>): the walk from an entry to the root
  ends, and yields the chain of parents; the position of an entry on its chain is its stamped depth.
\<close>

fun chain_up :: "entry list \<Rightarrow> bool" where
  "chain_up [] = False"
| "chain_up [e] = (en_parent e = None)"
| "chain_up (e # e' # es) = (en_parent e = Some (en_id e') \<and> chain_up (e' # es))"

text \<open>The reference: the branch that ends in an entry, root first.\<close>

definition branch :: "entry list \<Rightarrow> str \<Rightarrow> entry list \<Rightarrow> bool" where
  "branch es i path \<longleftrightarrow> path \<noteq> [] \<and> en_id (last path) = i \<and> chain_up (rev path) \<and> set path \<subseteq> set es"

lemma chain_up_Cons: "chain_up (e # es) \<longleftrightarrow> (if es = [] then en_parent e = None else en_parent e = Some (en_id (hd es)) \<and> chain_up es)"
  by (cases es) auto

lemma chain_up_dep:
  "chain_up path \<Longrightarrow> set path \<subseteq> E \<Longrightarrow> dep E (en_id (hd path)) (length path - 1)"
proof (induction path)
  case (Cons e path)
  show ?case
  proof (cases "path = []")
    case True
    then show ?thesis using Cons.prems by (auto intro: dep.dep_root)
  next
    case False
    then have "dep E (en_id (hd path)) (length path - 1)" using Cons by (simp add: chain_up_Cons)
    then have "dep E (en_id e) (Suc (length path - 1))"
      using Cons.prems False by (intro dep.dep_step) (auto simp: chain_up_Cons)
    then show ?thesis using False by simp
  qed
qed simp

lemma chain_up_drop: "chain_up path \<Longrightarrow> k < length path \<Longrightarrow> chain_up (drop k path)"
proof (induction k arbitrary: path)
  case (Suc k)
  then show ?case by (cases path) (auto simp: chain_up_Cons split: if_splits)
qed simp

lemma branch_dep:
  assumes "branch es i path" "k < length path"
  shows "dep (set es) (en_id (path ! k)) k"
proof -
  let ?n = "length path - Suc k"
  have "chain_up (drop ?n (rev path))" using assms by (intro chain_up_drop) (auto simp: branch_def)
  moreover have "set (drop ?n (rev path)) \<subseteq> set es" using assms(1) set_drop_subset [of ?n "rev path"] by (auto simp: branch_def)
  ultimately have "dep (set es) (en_id (hd (drop ?n (rev path)))) (length (drop ?n (rev path)) - 1)" by (rule chain_up_dep)
  moreover have "hd (drop ?n (rev path)) = path ! k" using assms(2) by (simp add: hd_drop_conv_nth rev_nth)
  ultimately show ?thesis using assms(2) by simp
qed

lemma chain_up_unique:
  assumes "unique_ids es"
  shows "chain_up p \<Longrightarrow> chain_up q \<Longrightarrow> set p \<subseteq> set es \<Longrightarrow> set q \<subseteq> set es \<Longrightarrow> en_id (hd p) = en_id (hd q) \<Longrightarrow> p = q"
proof (induction p arbitrary: q)
  case (Cons e p)
  then obtain e' q' where q: "q = e' # q'" by (cases q) simp_all
  have "e \<in> set es" "e' \<in> set es" "en_id e = en_id e'" using Cons.prems(3-5) q by simp_all
  then have e: "e = e'" by (rule unique_idsD [OF assms])
  show ?case
  proof (cases "p = []")
    case True
    then have "en_parent e = None" using Cons.prems(1) by simp
    then have "q' = []" using Cons.prems(2) e q by (simp add: chain_up_Cons split: if_splits)
    then show ?thesis using True e q by simp
  next
    case False
    then have p: "en_parent e = Some (en_id (hd p))" "chain_up p" using Cons.prems(1) by (simp_all add: chain_up_Cons)
    then have q': "q' \<noteq> []" "en_id (hd q') = en_id (hd p)" "chain_up q'"
      using Cons.prems(2) e q by (auto simp: chain_up_Cons split: if_splits)
    have "p = q'" using Cons.prems(3,4) q p(2) q'(2,3) by (intro Cons.IH) simp_all
    then show ?thesis using e q by simp
  qed
qed simp

lemma branch_unique: "unique_ids es \<Longrightarrow> branch es i p \<Longrightarrow> branch es i q \<Longrightarrow> p = q"
  using chain_up_unique [of es "rev p" "rev q"] by (auto simp: branch_def hd_rev)

lemma find_id:
  assumes "unique_ids es" "set index \<subseteq> set es" "e \<in> set index"
  shows "find (\<lambda>x. en_id x = en_id e) (rev index) = Some e"
proof -
  obtain x where x: "find (\<lambda>x. en_id x = en_id e) (rev index) = Some x"
    using assms(3) by (cases "find (\<lambda>x. en_id x = en_id e) (rev index)") (auto simp: find_None_iff)
  then have "x \<in> set index" "en_id x = en_id e" by (auto simp: find_Some_iff) (metis length_rev nth_mem set_rev)
  then have "x = e" using unique_idsD [OF assms(1)] assms(2,3) by blast
  then show ?thesis using x by simp
qed

lemma walk_chain_dep:
  assumes "dep (set es) i d" "unique_ids es" "set index \<subseteq> set es" "\<forall>e \<in> set es. \<forall>k \<le> d. dep (set es) (en_id e) k \<longrightarrow> e \<in> set index"
  shows "\<exists>path. walk_chain index (Some i) = Inr path \<and> chain_up path \<and> en_id (hd path) = i \<and> set path \<subseteq> set index"
  using assms
proof (induction arbitrary: index rule: dep.induct)
  case (dep_root e)
  then have "e \<in> set index" using dep.dep_root [of e "set es"] by auto
  then have "walk_chain index (Some (en_id e)) = Inr [e]"
    using find_id [OF dep_root.prems(1,2)] dep_root.hyps by (simp add: walk_chain.simps(2))
  then show ?case using dep_root.hyps \<open>e \<in> set index\<close> by auto
next
  case (dep_step e p d)
  have e: "dep (set es) (en_id e) (Suc d)" using dep_step.hyps by (rule dep.dep_step)
  then have "e \<in> set index" using dep_step.prems(3) dep_step.hyps(1) by blast
  then have f: "find (\<lambda>x. en_id x = en_id e) (rev index) = Some e" using find_id [OF dep_step.prems(1,2)] by blast
  let ?index = "drop_id (en_id e) index"
  have "\<exists>path. walk_chain ?index (Some p) = Inr path \<and> chain_up path \<and> en_id (hd path) = p \<and> set path \<subseteq> set ?index"
  proof (rule dep_step.IH [OF dep_step.prems(1)])
    show "set ?index \<subseteq> set es" using dep_step.prems(2) by (auto simp: drop_id_def)
    show "\<forall>x \<in> set es. \<forall>k \<le> d. dep (set es) (en_id x) k \<longrightarrow> x \<in> set ?index"
    proof (intro ballI allI impI)
      fix x k assume x: "x \<in> set es" "k \<le> d" "dep (set es) (en_id x) k"
      then have "x \<in> set index" using dep_step.prems(3) by (meson le_Suc_eq)
      moreover have "en_id x \<noteq> en_id e" using dep_unique [OF dep_step.prems(1) e] x(2,3) by fastforce
      ultimately show "x \<in> set ?index" by (simp add: drop_id_def)
    qed
  qed
  then obtain path where path: "walk_chain ?index (Some p) = Inr path" "chain_up path" "en_id (hd path) = p" "set path \<subseteq> set ?index"
    by blast
  then have "walk_chain index (Some (en_id e)) = Inr (e # path)"
    using f dep_step.hyps(2) by (simp add: walk_chain.simps(2))
  moreover have "chain_up (e # path)" using path(2,3) dep_step.hyps(2) by (cases path) auto
  moreover have "set (e # path) \<subseteq> set index" using path(4) \<open>e \<in> set index\<close> by (auto simp: drop_id_def)
  ultimately show ?case by force
qed

lemma rows_unique: "rows h es st \<Longrightarrow> unique_ids (st_entries st)"
  by (metis durable_ids(2) grown_unique rows_def)

lemma rows_dep: "rows h es st \<Longrightarrow> dep (set (st_entries st)) i d \<longleftrightarrow> st_seq st i = Some d"
proof -
  assume r: "rows h es st"
  have "dep (set (st_entries st)) i d \<longleftrightarrow> dep (set (map durable (st_entries st))) i d" by simp
  also have "\<dots> \<longleftrightarrow> dep (set es) i d" using r by (simp add: rows_def)
  finally show ?thesis using r seq_of_dep by (simp add: rows_def)
qed

lemma walk_branch:
  assumes "rows h es st" "has_id st i"
  shows "\<exists>path. walk_chain (st_entries st) (Some i) = Inr (rev path) \<and> branch (st_entries st) i path"
proof -
  have "i \<in> ids es" using rows_has_id [OF assms(1)] assms(2) by simp
  moreover have "grown es" using assms(1) by (simp add: rows_def)
  ultimately obtain d where "st_seq st i = Some d"
    using assms(1) seq_of_None [of es i] by (cases "seq_of es i") (auto simp: rows_def)
  then have "dep (set (st_entries st)) i d" using rows_dep [OF assms(1)] by simp
  from walk_chain_dep [OF this rows_unique [OF assms(1)], of "st_entries st"]
  obtain path where p: "walk_chain (st_entries st) (Some i) = Inr path" "chain_up path" "en_id (hd path) = i" "set path \<subseteq> set (st_entries st)"
    by auto
  then have "path \<noteq> []" by auto
  then show ?thesis using p by (intro exI [of _ "rev path"]) (simp add: branch_def last_rev)
qed

lemma get_path_branch:
  assumes "rows h es st" "has_id st i"
  shows "\<exists>path. get_path st (Some i) = Inr path \<and> branch (st_entries st) i path"
  using walk_branch [OF assms] assms(2) by (auto simp: get_path_def)

lemma branch_seq: "rows h es st \<Longrightarrow> branch (st_entries st) i path \<Longrightarrow> k < length path \<Longrightarrow> st_seq st (en_id (path ! k)) = Some k"
  using branch_dep [of "st_entries st" i path k] rows_dep [of h es st] by simp



end
