(* ===== verification/Session_Tree.thy ===== *)
theory Session_Tree
  imports Session_Path
begin

text \<open>
  What a session makes of its branch (\<^verbatim>\<open>session/mod.rs\<close>): the context a restored agent continues with, and the
  bounded queries over the active branch.
\<close>

section \<open>Context\<close>

definition is_compaction :: "entry \<Rightarrow> bool" where
  "is_compaction e = (case en_body e of Compaction _ _ _ _ _ _ _ \<Rightarrow> True | _ \<Rightarrow> False)"

text \<open>\<^verbatim>\<open>Iterator::rposition\<close>.\<close>

fun rposition :: "('a \<Rightarrow> bool) \<Rightarrow> 'a list \<Rightarrow> nat option" where
  "rposition P [] = None"
| "rposition P (x # xs) =
     (case rposition P xs of Some i \<Rightarrow> Some (Suc i) | None \<Rightarrow> if P x then Some 0 else None)"

fun position :: "('a \<Rightarrow> bool) \<Rightarrow> 'a list \<Rightarrow> nat option" where
  "position P [] = None"
| "position P (x # xs) = (if P x then Some 0 else map_option Suc (position P xs))"

text \<open>The walk over the rows before the boundary, with its flag.\<close>

fun kept_from :: "str option \<Rightarrow> bool \<Rightarrow> entry list \<Rightarrow> entry list" where
  "kept_from first found [] = []"
| "kept_from first found (e # es) =
     (let found = (found \<or> Some (en_id e) = first) in
      (if found then [e] else []) @ kept_from first found es)"

definition build_context_entries :: "entry list \<Rightarrow> entry list" where
  "build_context_entries path =
     (case rposition is_compaction path of
        None \<Rightarrow> path
      | Some i \<Rightarrow>
          path ! i #
          (case en_body (path ! i) of
             Compaction _ first _ None _ _ _ \<Rightarrow> kept_from first False (take i path)
           | _ \<Rightarrow> [])
          @ drop (i + 1) path)"

record settings =
  sg_has_thinking :: bool
  sg_thinking :: "str option"
  sg_model :: "(str \<times> str) option"
  sg_tools :: "str list option"
  sg_cwd :: "str option"

definition no_settings :: settings where
  "no_settings = \<lparr>sg_has_thinking = False, sg_thinking = None, sg_model = None, sg_tools = None, sg_cwd = None\<rparr>"

definition settings_step :: "entry \<Rightarrow> settings \<Rightarrow> settings" where
  "settings_step e s =
     (case en_body e of
        ThinkingLevelChange l \<Rightarrow> s\<lparr>sg_has_thinking := True, sg_thinking := (if l \<noteq> ''off'' then Some l else None)\<rparr>
      | CwdChange c \<Rightarrow> s\<lparr>sg_cwd := Some c\<rparr>
      | ModelChange provider model \<Rightarrow> s\<lparr>sg_model := Some (provider, model)\<rparr>
      | Message (AssistantMsg a) _ \<Rightarrow> s\<lparr>sg_model := Some (as_provider a, as_model a)\<rparr>
      | ActiveToolsChange names \<Rightarrow> s\<lparr>sg_tools := Some names\<rparr>
      | _ \<Rightarrow> s)"

definition context_settings :: "entry list \<Rightarrow> settings" where
  "context_settings path = fold settings_step path no_settings"

definition COMPACTION_SUMMARY_PREFIX :: str where
  "COMPACTION_SUMMARY_PREFIX =
     ''The conversation history before this point was compacted into the following summary:'' @ [NL, NL] @ ''<summary>'' @ [NL]"

definition COMPACTION_SUMMARY_SUFFIX :: str where
  "COMPACTION_SUMMARY_SUFFIX = [NL] @ ''</summary>''"

definition BRANCH_SUMMARY_PREFIX :: str where
  "BRANCH_SUMMARY_PREFIX =
     ''The following is a summary of a branch that this conversation came back from:'' @ [NL, NL] @ ''<summary>'' @ [NL]"

definition BRANCH_SUMMARY_SUFFIX :: str where
  "BRANCH_SUMMARY_SUFFIX = ''</summary>''"

definition compaction_summary_message :: "str \<Rightarrow> int \<Rightarrow> message" where
  "compaction_summary_message summary now =
     UserMsg [TextBlock (COMPACTION_SUMMARY_PREFIX @ summary @ COMPACTION_SUMMARY_SUFFIX) None] now None"

definition branch_summary_message :: "str \<Rightarrow> int \<Rightarrow> message" where
  "branch_summary_message summary now =
     UserMsg [TextBlock (BRANCH_SUMMARY_PREFIX @ summary @ BRANCH_SUMMARY_SUFFIX) None] now None"

definition session_entry_to_context_messages :: "entry \<Rightarrow> message list" where
  "session_entry_to_context_messages e =
     (case en_body e of
        Message m _ \<Rightarrow> [m]
      | CustomMessage custom_type content details display \<Rightarrow> [CustomMsg custom_type content details display (en_time e)]
      | BranchSummary _ summary _ _ _ \<Rightarrow> if summary \<noteq> [] then [branch_summary_message summary (en_time e)] else []
      | Compaction summary _ _ retained_tail _ _ _ \<Rightarrow>
          compaction_summary_message summary (en_time e) # (case retained_tail of Some tail \<Rightarrow> tail | None \<Rightarrow> [])
      | _ \<Rightarrow> [])"

record session_context =
  cx_messages :: "message list"
  cx_entry_ids :: "str option list"
  cx_settings :: settings

definition context_step :: "entry \<Rightarrow> message list \<times> str option list \<Rightarrow> message list \<times> str option list" where
  "context_step e acc =
     (let projected = session_entry_to_context_messages e in
      if projected \<noteq> []
      then (fst acc @ projected, snd acc @ Some (en_id e) # replicate (length projected - 1) None)
      else acc)"

definition context_of :: "entry list \<Rightarrow> session_context" where
  "context_of path =
     (let acc = fold context_step (build_context_entries path) ([], []) in
      \<lparr>cx_messages = fst acc, cx_entry_ids = snd acc, cx_settings = context_settings path\<rparr>)"

section \<open>Queries over the branch\<close>

fun entry_kind :: "entry_body \<Rightarrow> str" where
  "entry_kind (Message _ _) = ''message''"
| "entry_kind (Compaction _ _ _ _ _ _ _) = ''compaction''"
| "entry_kind (ModelChange _ _) = ''model_change''"
| "entry_kind (CwdChange _) = ''cwd_change''"
| "entry_kind (ThinkingLevelChange _) = ''thinking_level_change''"
| "entry_kind (AccessModeChange _) = ''access_mode_change''"
| "entry_kind (ActiveToolsChange _) = ''active_tools_change''"
| "entry_kind (BranchSummary _ _ _ _ _) = ''branch_summary''"
| "entry_kind (CustomEntry _ _) = ''custom''"
| "entry_kind (CustomMessage _ _ _ _) = ''custom_message''"
| "entry_kind (Label _ _) = ''label''"
| "entry_kind (SessionInfo _) = ''session_info''"
| "entry_kind (Leaf _) = ''leaf''"
| "entry_kind (OtherEntry kind _) = kind"

definition find_entries :: "str \<Rightarrow> storage \<Rightarrow> entry list" where
  "find_entries kind st = filter (\<lambda>e. entry_kind (en_body e) = kind) (st_entries st)"

datatype branch_start = AtLeaf | NoStart | At str

record branch_query =
  q_start :: branch_start
  q_stop_type :: "str option"
  q_stop_id :: "str option"
  q_type :: "str option"
  q_custom :: "str option"
  q_oldest_first :: bool
  q_limit :: "nat option"

definition stops :: "branch_query \<Rightarrow> entry \<Rightarrow> bool" where
  "stops q e \<longleftrightarrow> q_stop_id q = Some (en_id e) \<or> q_stop_type q = Some (entry_kind (en_body e))"

definition selects :: "branch_query \<Rightarrow> entry \<Rightarrow> bool" where
  "selects q e \<longleftrightarrow> (case q_type q of None \<Rightarrow> True | Some t \<Rightarrow> t = entry_kind (en_body e))
     \<and> (case q_custom q of None \<Rightarrow> True | Some ct \<Rightarrow> (case en_body e of CustomEntry c _ \<Rightarrow> c = ct | _ \<Rightarrow> False))"

text \<open>The walk of a query, with its visited set.\<close>

lemma get_entry_id: "get_entry st i = Some e \<Longrightarrow> e \<in> set (st_entries st) \<and> en_id e = i"
  by (auto simp: get_entry_def find_Some_iff)

function climb :: "storage \<Rightarrow> branch_query \<Rightarrow> str list \<Rightarrow> entry \<Rightarrow> (session_error, entry list) result" where
  "climb st q visited e =
     (if en_id e \<in> set visited then Inl (ChainCycle (en_id e))
      else if \<not> q_oldest_first q \<and> stops q e then Inr [e]
      else case en_parent e of
             None \<Rightarrow> Inr [e]
           | Some parent \<Rightarrow>
               (case get_entry st parent of
                  None \<Rightarrow> Inl (ChainBroken parent)
                | Some e' \<Rightarrow> try_then (climb st q (en_id e # visited) e') (\<lambda>es. Inr (e # es))))"
  by pat_completeness auto
termination
proof (relation "measures [\<lambda>(st, q, visited, e). card (ids (st_entries st) - set visited),
    \<lambda>(st, q, visited, e). if en_id e \<in> ids (st_entries st) then 0 else 1]", goal_cases)
  case (2 st q visited e p e')
  have e': "en_id e' \<in> ids (st_entries st)" using get_entry_id 2(4) by (auto simp: ids_def)
  have fin: "finite (ids (st_entries st))" by (simp add: ids_def)
  show ?case
  proof (cases "en_id e \<in> ids (st_entries st)")
    case True
    then have "ids (st_entries st) - set (en_id e # visited) \<subset> ids (st_entries st) - set visited" using 2(1) by auto
    then show ?thesis using fin by (simp add: psubset_card_mono del: list.set)
  next
    case False
    then have "ids (st_entries st) - set (en_id e # visited) = ids (st_entries st) - set visited" by auto
    then show ?thesis using False e' by (simp del: list.set)
  qed
qed simp

declare climb.simps [simp del]

definition find_entries_on_branch :: "branch_query \<Rightarrow> storage \<Rightarrow> (session_error, entry list) result" where
  "find_entries_on_branch q st =
     (if q_limit q = Some 0 then Inl LimitZero
      else
        try_then (case q_start q of
            NoStart \<Rightarrow> Inr None
          | AtLeaf \<Rightarrow> get_leaf_id st
          | At i \<Rightarrow> Inr (Some i)) (\<lambda>start.
        case start of
          None \<Rightarrow> Inr []
        | Some i \<Rightarrow>
            (case get_entry st i of
               None \<Rightarrow> Inl (NotFound i)
             | Some e \<Rightarrow>
                 try_then (climb st q [] e) (\<lambda>path.
                   let traversal = (if q_oldest_first q then rev path else path);
                       bounded = (if q_oldest_first q
                         then (case position (stops q) traversal of
                             Some n \<Rightarrow> take (Suc n) traversal
                           | None \<Rightarrow> traversal)
                         else traversal);
                       entries = filter (selects q) bounded
                   in Inr (case q_limit q of Some l \<Rightarrow> take l entries | None \<Rightarrow> entries)))))"

definition find_entry_on_branch :: "branch_query \<Rightarrow> storage \<Rightarrow> (session_error, entry option) result" where
  "find_entry_on_branch q st =
     try_then (find_entries_on_branch (q\<lparr>q_limit := Some 1\<rparr>) st)
       (\<lambda>es. Inr (case es of [] \<Rightarrow> None | e # _ \<Rightarrow> Some e))"

section \<open>What the context holds\<close>

lemma kept_from_True: "kept_from first True es = es"
  by (induction es) simp_all

lemma kept_from_dropWhile: "kept_from first False es = dropWhile (\<lambda>e. Some (en_id e) \<noteq> first) es"
  by (induction es) (simp_all add: kept_from_True)

lemma rposition_None: "rposition P xs = None \<longleftrightarrow> (\<forall>x \<in> set xs. \<not> P x)"
  by (induction xs) (auto split: option.splits)

lemma rposition_Some: "P x \<Longrightarrow> \<forall>y \<in> set ys. \<not> P y \<Longrightarrow> rposition P (xs @ x # ys) = Some (length xs)"
  using rposition_None [of P ys] by (induction xs) simp_all

lemma rposition_snoc: "\<not> P x \<Longrightarrow> rposition P (xs @ [x]) = rposition P xs"
  by (induction xs) (simp_all split: option.splits)

lemma rposition_less: "rposition P xs = Some i \<Longrightarrow> i < length xs"
  by (induction xs arbitrary: i) (auto split: option.splits if_splits)

lemma build_context_plain: "\<forall>e \<in> set path. \<not> is_compaction e \<Longrightarrow> build_context_entries path = path"
  using rposition_None [of is_compaction path] by (simp add: build_context_entries_def)

lemma build_context_snoc: "\<not> is_compaction e \<Longrightarrow> build_context_entries (path @ [e]) = build_context_entries path @ [e]"
proof (cases "rposition is_compaction path")
  case (Some i)
  assume e: "\<not> is_compaction e"
  have i: "i < length path" using Some by (rule rposition_less)
  then show ?thesis
    by (cases "en_body (path ! i)") (simp_all add: build_context_entries_def rposition_snoc [of is_compaction, OF e] Some nth_append split: option.splits)
qed (simp add: build_context_entries_def rposition_snoc)

lemma build_context_boundary:
  assumes "en_body c = Compaction summary first n tail u d h" "\<forall>e \<in> set post. \<not> is_compaction e"
  shows "build_context_entries (pre @ c # post) =
    c # (if tail = None then dropWhile (\<lambda>e. Some (en_id e) \<noteq> first) pre else []) @ post"
proof -
  have "rposition is_compaction (pre @ c # post) = Some (length pre)"
    using assms by (intro rposition_Some) (simp_all add: is_compaction_def)
  then show ?thesis using assms(1) by (cases tail) (simp_all add: build_context_entries_def kept_from_dropWhile nth_append)
qed

lemma context_fold:
  "fst (fold context_step es acc) = fst acc @ concat (map session_entry_to_context_messages es)"
proof (induction es arbitrary: acc)
  case (Cons e es)
  then show ?case by (cases "session_entry_to_context_messages e") (simp_all add: context_step_def Let_def)
qed simp

lemma context_messages:
  "cx_messages (context_of path) = concat (map session_entry_to_context_messages (build_context_entries path))"
  by (simp add: context_of_def Let_def context_fold)

lemma context_snoc:
  assumes "\<not> is_compaction e"
  shows "cx_messages (context_of (path @ [e])) = cx_messages (context_of path) @ session_entry_to_context_messages e"
    and "cx_settings (context_of (path @ [e])) = settings_step e (cx_settings (context_of path))"
  by (simp_all add: context_messages build_context_snoc assms) (simp add: context_of_def context_settings_def Let_def)

definition slots_ok :: "entry list \<Rightarrow> message list \<times> str option list \<Rightarrow> bool" where
  "slots_ok es acc \<longleftrightarrow> length (fst acc) = length (snd acc) \<and>
     (\<forall>i < length (fst acc). \<forall>k. snd acc ! i = Some k \<longrightarrow>
        (\<exists>e \<in> set es. en_id e = k \<and> (\<exists>ms. session_entry_to_context_messages e = fst acc ! i # ms)))"

lemma slots_step:
  assumes "slots_ok es acc" "e \<in> set es"
  shows "slots_ok es (context_step e acc)"
proof (cases "session_entry_to_context_messages e")
  case Nil
  then show ?thesis using assms(1) by (simp add: context_step_def)
next
  case (Cons m ms)
  have "\<exists>e \<in> set es. en_id e = k \<and> (\<exists>ms. session_entry_to_context_messages e = (fst acc @ m # ms') ! i # ms)"
    if i: "i < length (fst acc) + Suc (length ms)" "(snd acc @ Some (en_id e) # replicate (length ms) None) ! i = Some k"
      and ms': "ms' = ms" for i k ms'
  proof -
    have len: "length (snd acc) = length (fst acc)" using assms(1) by (simp add: slots_ok_def)
    show ?thesis
    proof (cases "i < length (fst acc)")
      case True
      then show ?thesis using assms(1) i(2) len by (simp add: slots_ok_def nth_append)
    next
      case False
      then obtain j where j: "i = length (fst acc) + j" using le_Suc_ex by (metis not_less)
      then have "j = 0" using i len by (cases j) (simp_all add: nth_append)
      then show ?thesis using i(2) j len assms(2) Cons ms' by (auto simp: nth_append)
    qed
  qed
  then show ?thesis using assms(1) Cons by (simp add: context_step_def Let_def slots_ok_def)
qed

lemma slots_fold: "slots_ok es acc \<Longrightarrow> set xs \<subseteq> set es \<Longrightarrow> slots_ok es (fold context_step xs acc)"
  by (induction xs arbitrary: acc) (simp_all add: slots_step)

text \<open>Restoring a session at its last compaction: the context is the summary, then what the boundary
  retained (the messages it carries, or else the rows from the first kept id on), then everything after it;
  rows before an older boundary never matter. Every message has an id slot, and a filled slot names the entry
  of the context whose projection starts with that message.\<close>

lemma context_restarts_at_boundary:
  assumes "en_body c = Compaction summary first n tail u d h" and "\<forall>e \<in> set post. \<not> is_compaction e"
  shows "cx_messages (context_of (pre @ c # post)) =
      compaction_summary_message summary (en_time c)
      # (case tail of Some ms \<Rightarrow> ms
         | None \<Rightarrow> concat (map session_entry_to_context_messages (dropWhile (\<lambda>e. Some (en_id e) \<noteq> first) pre)))
      @ concat (map session_entry_to_context_messages post)
    \<and> slots_ok (build_context_entries (pre @ c # post))
        (cx_messages (context_of (pre @ c # post)), cx_entry_ids (context_of (pre @ c # post)))"
proof -
  have "session_entry_to_context_messages c = compaction_summary_message summary (en_time c) # (case tail of Some ms \<Rightarrow> ms | None \<Rightarrow> [])"
    using assms(1) by (simp add: session_entry_to_context_messages_def)
  then have "cx_messages (context_of (pre @ c # post)) = compaction_summary_message summary (en_time c)
      # (case tail of Some ms \<Rightarrow> ms
         | None \<Rightarrow> concat (map session_entry_to_context_messages (dropWhile (\<lambda>e. Some (en_id e) \<noteq> first) pre)))
      @ concat (map session_entry_to_context_messages post)"
    by (cases tail) (simp_all add: context_messages build_context_boundary [OF assms])
  moreover have "slots_ok (build_context_entries p) (cx_messages (context_of p), cx_entry_ids (context_of p))" for p
    using slots_fold [of "build_context_entries p" "([], [])"] by (simp add: context_of_def Let_def slots_ok_def)
  ultimately show ?thesis by blast
qed

section \<open>What a query returns\<close>

text \<open>The reference: up to the first entry that stops, inclusive.\<close>

fun upto_stop :: "(entry \<Rightarrow> bool) \<Rightarrow> entry list \<Rightarrow> entry list" where
  "upto_stop P [] = []"
| "upto_stop P (e # es) = (if P e then [e] else e # upto_stop P es)"

lemma position_upto:
  "(case position P es of Some n \<Rightarrow> take (Suc n) es | None \<Rightarrow> es) = upto_stop P es"
proof (induction es)
  case (Cons e es)
  then show ?case by (cases "position P es") simp_all
qed simp

lemma climb_chain:
  assumes u: "unique_ids (st_entries st)"
  shows "chain_up up \<Longrightarrow> set up \<subseteq> set (st_entries st) \<Longrightarrow> distinct (map en_id up) \<Longrightarrow> en_id ` set up \<inter> set visited = {} \<Longrightarrow>
    climb st q visited (hd up) = Inr (if q_oldest_first q then up else upto_stop (stops q) up)"
proof (induction up arbitrary: visited)
  case (Cons e up)
  have e: "en_id e \<notin> set visited" using Cons.prems(4) by auto
  show ?case
  proof (cases "up = []")
    case True
    then show ?thesis using Cons.prems(1) e by (simp add: climb.simps [of st q visited])
  next
    case False
    then have p: "en_parent e = Some (en_id (hd up))" "chain_up up" using Cons.prems(1) by (simp_all add: chain_up_Cons)
    have "hd up \<in> set (st_entries st)" using False Cons.prems(2) by auto
    then have g: "get_entry st (en_id (hd up)) = Some (hd up)"
      using find_id [OF u, of "rev (st_entries st)" "hd up"] by (simp add: get_entry_def)
    have "climb st q (en_id e # visited) (hd up) = Inr (if q_oldest_first q then up else upto_stop (stops q) up)"
      using Cons.prems p(2) by (intro Cons.IH) auto
    then show ?thesis using e p(1) g by (simp add: climb.simps [of st q visited])
  qed
qed simp

lemma branch_distinct:
  assumes "unique_ids es" "branch es i path"
  shows "distinct (map en_id path)"
proof -
  have "en_id (path ! j) \<noteq> en_id (path ! k)" if "j < length path" "k < length path" "j \<noteq> k" for j k
    using branch_dep [OF assms(2)] that dep_unique [OF assms(1)] by metis
  then show ?thesis by (auto simp: distinct_conv_nth)
qed

text \<open>C36: a branch query is a window of the path: on a view of grown rows a query with a positive limit that
  starts at a known entry never fails, and returns the path of that entry in the asked order, cut behind the
  first entry that stops, filtered, and cut to the limit.\<close>

theorem query_is_path_window:
  assumes "rows h es st" and "has_id st i" and "q_limit q \<noteq> Some 0"
    and "q_start q = At i \<or> q_start q = AtLeaf \<and> st_leaf st = Some i"
  shows "\<exists>path. get_path st (Some i) = Inr path \<and> find_entries_on_branch q st =
    Inr ((case q_limit q of Some l \<Rightarrow> take l | None \<Rightarrow> id)
      (filter (selects q) (upto_stop (stops q) (if q_oldest_first q then path else rev path))))"
proof -
  obtain path where path: "get_path st (Some i) = Inr path" "branch (st_entries st) i path"
    using get_path_branch [OF assms(1,2)] by blast
  have u: "unique_ids (st_entries st)" using rows_unique [OF assms(1)] .
  have p: "chain_up (rev path)" "set path \<subseteq> set (st_entries st)" "path \<noteq> []" "en_id (last path) = i"
    using path(2) by (auto simp: branch_def)
  have "last path \<in> set (st_entries st)" using p(2,3) by auto
  then have g: "get_entry st i = Some (last path)"
    using find_id [OF u, of "rev (st_entries st)" "last path"] p(4) by (simp add: get_entry_def)
  have c: "climb st q [] (last path) = Inr (if q_oldest_first q then rev path else upto_stop (stops q) (rev path))"
    using climb_chain [OF u p(1), of "[]" q] p(2,3) branch_distinct [OF u path(2)] by (simp add: hd_rev rev_map [symmetric])
  have start: "(case q_start q of NoStart \<Rightarrow> Inr None | AtLeaf \<Rightarrow> get_leaf_id st | At i \<Rightarrow> Inr (Some i)) = Inr (Some i)"
    using assms(2,4) by (auto simp: get_leaf_id_def)
  show ?thesis
    using path(1) g c assms(3)
    by (cases "q_limit q"; cases "q_oldest_first q")
       (simp_all add: find_entries_on_branch_def start position_upto Let_def)
qed

theorem query_is_path_window_witness:
  "\<exists>st. find_entries_on_branch \<lparr>q_start = At ''b'', q_stop_type = None, q_stop_id = None, q_type = Some ''custom'', q_custom = None,
      q_oldest_first = False, q_limit = Some 1\<rparr> st = Inr [demo_note ''b'' (Some ''a'')]"
proof -
  let ?es = "[demo_note ''a'' None, demo_note ''b'' (Some ''a'')]"
  let ?q = "\<lparr>q_start = At ''b'', q_stop_type = None, q_stop_id = None, q_type = Some ''custom'', q_custom = None,
      q_oldest_first = False, q_limit = Some (1 :: nat)\<rparr>"
  let ?st = "\<lparr>st_entries = ?es, st_leaf = Some ''b'', st_seq = seq_of ?es, st_version = FORMAT_VERSION, st_journal = [],
    st_metadata = demo_head, st_deferred = False, st_rewrite = False, st_disk_size = 0\<rparr>"
  have r: "rows demo_head ?es ?st"
    using demo_grown(1) by (simp add: rows_def tail_cursor_def leaf_cursor_after_def demo_note_def)
  have i: "has_id ?st ''b''" by (simp add: has_id_def demo_note_def)
  obtain path where path: "get_path ?st (Some ''b'') = Inr path"
    and f: "find_entries_on_branch ?q ?st = Inr (take 1 (filter (selects ?q) (upto_stop (stops ?q) (rev path))))"
    using query_is_path_window [OF r i, of ?q] by auto
  have "branch ?es ''b'' path" using get_path_branch [OF r i] path by auto
  moreover have "branch ?es ''b'' ?es" by (simp add: branch_def demo_note_def)
  ultimately have "path = ?es" using branch_unique rows_unique [OF r] by fastforce
  then show ?thesis using f by (intro exI [of _ ?st]) (simp add: selects_def stops_def demo_note_def)
qed

end
