(* ===== verification/Session_Ops.thy ===== *)
theory Session_Ops
  imports Session_Tree
begin

text \<open>
  A session over a storage (\<^verbatim>\<open>Session<S: SessionStorage>\<close>, \<^verbatim>\<open>session/mod.rs\<close>). The storage trait is the record
  \<open>backend\<close> of the calls a session makes, and the locale \<open>session_store\<close> states what the trait promises; the
  lemmas about a session are proved from that, and \<open>jsonl\<close> shows that the JSONL storage keeps the promises as
  long as no other instance wrote since. A call holds the session's lock, so it is one step.
\<close>

section \<open>The storage trait\<close>

record 's backend =
  bk_append :: "bool \<Rightarrow> entry \<Rightarrow> 's \<Rightarrow> outcome \<times> 's"
  bk_leaf :: "'s \<Rightarrow> (session_error, str option) result"
  bk_set_leaf :: "str \<Rightarrow> int \<Rightarrow> str option \<Rightarrow> 's \<Rightarrow> outcome \<times> 's"
  bk_path :: "'s \<Rightarrow> str option \<Rightarrow> (session_error, entry list) result"
  bk_entry :: "'s \<Rightarrow> str \<Rightarrow> entry option"

type_synonym 's appended = "(session_error, str) result \<times> 's"

section \<open>Appends\<close>

definition append_body :: "'s backend \<Rightarrow> bool \<Rightarrow> str \<Rightarrow> int \<Rightarrow> entry_body \<Rightarrow> 's \<Rightarrow> 's appended" where
  "append_body bk forced new_id now body s =
     (case bk_leaf bk s of
        Inl err \<Rightarrow> (Inl err, s)
      | Inr parent \<Rightarrow>
          (case bk_append bk forced (Entry new_id parent now body) s of
             (Inl err, s') \<Rightarrow> (Inl err, s')
           | (Inr _, s') \<Rightarrow> (Inr new_id, s')))"

definition user_entry_id :: "message \<Rightarrow> str option" where
  "user_entry_id m = (case m of UserMsg _ _ i \<Rightarrow> i | _ \<Rightarrow> None)"

definition append_message_with_origin ::
  "'s backend \<Rightarrow> str \<Rightarrow> int \<Rightarrow> message \<Rightarrow> str option \<Rightarrow> 's \<Rightarrow> 's appended" where
  "append_message_with_origin bk new_id now m origin =
     append_body bk False (case user_entry_id m of Some i \<Rightarrow> i | None \<Rightarrow> new_id) now (Message m origin)"

definition append_message :: "'s backend \<Rightarrow> str \<Rightarrow> int \<Rightarrow> message \<Rightarrow> 's \<Rightarrow> 's appended" where
  "append_message bk new_id now m = append_message_with_origin bk new_id now m None"

definition append_message_durable ::
  "'s backend \<Rightarrow> str \<Rightarrow> int \<Rightarrow> message \<Rightarrow> str option \<Rightarrow> 's \<Rightarrow> 's appended" where
  "append_message_durable bk new_id now m origin =
     append_body bk True (case user_entry_id m of Some i \<Rightarrow> i | None \<Rightarrow> new_id) now (Message m origin)"

definition append_model_change :: "'s backend \<Rightarrow> str \<Rightarrow> int \<Rightarrow> str \<Rightarrow> str \<Rightarrow> 's \<Rightarrow> 's appended" where
  "append_model_change bk new_id now provider model_id = append_body bk False new_id now (ModelChange provider model_id)"

definition append_cwd_change :: "'s backend \<Rightarrow> str \<Rightarrow> int \<Rightarrow> str \<Rightarrow> 's \<Rightarrow> 's appended" where
  "append_cwd_change bk new_id now cwd = append_body bk False new_id now (CwdChange cwd)"

definition append_active_tools_change :: "'s backend \<Rightarrow> str \<Rightarrow> int \<Rightarrow> str list \<Rightarrow> 's \<Rightarrow> 's appended" where
  "append_active_tools_change bk new_id now names = append_body bk False new_id now (ActiveToolsChange names)"

definition append_thinking_level_change :: "'s backend \<Rightarrow> str \<Rightarrow> int \<Rightarrow> str \<Rightarrow> 's \<Rightarrow> 's appended" where
  "append_thinking_level_change bk new_id now level = append_body bk False new_id now (ThinkingLevelChange level)"

definition append_access_mode_change :: "'s backend \<Rightarrow> str \<Rightarrow> int \<Rightarrow> str \<Rightarrow> 's \<Rightarrow> 's appended" where
  "append_access_mode_change bk new_id now mode = append_body bk False new_id now (AccessModeChange mode)"

definition append_access_mode_change_durable :: "'s backend \<Rightarrow> str \<Rightarrow> int \<Rightarrow> str \<Rightarrow> 's \<Rightarrow> 's appended" where
  "append_access_mode_change_durable bk new_id now mode = append_body bk True new_id now (AccessModeChange mode)"

definition append_compaction ::
  "'s backend \<Rightarrow> str \<Rightarrow> int \<Rightarrow> str \<Rightarrow> str option \<Rightarrow> nat \<Rightarrow> token_usage option \<Rightarrow> json option \<times> bool \<Rightarrow> message list option
    \<Rightarrow> 's \<Rightarrow> (session_error, str \<times> int) result \<times> 's" where
  "append_compaction bk new_id now summary first_kept tokens usage authorship retained_tail s =
     (case append_body bk False new_id now
         (Compaction summary first_kept tokens retained_tail usage (fst authorship) (Some (snd authorship))) s of
        (Inl err, s') \<Rightarrow> (Inl err, s')
      | (Inr i, s') \<Rightarrow> (Inr (i, now), s'))"

definition append_branch_summary ::
  "'s backend \<Rightarrow> str \<Rightarrow> int \<Rightarrow> str \<Rightarrow> str \<Rightarrow> str list \<Rightarrow> str list \<Rightarrow> token_usage option \<Rightarrow> bool \<Rightarrow> 's \<Rightarrow> 's appended" where
  "append_branch_summary bk new_id now source summary read_files modified_files usage hook =
     append_body bk False new_id now
       (BranchSummary source summary
         (Some (JObj [(''readFiles'', JArr (map JStr read_files)), (''modifiedFiles'', JArr (map JStr modified_files))]))
         usage (Some hook))"

definition append_custom :: "'s backend \<Rightarrow> str \<Rightarrow> int \<Rightarrow> str \<Rightarrow> json option \<Rightarrow> 's \<Rightarrow> 's appended" where
  "append_custom bk new_id now custom_type data = append_body bk False new_id now (CustomEntry custom_type data)"

definition append_custom_message ::
  "'s backend \<Rightarrow> str \<Rightarrow> int \<Rightarrow> str \<Rightarrow> content_block list \<Rightarrow> json option \<Rightarrow> bool \<Rightarrow> 's \<Rightarrow> 's appended" where
  "append_custom_message bk new_id now custom_type content details display =
     append_body bk False new_id now (CustomMessage custom_type content details display)"

definition append_label :: "'s backend \<Rightarrow> str \<Rightarrow> int \<Rightarrow> str \<Rightarrow> str option \<Rightarrow> 's \<Rightarrow> 's appended" where
  "append_label bk new_id now target label = append_body bk False new_id now (Label target label)"

definition set_session_name :: "'s backend \<Rightarrow> str \<Rightarrow> int \<Rightarrow> str \<Rightarrow> 's \<Rightarrow> 's appended" where
  "set_session_name bk new_id now name = append_body bk False new_id now (SessionInfo (Some name))"

text \<open>An entry of any other kind is built from its wire kind and payload.\<close>

definition from_kind_payload ::
  "wire \<Rightarrow> str \<Rightarrow> str \<Rightarrow> str option \<Rightarrow> int \<Rightarrow> json \<Rightarrow> (session_error, entry) result" where
  "from_kind_payload w kind i parent now payload =
     (case payload of
        JObj fs \<Rightarrow>
          (case find (\<lambda>k. map_of fs k \<noteq> None) [''id'', ''parentId'', ''timestamp'', ''type'', ''seq''] of
             Some reserved \<Rightarrow> Inl (ReservedKey kind reserved)
           | None \<Rightarrow>
               if kind = ''message'' \<or> kind = ''compaction'' then Inl (OwnAppendPath kind)
               else
                 (case wr_entry w (JObj (fold (\<lambda>(k, v). put_key k v) fs
                     [(''type'', JStr kind), (''id'', JStr i), (''parentId'', json_of_id parent), (''timestamp'', wr_time w now)])) of
                    None \<Rightarrow> Inl EntryInvalid
                  | Some e \<Rightarrow> Inr e))
      | _ \<Rightarrow> Inl (PayloadNotObject kind))"

definition append_typed :: "wire \<Rightarrow> 's backend \<Rightarrow> str \<Rightarrow> int \<Rightarrow> str \<Rightarrow> json \<Rightarrow> 's \<Rightarrow> 's appended" where
  "append_typed w bk new_id now kind payload s =
     (case bk_leaf bk s of
        Inl err \<Rightarrow> (Inl err, s)
      | Inr parent \<Rightarrow>
          (case from_kind_payload w kind new_id parent now payload of
             Inl err \<Rightarrow> (Inl err, s)
           | Inr e \<Rightarrow>
               (case bk_append bk False e s of
                  (Inl err, s') \<Rightarrow> (Inl err, s')
                | (Inr _, s') \<Rightarrow> (Inr (en_id e), s'))))"

section \<open>Reads and moves\<close>

definition get_branch :: "'s backend \<Rightarrow> 's \<Rightarrow> (session_error, entry list) result" where
  "get_branch bk s = try_then (bk_leaf bk s) (\<lambda>leaf. bk_path bk s leaf)"

definition context_entries :: "'s backend \<Rightarrow> 's \<Rightarrow> (session_error, entry list) result" where
  "context_entries bk s = try_then (get_branch bk s) (\<lambda>path. Inr (build_context_entries path))"

definition latest_compaction_timestamp :: "'s backend \<Rightarrow> 's \<Rightarrow> (session_error, int option) result" where
  "latest_compaction_timestamp bk s =
     try_then (context_entries bk s) (\<lambda>es. Inr (case es of e # _ \<Rightarrow> if is_compaction e then Some (en_time e) else None | [] \<Rightarrow> None))"

definition build_session_context :: "'s backend \<Rightarrow> 's \<Rightarrow> (session_error, session_context) result" where
  "build_session_context bk s = try_then (get_branch bk s) (\<lambda>path. Inr (context_of path))"

definition move_to :: "'s backend \<Rightarrow> str \<Rightarrow> int \<Rightarrow> str option \<Rightarrow> 's \<Rightarrow> outcome \<times> 's" where
  "move_to bk new_id now target s = bk_set_leaf bk new_id now target s"

text \<open>The one-shot pins of a session.\<close>

record pins =
  pn_origin :: "str option"
  pn_accepted :: "(str \<times> json) option"

definition set_pending_user_origin :: "str option \<Rightarrow> pins \<Rightarrow> pins" where
  "set_pending_user_origin origin p = p\<lparr>pn_origin := origin\<rparr>"

definition take_pending_user_origin :: "pins \<Rightarrow> str option \<times> pins" where
  "take_pending_user_origin p = (pn_origin p, p\<lparr>pn_origin := None\<rparr>)"

definition pin_accepted_user_entry :: "str \<Rightarrow> json \<Rightarrow> pins \<Rightarrow> pins" where
  "pin_accepted_user_entry i content p = p\<lparr>pn_accepted := Some (i, content)\<rparr>"

definition take_accepted_user_entry :: "json \<Rightarrow> pins \<Rightarrow> str option \<times> pins" where
  "take_accepted_user_entry content p =
     (case pn_accepted p of
        Some (i, pinned) \<Rightarrow> if pinned = content then (Some i, p\<lparr>pn_accepted := None\<rparr>) else (None, p)
      | None \<Rightarrow> (None, p))"

definition clear_accepted_user_entry :: "pins \<Rightarrow> pins" where
  "clear_accepted_user_entry p = p\<lparr>pn_accepted := None\<rparr>"

section \<open>The promises of the trait\<close>

definition moves_leaf :: "entry_body \<Rightarrow> bool" where
  "moves_leaf b = (case b of Leaf _ \<Rightarrow> True | _ \<Rightarrow> False)"

locale session_store =
  fixes bk :: "'s backend" and inv :: "'s \<Rightarrow> bool"
  assumes append_inv: "inv s \<Longrightarrow> bk_append bk forced e s = (r, s') \<Longrightarrow> inv s'"
    and append_leaf: "inv s \<Longrightarrow> bk_append bk forced e s = (Inr (), s') \<Longrightarrow> \<not> moves_leaf (en_body e) \<Longrightarrow>
      bk_leaf bk s' = Inr (Some (en_id e))"
    and append_path: "inv s \<Longrightarrow> bk_append bk forced e s = (Inr (), s') \<Longrightarrow> bk_path bk s (en_parent e) = Inr p \<Longrightarrow>
      bk_path bk s' (Some (en_id e)) = Inr (p @ [e])"
    and append_keeps: "inv s \<Longrightarrow> bk_append bk forced e s = (Inr (), s') \<Longrightarrow> bk_path bk s i = Inr p \<Longrightarrow>
      bk_path bk s' i = Inr p"
    and set_leaf_inv: "inv s \<Longrightarrow> bk_set_leaf bk new_id now target s = (r, s') \<Longrightarrow> inv s'"
    and set_leaf_leaf: "inv s \<Longrightarrow> bk_set_leaf bk new_id now target s = (Inr (), s') \<Longrightarrow> bk_leaf bk s' = Inr target"
    and set_leaf_keeps: "inv s \<Longrightarrow> bk_set_leaf bk new_id now target s = (Inr (), s') \<Longrightarrow> bk_path bk s i = Inr p \<Longrightarrow>
      bk_path bk s' i = Inr p"
begin

lemma branch_grows:
  assumes "inv s" "get_branch bk s = Inr path" "append_body bk forced new_id now body s = (Inr i, s')" "\<not> moves_leaf body"
  shows "\<exists>parent. bk_leaf bk s = Inr parent \<and> i = new_id \<and> inv s' \<and> get_branch bk s' = Inr (path @ [Entry new_id parent now body])"
proof -
  obtain parent where p: "bk_leaf bk s = Inr parent" "bk_path bk s parent = Inr path"
    using assms(2) by (auto simp: get_branch_def try_then_Inr_iff)
  let ?e = "Entry new_id parent now body"
  have a: "bk_append bk forced ?e s = (Inr (), s')" "i = new_id"
    using assms(3) p(1) by (auto simp: append_body_def split: prod.splits sum.splits)
  then show ?thesis
    using p append_leaf [OF assms(1) a(1)] append_path [OF assms(1) a(1)] append_inv [OF assms(1) a(1)] assms(4)
    by (simp add: get_branch_def)
qed

lemma context_grows:
  assumes "inv s" "build_session_context bk s = Inr c" "append_body bk forced new_id now body s = (Inr i, s')"
    and "\<not> moves_leaf body" "\<not> is_compaction (Entry new_id None now body)"
  shows "\<exists>c' parent. build_session_context bk s' = Inr c' \<and> inv s'
    \<and> cx_messages c' = cx_messages c @ session_entry_to_context_messages (Entry new_id parent now body)
    \<and> cx_settings c' = settings_step (Entry new_id parent now body) (cx_settings c)"
proof -
  obtain path where path: "get_branch bk s = Inr path" "c = context_of path"
    using assms(2) by (auto simp: build_session_context_def try_then_Inr_iff)
  obtain parent where "inv s'" "get_branch bk s' = Inr (path @ [Entry new_id parent now body])"
    using branch_grows [OF assms(1) path(1) assms(3,4)] by blast
  moreover have "\<not> is_compaction (Entry new_id parent now body)" using assms(5) by (simp add: is_compaction_def)
  ultimately show ?thesis using path(2) by (simp add: build_session_context_def context_snoc) blast
qed

lemma compaction_context:
  assumes "inv s" "get_branch bk s = Inr path"
    and "append_compaction bk new_id now summary first tokens usage auth tail s = (Inr (i, t), s')"
  shows "\<exists>c. build_session_context bk s' = Inr c \<and> inv s' \<and> cx_messages c = compaction_summary_message summary now
    # (case tail of Some ms \<Rightarrow> ms
       | None \<Rightarrow> concat (map session_entry_to_context_messages (dropWhile (\<lambda>e. Some (en_id e) \<noteq> first) path)))"
proof -
  let ?b = "Compaction summary first tokens tail usage (fst auth) (Some (snd auth))"
  have "append_body bk False new_id now ?b s = (Inr i, s')"
    using assms(3) by (auto simp: append_compaction_def split: prod.splits sum.splits)
  then obtain parent where b: "inv s'" "get_branch bk s' = Inr (path @ [Entry new_id parent now ?b])"
    using branch_grows [OF assms(1,2), of False new_id now ?b] by (auto simp: moves_leaf_def)
  have "build_context_entries (path @ [Entry new_id parent now ?b]) =
      Entry new_id parent now ?b # (if tail = None then dropWhile (\<lambda>e. Some (en_id e) \<noteq> first) path else [])"
    using build_context_boundary [of "Entry new_id parent now ?b" summary first tokens tail usage "fst auth" "Some (snd auth)" "[]" path] by simp
  then show ?thesis
    using b by (cases tail) (simp_all add: build_session_context_def context_messages session_entry_to_context_messages_def)
qed

lemma move_branch:
  assumes "inv s" "bk_path bk s target = Inr path" "move_to bk new_id now target s = (Inr (), s')"
  shows "inv s' \<and> get_branch bk s' = Inr path"
  using assms set_leaf_inv set_leaf_leaf set_leaf_keeps by (auto simp: move_to_def get_branch_def)

end

section \<open>The JSONL storage keeps the promises\<close>

definition jsonl :: "wire \<Rightarrow> (storage \<times> disk_file) backend" where
  "jsonl w = \<lparr>bk_append = (\<lambda>forced e (st, f). append_entry_locked w forced e st f),
     bk_leaf = (\<lambda>(st, f). get_leaf_id st),
     bk_set_leaf = (\<lambda>new_id now target (st, f). set_leaf_id w new_id now target st f),
     bk_path = (\<lambda>(st, f) leaf. get_path st leaf),
     bk_entry = (\<lambda>(st, f) i. get_entry st i)\<rparr>"

text \<open>No other instance wrote since: the view is the file, or there is none yet.\<close>

definition sole :: "wire \<Rightarrow> storage \<times> disk_file \<Rightarrow> bool" where
  "sole w s \<longleftrightarrow> wire_ok w \<and>
     (\<exists>h es. current w h es (fst s) \<and> snd s = Some (file_of w h es) \<or> pending_view h es (fst s) \<and> snd s = None)"

lemma sole_rows: "sole w s \<Longrightarrow> \<exists>h es. rows h es (fst s)"
  by (auto simp: sole_def current_def pending_view_def)

lemma append_sole:
  assumes "sole w (st, f)" "append_entry_locked w forced e st f = (r, st', f')"
  shows "(\<exists>err. r = Inl err) \<and> st' = st \<and> f' = f
    \<or> r = Inr () \<and> sole w (st', f') \<and> st_entries st' = st_entries st @ [e] \<and> st_leaf st' = leaf_cursor_after e"
proof -
  from assms(1) obtain h es where w: "wire_ok w"
    and s: "current w h es st \<and> f = Some (file_of w h es) \<or> pending_view h es st \<and> f = None"
    by (auto simp: sole_def)
  have r: "rows h es st" and g: "grown es" using s by (auto simp: current_def pending_view_def rows_def)
  have ref: "refresh w e st f = (Inr e, st)" using s by (auto simp: refresh_def current_def)
  show ?thesis
  proof (cases "en_id e = [] \<or> has_id st (en_id e)")
    case True
    then show ?thesis using assms(2) by (simp add: append_entry_locked_def split: if_splits) blast+
  next
    case new: False
    then have a: "stamp_entry w forced e st f = (r, st', f')" using assms(2) ref by (simp add: append_entry_locked_def)
    show ?thesis
    proof (cases "follows es e")
      case True
      have st: "r = Inr ()" "(st', f') = stamped w h es forced e st f" using stamp_rows [OF w r True] a by simp_all
      have "rows h (es @ [e]) st'" using stamped_rows [OF r True] st(2) by (metis fst_conv)
      moreover have "st_version st' = FORMAT_VERSION \<and> \<not> st_rewrite st' \<and>
          (f' = None \<and> st_deferred st' \<or> f' = Some (file_of w h (es @ [e])) \<and> \<not> st_deferred st'
            \<and> st_disk_size st' = length (file_of w h (es @ [e])))"
        using s st(2) file_of_snoc [OF g True, of w h]
        by (auto simp: stamped_def Let_def current_def pending_view_def index_entry_def direct_def buffered_def split: if_splits)
      ultimately have "sole w (st', f')"
        using w by (auto simp: sole_def current_def pending_view_def)
      then show ?thesis using st by (auto simp: stamped_def Let_def index_entry_def split: if_splits)
    next
      case False
      then obtain p where "en_parent e = Some p" "p \<notin> ids es" using new rows_has_id [OF r] by (auto simp: follows_def)
      then show ?thesis using a stamp_unknown [OF r] by auto
    qed
  qed
qed

lemma get_path_iff:
  assumes "rows h es st"
  shows "get_path st (Some i) = Inr p \<longleftrightarrow> branch (st_entries st) i p"
proof
  assume p: "get_path st (Some i) = Inr p"
  then have "has_id st i" by (auto simp: get_path_def split: if_splits)
  then show "branch (st_entries st) i p" using get_path_branch [OF assms] p by fastforce
next
  assume b: "branch (st_entries st) i p"
  then have "last p \<in> set (st_entries st)" "en_id (last p) = i" by (auto simp: branch_def)
  then have "has_id st i" by (auto simp: has_id_def list_ex_iff)
  then show "get_path st (Some i) = Inr p"
    using get_path_branch [OF assms] branch_unique [OF rows_unique [OF assms] b] by fastforce
qed

lemma branch_extend:
  assumes "case en_parent e of None \<Rightarrow> p = [] | Some q \<Rightarrow> branch es q p"
  shows "branch (es @ [e]) (en_id e) (p @ [e])"
  using assms by (cases "en_parent e") (auto simp: branch_def chain_up_Cons hd_rev)

lemma sole_paths:
  assumes "sole w (st, f)" "append_entry_locked w forced e st f = (Inr (), st', f')"
  shows "get_path st i = Inr p \<Longrightarrow> get_path st' i = Inr p"
    and "get_path st (en_parent e) = Inr p \<Longrightarrow> get_path st' (Some (en_id e)) = Inr (p @ [e])"
proof -
  have s': "sole w (st', f')" "st_entries st' = st_entries st @ [e]" using append_sole [OF assms] by auto
  obtain h es h' es' where r: "rows h es st" "rows h' es' st'" using sole_rows [OF assms(1)] sole_rows [OF s'(1)] by auto
  show "get_path st' i = Inr p" if "get_path st i = Inr p"
    using that by (cases i) (auto simp: get_path_iff [OF r(1)] get_path_iff [OF r(2)] s'(2) branch_def, simp add: get_path_def)
  show "get_path st' (Some (en_id e)) = Inr (p @ [e])" if "get_path st (en_parent e) = Inr p"
    unfolding get_path_iff [OF r(2)] s'(2)
  proof (rule branch_extend)
    show "case en_parent e of None \<Rightarrow> p = [] | Some q \<Rightarrow> branch (st_entries st) q p"
      using that by (cases "en_parent e") (simp_all add: get_path_iff [OF r(1)], simp add: get_path_def)
  qed
qed

lemma sole_leaf:
  assumes "sole w (st', f')" "st_leaf st' = Some i" "has_id st' i"
  shows "get_leaf_id st' = Inr (Some i)"
  using assms by (simp add: get_leaf_id_def)

interpretation jsonl: session_store "jsonl w" "sole w" for w
proof
  fix s s' :: "storage \<times> disk_file" and forced e r i p new_id now target
  obtain st f where s: "s = (st, f)" by (cases s)
  obtain st' f' where s': "s' = (st', f')" by (cases s')
  note app = append_sole [of w st f forced e r st' f'] and leafs = append_sole [of w st f False "Entry new_id (st_leaf st) now (Leaf target)" r st' f']
  show "sole w s'" if "sole w s" "bk_append (jsonl w) forced e s = (r, s')"
    using that app by (auto simp: jsonl_def s s')
  show "bk_leaf (jsonl w) s' = Inr (Some (en_id e))"
    if "sole w s" "bk_append (jsonl w) forced e s = (Inr (), s')" "\<not> moves_leaf (en_body e)"
  proof -
    have "st_entries st' = st_entries st @ [e]" "st_leaf st' = leaf_cursor_after e"
      using that(1,2) append_sole [of w st f forced e "Inr ()" st' f'] by (auto simp: jsonl_def s s')
    moreover have "leaf_cursor_after e = Some (en_id e)"
      using that(3) by (auto simp: leaf_cursor_after_def moves_leaf_def split: entry_body.splits)
    ultimately show ?thesis by (simp add: jsonl_def s' get_leaf_id_def has_id_def)
  qed
  show "bk_path (jsonl w) s' (Some (en_id e)) = Inr (p @ [e])"
    if "sole w s" "bk_append (jsonl w) forced e s = (Inr (), s')" "bk_path (jsonl w) s (en_parent e) = Inr p"
    using that sole_paths(2) by (auto simp: jsonl_def s s')
  show "bk_path (jsonl w) s' i = Inr p"
    if "sole w s" "bk_append (jsonl w) forced e s = (Inr (), s')" "bk_path (jsonl w) s i = Inr p"
    using that sole_paths(1) by (auto simp: jsonl_def s s')
  show "sole w s'" if "sole w s" "bk_set_leaf (jsonl w) new_id now target s = (r, s')"
    using that leafs by (auto simp: jsonl_def s s' set_leaf_id_def split: if_splits)
  show "bk_leaf (jsonl w) s' = Inr target" if "sole w s" "bk_set_leaf (jsonl w) new_id now target s = (Inr (), s')"
  proof -
    have t: "\<not> (case target of Some i \<Rightarrow> \<not> has_id st i | None \<Rightarrow> False)"
      and a: "append_entry_locked w False (Entry new_id (st_leaf st) now (Leaf target)) st f = (Inr (), st', f')"
      using that(2) by (auto simp: jsonl_def s s' set_leaf_id_def split: if_splits)
    have "st_entries st' = st_entries st @ [Entry new_id (st_leaf st) now (Leaf target)]" "st_leaf st' = target"
      using append_sole [OF _ a] that(1) by (auto simp: s leaf_cursor_after_def)
    then show ?thesis using t by (auto simp: jsonl_def s' get_leaf_id_def has_id_def split: option.splits)
  qed
  show "bk_path (jsonl w) s' i = Inr p"
    if "sole w s" "bk_set_leaf (jsonl w) new_id now target s = (Inr (), s')" "bk_path (jsonl w) s i = Inr p"
    using that sole_paths(1) by (auto simp: jsonl_def s s' set_leaf_id_def split: if_splits)
qed

section \<open>What a session sees of its own writes\<close>

text \<open>C18: a session reads its own messages: on a storage no other instance writes, a message that was reported
  appended, durably or not, under the caller's id or a minted one, is the last entry of the active branch, and
  the restored context is the old one followed by the message.\<close>

theorem message_extends_context:
  assumes "sole w s" and "get_branch (jsonl w) s = Inr path"
    and "append_message_with_origin (jsonl w) new_id now m origin s = (Inr i, s')
      \<or> append_message_durable (jsonl w) new_id now m origin s = (Inr i, s')"
  shows "i = (case user_entry_id m of Some k \<Rightarrow> k | None \<Rightarrow> new_id)
    \<and> (\<exists>parent. get_branch (jsonl w) s' = Inr (path @ [Entry i parent now (Message m origin)]))
    \<and> (\<exists>c. build_session_context (jsonl w) s' = Inr c \<and> cx_messages c = cx_messages (context_of path) @ [m])"
proof -
  let ?i = "case user_entry_id m of Some k \<Rightarrow> k | None \<Rightarrow> new_id"
  obtain forced where a: "append_body (jsonl w) forced ?i now (Message m origin) s = (Inr i, s')"
    using assms(3) by (auto simp: append_message_with_origin_def append_message_durable_def)
  obtain parent where b: "i = ?i" "get_branch (jsonl w) s' = Inr (path @ [Entry ?i parent now (Message m origin)])"
    using jsonl.branch_grows [OF assms(1,2) a] by (auto simp: moves_leaf_def)
  moreover have "cx_messages (context_of (path @ [Entry ?i parent now (Message m origin)])) = cx_messages (context_of path) @ [m]"
    by (simp add: context_snoc is_compaction_def session_entry_to_context_messages_def)
  ultimately show ?thesis by (auto simp: build_session_context_def)
qed

lemma demo_sole: "sole demo_wire (fresh_storage demo_head False (length (session_header_line demo_wire demo_head)), Some (file_of demo_wire demo_head []))"
  using create_current [OF demo_wire_ok demo_create] demo_wire_ok by (auto simp: sole_def)

lemma demo_first_append:
  assumes "en_id e \<noteq> []" "en_parent e = None"
  shows "\<exists>s'. bk_append (jsonl demo_wire) forced e
    (fresh_storage demo_head False (length (session_header_line demo_wire demo_head)), Some (file_of demo_wire demo_head [])) = (Inr (), s')"
proof -
  let ?st = "fresh_storage demo_head False (length (session_header_line demo_wire demo_head))"
  have c: "current demo_wire demo_head [] ?st" using create_current [OF demo_wire_ok demo_create] by blast
  have "synced demo_wire demo_head [] ?st e = e" by (simp add: synced_def fresh_storage_def file_of_Nil)
  then have "follows [] (synced demo_wire demo_head [] ?st e)" using assms by (simp add: follows_def)
  from append_fits [OF demo_wire_ok _ grown_Nil _ current_stale [OF c] this, of forced]
  have "fst (append_entry_locked demo_wire forced e ?st (Some (file_of demo_wire demo_head []))) = Inr ()"
    by (simp add: session_header_ok_def demo_head_def)
  then show ?thesis by (cases "append_entry_locked demo_wire forced e ?st (Some (file_of demo_wire demo_head []))") (auto simp: jsonl_def)
qed

theorem message_extends_context_witness:
  "\<exists>s s' c. append_message_durable (jsonl demo_wire) ''x'' 0 (UserMsg [] 7 (Some ''m'')) None s = (Inr ''m'', s')
    \<and> build_session_context (jsonl demo_wire) s' = Inr c \<and> cx_messages c = [UserMsg [] 7 (Some ''m'')]"
proof -
  let ?s = "(fresh_storage demo_head False (length (session_header_line demo_wire demo_head)), Some (file_of demo_wire demo_head []))"
  let ?m = "UserMsg [] 7 (Some ''m'')"
  obtain s' where a: "bk_append (jsonl demo_wire) True (Entry ''m'' None 0 (Message ?m None)) ?s = (Inr (), s')"
    using demo_first_append [of "Entry ''m'' None 0 (Message ?m None)" True] by auto
  have l: "bk_leaf (jsonl demo_wire) ?s = Inr None" by (simp add: jsonl_def get_leaf_id_def fresh_storage_def)
  have b: "get_branch (jsonl demo_wire) ?s = Inr []" using l by (simp add: get_branch_def) (simp add: jsonl_def get_path_def)
  have m: "append_message_durable (jsonl demo_wire) ''x'' 0 ?m None ?s = (Inr ''m'', s')"
    using a l by (simp add: append_message_durable_def append_body_def user_entry_id_def)
  have "cx_messages (context_of []) = []" by (simp add: context_messages build_context_entries_def)
  then obtain c where "build_session_context (jsonl demo_wire) s' = Inr c" "cx_messages c = [?m]"
    using message_extends_context [OF demo_sole b disjI2 [OF m]] by auto
  then show ?thesis using m by (intro exI [of _ ?s] exI [of _ s'] exI [of _ c]) simp
qed

text \<open>Compacting and restoring agree: after a compaction was reported appended the restored context is its
  summary followed by what it retained, the carried messages or else the messages of the branch from the first
  kept entry on; nothing before it is left.\<close>

lemma compaction_bounds_context:
  assumes "sole w s" and "get_branch (jsonl w) s = Inr path"
    and "append_compaction (jsonl w) new_id now summary first tokens usage auth tail s = (Inr (i, t), s')"
  shows "\<exists>c. build_session_context (jsonl w) s' = Inr c \<and> cx_messages c = compaction_summary_message summary now
    # (case tail of Some ms \<Rightarrow> ms
       | None \<Rightarrow> concat (map session_entry_to_context_messages (dropWhile (\<lambda>e. Some (en_id e) \<noteq> first) path)))"
  using jsonl.compaction_context [OF assms] by blast

text \<open>Navigating keeps every branch: moving the cursor to an entry makes that entry's path the active branch
  and leaves the path of every other entry as it was; so do later appends, whatever they append.\<close>

lemma navigation_keeps_branches:
  assumes "sole w s" and "bk_path (jsonl w) s target = Inr path"
    and "move_to (jsonl w) new_id now target s = (Inr (), s')"
  shows "get_branch (jsonl w) s' = Inr path
    \<and> (\<forall>k p. bk_path (jsonl w) s k = Inr p \<longrightarrow> bk_path (jsonl w) s' k = Inr p)
    \<and> (\<forall>forced i at body j s'' k p. append_body (jsonl w) forced i at body s' = (Inr j, s'') \<longrightarrow>
        bk_path (jsonl w) s k = Inr p \<longrightarrow> bk_path (jsonl w) s'' k = Inr p)"
proof -
  have m: "sole w s'" "get_branch (jsonl w) s' = Inr path" using jsonl.move_branch [OF assms(1-3)] by auto
  have kept: "bk_path (jsonl w) s' k = Inr p" if "bk_path (jsonl w) s k = Inr p" for k p
    using jsonl.set_leaf_keeps [OF assms(1) _ that] assms(3) by (simp add: move_to_def)
  have "bk_path (jsonl w) s'' k = Inr p"
    if p: "bk_path (jsonl w) s k = Inr p" and a: "append_body (jsonl w) forced i at body s' = (Inr j, s'')"
    for forced i at body j s'' k p
  proof -
    obtain e where "bk_append (jsonl w) forced e s' = (Inr (), s'')"
      using a by (auto simp: append_body_def split: sum.splits prod.splits)
    from jsonl.append_keeps [OF m(1) this kept [OF p]] show ?thesis .
  qed
  then show ?thesis using m(2) kept by blast
qed

end
