(* ===== verification/Session_Repair.thy ===== *)
theory Session_Repair
  imports Session_Append
begin

text \<open>
  Damaged files: lines out of order, an append cut short by a crash, and what the next append makes of them;
  and where the batch append does not keep what its comment promises.
\<close>

section \<open>Lines out of order\<close>

text \<open>C33: line order alone never makes a session unreadable: whatever the order of the stamped lines of a tree
  of entries, the file loads, with exactly these entries, parents before children, every entry indexed by
  its depth, and marked for a rewrite exactly when some line came before its parent's.\<close>

theorem any_line_order_loads:
  assumes "wire_ok w" and "session_header_ok h" and "tree_ok es" and "mset lines = mset es"
  shows "\<exists>pf. parse_file w (file_of w h lines) = Inr pf
    \<and> pf_header pf = h \<and> mset (pf_entries pf) = mset (map durable es) \<and> \<not> inverted (pf_entries pf)
    \<and> pf_needs_rewrite pf = inverted lines
    \<and> (\<forall>i d. pf_seq pf i = Some d \<longleftrightarrow> dep (set es) i d)"
proof -
  have t: "tree_ok lines" using assms(3,4) tree_ok_mset by metis
  have "parse_file w (file_of w h lines @ []) = Inr (loaded h lines)"
    by (rule parse_file_rows [OF assms(1,2) t]) (simp_all add: blank_def)
  moreover have "mset (pf_entries (loaded h lines)) = mset (map durable es)"
    by (simp add: loaded_def Let_def chain_order_mset assms(4))
  moreover have "\<not> inverted (pf_entries (loaded h lines))"
    using chain_order_sorted [OF t] by (simp add: loaded_def Let_def)
  moreover have "pf_seq (loaded h lines) i = Some d \<longleftrightarrow> dep (set es) i d" for i d
    using loaded_seq [OF t] assms(4) by (metis mset_eq_setD)
  ultimately show ?thesis by (auto simp: loaded_def Let_def)
qed

theorem any_line_order_loads_witness:
  "\<exists>pf. parse_file demo_wire (file_of demo_wire demo_head [demo_note ''b'' (Some ''a''), demo_note ''a'' None]) = Inr pf
    \<and> mset (pf_entries pf) = {#demo_note ''a'' None, demo_note ''b'' (Some ''a'')#}
    \<and> \<not> inverted (pf_entries pf) \<and> pf_needs_rewrite pf"
proof -
  let ?a = "demo_note ''a'' None" and ?b = "demo_note ''b'' (Some ''a'')"
  have ok: "session_header_ok demo_head" by (simp add: session_header_ok_def demo_head_def)
  have t: "tree_ok [?a, ?b]" using grown_tree [OF demo_grown(1)] by simp
  have "inverted [?b, ?a]" by (simp add: inverted_def id_pos_def demo_note_def)
  moreover have "durable ?a = ?a" "durable ?b = ?b" by (simp_all add: demo_note_def durable_def)
  ultimately show ?thesis
    using any_line_order_loads [OF demo_wire_ok ok t, of "[?b, ?a]"] by fastforce
qed

lemma tree_grown:
  assumes "tree_ok es" "\<not> inverted es"
  shows "grown es"
proof -
  have u: "unique_ids es" using assms(1) by (simp add: tree_ok_def)
  have "p \<in> ids (take i es)" if i: "i < length es" "en_parent (es ! i) = Some p" for i p
  proof -
    obtain d where d: "dep (set es) (en_id (es ! i)) d" using depths_dep(2) [OF assms(1) i(1)] by blast
    obtain j d' where j: "id_pos es p = Some j" "j < length es" "d = Suc d'" "dep (set es) (en_id (es ! j)) d'"
      using dep_child [OF u i(1) d i(2)] by blast
    have "\<not> i < the (id_pos es p)" using assms(2) i unfolding inverted_iff by blast
    then have "j \<le> i" using j(1) by simp
    moreover have "j \<noteq> i" using dep_unique [OF u d, of d'] j(3,4) by auto
    ultimately have "es ! j \<in> set (take i es)" using i(1) by (auto simp: in_set_conv_nth intro!: exI [of _ j])
    moreover have "en_id (es ! j) = p" using j(1) id_pos_iff [OF u] by simp
    ultimately show ?thesis by (auto simp: ids_def)
  qed
  then show ?thesis using assms(1) by (simp add: grown_def tree_ok_def ids_def)
qed

text \<open>The order in which a loaded view holds the rows of a file.\<close>

definition view_order :: "entry list \<Rightarrow> entry list" where
  "view_order lns = (if inverted lns then chain_order lns (depths lns) else lns)"

lemma view_order_mset [simp]: "mset (view_order lns) = mset lns"
  by (simp add: view_order_def chain_order_mset)

lemma view_order_grown: "tree_ok lns \<Longrightarrow> grown (view_order lns)"
  using tree_grown [of "view_order lns"] tree_ok_mset [OF view_order_mset, of lns] chain_order_sorted [of lns]
  by (auto simp: view_order_def)

lemma load_any_order:
  assumes "wire_ok w" "session_header_ok h" "tree_ok lns" "load w (Some (file_of w h lns)) = Inr st"
  shows "rows h (view_order lns) st \<and> \<not> st_deferred st \<and> st_version st = FORMAT_VERSION
    \<and> st_rewrite st = inverted lns \<and> st_disk_size st = length (file_of w h lns)"
proof -
  have "parse_file w (file_of w h lns) = Inr (loaded h lns)"
    using parse_file_rows [OF assms(1-3), of "[]"] by (simp add: blank_def)
  moreover have "pf_seq (loaded h lns) = seq_of (view_order lns)"
  proof
    fix i
    have "pf_seq (loaded h lns) i = Some d \<longleftrightarrow> seq_of (view_order lns) i = Some d" for d
      using loaded_seq [OF assms(3)] seq_of_dep [OF view_order_grown [OF assms(3)]]
      by (simp add: mset_eq_setD [OF view_order_mset])
    then show "pf_seq (loaded h lns) i = seq_of (view_order lns) i" by (metis not_Some_eq)
  qed
  ultimately show ?thesis
    using assms(4) view_order_grown [OF assms(3)]
    by (auto simp: load_def rows_def loaded_def Let_def view_order_def comp_def)
qed

lemma append_loaded:
  assumes "wire_ok w" and "session_header_ok h" and "tree_ok lns" and "load w (Some (file_of w h lns)) = Inr st"
    and "append_entry_locked w force e st (Some (file_of w h lns)) = (r, st', f')"
  shows "if follows lns e
    then r = Inr () \<and> (\<exists>es. mset es = mset lns \<and> f' = Some (file_of w h (es @ [e])) \<and> grown (es @ [e])
      \<and> current w h (es @ [e]) st')
    else (\<exists>err. r = Inl err) \<and> f' = Some (file_of w h lns)"
proof -
  let ?es = "view_order lns"
  have v: "rows h ?es st" "\<not> st_deferred st" "st_version st = FORMAT_VERSION" "st_rewrite st = inverted lns"
    "st_disk_size st = length (file_of w h lns)"
    using load_any_order [OF assms(1-4)] by blast+
  have g: "grown ?es" using view_order_grown [OF assms(3)] .
  have ids: "ids ?es = ids lns" using mset_eq_setD [OF view_order_mset] by (simp add: ids_def)
  have follows: "follows ?es e = follows lns e" by (simp add: follows_def ids)
  have ref: "refresh w e st (Some (file_of w h lns)) = (Inr e, st)" using v(5) by (simp add: refresh_def)
  show ?thesis
  proof (cases "follows lns e")
    case True
    then have f: "follows ?es e" using follows by simp
    have "stamp_entry w force e st (Some (file_of w h lns)) = (Inr (), stamped w h ?es force e st (Some (file_of w h lns)))"
      by (rule stamp_rows [OF assms(1) v(1) f])
    then have r: "r = Inr ()" "(st', f') = stamped w h ?es force e st (Some (file_of w h lns))"
      using assms(5) True ref by (auto simp: append_entry_locked_def follows_def rows_has_id [OF v(1)] ids)
    have "rows h (?es @ [e]) st'" using stamped_rows [OF v(1) f] r(2) by (metis fst_conv)
    moreover have "f' = Some (file_of w h (?es @ [e])) \<and> \<not> st_deferred st' \<and> st_version st' = FORMAT_VERSION
        \<and> \<not> st_rewrite st' \<and> st_disk_size st' = length (file_of w h (?es @ [e]))"
    proof (cases "inverted lns")
      case True
      then show ?thesis using r(2) v(2-5) by (auto simp: stamped_def Let_def buffered_def direct_def index_entry_def)
    next
      case False
      then have "?es = lns" by (simp add: view_order_def)
      then show ?thesis using r(2) v(2-5) False file_of_snoc [OF g f, of w h]
        by (auto simp: stamped_def Let_def buffered_def direct_def index_entry_def)
    qed
    ultimately show ?thesis using True r(1) g f
      by (auto simp: current_def intro!: exI [of _ ?es])
  next
    case False
    show ?thesis
    proof (cases "en_id e = [] \<or> en_id e \<in> ids lns")
      case True
      then show ?thesis using assms(5) False by (auto simp: append_entry_locked_def rows_has_id [OF v(1)] ids split: if_splits)
    next
      case new: False
      then obtain p where "en_parent e = Some p" "p \<notin> ids ?es" using False by (auto simp: follows_def ids)
      then have "stamp_entry w force e st (Some (file_of w h lns)) = (Inl (UnknownParent (en_id e) p), st, Some (file_of w h lns))"
        using stamp_unknown [OF v(1)] by blast
      then show ?thesis using assms(5) False new ref by (auto simp: append_entry_locked_def rows_has_id [OF v(1)] ids)
    qed
  qed
qed

text \<open>C34: the first append heals: whatever the order of the lines of a loadable file, a successful append leaves
  a file of the same rows and the new one with every parent before its children, and the instance's view is
  that file; the append fails exactly when the entry's id is empty or taken or its parent is not in the file.\<close>

theorem first_append_heals:
  assumes "wire_ok w" and "session_header_ok h" and "tree_ok lns" and "load w (Some (file_of w h lns)) = Inr st"
    and "append_entry_locked w force e st (Some (file_of w h lns)) = (r, st', f')"
  shows "if follows lns e
    then r = Inr () \<and> (\<exists>es. mset es = mset lns \<and> f' = Some (file_of w h (es @ [e])) \<and> grown (es @ [e])
      \<and> current w h (es @ [e]) st')
    else (\<exists>err. r = Inl err) \<and> f' = Some (file_of w h lns)"
  by (rule append_loaded [OF assms])

lemma demo_inverted: "tree_ok [demo_note ''b'' (Some ''a''), demo_note ''a'' None]"
proof -
  have "tree_ok [demo_note ''a'' None, demo_note ''b'' (Some ''a'')]" using grown_tree [OF demo_grown(1)] by simp
  moreover have "mset [demo_note ''a'' None, demo_note ''b'' (Some ''a'')] = mset [demo_note ''b'' (Some ''a''), demo_note ''a'' None]"
    by (simp add: add_mset_commute)
  ultimately show ?thesis using tree_ok_mset by blast
qed

lemma demo_head_ok: "session_header_ok demo_head"
  by (simp add: session_header_ok_def demo_head_def)

theorem first_append_heals_witness:
  "\<exists>st es st'. load demo_wire (Some (file_of demo_wire demo_head [demo_note ''b'' (Some ''a''), demo_note ''a'' None])) = Inr st
    \<and> append_entry_locked demo_wire False (demo_note ''c'' (Some ''b'')) st
        (Some (file_of demo_wire demo_head [demo_note ''b'' (Some ''a''), demo_note ''a'' None]))
      = (Inr (), st', Some (file_of demo_wire demo_head (es @ [demo_note ''c'' (Some ''b'')])))
    \<and> mset es = {#demo_note ''a'' None, demo_note ''b'' (Some ''a'')#} \<and> grown es"
proof -
  let ?lns = "[demo_note ''b'' (Some ''a''), demo_note ''a'' None]" and ?c = "demo_note ''c'' (Some ''b'')"
  let ?f = "Some (file_of demo_wire demo_head ?lns)"
  obtain st where st: "load demo_wire ?f = Inr st"
    using parse_file_rows [OF demo_wire_ok demo_head_ok demo_inverted, of "[]"] by (auto simp: load_def blank_def)
  obtain r st' f' where a: "append_entry_locked demo_wire False ?c st ?f = (r, st', f')" by (metis prod_cases3)
  have f: "follows ?lns ?c" by (simp add: follows_def demo_note_def)
  from first_append_heals [OF demo_wire_ok demo_head_ok demo_inverted st a] f
  have "r = Inr () \<and> (\<exists>es. mset es = mset ?lns \<and> f' = Some (file_of demo_wire demo_head (es @ [?c])) \<and> grown (es @ [?c]))"
    by auto
  then obtain es where "r = Inr ()" "mset es = mset ?lns" "f' = Some (file_of demo_wire demo_head (es @ [?c]))" "grown es"
    by auto
  then show ?thesis using st a by (intro exI [of _ st] exI [of _ es] exI [of _ st']) simp
qed

section \<open>Appends cut short\<close>

lemma parse_unterminated:
  assumes w: "wire_ok w" and h: "session_header_ok h" and es: "grown es" "follows es e" "length es < 2 ^ 64"
  shows "parse_file w (file_of w h es @ row_line w (e, next_seq es e)) = Inr (loaded h (es @ [e]))"
proof -
  let ?row = "row_line w (e, next_seq es e)"
  have t: "text_laws w" using w by (simp add: wire_ok_def)
  have g: "tree_ok es" "tree_ok (es @ [e])" using grown_tree [of es] grown_tree [of "es @ [e]"] es by simp_all
  have rows: "rows_of (es @ [e]) = rows_of es @ [(e, next_seq es e)]"
    using grown_depths(2) [OF es(1)] by (simp add: rows_of_def depths_snoc [OF es(1,2)])
  have row: "NL \<notin> set ?row" "\<not> blank ?row" using t by (simp_all add: row_line_def text_lawsD)
  have "next_seq es e \<in> set (depths (es @ [e]))" by (simp add: depths_snoc [OF es(1,2)])
  then have "next_seq es e < 2 ^ 64" by (rule depths_bound [OF g(2)])
  then have "parse_entry_lines w nl (rev (map en_id es)) [?row] = Inr [(durable e, Some (next_seq es e))]" for nl
    using parse_entry_lines_rows [OF w, of "[(e, next_seq es e)]" "rev (map en_id es)" nl "[]"] es(2)
    by (auto simp: follows_def ids_def)
  then show ?thesis
    using assemble_rows [OF g(2), of h] row by (simp add: parse_file_tail [OF w h g(1)] split_on_plain rows)
qed

text \<open>C11: a crash in the middle of an append loses nothing that was committed: whatever part of the new line
  reached the file, the file still loads, as the rows before the append, or as these and the new row when only
  the newline is missing.\<close>

theorem append_crash_atomic:
  assumes "wire_ok w" and "session_header_ok h" and "grown es" and "follows es e" and "length es < 2 ^ 64"
    and "v4_line w e (next_seq es e) = p @ s"
  shows "\<exists>st. load w (Some (file_of w h es @ p)) = Inr st \<and> \<not> st_rewrite st
    \<and> (if length s \<le> 1 then rows h (es @ [e]) st else rows h es st)"
proof -
  have g: "grown (es @ [e])" "length (es @ [e]) \<le> 2 ^ 64" using assms(3-5) by simp_all
  have ld: "parse_file w bytes = Inr (loaded h es') \<Longrightarrow> grown es' \<Longrightarrow>
      \<exists>st. load w (Some bytes) = Inr st \<and> \<not> st_rewrite st \<and> rows h es' st" for bytes es'
    using grown_not_inverted [of es'] by (auto simp: load_def loaded_def rows_def seq_of_def comp_def)
  have line: "row_line w (e, next_seq es e) @ [NL] = p @ s" using assms(6) by (simp add: v4_line_def row_line_def)
  show ?thesis
  proof (cases s rule: rev_cases)
    case Nil
    then have "file_of w h es @ p = file_of w h (es @ [e])" using assms(6) file_of_snoc [OF assms(3,4)] by simp
    then show ?thesis using ld [of _ "es @ [e]"] g Nil
        parse_file_rows [OF assms(1,2) grown_tree [OF g], of "[]"] by (simp add: blank_def)
  next
    case (snoc s' c)
    then have row: "row_line w (e, next_seq es e) = p @ s'" using line by simp
    show ?thesis
    proof (cases "s' = []")
      case True
      then have "parse_file w (file_of w h es @ p) = Inr (loaded h (es @ [e]))"
        using parse_unterminated [OF assms(1-5)] row by simp
      then show ?thesis using ld g(1) snoc True by simp
    next
      case False
      have t: "text_laws w" using assms(1) by (simp add: wire_ok_def)
      have "wr_parse w p = None" using text_lawsD(4) [OF t _ False, of _ p] row by (simp add: row_line_def)
      moreover have "NL \<notin> set (p @ s')" using text_lawsD(2) [OF t] row by (metis row_line_def)
      ultimately have "parse_file w (file_of w h es @ p) = Inr (loaded h es)"
        using assms(3,5) by (intro parse_file_rows [OF assms(1,2)] grown_tree) simp_all
      then show ?thesis using ld assms(3) snoc False by (simp add: Suc_le_eq)
    qed
  qed
qed

theorem append_crash_atomic_witness:
  "\<exists>p s st. v4_line demo_wire (demo_note ''a'' None) 0 = p @ s \<and> length s = 2
    \<and> load demo_wire (Some (file_of demo_wire demo_head [] @ p)) = Inr st \<and> rows demo_head [] st"
proof -
  let ?l = "v4_line demo_wire (demo_note ''a'' None) 0"
  let ?p = "take (length ?l - 2) ?l" and ?s = "drop (length ?l - 2) ?l"
  have f: "follows [] (demo_note ''a'' None)" "next_seq [] (demo_note ''a'' None) = 0"
    by (simp_all add: follows_def demo_note_def next_seq_def)
  have s: "length ?s = 2" by (simp add: v4_line_def demo_wire_def unary_def)
  have "v4_line demo_wire (demo_note ''a'' None) (next_seq [] (demo_note ''a'' None)) = ?p @ ?s" by (simp add: f(2))
  from append_crash_atomic [OF demo_wire_ok demo_head_ok grown_Nil f(1) _ this] s
  show ?thesis by (intro exI [of _ ?p] exI [of _ ?s]) auto
qed

text \<open>The loader drops the torn line but leaves it in the file, and nothing marks the file for a rewrite, so the
  next append writes its line behind the fragment: the append reports success, and the file no longer loads.\<close>

lemma append_after_torn_line:
  assumes "wire_ok w" "session_header_ok h" "grown es" "length es \<le> 2 ^ 64"
    and "v4_line w x n = p @ s" "p \<noteq> []" "length s \<ge> 2" "follows es e"
  shows "\<exists>st st' f'. load w (Some (file_of w h es @ p)) = Inr st
    \<and> append_entry_locked w force e st (Some (file_of w h es @ p)) = (Inr (), st', Some f')
    \<and> parse_file w f' = Inl LineUnparseable"
proof -
  have t: "text_laws w" using assms(1) by (simp add: wire_ok_def)
  obtain s' where s': "s = s' @ [NL]" "s' \<noteq> []" and row: "row_line w (x, n) = p @ s'"
    using assms(5,7) by (cases s rule: rev_cases) (force simp: v4_line_def row_line_def)+
  have p: "wr_parse w p = None" "NL \<notin> set p"
    using text_lawsD(4) [OF t _ s'(2), of _ p] text_lawsD(2) [OF t] row by (simp_all add: row_line_def) (metis Un_iff set_append)
  let ?bytes = "file_of w h es @ p"
  have parse: "parse_file w ?bytes = Inr (loaded h es)"
    using p assms(3,4) by (intro parse_file_rows [OF assms(1,2)] grown_tree) simp_all
  let ?st = "\<lparr>st_entries = map durable es, st_leaf = tail_cursor es, st_seq = seq_of es, st_version = FORMAT_VERSION,
      st_journal = [], st_metadata = h, st_deferred = False, st_rewrite = False, st_disk_size = length ?bytes\<rparr>"
  have load: "load w (Some ?bytes) = Inr ?st"
    using grown_not_inverted [OF assms(3)] by (simp add: load_def parse loaded_def seq_of_def)
  have r: "rows h es ?st" using assms(3) by (simp add: rows_def comp_def)
  let ?line = "v4_line w e (next_seq es e)"
  have "stamp_entry w force e ?st (Some ?bytes) = (Inr (), stamped w h es force e ?st (Some ?bytes))"
    by (rule stamp_rows [OF assms(1) r assms(8)])
  moreover have "snd (stamped w h es force e ?st (Some ?bytes)) = Some (?bytes @ ?line)"
    by (simp add: stamped_def Let_def buffered_def direct_def)
  moreover have "refresh w e ?st (Some ?bytes) = (Inr e, ?st)" by (simp add: refresh_def)
  moreover have "en_id e \<noteq> []" "\<not> has_id ?st (en_id e)" using assms(8) rows_has_id [OF r] by (auto simp: follows_def)
  ultimately have "append_entry_locked w force e ?st (Some ?bytes)
      = (Inr (), fst (stamped w h es force e ?st (Some ?bytes)), Some (?bytes @ ?line))"
    by (simp add: append_entry_locked_def) (metis prod.collapse)
  moreover have "parse_file w (?bytes @ ?line) = Inl LineUnparseable"
  proof -
    let ?bad = "p @ row_line w (e, next_seq es e)"
    have bad: "wr_parse w ?bad = None" "NL \<notin> set ?bad" "\<not> blank ?bad"
      using text_lawsD(5) [OF t _ assms(6)] text_lawsD(2,3) [OF t] row p(2) by (auto simp: row_line_def blank_def)
    have "?bytes @ ?line = file_of w h es @ ?bad @ [NL]" by (simp add: v4_line_def row_line_def)
    moreover have "split_on NL (?bad @ [NL]) = [?bad, []]" using split_on_append [OF bad(2), of "[]"] by simp
    ultimately show ?thesis
      using parse_file_tail [OF assms(1,2) grown_tree [OF assms(3,4)], of "?bad @ [NL]"] bad(1,3) by (simp add: blank_def)
  qed
  ultimately show ?thesis using load by blast
qed

section \<open>What a batch does not keep\<close>

text \<open>On a file that waits for its rewrite the batch goes entry by entry, so a batch that fails is written up to
  the entry that failed.\<close>

lemma batch_partly_written:
  assumes "wire_ok w" "session_header_ok h" "tree_ok lns" "inverted lns" "load w (Some (file_of w h lns)) = Inr st" "follows lns e"
  shows "\<exists>st' es. append_entries w [e, e] st (Some (file_of w h lns))
      = (Inl (DuplicateId (en_id e)), st', Some (file_of w h (es @ [e]))) \<and> mset es = mset lns"
proof -
  let ?f = "Some (file_of w h lns)"
  have v: "\<not> st_deferred st" "st_version st = FORMAT_VERSION" "st_rewrite st" "st_disk_size st = length (file_of w h lns)"
    using load_any_order [OF assms(1-3,5)] assms(4) by simp_all
  obtain r st1 f1 where a: "append_entry_locked w False e st ?f = (r, st1, f1)" by (metis prod_cases3)
  then have "r = Inr () \<and> (\<exists>es. mset es = mset lns \<and> f1 = Some (file_of w h (es @ [e])) \<and> grown (es @ [e])
      \<and> current w h (es @ [e]) st1)"
    using append_loaded [OF assms(1-3,5) a] assms(6) by simp
  then obtain es where es: "r = Inr ()" "mset es = mset lns" "f1 = Some (file_of w h (es @ [e]))" "rows h (es @ [e]) st1"
    by (auto simp: current_def)
  have "append_entry_locked w False e st1 f1 = (Inl (DuplicateId (en_id e)), st1, f1)"
    using assms(6) by (simp add: append_entry_locked_def rows_has_id [OF es(4)] follows_def)
  then have "append_entries w [e, e] st ?f = (Inl (DuplicateId (en_id e)), st1, f1)"
    using v a es(1) by (simp add: append_entries_def)
  then show ?thesis using es by blast
qed

lemma batch_lines_total:
  "grown es \<Longrightarrow> fits_all es new \<Longrightarrow> (\<And>i. has_id st i \<or> i \<in> set seen \<longleftrightarrow> i \<in> ids es) \<Longrightarrow>
    \<exists>res. batch_lines w st (seq_of es) seen new = Inr res"
proof (induction new arbitrary: es seen)
  case (Cons e new)
  have e: "follows es e" using Cons.prems(2) by simp
  then have "seq_after (seq_of es) e = Inr (next_seq es e)"
    using seq_after_known [OF Cons.prems(1), of e] by (auto simp: follows_def split: option.splits)
  moreover have "\<not> has_id st (en_id e)" "en_id e \<notin> set seen" "en_id e \<noteq> []"
    using e Cons.prems(3) by (auto simp: follows_def)
  moreover have "\<exists>res. batch_lines w st (seq_of (es @ [e])) (en_id e # seen) new = Inr res"
  proof (rule Cons.IH)
    show "has_id st i \<or> i \<in> set (en_id e # seen) \<longleftrightarrow> i \<in> ids (es @ [e])" for i using Cons.prems(3) [of i] by auto
  qed (use Cons.prems e in simp_all)
  ultimately show ?case by (auto simp: seq_of_snoc [OF Cons.prems(1) e])
qed simp

text \<open>A batch on a stale view is not pointed at the current leaf, as a single append is: its first entry stays
  a child of the old leaf, and the rows that other instances appended there are off the new leaf's path.\<close>

lemma batch_forks_stale_leaf:
  assumes "wire_ok w" "session_header_ok h" "grown es" "length es \<le> 2 ^ 64" "stale w h es st"
    and "fits_all es (e # new)" "en_parent e = st_leaf st"
  shows "\<exists>st'. append_entries w (e # new) st (Some (file_of w h es)) = (Inr (), st', Some (file_of w h (es @ e # new)))
    \<and> rows h (es @ e # new) st'"
proof -
  obtain r st' f' where a: "append_entries w (e # new) st (Some (file_of w h es)) = (r, st', f')" by (metis prod_cases3)
  obtain st1 where st1: "current w h es st1" "(if length (file_of w h es) = st_disk_size st then Inr st
      else reload_under_fence w (file_of w h es) st) = Inr st1"
    using reload_current [OF assms(1-5)] stale_current [OF assms(3,5)] by (cases "length (file_of w h es) = st_disk_size st") auto
  have r1: "rows h es st1" "st_seq st1 = seq_of es" using st1(1) by (simp_all add: current_def rows_def)
  obtain res where "batch_lines w st1 (st_seq st1) [] (e # new) = Inr res"
    using batch_lines_total [OF assms(3,6), of st1 "[]" w] rows_has_id [OF r1(1)] r1(2) by force
  moreover have "\<not> st_deferred st" "\<not> st_version st < FORMAT_VERSION" using assms(5) by (auto simp: stale_def current_def)
  ultimately have "r = Inr ()" using a st1 by (cases res) (auto simp: append_entries_def current_def simp del: batch_lines.simps)
  then show ?thesis using batch_stale [OF assms(1-5) a] a by (auto simp: current_def)
qed

end
