(* ===== verification/Transcript.thy ===== *)
theory Transcript
  imports Agent_Message "HOL-Library.Sublist"
begin

text \<open>
  What a provider sees of a transcript (\<^verbatim>\<open>manox-harness/src/core/provider/transform.rs\<close>): harness roles become wire
  roles, and every tool call gets a result. \<open>now\<close> is the time of the synthetic results.
\<close>

section \<open>Projection onto the wire roles\<close>

definition bash_execution_to_text :: "bash_run \<Rightarrow> str" where
  "bash_execution_to_text b =
     (''Ran `'' @ bx_command b @ ''`'' @ [NL])
     @ (if bx_stdout b = [] then ''(no output)'' else ''```'' @ [NL] @ bx_stdout b @ [NL] @ ''```'')
     @ (if bx_cancelled b then [NL, NL] @ ''(command cancelled)''
        else case bx_exit b of
          Some code \<Rightarrow> if code \<noteq> 0 then [NL, NL] @ ''Command exited with code '' @ show_int code else []
        | None \<Rightarrow> [])
     @ (if bx_truncated b
        then case bx_full_path b of
          Some path \<Rightarrow> [NL, NL] @ ''[Output truncated. Full output: '' @ path @ '']''
        | None \<Rightarrow> []
        else [])"

definition convert_message :: "message \<Rightarrow> message option" where
  "convert_message m =
     (case m of
        CustomMsg _ content _ _ t \<Rightarrow> Some (UserMsg content t None)
      | BashMsg b \<Rightarrow>
          if bx_excluded b = Some True then None
          else Some (UserMsg [TextBlock (bash_execution_to_text b) None] (bx_time b) None)
      | _ \<Rightarrow> Some m)"

definition convert_to_llm :: "message list \<Rightarrow> message list" where
  "convert_to_llm ms = filter_map convert_message ms"

section \<open>Repair of the tool flow\<close>

definition NO_RESULT_TEXT :: str where "NO_RESULT_TEXT = ''No result provided''"

definition failed :: "assistant \<Rightarrow> bool" where
  "failed a \<longleftrightarrow> as_stop a = Some StopError \<or> as_stop a = Some StopAborted"

definition synthetic_result :: "int \<Rightarrow> str \<times> str \<Rightarrow> message" where
  "synthetic_result now call =
     ToolResultMsg (ToolResult (fst call) (snd call) [TextBlock NO_RESULT_TEXT None] True None None None now)"

text \<open>The calls drain in order; those with a recorded result add nothing.\<close>

definition insert_synthetic_results :: "int \<Rightarrow> (str \<times> str) list \<Rightarrow> str set \<Rightarrow> message list" where
  "insert_synthetic_results now pending resolved =
     map (synthetic_result now) (filter (\<lambda>call. fst call \<notin> resolved) pending)"

text \<open>\<open>pending\<close> are the calls of the latest assistant's turn, \<open>resolved\<close> the ids answered since; the result vector
  only grows, so it is the concatenation of what every message adds.\<close>

fun repair_from :: "int \<Rightarrow> (str \<times> str) list \<Rightarrow> str set \<Rightarrow> message list \<Rightarrow> message list" where
  "repair_from now pending resolved [] = insert_synthetic_results now pending resolved"
| "repair_from now pending resolved (AssistantMsg a # ms) =
     insert_synthetic_results now pending resolved
     @ (if failed a then repair_from now [] {} ms else AssistantMsg a # repair_from now (tool_calls a) {} ms)"
| "repair_from now pending resolved (ToolResultMsg r # ms) =
     ToolResultMsg r # repair_from now pending (insert (tr_call r) resolved) ms"
| "repair_from now pending resolved (UserMsg content t i # ms) =
     insert_synthetic_results now pending resolved @ UserMsg content t i # repair_from now [] {} ms"
| "repair_from now pending resolved (m # ms) = m # repair_from now pending resolved ms"

definition repair_tool_flow :: "int \<Rightarrow> message list \<Rightarrow> message list" where
  "repair_tool_flow now ms = repair_from now [] {} ms"

definition prepare_for_wire :: "int \<Rightarrow> message list \<Rightarrow> message list" where
  "prepare_for_wire now ms = repair_tool_flow now (convert_to_llm ms)"

section \<open>What a provider accepts\<close>

text \<open>The ids answered in the rest of a turn, and: every call is answered before its turn ends.\<close>

fun turn_answers :: "message list \<Rightarrow> str set" where
  "turn_answers (ToolResultMsg r # ms) = insert (tr_call r) (turn_answers ms)"
| "turn_answers (BashMsg b # ms) = turn_answers ms"
| "turn_answers (CustomMsg c content d v t # ms) = turn_answers ms"
| "turn_answers _ = {}"

fun paired :: "message list \<Rightarrow> bool" where
  "paired [] = True"
| "paired (AssistantMsg a # ms) = (fst ` set (tool_calls a) \<subseteq> turn_answers ms \<and> paired ms)"
| "paired (m # ms) = paired ms"

fun settled :: "message \<Rightarrow> bool" where
  "settled (AssistantMsg a) = (\<not> failed a)"
| "settled _ = True"

fun wire_role :: "message \<Rightarrow> bool" where
  "wire_role (BashMsg _) = False"
| "wire_role (CustomMsg _ _ _ _ _) = False"
| "wire_role _ = True"

subsection \<open>Synthetic results\<close>

lemma synthetic_paired [simp]: "paired (insert_synthetic_results now pending resolved @ ms) = paired ms"
  by (induction pending) (simp_all add: insert_synthetic_results_def synthetic_result_def)

lemma synthetic_answers [simp]:
  "turn_answers (insert_synthetic_results now pending resolved @ ms) = (fst ` set pending - resolved) \<union> turn_answers ms"
  by (induction pending) (auto simp: insert_synthetic_results_def synthetic_result_def)

lemma synthetic_none:
  assumes "fst ` set pending \<subseteq> resolved"
  shows "insert_synthetic_results now pending resolved = []"
  using assms by (auto simp: insert_synthetic_results_def filter_empty_conv)

lemma synthetic_role [simp]: "settled (synthetic_result now call)" "wire_role (synthetic_result now call)"
  by (simp_all add: synthetic_result_def)

lemma synthetic_all:
  "list_all settled (insert_synthetic_results now pending resolved)"
  "list_all wire_role (insert_synthetic_results now pending resolved)"
  by (simp_all add: insert_synthetic_results_def list_all_iff)

lemma synthetic_member:
  "m \<in> set (insert_synthetic_results now pending resolved) \<Longrightarrow> \<exists>call \<in> set pending. m = synthetic_result now call"
  by (auto simp: insert_synthetic_results_def)

subsection \<open>The repaired flow\<close>

lemma repair_from_answers:
  "paired (repair_from now pending resolved ms) \<and> fst ` set pending \<subseteq> resolved \<union> turn_answers (repair_from now pending resolved ms)"
proof (induction now pending resolved ms rule: repair_from.induct)
  case (1 now pending resolved)
  then show ?case
    using synthetic_paired [of now pending resolved "[]"] synthetic_answers [of now pending resolved "[]"] by auto
qed (auto split: if_splits)

lemma repair_from_keeps: "subseq (filter settled ms) (repair_from now pending resolved ms)"
  by (induction now pending resolved ms rule: repair_from.induct) (auto intro: list_emb_append2)

lemma repair_from_settled: "list_all settled (repair_from now pending resolved ms)"
  by (induction now pending resolved ms rule: repair_from.induct) (simp_all add: synthetic_all)

lemma repair_from_roles: "list_all wire_role ms \<Longrightarrow> list_all wire_role (repair_from now pending resolved ms)"
  by (induction now pending resolved ms rule: repair_from.induct) (simp_all add: synthetic_all)

lemma repair_from_clean:
  assumes "paired ms" "list_all settled ms" "fst ` set pending \<subseteq> resolved \<union> turn_answers ms"
  shows "repair_from now pending resolved ms = ms"
  using assms
  by (induction now pending resolved ms rule: repair_from.induct) (simp_all add: synthetic_none)

text \<open>What the repair adds answers a call of the transcript.\<close>

definition called :: "message list \<Rightarrow> (str \<times> str) set" where
  "called ms = {call. \<exists>a. AssistantMsg a \<in> set ms \<and> call \<in> set (tool_calls a)}"

lemma called_Cons [simp]:
  "called [] = {}"
  "called (AssistantMsg a # ms) = set (tool_calls a) \<union> called ms"
  "called (UserMsg c t i # ms) = called ms"
  "called (ToolResultMsg r # ms) = called ms"
  "called (BashMsg b # ms) = called ms"
  "called (CustomMsg k c d v t # ms) = called ms"
  by (auto simp: called_def)

lemma repair_from_added:
  "set (repair_from now pending resolved ms) \<subseteq> set ms \<union> synthetic_result now ` (set pending \<union> called ms)"
proof (induction now pending resolved ms rule: repair_from.induct)
  case (1 now pending resolved)
  then show ?case by (auto dest: synthetic_member)
next
  case (2 now pending resolved a ms)
  then show ?case by (auto dest: synthetic_member split: if_splits)
next
  case (4 now pending resolved content t i ms)
  then show ?case by (auto dest: synthetic_member)
qed auto

lemma convert_roles: "list_all wire_role (convert_to_llm ms)"
proof -
  have "convert_message m = Some m' \<Longrightarrow> wire_role m'" for m m'
    by (cases m) (auto simp: convert_message_def split: if_splits)
  then show ?thesis by (auto simp: list_all_iff convert_to_llm_def set_filter_map)
qed

subsection \<open>Properties\<close>

text \<open>C24: What goes to a provider has the three wire roles only, no failed assistant turn, and a result for every
  tool call before its turn ends.\<close>

theorem wire_transcript_well_formed:
  "list_all wire_role (prepare_for_wire now ms) \<and> list_all settled (prepare_for_wire now ms) \<and> paired (prepare_for_wire now ms)"
  using repair_from_roles [OF convert_roles] repair_from_settled repair_from_answers
  by (simp add: prepare_for_wire_def repair_tool_flow_def)

lemma repair_clean_iff: "repair_tool_flow now ms = ms \<longleftrightarrow> paired ms \<and> list_all settled ms"
proof
  assume "repair_tool_flow now ms = ms"
  then show "paired ms \<and> list_all settled ms"
    using repair_from_answers [of now "[]" "{}" ms] repair_from_settled [of now "[]" "{}" ms] by (simp add: repair_tool_flow_def)
next
  assume "paired ms \<and> list_all settled ms"
  then show "repair_tool_flow now ms = ms" using repair_from_clean [of ms "[]"] by (simp add: repair_tool_flow_def)
qed

text \<open>The repair keeps every message but failed turns, in order, adds only error results for calls of the
  transcript, leaves a transcript alone exactly when every call in it is answered and no turn failed, and a
  second repair changes nothing.\<close>

lemma repair_adds_only_results:
  "subseq (filter settled ms) (repair_tool_flow now ms)
   \<and> set (repair_tool_flow now ms) \<subseteq> set ms \<union> synthetic_result now ` called ms
   \<and> (repair_tool_flow now ms = ms \<longleftrightarrow> paired ms \<and> list_all settled ms)
   \<and> repair_tool_flow later (repair_tool_flow now ms) = repair_tool_flow now ms"
proof (intro conjI)
  show "subseq (filter settled ms) (repair_tool_flow now ms)"
    "set (repair_tool_flow now ms) \<subseteq> set ms \<union> synthetic_result now ` called ms"
    using repair_from_keeps repair_from_added [of now "[]"] by (auto simp: repair_tool_flow_def)
  show "repair_tool_flow now ms = ms \<longleftrightarrow> paired ms \<and> list_all settled ms" by (rule repair_clean_iff)
  show "repair_tool_flow later (repair_tool_flow now ms) = repair_tool_flow now ms"
    unfolding repair_clean_iff using repair_from_answers repair_from_settled by (simp add: repair_tool_flow_def)
qed

text \<open>A custom message between a call and its result, which the session may hold, reaches the provider as a user
  message that ends the turn: the call gets a synthetic error result and its own result follows the user message.\<close>

lemma custom_message_splits_turn:
  assumes "tool_calls a = [(i, name)]" "\<not> failed a" "tr_call r = i"
  shows "prepare_for_wire now [AssistantMsg a, CustomMsg k content d v t, ToolResultMsg r]
    = [AssistantMsg a, synthetic_result now (i, name), UserMsg content t None, ToolResultMsg r]"
  using assms
  by (simp add: prepare_for_wire_def convert_to_llm_def convert_message_def repair_tool_flow_def insert_synthetic_results_def)

end
