(* ===== verification/Compaction.thy ===== *)
theory Compaction
  imports Session_Ops Transcript Summary_Prompts "HOL-Library.List_Lexorder" "HOL-Library.Char_ord"
begin

text \<open>
  Compaction (\<^verbatim>\<open>manox-harness/src/core/compaction/mod.rs\<close>): the token estimates, the cut, the texts of the
  summarization calls, the files a region touched and the preparation of a compaction. \<open>js\<close> prints a JSON value
  (\<^verbatim>\<open>serde_json::to_string\<close>). Estimates of one message are natural numbers, since its text is in memory; what a
  provider reports is a 64-bit word.
\<close>

section \<open>Settings and estimates\<close>

record compaction_settings =
  cs_enabled :: bool
  cs_reserve_tokens :: nat
  cs_keep_recent_tokens :: nat

definition default_settings :: compaction_settings where
  "default_settings = \<lparr>cs_enabled = True, cs_reserve_tokens = 16384, cs_keep_recent_tokens = 20000\<rparr>"

definition calculate_context_tokens :: "token_usage \<Rightarrow> 64 word" where
  "calculate_context_tokens u =
     (if us_total u > 0 then us_total u
      else us_input u + us_output u + us_cache_read u + us_cache_creation u)"

definition anchor_usage :: "message \<Rightarrow> token_usage option" where
  "anchor_usage m =
     (case m of
        AssistantMsg a \<Rightarrow>
          (case as_stop a of
             Some r \<Rightarrow>
               if \<not> (r = StopError \<or> r = StopAborted) \<and> calculate_context_tokens (as_usage a) > 0
               then Some (as_usage a) else None
           | None \<Rightarrow> None)
      | _ \<Rightarrow> None)"

definition find_map :: "('a \<Rightarrow> 'b option) \<Rightarrow> 'a list \<Rightarrow> 'b option" where
  "find_map f xs = (case filter_map f xs of [] \<Rightarrow> None | y # _ \<Rightarrow> Some y)"

definition last_assistant_usage :: "message list \<Rightarrow> token_usage option" where
  "last_assistant_usage ms = find_map anchor_usage (rev ms)"

definition ESTIMATED_IMAGE_CHARS :: nat where "ESTIMATED_IMAGE_CHARS = 4800"

definition block_chars :: "content_block \<Rightarrow> nat" where
  "block_chars b =
     (case b of TextBlock t _ \<Rightarrow> utf16_count t | ImageBlock _ _ \<Rightarrow> ESTIMATED_IMAGE_CHARS | _ \<Rightarrow> 0)"

definition assistant_block_chars :: "(json \<Rightarrow> str) \<Rightarrow> content_block \<Rightarrow> nat" where
  "assistant_block_chars js b =
     (case b of
        TextBlock t _ \<Rightarrow> utf16_count t
      | ThinkingBlock t _ _ \<Rightarrow> utf16_count t
      | ToolUseBlock _ name input _ \<Rightarrow> utf16_count name + utf16_count (js input)
      | _ \<Rightarrow> 0)"

definition message_chars :: "(json \<Rightarrow> str) \<Rightarrow> message \<Rightarrow> nat" where
  "message_chars js m =
     (case m of
        UserMsg content _ _ \<Rightarrow> sum_list (map block_chars content)
      | ToolResultMsg r \<Rightarrow> sum_list (map block_chars (tr_content r))
      | CustomMsg _ content _ _ _ \<Rightarrow> sum_list (map block_chars content)
      | BashMsg b \<Rightarrow> if bx_excluded b = Some True then 0 else utf16_count (bash_execution_to_text b)
      | AssistantMsg a \<Rightarrow> sum_list (map (assistant_block_chars js) (as_content a)))"

definition estimate_tokens :: "(json \<Rightarrow> str) \<Rightarrow> message \<Rightarrow> nat" where
  "estimate_tokens js m = (message_chars js m + 3) div 4"

definition tokens_of :: "(json \<Rightarrow> str) \<Rightarrow> message list \<Rightarrow> nat" where
  "tokens_of js ms = sum_list (map (estimate_tokens js) ms)"

record context_estimate =
  ce_tokens :: "64 word"
  ce_usage_tokens :: "64 word"
  ce_trailing_tokens :: "64 word"
  ce_last_usage_index :: "nat option"

definition estimate_context_tokens :: "(json \<Rightarrow> str) \<Rightarrow> message list \<Rightarrow> context_estimate" where
  "estimate_context_tokens js ms =
     (case find_map (\<lambda>i. map_option (\<lambda>u. (i, u)) (anchor_usage (ms ! i))) (rev [0..<length ms]) of
        None \<Rightarrow>
          let estimated = of_nat (tokens_of js ms) in
          \<lparr>ce_tokens = estimated, ce_usage_tokens = 0, ce_trailing_tokens = estimated, ce_last_usage_index = None\<rparr>
      | Some (i, u) \<Rightarrow>
          let usage_tokens = calculate_context_tokens u; trailing = of_nat (tokens_of js (drop (i + 1) ms)) in
          \<lparr>ce_tokens = usage_tokens + trailing, ce_usage_tokens = usage_tokens, ce_trailing_tokens = trailing,
            ce_last_usage_index = Some i\<rparr>)"

text \<open>The casts to \<^verbatim>\<open>i64\<close> read the words as signed; the subtraction of two of them wraps.\<close>

definition should_compact :: "64 word \<Rightarrow> 64 word \<Rightarrow> compaction_settings \<Rightarrow> bool" where
  "should_compact context_tokens context_window cs \<longleftrightarrow>
     cs_enabled cs \<and> sint context_tokens > sint (context_window - of_nat (cs_reserve_tokens cs))"

section \<open>The cut\<close>

text \<open>The position of every called id, the last one where an id is called again.\<close>

definition tooluse_positions :: "message list \<Rightarrow> str \<Rightarrow> nat option" where
  "tooluse_positions ms =
     fold (\<lambda>(i, m) pos. case m of AssistantMsg a \<Rightarrow> fold (\<lambda>(call, _) pos. pos(call \<mapsto> i)) (tool_calls a) pos | _ \<Rightarrow> pos)
       (enumerate 0 ms) Map.empty"

definition first_orphaned_result :: "message list \<Rightarrow> nat \<Rightarrow> (str \<Rightarrow> nat option) \<Rightarrow> nat option" where
  "first_orphaned_result ms idx pos =
     find (\<lambda>m. case ms ! m of
         ToolResultMsg r \<Rightarrow> (case pos (tr_call r) of None \<Rightarrow> True | Some j \<Rightarrow> j < idx)
       | _ \<Rightarrow> False) [idx..<length ms]"

lemma first_orphaned_later:
  assumes "first_orphaned_result ms idx pos = Some m"
  shows "idx \<le> m \<and> m < length ms"
proof -
  have "m \<in> set [idx..<length ms]"
    using assms unfolding first_orphaned_result_def find_Some_iff by (metis nth_mem)
  then show ?thesis by simp
qed

function safe_cut_from :: "message list \<Rightarrow> (str \<Rightarrow> nat option) \<Rightarrow> nat \<Rightarrow> nat" where
  "safe_cut_from ms pos idx =
     (if idx < length ms
      then case first_orphaned_result ms idx pos of
          Some orphan \<Rightarrow> safe_cut_from ms pos (orphan + 1)
        | None \<Rightarrow> idx
      else length ms)"
  by pat_completeness auto
termination
  by (relation "measure (\<lambda>(ms, pos, idx). length ms - idx)") (auto dest: first_orphaned_later)

declare safe_cut_from.simps [simp del]

definition find_safe_cut :: "message list \<Rightarrow> nat \<Rightarrow> nat" where
  "find_safe_cut ms candidate = safe_cut_from ms (tooluse_positions ms) (min candidate (length ms))"

text \<open>The walk from the tail: the first \<open>i\<close> messages are still to come.\<close>

fun cut_walk :: "(json \<Rightarrow> str) \<Rightarrow> message list \<Rightarrow> nat \<Rightarrow> nat \<Rightarrow> nat \<Rightarrow> nat \<Rightarrow> nat" where
  "cut_walk js ms keep 0 accumulated at = at"
| "cut_walk js ms keep (Suc i) accumulated at =
     (let msg_tokens = estimate_tokens js (ms ! i) in
      if accumulated + msg_tokens > keep \<and> i < length ms - 1 then find_safe_cut ms (i + 1)
      else cut_walk js ms keep i (accumulated + msg_tokens) i)"

definition find_cut_point :: "(json \<Rightarrow> str) \<Rightarrow> message list \<Rightarrow> nat \<Rightarrow> nat" where
  "find_cut_point js ms keep =
     (if ms = [] then 0 else find_safe_cut ms (cut_walk js ms keep (length ms) 0 (length ms)))"

record cut_point =
  cp_first_kept :: nat
  cp_turn_start :: "nat option"
  cp_split :: bool

definition find_cut_point_split :: "(json \<Rightarrow> str) \<Rightarrow> message list \<Rightarrow> nat \<Rightarrow> cut_point" where
  "find_cut_point_split js ms keep =
     (let cut = find_cut_point js ms keep;
          whole = \<lparr>cp_first_kept = cut, cp_turn_start = None, cp_split = False\<rparr> in
      if cut \<ge> length ms \<or> is_user (ms ! cut) then whole
      else case find (\<lambda>i. is_user (ms ! i)) (rev [0..<cut]) of
          Some start \<Rightarrow>
            if start + 1 < cut then \<lparr>cp_first_kept = cut, cp_turn_start = Some start, cp_split = True\<rparr> else whole
        | None \<Rightarrow> whole)"

section \<open>The texts of the summarization calls\<close>

definition TOOL_RESULT_MAX_CHARS :: nat where "TOOL_RESULT_MAX_CHARS = 2000"

definition truncate_for_summary :: "str \<Rightarrow> nat \<Rightarrow> str" where
  "truncate_for_summary t max_chars =
     (case nth_char t max_chars of
        None \<Rightarrow> t
      | Some e \<Rightarrow>
          take e t @ [NL, NL] @ ''[... '' @ show_nat (length (char_indices (drop e t))) @ '' more characters truncated]'')"

definition call_text :: "(json \<Rightarrow> str) \<Rightarrow> content_block \<Rightarrow> str option" where
  "call_text js b =
     (case b of
        ToolUseBlock _ name input _ \<Rightarrow>
          Some (name @ ''('' @ (case input of JObj fs \<Rightarrow> join '', '' (map (\<lambda>(k, v). k @ ''='' @ js v) fs) | _ \<Rightarrow> []) @ '')'')
      | _ \<Rightarrow> None)"

definition message_parts :: "(json \<Rightarrow> str) \<Rightarrow> message \<Rightarrow> str list" where
  "message_parts js m =
     (let user_part = (\<lambda>t. if t \<noteq> [] then [''[User]: '' @ t] else []) in
      case m of
        UserMsg content _ _ \<Rightarrow> user_part (content_text content)
      | CustomMsg _ content _ _ _ \<Rightarrow> user_part (content_text content)
      | BashMsg b \<Rightarrow> if bx_excluded b = Some True then [] else user_part (bash_execution_to_text b)
      | AssistantMsg a \<Rightarrow>
          let thinking = filter_map block_thinking (as_content a); calls = filter_map (call_text js) (as_content a) in
          (if thinking \<noteq> [] then [''[Assistant thinking]: '' @ join [NL] thinking] else [])
          @ (if list_ex (\<lambda>b. block_text b \<noteq> None) (as_content a) then [''[Assistant]: '' @ content_text (as_content a)] else [])
          @ (if calls \<noteq> [] then [''[Assistant tool calls]: '' @ join ''; '' calls] else [])
      | ToolResultMsg r \<Rightarrow>
          let t = content_text (tr_content r) in
          if t \<noteq> [] then [''[Tool result]: '' @ truncate_for_summary t TOOL_RESULT_MAX_CHARS] else [])"

definition serialize_conversation :: "(json \<Rightarrow> str) \<Rightarrow> message list \<Rightarrow> str" where
  "serialize_conversation js ms = join [NL, NL] (concat (map (message_parts js) ms))"

definition in_conversation_tags :: "str \<Rightarrow> str" where
  "in_conversation_tags t = ''<conversation>'' @ [NL] @ t @ [NL] @ ''</conversation>'' @ [NL, NL]"

definition build_compaction_prompt :: "(json \<Rightarrow> str) \<Rightarrow> message list \<Rightarrow> str option \<Rightarrow> str option \<Rightarrow> str" where
  "build_compaction_prompt js ms existing_summary custom_instructions =
     in_conversation_tags (serialize_conversation js ms)
     @ (case existing_summary of
          Some summary \<Rightarrow>
            ''<previous-summary>'' @ [NL] @ summary @ [NL] @ ''</previous-summary>'' @ [NL, NL] @ UPDATE_SUMMARIZATION_PROMPT
        | None \<Rightarrow> SUMMARIZATION_PROMPT)
     @ (case custom_instructions of
          Some ci \<Rightarrow> if trim ci \<noteq> [] then [NL, NL] @ ''Additional focus: '' @ ci else []
        | None \<Rightarrow> [])"

definition build_turn_prefix_prompt :: "(json \<Rightarrow> str) \<Rightarrow> message list \<Rightarrow> str" where
  "build_turn_prefix_prompt js ms = in_conversation_tags (serialize_conversation js ms) @ TURN_PREFIX_SUMMARIZATION_PROMPT"

section \<open>The files of a region\<close>

text \<open>\<^verbatim>\<open>BTreeSet<String>\<close> iterates in the order of the bytes.\<close>

record file_ops =
  fo_read :: "str set"
  fo_written :: "str set"
  fo_edited :: "str set"

definition no_files :: file_ops where
  "no_files = \<lparr>fo_read = {}, fo_written = {}, fo_edited = {}\<rparr>"

definition file_op_of_block :: "content_block \<Rightarrow> file_ops \<Rightarrow> file_ops" where
  "file_op_of_block b ops =
     (case b of
        ToolUseBlock _ name input _ \<Rightarrow>
          (case Option.bind (json_get ''path'' input) as_str of
             None \<Rightarrow> ops
           | Some path \<Rightarrow>
               if name = ''Read'' then ops\<lparr>fo_read := insert path (fo_read ops)\<rparr>
               else if name = ''Write'' then ops\<lparr>fo_written := insert path (fo_written ops)\<rparr>
               else if name = ''Edit'' then ops\<lparr>fo_edited := insert path (fo_edited ops)\<rparr>
               else ops)
      | _ \<Rightarrow> ops)"

definition extract_file_ops_from_message :: "message \<Rightarrow> file_ops \<Rightarrow> file_ops" where
  "extract_file_ops_from_message m ops =
     (case m of AssistantMsg a \<Rightarrow> fold file_op_of_block (as_content a) ops | _ \<Rightarrow> ops)"

text \<open>The lists a summary entry recorded.\<close>

definition recorded_files :: "str \<Rightarrow> json \<Rightarrow> str list" where
  "recorded_files key details =
     (case Option.bind (json_get key details) as_array of Some vs \<Rightarrow> filter_map as_str vs | None \<Rightarrow> [])"

definition seed_files :: "json \<Rightarrow> file_ops \<Rightarrow> file_ops" where
  "seed_files d ops =
     ops\<lparr>fo_read := fo_read ops \<union> set (recorded_files ''readFiles'' d),
         fo_edited := fo_edited ops \<union> set (recorded_files ''modifiedFiles'' d)\<rparr>"

definition extract_file_operations :: "message list \<Rightarrow> entry list \<Rightarrow> file_ops" where
  "extract_file_operations ms path =
     (let seeded = (case find is_compaction (rev path) of
        Some e \<Rightarrow>
          (case en_body e of
             Compaction _ _ _ _ _ (Some d) from_hook \<Rightarrow> if from_hook \<noteq> Some True then seed_files d no_files else no_files
           | _ \<Rightarrow> no_files)
      | None \<Rightarrow> no_files) in
      fold extract_file_ops_from_message ms seeded)"

definition modified_set :: "file_ops \<Rightarrow> str set" where
  "modified_set ops = fo_edited ops \<union> fo_written ops"

definition compute_file_lists :: "file_ops \<Rightarrow> str list \<times> str list" where
  "compute_file_lists ops =
     (sorted_list_of_set (fo_read ops - modified_set ops), sorted_list_of_set (modified_set ops))"

definition format_file_operations :: "str list \<Rightarrow> str list \<Rightarrow> str" where
  "format_file_operations read_files modified_files =
     (let sections =
        (if read_files \<noteq> [] then [''<read-files>'' @ [NL] @ join [NL] read_files @ [NL] @ ''</read-files>''] else [])
        @ (if modified_files \<noteq> []
           then [''<modified-files>'' @ [NL] @ join [NL] modified_files @ [NL] @ ''</modified-files>''] else []) in
      if sections = [] then [] else [NL, NL] @ join [NL, NL] sections)"

section \<open>The preparation\<close>

record preparation =
  pr_first_kept_id :: "str option"
  pr_to_summarize :: "message list"
  pr_turn_prefix :: "message list"
  pr_retained_tail :: "message list"
  pr_split :: bool
  pr_tokens_before :: "64 word"
  pr_previous_summary :: "str option"
  pr_file_ops :: file_ops
  pr_settings :: compaction_settings

text \<open>\<^verbatim>\<open>messages.get(a..b)\<close>, empty where the range is none of the vector.\<close>

definition sub_slice :: "nat \<Rightarrow> nat \<Rightarrow> 'a list \<Rightarrow> 'a list" where
  "sub_slice a b xs = (if a \<le> b \<and> b \<le> length xs then take (b - a) (drop a xs) else [])"

definition summary_of :: "entry \<Rightarrow> str option" where
  "summary_of e = (case en_body e of Compaction summary _ _ _ _ _ _ \<Rightarrow> Some summary | _ \<Rightarrow> None)"

text \<open>The retained tail is indexed from the cut, which \<open>find_cut_point\<close> keeps inside the transcript.\<close>

definition build_preparation ::
  "entry list \<Rightarrow> message list \<Rightarrow> cut_point \<Rightarrow> str option \<Rightarrow> 64 word \<Rightarrow> compaction_settings \<Rightarrow> preparation option" where
  "build_preparation path ms cp first_kept_id tokens_before cs =
     (let previous_summary = find_map summary_of (rev path);
          start = (if previous_summary \<noteq> None then 1 else 0);
          history_end = max (case cp_turn_start cp of Some t \<Rightarrow> t | None \<Rightarrow> cp_first_kept cp) start;
          to_summarize = sub_slice start history_end ms;
          prefix = (case cp_turn_start cp of Some t \<Rightarrow> sub_slice t (cp_first_kept cp) ms | None \<Rightarrow> []) in
      if to_summarize = [] \<and> prefix = [] then None
      else
        let ops = extract_file_operations to_summarize path;
            ops = (if cp_split cp then fold extract_file_ops_from_message prefix ops else ops) in
        Some \<lparr>pr_first_kept_id = first_kept_id, pr_to_summarize = to_summarize, pr_turn_prefix = prefix,
          pr_retained_tail = drop (cp_first_kept cp) ms, pr_split = cp_split cp, pr_tokens_before = tokens_before,
          pr_previous_summary = previous_summary, pr_file_ops = ops, pr_settings = cs\<rparr>)"

end
