(* ===== verification/Compaction_Cut.thy ===== *)
theory Compaction_Cut
  imports Compaction
begin

text \<open>
  What the cut of a compaction guarantees: it is the least cut that keeps the recent messages within the budget and
  leaves no tool result without its call; the preparation splits the transcript at it, and a transcript that was
  just compacted is not compacted again.
\<close>

section \<open>Positions of calls\<close>

lemma called_append [simp]: "called (xs @ ys) = called xs \<union> called ys"
  by (auto simp: called_def)

lemma called_drop: "a \<le> b \<Longrightarrow> called (drop b ms) \<subseteq> called (drop a ms)"
  using set_drop_subset_set_drop [of a b ms] by (auto simp: called_def)

lemma fold_calls:
  "fold (\<lambda>(call, _) pos. pos(call \<mapsto> i)) cs pos t = (if t \<in> fst ` set cs then Some i else pos t)"
  by (induction cs arbitrary: pos) auto

lemma tooluse_positions_snoc:
  "tooluse_positions (ms @ [m]) t = (if t \<in> fst ` called [m] then Some (length ms) else tooluse_positions ms t)"
  by (cases m) (simp_all add: tooluse_positions_def enumerate_append_eq fold_calls)

text \<open>The last position of a call lies behind a cut exactly when some call of the id does.\<close>

lemma tooluse_positions_before:
  "(case tooluse_positions ms t of None \<Rightarrow> True | Some j \<Rightarrow> j < idx) \<longleftrightarrow> t \<notin> fst ` called (drop idx ms)"
proof (induction ms rule: rev_induct)
  case Nil
  then show ?case by (simp add: tooluse_positions_def)
next
  case (snoc m ms)
  then show ?case
    by (cases "idx \<le> length ms") (auto simp: tooluse_positions_snoc drop_Cons' split: option.splits)
qed

definition orphan_free :: "message list \<Rightarrow> bool" where
  "orphan_free ms \<longleftrightarrow> (\<forall>m \<in> set ms. case m of ToolResultMsg r \<Rightarrow> tr_call r \<in> fst ` called ms | _ \<Rightarrow> True)"

lemma orphan_at:
  "(case m of ToolResultMsg r \<Rightarrow> (case tooluse_positions ms (tr_call r) of None \<Rightarrow> True | Some j \<Rightarrow> j < idx) | _ \<Rightarrow> False)
     \<longleftrightarrow> \<not> (case m of ToolResultMsg r \<Rightarrow> tr_call r \<in> fst ` called (drop idx ms) | _ \<Rightarrow> True)"
  using tooluse_positions_before [where ms = ms and idx = idx] by (cases m) auto

lemma first_orphaned_None:
  "first_orphaned_result ms idx (tooluse_positions ms) = None \<longleftrightarrow> orphan_free (drop idx ms)"
proof -
  have "set (drop idx ms) = (!) ms ` {idx..<length ms}"
    by (metis drop_map list.set_map map_nth set_upt drop_upt plus_nat.add_0)
  then show ?thesis
    unfolding first_orphaned_result_def orphan_free_def find_None_iff orphan_at by auto
qed

lemma first_orphaned_Some:
  assumes "first_orphaned_result ms idx (tooluse_positions ms) = Some m" "idx \<le> c" "c \<le> m"
  shows "\<not> orphan_free (drop c ms)"
proof -
  have m: "idx \<le> m" "m < length ms" using first_orphaned_later [OF assms(1)] by auto
  have o: "\<not> (case ms ! m of ToolResultMsg r \<Rightarrow> tr_call r \<in> fst ` called (drop idx ms) | _ \<Rightarrow> True)"
    using assms(1) unfolding first_orphaned_result_def find_Some_iff orphan_at by auto
  have "drop c ms ! (m - c) = ms ! m" using assms(3) m by simp
  then have "ms ! m \<in> set (drop c ms)" using assms(3) m by (metis diff_less_mono length_drop nth_mem)
  moreover have "fst ` called (drop c ms) \<subseteq> fst ` called (drop idx ms)" using called_drop [OF assms(2)] by auto
  ultimately show ?thesis using o by (auto simp: orphan_free_def split: message.splits)
qed

section \<open>The safe cut\<close>

lemma safe_cut_from_spec:
  assumes "pos = tooluse_positions ms" "idx \<le> length ms"
  shows "idx \<le> safe_cut_from ms pos idx \<and> safe_cut_from ms pos idx \<le> length ms
    \<and> orphan_free (drop (safe_cut_from ms pos idx) ms)
    \<and> (\<forall>c. idx \<le> c \<and> c < safe_cut_from ms pos idx \<longrightarrow> \<not> orphan_free (drop c ms))"
  using assms
proof (induction ms pos idx rule: safe_cut_from.induct)
  case (1 ms pos idx)
  show ?case
  proof (cases "idx < length ms")
    case False
    then show ?thesis using 1(3) by (subst (1 2 3 4) safe_cut_from.simps) (simp add: orphan_free_def)
  next
    case True
    show ?thesis
    proof (cases "first_orphaned_result ms idx pos")
      case None
      then have "safe_cut_from ms pos idx = idx" using True by (subst safe_cut_from.simps) simp
      then show ?thesis using None first_orphaned_None [of ms idx] 1(2) True by auto
    next
      case (Some m)
      have e: "safe_cut_from ms pos idx = safe_cut_from ms pos (m + 1)"
        using True Some by (subst safe_cut_from.simps) simp
      have m: "idx \<le> m" "m < length ms" using first_orphaned_later [OF Some] by auto
      have below: "\<not> orphan_free (drop c ms)" if "idx \<le> c" "c \<le> m" for c
        using first_orphaned_Some [of ms idx m c] Some 1(2) that by simp
      have ih: "m + 1 \<le> safe_cut_from ms pos (m + 1) \<and> safe_cut_from ms pos (m + 1) \<le> length ms
          \<and> orphan_free (drop (safe_cut_from ms pos (m + 1)) ms)
          \<and> (\<forall>c. m + 1 \<le> c \<and> c < safe_cut_from ms pos (m + 1) \<longrightarrow> \<not> orphan_free (drop c ms))"
        using 1(1) [OF True Some 1(2)] m by simp
      have "\<not> orphan_free (drop c ms)" if "idx \<le> c" "c < safe_cut_from ms pos (m + 1)" for c
        using below [OF that(1)] ih that(2) by (cases "c \<le> m") auto
      then show ?thesis using ih m unfolding e by auto
    qed
  qed
qed

lemma find_safe_cut_spec:
  assumes "candidate \<le> length ms"
  shows "candidate \<le> find_safe_cut ms candidate" "find_safe_cut ms candidate \<le> length ms"
    "orphan_free (drop (find_safe_cut ms candidate) ms)"
    "candidate \<le> c \<Longrightarrow> c < find_safe_cut ms candidate \<Longrightarrow> \<not> orphan_free (drop c ms)"
  using safe_cut_from_spec [OF refl assms] assms by (auto simp: find_safe_cut_def)

lemma find_safe_cut_fixed:
  assumes "c \<le> length ms" "orphan_free (drop c ms)"
  shows "find_safe_cut ms c = c"
  using find_safe_cut_spec [OF assms(1)] assms(2) by (metis le_neq_implies_less order_refl)

section \<open>The walk from the tail\<close>

lemma tokens_of_drop_mono: "a \<le> b \<Longrightarrow> tokens_of js (drop b ms) \<le> tokens_of js (drop a ms)"
proof -
  assume "a \<le> b"
  then have "drop a ms = take (b - a) (drop a ms) @ drop b ms"
    by (metis append_take_drop_id drop_drop le_add_diff_inverse2)
  then have "tokens_of js (drop a ms) = tokens_of js (take (b - a) (drop a ms)) + tokens_of js (drop b ms)"
    unfolding tokens_of_def by (metis map_append sum_list_append)
  then show ?thesis by simp
qed

definition within :: "(json \<Rightarrow> str) \<Rightarrow> message list \<Rightarrow> nat \<Rightarrow> nat \<Rightarrow> bool" where
  "within js ms keep c \<longleftrightarrow> tokens_of js (drop c ms) \<le> keep \<or> length ms \<le> Suc c"

lemma cut_walk_spec:
  assumes "i \<le> length ms" "within js ms keep i"
  shows "\<exists>c \<le> i. cut_walk js ms keep i (tokens_of js (drop i ms)) i \<in> {c, find_safe_cut ms c}
    \<and> within js ms keep c \<and> (\<forall>c' < c. \<not> within js ms keep c')"
  using assms
proof (induction i)
  case 0
  then show ?case by (intro exI [of _ 0]) simp
next
  case (Suc i)
  have step: "estimate_tokens js (ms ! i) + tokens_of js (drop (Suc i) ms) = tokens_of js (drop i ms)"
    using Suc.prems(1) by (simp add: tokens_of_def Cons_nth_drop_Suc [symmetric])
  show ?case
  proof (cases "tokens_of js (drop i ms) > keep \<and> i < length ms - 1")
    case True
    have "\<not> within js ms keep c'" if "c' < Suc i" for c'
      using True that tokens_of_drop_mono [of c' i js ms] by (auto simp: within_def)
    moreover have "cut_walk js ms keep (Suc i) (tokens_of js (drop (Suc i) ms)) (Suc i) = find_safe_cut ms (Suc i)"
      using True step by (simp add: Let_def add.commute)
    ultimately show ?thesis using Suc.prems(2) by (intro exI [of _ "Suc i"]) simp
  next
    case False
    then have w: "within js ms keep i" using Suc.prems(1) by (auto simp: within_def)
    have "cut_walk js ms keep (Suc i) (tokens_of js (drop (Suc i) ms)) (Suc i)
        = cut_walk js ms keep i (tokens_of js (drop i ms)) i"
      using False step by (auto simp: Let_def add.commute)
    then show ?thesis using Suc.IH [OF _ w] Suc.prems(1) by (metis Suc_leD le_Suc_eq)
  qed
qed

text \<open>A cut a compaction may make: no result of the tail is orphaned, and the tail fits or is one message.\<close>

definition cut_ok :: "(json \<Rightarrow> str) \<Rightarrow> message list \<Rightarrow> nat \<Rightarrow> nat \<Rightarrow> bool" where
  "cut_ok js ms keep c \<longleftrightarrow> c \<le> length ms \<and> orphan_free (drop c ms) \<and> within js ms keep c"

lemma within_mono: "within js ms keep a \<Longrightarrow> a \<le> b \<Longrightarrow> within js ms keep b"
  using tokens_of_drop_mono [of a b js ms] by (auto simp: within_def)

lemma find_cut_point_least:
  "cut_ok js ms keep (find_cut_point js ms keep)"
  "cut_ok js ms keep c \<Longrightarrow> find_cut_point js ms keep \<le> c"
proof -
  have "cut_ok js ms keep (find_cut_point js ms keep) \<and> (cut_ok js ms keep c \<longrightarrow> find_cut_point js ms keep \<le> c)" for c
  proof (cases "ms = []")
    case True
    then show ?thesis by (simp add: find_cut_point_def cut_ok_def orphan_free_def within_def)
  next
    case False
    let ?w = "cut_walk js ms keep (length ms) 0 (length ms)"
    obtain b where b: "b \<le> length ms" "?w \<in> {b, find_safe_cut ms b}" "within js ms keep b" "\<forall>c' < b. \<not> within js ms keep c'"
      using cut_walk_spec [of "length ms" ms js keep] by (auto simp: within_def tokens_of_def)
    have f: "find_safe_cut ms (find_safe_cut ms b) = find_safe_cut ms b"
      using find_safe_cut_spec [OF b(1)] by (intro find_safe_cut_fixed) auto
    then have e: "find_cut_point js ms keep = find_safe_cut ms b"
      using b(2) False by (auto simp: find_cut_point_def)
    have "find_safe_cut ms b \<le> c" if "cut_ok js ms keep c"
      using that b(4) find_safe_cut_spec(4) [OF b(1), of c] unfolding cut_ok_def by (meson not_le)
    then show ?thesis
      unfolding e cut_ok_def using find_safe_cut_spec [OF b(1)] within_mono [OF b(3)] by blast
  qed
  then show "cut_ok js ms keep (find_cut_point js ms keep)" "cut_ok js ms keep c \<Longrightarrow> find_cut_point js ms keep \<le> c"
    by blast+
qed


text \<open>Where no id is called again after its result, the tail does not start on a result; where one is, it may.\<close>

fun calls_first :: "message list \<Rightarrow> bool" where
  "calls_first [] = True"
| "calls_first (ToolResultMsg r # ms) = (tr_call r \<notin> fst ` called ms \<and> calls_first ms)"
| "calls_first (m # ms) = calls_first ms"

lemma calls_first_drop: "calls_first ms \<Longrightarrow> calls_first (drop c ms)"
proof (induction ms arbitrary: c)
  case (Cons m ms)
  then have "calls_first ms" by (cases m) auto
  then show ?case using Cons by (cases c) auto
qed simp

lemma tail_start:
  assumes "calls_first ms"
  shows "drop (find_cut_point js ms keep) ms \<noteq> ToolResultMsg r # rest"
proof
  assume d: "drop (find_cut_point js ms keep) ms = ToolResultMsg r # rest"
  then have "tr_call r \<in> fst ` called rest"
    using find_cut_point_least(1) [of js ms keep] by (simp add: cut_ok_def orphan_free_def)
  moreover have "calls_first (ToolResultMsg r # rest)" using calls_first_drop [OF assms] d by metis
  ultimately show False by simp
qed

text \<open>The position of a repeated id is the last one, so a cut may put the first call into the prefix and start the
  tail on its result.\<close>

lemma reused_id_starts_tail:
  assumes "tool_calls a = [(i, name)]" "tr_call r = i"
  shows "find_safe_cut [AssistantMsg a, ToolResultMsg r, AssistantMsg a, ToolResultMsg r] 1 = 1"
  using assms by (intro find_safe_cut_fixed) (simp_all add: orphan_free_def)

section \<open>Two messages\<close>

definition demo_messages :: "message list" where
  "demo_messages = [user_message ''hello'' 1, user_message ''again'' 2]"

lemma utf16_hello: "utf16_count ''hello'' = 5"
  by (simp add: utf16_count_def is_continuation_def)

lemma demo_cut: "find_cut_point js demo_messages 0 = 1"
proof -
  have "cut_ok js demo_messages 0 1"
    by (simp add: cut_ok_def within_def orphan_free_def demo_messages_def user_message_def)
  moreover have "\<not> cut_ok js demo_messages 0 0"
    by (simp add: cut_ok_def within_def demo_messages_def user_message_def tokens_of_def estimate_tokens_def message_chars_def
        block_chars_def utf16_hello)
  ultimately show ?thesis
    using find_cut_point_least [of js demo_messages 0] by (metis le_neq_implies_less less_one)
qed

end
