(* ===== verification/Compaction_Plan.thy ===== *)
theory Compaction_Plan
  imports Compaction_Cut
begin

text \<open>
  The preparation of a compaction splits the transcript at the cut; the file lists of a region survive repeated
  compactions; truncation counts characters; the threshold does not saturate.
\<close>

section \<open>The preparation\<close>

lemma turn_start_find:
  assumes "find (\<lambda>i. is_user (ms ! i)) (rev [0..<n]) = Some t"
  shows "t < n \<and> is_user (ms ! t) \<and> (\<forall>j. t < j \<and> j < n \<longrightarrow> \<not> is_user (ms ! j))"
  using assms
proof (induction n)
  case (Suc n)
  then show ?case by (cases "is_user (ms ! n)") (auto simp: less_Suc_eq)
qed simp

lemma split_cut_cases:
  fixes js ms keep
  defines "cp \<equiv> find_cut_point_split js ms keep"
  shows "cp_first_kept cp = find_cut_point js ms keep \<and> (cp_split cp \<longleftrightarrow> cp_turn_start cp \<noteq> None)
    \<and> (\<forall>t. cp_turn_start cp = Some t \<longrightarrow> t + 1 < cp_first_kept cp \<and> is_user (ms ! t)
        \<and> (\<forall>j. t < j \<and> j \<le> cp_first_kept cp \<longrightarrow> \<not> is_user (ms ! j)))"
  unfolding cp_def find_cut_point_split_def Let_def
  by (auto split: option.splits dest!: turn_start_find simp: le_less)

lemma slice_split: "a \<le> b \<Longrightarrow> b \<le> length xs \<Longrightarrow> take a xs @ sub_slice a b xs @ drop b xs = xs"
  by (simp add: sub_slice_def) (metis append_take_drop_id drop_drop le_add_diff_inverse2)

lemma slice_drop_take: "sub_slice a b xs = (if a \<le> b \<and> b \<le> length xs then drop a (take b xs) else [])"
  by (simp add: sub_slice_def drop_take)

lemma slice_join:
  assumes "a \<le> b" "b \<le> c" "c \<le> length xs"
  shows "sub_slice a b xs @ sub_slice b c xs = sub_slice a c xs"
proof -
  have "take c xs = take b xs @ drop b (take c xs)"
    using append_take_drop_id [of b "take c xs"] assms(2) by (simp add: min_def)
  then have "drop a (take c xs) = drop a (take b xs) @ drop b (take c xs)"
    using assms by (metis (no_types, lifting) append_Nil2 diff_is_0_eq drop_append drop0 dual_order.trans length_take min.absorb2)
  then show ?thesis using assms by (simp add: slice_drop_take)
qed

lemma slice_empty: "sub_slice a b xs = [] \<longleftrightarrow> \<not> (a < b \<and> b \<le> length xs)"
  by (auto simp: sub_slice_def)

definition summarized_before :: "entry list \<Rightarrow> nat" where
  "summarized_before path = (if find_map summary_of (rev path) \<noteq> None then 1 else 0)"

text \<open>Nothing is prepared exactly when the cut keeps everything but the carrier of the last summary.\<close>

lemma build_preparation_None:
  "build_preparation path ms (find_cut_point_split js ms keep) i tokens cs = None
     \<longleftrightarrow> find_cut_point js ms keep \<le> summarized_before path"
proof -
  let ?cp = "find_cut_point_split js ms keep"
  have c: "cp_first_kept ?cp = find_cut_point js ms keep" "cp_first_kept ?cp \<le> length ms"
    "\<And>t. cp_turn_start ?cp = Some t \<Longrightarrow> t + 1 < cp_first_kept ?cp"
    using split_cut_cases [of js ms keep] find_cut_point_least(1) [of js ms keep] by (auto simp: cut_ok_def)
  show ?thesis
  proof (cases "cp_turn_start ?cp")
    case None
    then show ?thesis
      using c by (auto simp: build_preparation_def Let_def slice_empty summarized_before_def)
  next
    case (Some t)
    then have "sub_slice t (cp_first_kept ?cp) ms \<noteq> []" "find_cut_point js ms keep > 1" using c(1,2) c(3) [OF Some] by (auto simp: slice_empty)
    then show ?thesis using Some by (simp add: build_preparation_def Let_def summarized_before_def)
  qed
qed

text \<open>What a compaction prepares is the transcript cut in three: what is summarized, the discarded beginning of
  the turn the cut splits, and the retained tail. Only the carrier of the previous summary is left out, unless it
  stands at the beginning of the split turn. The prefix of a split turn starts at its user message and has no other.\<close>

lemma preparation_splits:
  assumes "build_preparation path ms (find_cut_point_split js ms keep) i tokens cs = Some p"
  shows "\<exists>left_out. ms = left_out @ pr_to_summarize p @ pr_turn_prefix p @ pr_retained_tail p
    \<and> pr_to_summarize p @ pr_turn_prefix p \<noteq> []
    \<and> length left_out = (if cp_turn_start (find_cut_point_split js ms keep) = Some 0 then 0 else summarized_before path)
    \<and> cut_ok js ms keep (length ms - length (pr_retained_tail p))
    \<and> (pr_split p \<longleftrightarrow> pr_turn_prefix p \<noteq> [])
    \<and> (pr_split p \<longrightarrow> is_user (hd (pr_turn_prefix p)) \<and> \<not> list_ex is_user (tl (pr_turn_prefix p)))"
proof -
  let ?cp = "find_cut_point_split js ms keep"
  let ?f = "cp_first_kept ?cp"
  let ?s = "summarized_before path"
  have c: "?f = find_cut_point js ms keep" "cp_split ?cp \<longleftrightarrow> cp_turn_start ?cp \<noteq> None"
    "\<And>t. cp_turn_start ?cp = Some t \<Longrightarrow> t + 1 < ?f \<and> is_user (ms ! t) \<and> (\<forall>j. t < j \<and> j \<le> ?f \<longrightarrow> \<not> is_user (ms ! j))"
    using split_cut_cases [of js ms keep] by auto
  have ok: "cut_ok js ms keep ?f" and len: "?f \<le> length ms"
    using find_cut_point_least(1) [of js ms keep] c(1) by (auto simp: cut_ok_def)
  have s: "?s < ?f" using build_preparation_None [of path ms js keep i tokens cs] assms c(1) by auto
  have s1: "?s \<le> 1" by (simp add: summarized_before_def)
  have p: "pr_retained_tail p = drop ?f ms" "pr_split p = cp_split ?cp"
    "pr_to_summarize p = sub_slice ?s (max (case cp_turn_start ?cp of Some t \<Rightarrow> t | None \<Rightarrow> ?f) ?s) ms"
    "pr_turn_prefix p = (case cp_turn_start ?cp of Some t \<Rightarrow> sub_slice t ?f ms | None \<Rightarrow> [])"
    using assms by (auto simp: build_preparation_def Let_def summarized_before_def split: if_splits)
  have tail: "length ms - length (pr_retained_tail p) = ?f" using len by (simp add: p(1))
  have ne: "pr_to_summarize p @ pr_turn_prefix p \<noteq> []"
    using assms by (auto simp: build_preparation_def Let_def split: if_splits)
  show ?thesis
  proof (cases "cp_turn_start ?cp")
    case None
    then show ?thesis
      using p ne tail ok c(2) slice_split [of ?s ?f ms] s len
      by (intro exI [of _ "take ?s ms"]) (auto simp: max_def)
  next
    case (Some t)
    have t: "t + 1 < ?f" "is_user (ms ! t)" "\<forall>j. t < j \<and> j \<le> ?f \<longrightarrow> \<not> is_user (ms ! j)" using c(3) [OF Some] by auto
    have pre: "sub_slice t ?f ms = ms ! t # sub_slice (Suc t) ?f ms"
      using t(1) len by (simp add: sub_slice_def Suc_diff_Suc Cons_nth_drop_Suc [symmetric] take_Cons' Suc_diff_le)
    have "\<not> is_user m" if "m \<in> set (sub_slice (Suc t) ?f ms)" for m
      using that t(3) len by (auto simp: sub_slice_def in_set_conv_nth split: if_splits)
    then have user: "is_user (hd (sub_slice t ?f ms)) \<and> \<not> list_ex is_user (tl (sub_slice t ?f ms))"
      using t(2) by (auto simp: pre list_ex_iff)
    show ?thesis
    proof (cases "t = 0")
      case True
      then have "pr_to_summarize p = []" using p(3) Some by (simp add: sub_slice_def)
      moreover have "sub_slice 0 ?f ms @ drop ?f ms = ms" using slice_split [of 0 ?f ms] len by simp
      ultimately show ?thesis
        using p Some True ne tail ok c(2) user by (intro exI [of _ "[]"]) auto
    next
      case False
      then have "max t ?s = t" using s1 by simp
      moreover have "take ?s ms @ sub_slice ?s t ms @ sub_slice t ?f ms @ drop ?f ms = ms"
        using slice_join [of ?s t ?f ms] slice_split [of ?s ?f ms] False s1 t(1) len by (simp flip: append_assoc)
      ultimately show ?thesis
        using p Some False ne tail ok c(2) user pre s len by (intro exI [of _ "take ?s ms"]) auto
    qed
  qed
qed

text \<open>A summary in front of a tail that was cut for the same budget leaves nothing to compact.\<close>

lemma nothing_left_to_compact:
  assumes "cut_ok js ms keep c" "summarized_before path = 1"
  shows "build_preparation path (summary # drop c ms) (find_cut_point_split js (summary # drop c ms) keep) i tokens cs = None"
proof -
  have "cut_ok js (summary # drop c ms) keep 1" using assms(1) by (auto simp: cut_ok_def within_def)
  then have "find_cut_point js (summary # drop c ms) keep \<le> 1" by (rule find_cut_point_least(2))
  then show ?thesis by (simp add: build_preparation_None assms(2))
qed

section \<open>The threshold\<close>

text \<open>For counts of which the sign bit is clear, the threshold is the arithmetic one, also where the reserve is
  larger than the window.\<close>

lemma threshold_signed:
  assumes "unat ctx < 2 ^ 63" "unat window < 2 ^ 63" "cs_reserve_tokens cs < 2 ^ 63"
  shows "should_compact ctx window cs \<longleftrightarrow> cs_enabled cs \<and> unat window < unat ctx + cs_reserve_tokens cs"
proof -
  have small: "sint (of_nat n :: 64 word) = int n" if "n < 2 ^ 63" for n
    using that by (simp add: signed_of_nat signed_take_bit_int_eq_self)
  have w: "sint w = int (unat w)" if "unat w < 2 ^ 63" for w :: "64 word"
    using small [OF that] by simp
  have "sint (window - of_nat (cs_reserve_tokens cs)) = int (unat window) - int (cs_reserve_tokens cs)"
  proof -
    let ?d = "int (unat window) - int (cs_reserve_tokens cs)"
    have "- (2 ^ 63) \<le> int a - int b \<and> int a - int b < 2 ^ 63" if "a < 2 ^ 63" "b < 2 ^ 63" for a b :: nat
      using that by simp
    then have "- (2 ^ 63) \<le> ?d" "?d < 2 ^ 63" using assms(2,3) by blast+
    then have "signed_take_bit 63 ?d = ?d" by (intro signed_take_bit_int_eq_self)
    then show ?thesis by (simp only: sint_word_diff small [OF assms(3)] w [OF assms(2)]) simp
  qed
  then show ?thesis unfolding should_compact_def w [OF assms(1)] by linarith
qed

section \<open>Truncation counts characters\<close>

lemma upt_split: "e < n \<Longrightarrow> [0..<n] = [0..<e] @ e # [Suc e..<n]"
  using upt_add_eq_append [of 0 e "n - e"] by (simp add: upt_conv_Cons)

lemma filter_upt_split:
  assumes "k < length (filter P [0..<n])"
  shows "length (filter P [0..<filter P [0..<n] ! k]) = k \<and> P (filter P [0..<n] ! k) \<and> filter P [0..<n] ! k < n"
proof -
  let ?xs = "filter P [0..<n]"
  let ?e = "?xs ! k"
  have e: "?e \<in> set ?xs" using assms by (rule nth_mem)
  then have "P ?e" "?e < n" by auto
  let ?A = "filter P [0..<?e]"
  have "[0..<n] = [0..<?e] @ ?e # [Suc ?e..<n]"
    using \<open>?e < n\<close> by (rule upt_split)
  then have x: "?xs = ?A @ ?e # filter P [Suc ?e..<n]" using \<open>P ?e\<close> by (metis (mono_tags, lifting) filter.simps(2) filter_append)
  have "?xs ! length ?A = ?e" "length ?A < length ?xs" by (subst (1) x, simp only: nth_append_length) (subst (2) x, simp)
  then have "length ?A = k" using nth_eq_iff_index_eq [of ?xs "length ?A" k] assms by simp
  then show ?thesis using \<open>P ?e\<close> \<open>?e < n\<close> by simp
qed

lemma filter_shift: "length (filter P [e..<e + n]) = length (filter (\<lambda>i. P (e + i)) [0..<n])"
  by (induction n) simp_all

lemma char_indices_drop:
  assumes "e \<le> length t"
  shows "length (char_indices t) = length (char_indices (take e t)) + length (char_indices (drop e t))"
proof -
  let ?P = "\<lambda>i. \<not> is_continuation (t ! i)"
  have "char_indices (take e t) = filter ?P [0..<e]"
    using assms by (auto simp: char_indices_def intro!: filter_cong)
  moreover have "length (char_indices (drop e t)) = length (filter ?P [e..<e + (length t - e)])"
    unfolding filter_shift using assms by (simp add: char_indices_def)
  moreover have "filter ?P [0..<length t] = filter ?P [0..<e] @ filter ?P [e..<e + (length t - e)]"
    using upt_add_eq_append [of 0 e "length t - e"] assms by (metis filter_append le0 le_add_diff_inverse)
  ultimately show ?thesis by (simp add: char_indices_def)
qed

text \<open>A tool result in a summarization call is whole, or its first characters and the number of the rest; the cut
  never splits a character.\<close>

lemma truncation_counts:
  "if length (char_indices t) \<le> limit then truncate_for_summary t limit = t
   else \<exists>kept rest. t = kept @ rest \<and> length (char_indices kept) = limit \<and> rest \<noteq> [] \<and> \<not> is_continuation (hd rest)
     \<and> truncate_for_summary t limit
       = kept @ [NL, NL] @ ''[... '' @ show_nat (length (char_indices t) - limit) @ '' more characters truncated]''"
proof (cases "length (char_indices t) \<le> limit")
  case True
  then show ?thesis by (simp add: truncate_for_summary_def nth_char_def)
next
  case False
  let ?e = "char_indices t ! limit"
  have k: "limit < length (filter (\<lambda>i. \<not> is_continuation (t ! i)) [0..<length t])" using False by (simp add: char_indices_def)
  have e: "length (filter (\<lambda>i. \<not> is_continuation (t ! i)) [0..<?e]) = limit" "\<not> is_continuation (t ! ?e)" "?e < length t"
    using filter_upt_split [OF k] by (auto simp: char_indices_def)
  have "char_indices (take ?e t) = filter (\<lambda>i. \<not> is_continuation (t ! i)) [0..<?e]"
    using e(3) by (auto simp: char_indices_def intro!: filter_cong)
  then have n: "length (char_indices (take ?e t)) = limit" using e(1) by simp
  then have "length (char_indices (drop ?e t)) = length (char_indices t) - limit"
    using char_indices_drop [of ?e t] e(3) by simp
  then show ?thesis
    using False n e by (auto simp: truncate_for_summary_def nth_char_def hd_drop_conv_nth
        intro!: exI [of _ "take ?e t"] exI [of _ "drop ?e t"])
qed

section \<open>File lists\<close>

definition block_path :: "str \<Rightarrow> content_block \<Rightarrow> str option" where
  "block_path tool b =
     (case b of ToolUseBlock _ name input _ \<Rightarrow> if name = tool then Option.bind (json_get ''path'' input) as_str else None
      | _ \<Rightarrow> None)"

definition message_blocks :: "message \<Rightarrow> content_block list" where
  "message_blocks m = (case m of AssistantMsg a \<Rightarrow> as_content a | _ \<Rightarrow> [])"

text \<open>The paths the calls of a tool name.\<close>

definition calls_on :: "str \<Rightarrow> message list \<Rightarrow> str set" where
  "calls_on tool ms = set (filter_map (block_path tool) (concat (map message_blocks ms)))"

definition with_files :: "file_ops \<Rightarrow> (str \<Rightarrow> str set) \<Rightarrow> file_ops" where
  "with_files ops on =
     \<lparr>fo_read = fo_read ops \<union> on ''Read'', fo_written = fo_written ops \<union> on ''Write'', fo_edited = fo_edited ops \<union> on ''Edit''\<rparr>"

lemma with_files_twice: "with_files (with_files ops f) g = with_files ops (\<lambda>tool. f tool \<union> g tool)"
  by (simp add: with_files_def Un_assoc)

lemma with_files_none: "with_files ops (\<lambda>tool. {}) = ops"
  by (simp add: with_files_def)

lemma file_op_block: "file_op_of_block b ops = with_files ops (\<lambda>tool. set_option (block_path tool b))"
proof (cases b)
  case (ToolUseBlock i name input sig)
  then show ?thesis
    by (cases "Option.bind (json_get ''path'' input) as_str") (simp_all add: file_op_of_block_def with_files_def block_path_def)
qed (simp_all add: file_op_of_block_def block_path_def with_files_none)

lemma fold_blocks: "fold file_op_of_block bs ops = with_files ops (\<lambda>tool. set (filter_map (block_path tool) bs))"
proof (induction bs arbitrary: ops)
  case (Cons b bs)
  have "(\<lambda>tool. set_option (block_path tool b) \<union> set (filter_map (block_path tool) bs))
      = (\<lambda>tool. set (filter_map (block_path tool) (b # bs)))"
    by (auto simp: fun_eq_iff split: option.splits)
  then show ?case by (simp only: fold_Cons comp_apply Cons) (simp only: file_op_block with_files_twice)
qed (simp add: with_files_none)

lemma fold_messages: "fold extract_file_ops_from_message ms ops = with_files ops (\<lambda>tool. calls_on tool ms)"
proof (induction ms arbitrary: ops)
  case (Cons m ms)
  have "extract_file_ops_from_message m ops = with_files ops (\<lambda>tool. set (filter_map (block_path tool) (message_blocks m)))"
    by (cases m) (simp_all add: extract_file_ops_from_message_def message_blocks_def fold_blocks with_files_none)
  then show ?case by (simp add: Cons with_files_twice calls_on_def)
qed (simp add: calls_on_def with_files_none)

lemma finite_calls_on [simp]: "finite (calls_on tool ms)"
  by (simp add: calls_on_def)

lemma calls_on_append [simp]: "calls_on tool (xs @ ys) = calls_on tool xs \<union> calls_on tool ys"
  by (simp add: calls_on_def)

definition files_json :: "str list \<Rightarrow> str list \<Rightarrow> json" where
  "files_json read_files modified_files =
     JObj [(''readFiles'', JArr (map JStr read_files)), (''modifiedFiles'', JArr (map JStr modified_files))]"

lemma filter_map_strings: "filter_map as_str (map JStr xs) = xs"
  by (induction xs) auto

lemma recorded_files_json [simp]:
  "recorded_files ''readFiles'' (files_json r m) = r" "recorded_files ''modifiedFiles'' (files_json r m) = m"
  by (simp_all add: recorded_files_def files_json_def filter_map_strings)

lemma extract_after_summary:
  assumes "find is_compaction (rev path) = Some (Entry i parent t (Compaction s k n tail u (Some (files_json r m)) hook))"
    and "hook \<noteq> Some True"
  shows "extract_file_operations ms path
    = with_files \<lparr>fo_read = set r, fo_written = {}, fo_edited = set m\<rparr> (\<lambda>tool. calls_on tool ms)"
  using assms by (simp add: extract_file_operations_def fold_messages seed_files_def no_files_def)

text \<open>The lists after a compaction hold the files of all before it: what the last summary recorded as modified
  stays modified, what it recorded as read stays listed, and the calls summarized now add theirs. The two lists
  are sorted, without repetition, and have no file in common.\<close>

lemma file_lists_accumulate:
  assumes "find is_compaction (rev path) = Some (Entry i parent t (Compaction s k n tail u (Some (files_json r m)) hook))"
    and "hook \<noteq> Some True" and "compute_file_lists (extract_file_operations ms path) = (r', m')"
  shows "set m' = set m \<union> calls_on ''Edit'' ms \<union> calls_on ''Write'' ms
    \<and> set r' = set r \<union> calls_on ''Read'' ms - set m'
    \<and> sorted r' \<and> sorted m' \<and> distinct r' \<and> distinct m' \<and> set r' \<inter> set m' = {}"
  using assms(3)
  by (auto simp: extract_after_summary [OF assms(1,2)] compute_file_lists_def with_files_def modified_set_def)

section \<open>The partition\<close>



text \<open>The user message found for a split turn may be the carrier of the previous summary: then the prefix holds the
  carrier and nothing is left to summarize as history.\<close>

lemma split_turn_swallows_carrier:
  assumes "find_map summary_of (rev path) = Some s" and "find_cut_point js ms keep = 2"
    and "ms = [compaction_summary_message s t, AssistantMsg a, AssistantMsg b]"
  shows "\<exists>p. build_preparation path ms (find_cut_point_split js ms keep) i tokens cs = Some p \<and> pr_split p
    \<and> pr_previous_summary p = Some s \<and> pr_to_summarize p = []
    \<and> pr_turn_prefix p = [compaction_summary_message s t, AssistantMsg a]"
proof -
  have "find_cut_point_split js ms keep = \<lparr>cp_first_kept = 2, cp_turn_start = Some 0, cp_split = True\<rparr>"
    unfolding find_cut_point_split_def assms(2) Let_def
    by (simp add: assms(3) compaction_summary_message_def numeral_2_eq_2)
  then show ?thesis by (simp add: build_preparation_def assms(1) Let_def sub_slice_def assms(3))
qed

end
