(* ===== verification/Harness_Compact.thy ===== *)
theory Harness_Compact
  imports Compaction_Plan
begin

text \<open>
  The harness around a session (\<^verbatim>\<open>manox-harness/src/core/harness.rs\<close>): compaction, restore, the estimate behind the
  threshold. \<open>'s\<close> is the state of the session's storage. The model's answers, the hooks, the provider registry and
  the sum of two costs are parameters.
\<close>

section \<open>State\<close>

datatype phase = PhaseIdle | PhaseTurn | PhaseCompaction | PhaseBranchSummary | PhaseRetry

datatype harness_error =
    ShutDown
  | NotIdle phase
  | EmptyTranscript
  | NothingToCompact
  | CompactionCancelled
  | EmptyHookSummary
  | SummarizationFailed str str
  | StreamFailed str
  | SessionFailed session_error
  | BranchSummaryFailed str
  | EntryNotFound str

datatype compaction_reason = ManualCompaction | ThresholdCompaction | OverflowCompaction

record compaction_result =
  co_summary :: str
  co_first_kept :: "str option"
  co_tokens_before :: "64 word"
  co_tokens_after :: "64 word"
  co_usage :: "token_usage option"
  co_details :: "json option"
  co_retained_tail :: "message list"
  co_split :: bool

datatype retry_operation = TurnRetry | CompactionRetry | BranchSummaryRetry

datatype harness_event =
    CompactionStarted compaction_reason
  | CompactionEnded compaction_reason "compaction_result option" bool bool "harness_error option"
  | HookRan str
  | RetryStarted retry_operation nat nat nat str
  | RetryAttempt retry_operation nat
  | RetryEnded retry_operation bool nat "str option"
  | Settled nat

record 's harness =
  hn_session :: 's
  hn_shutdown :: bool
  hn_cancelled :: bool
  hn_phase :: phase
  hn_messages :: "message list"
  hn_ids :: "str option list"
  hn_boundary :: "int option"
  hn_settings :: compaction_settings
  hn_model :: model
  hn_thinking :: "str option"
  hn_tools :: "str list option"
  hn_overflow_tried :: bool
  hn_retry_attempt :: nat
  hn_turn_ids :: "str option list"
  hn_events :: "harness_event list"

text \<open>A before-compact hook cancels, or supplies the whole result.\<close>

record compact_override =
  ov_summary :: str
  ov_first_kept :: "str option"
  ov_tokens_before :: "64 word"
  ov_usage :: "token_usage option"
  ov_retained_tail :: "message list"
  ov_details :: "json option"

record harness_env =
  ev_json :: "json \<Rightarrow> str"
  ev_ask :: "nat \<Rightarrow> str \<Rightarrow> (harness_error, message) result"
  ev_hook :: "preparation \<Rightarrow> entry list \<Rightarrow> str option \<Rightarrow> bool \<times> compact_override option"
  ev_add_cost :: "json \<Rightarrow> json \<Rightarrow> json"
  ev_resolve_model :: "str \<times> str \<Rightarrow> model option"
  ev_default_tools :: "str list option"
  ev_mounted :: "str set"

definition emit_event :: "harness_event \<Rightarrow> 's harness \<Rightarrow> 's harness" where
  "emit_event e h = h\<lparr>hn_events := hn_events h @ [e]\<rparr>"

section \<open>The summarization calls\<close>

definition extract_summary :: "message \<Rightarrow> str \<times> token_usage option" where
  "extract_summary m =
     (case m of
        AssistantMsg a \<Rightarrow>
          if as_stop a \<noteq> None
          then ((case find_map block_text (as_content a) of Some t \<Rightarrow> t | None \<Rightarrow> []), Some (as_usage a))
          else ([], None)
      | _ \<Rightarrow> ([], None))"

definition add_opt :: "('a \<Rightarrow> 'a \<Rightarrow> 'a) \<Rightarrow> 'a option \<Rightarrow> 'a option \<Rightarrow> 'a option" where
  "add_opt f x y = (case (x, y) of (Some a, Some b) \<Rightarrow> Some (f a b) | (Some a, None) \<Rightarrow> Some a | (None, _) \<Rightarrow> y)"

definition merge_usage :: "(json \<Rightarrow> json \<Rightarrow> json) \<Rightarrow> token_usage \<Rightarrow> token_usage \<Rightarrow> token_usage" where
  "merge_usage add_cost a b =
     Usage (us_input a + us_input b) (us_output a + us_output b) (us_cache_read a + us_cache_read b)
       (us_cache_creation a + us_cache_creation b) (add_opt (+) (us_cache_write_1h a) (us_cache_write_1h b))
       (add_opt (+) (us_reasoning a) (us_reasoning b)) (us_total a + us_total b) (add_opt add_cost (us_cost a) (us_cost b))"

definition stop_of :: "message \<Rightarrow> stop_reason option" where
  "stop_of m = (case m of AssistantMsg a \<Rightarrow> as_stop a | _ \<Rightarrow> None)"

definition summarize_prompt :: "harness_env \<Rightarrow> nat \<Rightarrow> str \<Rightarrow> (harness_error, str \<times> token_usage option) result" where
  "summarize_prompt ev call prompt =
     try_then (ev_ask ev call prompt) (\<lambda>response.
       let (summary, usage) = extract_summary response in
       if stop_of response = Some StopError \<or> stop_of response = Some StopAborted \<or> trim summary = []
       then Inl (SummarizationFailed
         (if stop_of response = Some StopError then ''error''
          else if stop_of response = Some StopAborted then ''aborted'' else ''no summary'')
         (case response of AssistantMsg a \<Rightarrow> (case as_error a of Some e \<Rightarrow> '': '' @ e | None \<Rightarrow> []) | _ \<Rightarrow> []))
       else Inr (summary, usage))"

definition summarize_via_model ::
  "harness_env \<Rightarrow> preparation \<Rightarrow> str option \<Rightarrow> (harness_error, str \<times> token_usage option \<times> json option) result" where
  "summarize_via_model ev p custom_instructions =
     (let js = ev_json ev;
          history_prompt = build_compaction_prompt js (pr_to_summarize p) (pr_previous_summary p) custom_instructions in
      try_then
        (if pr_split p
         then try_then
             (if pr_to_summarize p = [] then Inr (''No prior history.'', None) else summarize_prompt ev 0 history_prompt)
             (\<lambda>(history, history_usage).
               try_then (summarize_prompt ev 1 (build_turn_prefix_prompt js (pr_turn_prefix p))) (\<lambda>(prefix, prefix_usage).
                 Inr (history @ [NL, NL] @ ''---'' @ [NL, NL] @ ''**Turn Context (split turn):**'' @ [NL, NL] @ prefix,
                      add_opt (merge_usage (ev_add_cost ev)) history_usage prefix_usage)))
         else summarize_prompt ev 0 history_prompt)
        (\<lambda>(summary, usage).
          let (read_files, modified_files) = compute_file_lists (pr_file_ops p) in
          Inr (summary @ format_file_operations read_files modified_files, usage,
               Some (files_json read_files modified_files))))"

section \<open>Estimate and threshold\<close>

definition estimate_current_tokens :: "harness_env \<Rightarrow> 's harness \<Rightarrow> 64 word" where
  "estimate_current_tokens ev h =
     (let ms = hn_messages h; estimate = estimate_context_tokens (ev_json ev) ms;
          stale_anchor = (case (ce_last_usage_index estimate, hn_boundary h) of
              (Some i, Some at) \<Rightarrow> msg_time (ms ! i) \<le> at
            | _ \<Rightarrow> False) in
      if stale_anchor then of_nat (tokens_of (ev_json ev) ms) else ce_tokens estimate)"

definition needs_compaction :: "harness_env \<Rightarrow> 's harness \<Rightarrow> bool" where
  "needs_compaction ev h = should_compact (estimate_current_tokens ev h) (md_window (hn_model h)) (hn_settings h)"

section \<open>Compaction\<close>

definition emit_compaction_failure :: "compaction_reason \<Rightarrow> bool \<Rightarrow> harness_error \<Rightarrow> 's harness \<Rightarrow> 's harness" where
  "emit_compaction_failure reason will_retry e h =
     emit_event (CompactionEnded reason None (hn_cancelled h) will_retry (Some e)) h"

definition compaction_failed ::
  "compaction_reason \<Rightarrow> bool \<Rightarrow> harness_error \<Rightarrow> 's harness \<Rightarrow> (harness_error, 'r) result \<times> 's harness" where
  "compaction_failed reason will_retry e h =
     (Inl e, emit_compaction_failure reason will_retry e (h\<lparr>hn_phase := PhaseIdle\<rparr>))"

text \<open>What is persisted: the summary, the first kept id, the count, the usage, the details, the tail and whether a
  hook wrote it.\<close>

type_synonym resolved = "str \<times> str option \<times> 64 word \<times> token_usage option \<times> json option \<times> message list \<times> bool"

definition resolve_compaction ::
  "harness_env \<Rightarrow> compact_override option \<Rightarrow> preparation \<Rightarrow> str option \<Rightarrow> (harness_error, resolved) result" where
  "resolve_compaction ev override p custom_instructions =
     (case override of
        Some ov \<Rightarrow>
          if trim (ov_summary ov) = [] then Inl EmptyHookSummary
          else Inr (ov_summary ov, ov_first_kept ov, ov_tokens_before ov, ov_usage ov, ov_details ov, ov_retained_tail ov, True)
      | None \<Rightarrow>
          try_then (summarize_via_model ev p custom_instructions) (\<lambda>(summary, usage, details).
            Inr (summary, pr_first_kept_id p, pr_tokens_before p, usage, details, pr_retained_tail p, False)))"

text \<open>The ids of the rebuilt transcript: none for the summary, and for a tail of the harness those it had.\<close>

definition ids_after :: "'s harness \<Rightarrow> nat \<Rightarrow> message list \<Rightarrow> bool \<Rightarrow> str option list" where
  "ids_after h first_kept tail from_hook =
     None # (if from_hook then replicate (length tail) None
             else take (length tail) (drop first_kept (hn_ids h) @ replicate (length tail) None))"

definition rebuild ::
  "harness_env \<Rightarrow> compaction_reason \<Rightarrow> bool \<Rightarrow> cut_point \<Rightarrow> preparation \<Rightarrow> resolved \<Rightarrow> int \<Rightarrow> 's harness
    \<Rightarrow> (harness_error, compaction_result) result \<times> 's harness" where
  "rebuild ev reason will_retry cp p resolved boundary h =
     (case resolved of (summary, first_kept, tokens_before, usage, details, tail, from_hook) \<Rightarrow>
        let h1 = h\<lparr>hn_messages := compaction_summary_message summary boundary # tail,
              hn_ids := ids_after h (cp_first_kept cp) tail from_hook, hn_boundary := Some boundary\<rparr>;
            r = \<lparr>co_summary = summary, co_first_kept = first_kept, co_tokens_before = tokens_before,
              co_tokens_after = estimate_current_tokens ev h1, co_usage = usage, co_details = details,
              co_retained_tail = tail, co_split = pr_split p\<rparr> in
        (Inr r, emit_event (CompactionEnded reason (Some r) False will_retry None)
           (emit_event (HookRan ''session_after_compact'') h1\<lparr>hn_phase := PhaseIdle\<rparr>)))"

definition compact_prepared ::
  "'s backend \<Rightarrow> harness_env \<Rightarrow> str \<Rightarrow> int \<Rightarrow> str option \<Rightarrow> compaction_reason \<Rightarrow> bool \<Rightarrow> entry list \<Rightarrow> cut_point \<Rightarrow> preparation
    \<Rightarrow> 's harness \<Rightarrow> (harness_error, compaction_result) result \<times> 's harness" where
  "compact_prepared bk ev new_id now custom_instructions reason will_retry path cp p h =
     (let h1 = emit_event (HookRan ''session_before_compact'') (emit_event (CompactionStarted reason) h\<lparr>hn_phase := PhaseCompaction\<rparr>);
          (cancel, override) = ev_hook ev p path custom_instructions in
      if cancel then compaction_failed reason will_retry CompactionCancelled h1
      else case resolve_compaction ev override p custom_instructions of
        Inl e \<Rightarrow> compaction_failed reason will_retry e h1
      | Inr (summary, first_kept, tokens_before, usage, details, tail, from_hook) \<Rightarrow>
          (case append_compaction bk new_id now summary first_kept (unat tokens_before) usage (details, from_hook) (Some tail)
              (hn_session h1) of
             (Inl e, s) \<Rightarrow> compaction_failed reason will_retry (SessionFailed e) (h1\<lparr>hn_session := s\<rparr>)
           | (Inr (_, boundary), s) \<Rightarrow>
               rebuild ev reason will_retry cp p (summary, first_kept, tokens_before, usage, details, tail, from_hook)
                 boundary (h1\<lparr>hn_session := s\<rparr>)))"

definition compact_internal ::
  "'s backend \<Rightarrow> harness_env \<Rightarrow> str \<Rightarrow> int \<Rightarrow> str option \<Rightarrow> compaction_reason \<Rightarrow> bool
    \<Rightarrow> 's harness \<Rightarrow> (harness_error, compaction_result) result \<times> 's harness" where
  "compact_internal bk ev new_id now custom_instructions reason will_retry h =
     (if hn_shutdown h then (Inl ShutDown, h)
      else if hn_phase h \<noteq> PhaseIdle then (Inl (NotIdle (hn_phase h)), h)
      else if hn_messages h = [] then (Inl EmptyTranscript, h)
      else case get_branch bk (hn_session h) of
        Inl e \<Rightarrow> (Inl (SessionFailed e), h)
      | Inr path \<Rightarrow>
          let ms = hn_messages h; cs = hn_settings h;
              tokens_before = ce_tokens (estimate_context_tokens (ev_json ev) ms);
              cp = find_cut_point_split (ev_json ev) ms (cs_keep_recent_tokens cs);
              first_kept_id = (if cp_first_kept cp < length (hn_ids h) then hn_ids h ! cp_first_kept cp else None) in
          case build_preparation path ms cp first_kept_id tokens_before cs of
            None \<Rightarrow> (Inl NothingToCompact, h)
          | Some p \<Rightarrow> compact_prepared bk ev new_id now custom_instructions reason will_retry path cp p h)"

definition compact ::
  "'s backend \<Rightarrow> harness_env \<Rightarrow> str \<Rightarrow> int \<Rightarrow> str option \<Rightarrow> 's harness \<Rightarrow> (harness_error, compaction_result) result \<times> 's harness" where
  "compact bk ev new_id now custom_instructions = compact_internal bk ev new_id now custom_instructions ManualCompaction False"

section \<open>Restore\<close>

definition prune_unmounted :: "str set \<Rightarrow> str list \<Rightarrow> str list" where
  "prune_unmounted mounted names = filter (\<lambda>n. n \<in> mounted) names"

definition recover_boundary :: "'s backend \<Rightarrow> 's harness \<Rightarrow> (harness_error, unit) result \<times> 's harness" where
  "recover_boundary bk h =
     (case latest_compaction_timestamp bk (hn_session h) of
        Inl e \<Rightarrow> (Inl (SessionFailed e), h)
      | Inr boundary \<Rightarrow> (Inr (), h\<lparr>hn_boundary := boundary\<rparr>))"

definition restored :: "harness_env \<Rightarrow> session_context \<Rightarrow> 's harness \<Rightarrow> 's harness" where
  "restored ev c h =
     (let names = (case sg_tools (cx_settings c) of Some names \<Rightarrow> Some names | None \<Rightarrow> ev_default_tools ev) in
      h\<lparr>hn_messages := cx_messages c, hn_thinking := sg_thinking (cx_settings c),
        hn_tools := map_option (prune_unmounted (ev_mounted ev)) names,
        hn_model := (case Option.bind (sg_model (cx_settings c)) (ev_resolve_model ev) of Some m \<Rightarrow> m | None \<Rightarrow> hn_model h),
        hn_ids := cx_entry_ids c, hn_turn_ids := []\<rparr>)"

definition restore :: "'s backend \<Rightarrow> harness_env \<Rightarrow> 's harness \<Rightarrow> (harness_error, unit) result \<times> 's harness" where
  "restore bk ev h =
     (case build_session_context bk (hn_session h) of
        Inl e \<Rightarrow> (Inl (SessionFailed e), h)
      | Inr c \<Rightarrow> recover_boundary bk (restored ev c h))"

end
