(* ===== verification/Harness_Restart.thy ===== *)
theory Harness_Restart
  imports Harness_Compact
begin

text \<open>
  Compaction, the session and a restart together: a compaction that succeeds leaves what a restart rebuilds, and
  nothing more to compact; one that fails leaves the transcript alone.
\<close>

section \<open>What a successful compaction did\<close>

lemma emit_event_fields [simp]:
  "hn_session (emit_event e h) = hn_session h" "hn_phase (emit_event e h) = hn_phase h" "hn_messages (emit_event e h) = hn_messages h"
  "hn_ids (emit_event e h) = hn_ids h" "hn_boundary (emit_event e h) = hn_boundary h" "hn_settings (emit_event e h) = hn_settings h"
  "hn_shutdown (emit_event e h) = hn_shutdown h" "hn_model (emit_event e h) = hn_model h" "hn_cancelled (emit_event e h) = hn_cancelled h"
  "hn_overflow_tried (emit_event e h) = hn_overflow_tried h" "hn_turn_ids (emit_event e h) = hn_turn_ids h"
  "hn_retry_attempt (emit_event e h) = hn_retry_attempt h"
  by (simp_all add: emit_event_def)

text \<open>The part of the harness a compaction may not touch.\<close>

definition same_setup :: "'s harness \<Rightarrow> 's harness \<Rightarrow> bool" where
  "same_setup h h' \<longleftrightarrow> hn_settings h' = hn_settings h \<and> hn_shutdown h' = hn_shutdown h \<and> hn_model h' = hn_model h
     \<and> hn_overflow_tried h' = hn_overflow_tried h \<and> hn_turn_ids h' = hn_turn_ids h \<and> hn_retry_attempt h' = hn_retry_attempt h"

definition harness_cut :: "harness_env \<Rightarrow> 's harness \<Rightarrow> cut_point" where
  "harness_cut ev h = find_cut_point_split (ev_json ev) (hn_messages h) (cs_keep_recent_tokens (hn_settings h))"

definition harness_first_kept :: "harness_env \<Rightarrow> 's harness \<Rightarrow> str option" where
  "harness_first_kept ev h =
     (let f = cp_first_kept (harness_cut ev h) in if f < length (hn_ids h) then hn_ids h ! f else None)"

definition harness_prepares :: "harness_env \<Rightarrow> entry list \<Rightarrow> 's harness \<Rightarrow> preparation option" where
  "harness_prepares ev path h =
     build_preparation path (hn_messages h) (harness_cut ev h) (harness_first_kept ev h)
       (ce_tokens (estimate_context_tokens (ev_json ev) (hn_messages h))) (hn_settings h)"

lemma compact_internal_eq:
  "compact_internal bk ev new_id now ci reason will_retry h =
     (if hn_shutdown h then (Inl ShutDown, h)
      else if hn_phase h \<noteq> PhaseIdle then (Inl (NotIdle (hn_phase h)), h)
      else if hn_messages h = [] then (Inl EmptyTranscript, h)
      else case get_branch bk (hn_session h) of
        Inl e \<Rightarrow> (Inl (SessionFailed e), h)
      | Inr path \<Rightarrow> (case harness_prepares ev path h of
            None \<Rightarrow> (Inl NothingToCompact, h)
          | Some p \<Rightarrow> compact_prepared bk ev new_id now ci reason will_retry path (harness_cut ev h) p h))"
  unfolding compact_internal_def harness_prepares_def harness_cut_def harness_first_kept_def Let_def by (rule refl)

lemma resolve_Inr:
  assumes "resolve_compaction ev override p ci = Inr (summary, first_kept, tokens, usage, details, tail, from_hook)"
  shows "(from_hook \<longleftrightarrow> override \<noteq> None) \<and> (\<not> from_hook \<longrightarrow> tail = pr_retained_tail p)"
  using assms by (auto simp: resolve_compaction_def try_then_Inr_iff split: option.splits if_splits)

lemma append_compaction_time:
  "append_compaction bk new_id now summary f n u a tail s = (Inr (i, boundary), s') \<Longrightarrow> boundary = now"
  by (auto simp: append_compaction_def split: prod.splits sum.splits)

lemma rebuild_Inr:
  assumes "rebuild ev reason will_retry cp p (summary, first_kept, tokens, usage, details, tail, from_hook) now h = (Inr r, h')"
  shows "hn_session h' = hn_session h" "hn_messages h' = compaction_summary_message summary now # tail"
    "hn_ids h' = ids_after h (cp_first_kept cp) tail from_hook" "hn_boundary h' = Some now" "hn_phase h' = PhaseIdle"
    "same_setup h h'" "co_summary r = summary" "co_retained_tail r = tail"
  using assms by (auto simp: rebuild_def Let_def same_setup_def)

lemma compact_prepared_Inr:
  assumes "compact_prepared bk ev new_id now ci reason will_retry path cp p h = (Inr r, h')"
  shows "\<exists>summary first_kept (tokens :: 64 word) usage details tail from_hook i.
    append_compaction bk new_id now summary first_kept (unat tokens) usage (details, from_hook) (Some tail) (hn_session h)
      = (Inr (i, now), hn_session h')
    \<and> hn_messages h' = compaction_summary_message summary now # tail
    \<and> hn_ids h' = ids_after h (cp_first_kept cp) tail from_hook
    \<and> hn_boundary h' = Some now \<and> hn_phase h' = PhaseIdle \<and> same_setup h h'
    \<and> (snd (ev_hook ev p path ci) = None \<longrightarrow> \<not> from_hook \<and> tail = pr_retained_tail p)
    \<and> co_summary r = summary \<and> co_retained_tail r = tail"
proof -
  obtain cancel override where hook: "ev_hook ev p path ci = (cancel, override)" by fastforce
  have c: "\<not> cancel" using assms hook by (auto simp: compact_prepared_def compaction_failed_def)
  show ?thesis
  proof (cases "resolve_compaction ev override p ci")
    case (Inl e)
    then show ?thesis using assms hook c by (simp add: compact_prepared_def compaction_failed_def)
  next
    case (Inr res)
    obtain summary first_kept tokens usage details tail from_hook
      where res: "res = (summary, first_kept, tokens, usage, details, tail, from_hook)" by (metis prod_cases7)
    obtain a s where ap: "append_compaction bk new_id now summary first_kept (unat tokens) usage (details, from_hook) (Some tail)
        (hn_session h) = (a, s)" by fastforce
    show ?thesis
    proof (cases a)
      case (Inl e)
      then show ?thesis using assms hook c Inr res ap by (simp add: compact_prepared_def compaction_failed_def)
    next
      case a: (Inr b)
      obtain i boundary where b: "b = (i, boundary)" by fastforce
      have now: "boundary = now" by (rule append_compaction_time [OF ap [unfolded a b]])
      have rb: "rebuild ev reason will_retry cp p res now
          ((emit_event (HookRan ''session_before_compact'') (emit_event (CompactionStarted reason) h\<lparr>hn_phase := PhaseCompaction\<rparr>))\<lparr>hn_session := s\<rparr>)
          = (Inr r, h')"
        using assms hook c Inr res ap a b now by (simp add: compact_prepared_def)
      let ?h1 = "(emit_event (HookRan ''session_before_compact'') (emit_event (CompactionStarted reason) h\<lparr>hn_phase := PhaseCompaction\<rparr>))\<lparr>hn_session := s\<rparr>"
      have h1: "hn_session ?h1 = s" "ids_after ?h1 = ids_after h" "same_setup ?h1 h' = same_setup h h'"
        by (simp_all add: ids_after_def fun_eq_iff same_setup_def)
      have hook': "snd (ev_hook ev p path ci) = None \<longrightarrow> \<not> from_hook \<and> tail = pr_retained_tail p"
        using resolve_Inr [OF Inr [unfolded res]] hook by auto
      have ap': "append_compaction bk new_id now summary first_kept (unat tokens) usage (details, from_hook) (Some tail)
          (hn_session h) = (Inr (i, now), s)" using ap a b now by simp
      note rb' = rebuild_Inr [OF rb [unfolded res], unfolded h1]
      have ap'': "append_compaction bk new_id now summary first_kept (unat tokens) usage (details, from_hook) (Some tail)
          (hn_session h) = (Inr (i, now), hn_session h')" using ap' rb'(1) by simp
      show ?thesis by (intro exI conjI, rule ap'', (rule rb' hook')+)
    qed
  qed
qed

lemma compact_Inr:
  assumes "compact_internal bk ev new_id now ci reason will_retry h = (Inr r, h')"
  obtains path p where "get_branch bk (hn_session h) = Inr path" "harness_prepares ev path h = Some p"
    "\<not> hn_shutdown h" "compact_prepared bk ev new_id now ci reason will_retry path (harness_cut ev h) p h = (Inr r, h')"
  using assms unfolding compact_internal_eq by (auto split: if_splits sum.splits option.splits)

section \<open>Over a session store\<close>

context session_store
begin

lemma compact_then_restore:
  assumes "inv (hn_session h)" "compact_internal bk ev new_id now ci reason will_retry h = (Inr r, h')"
  shows "\<exists>h''. restore bk ev h' = (Inr (), h'') \<and> inv (hn_session h') \<and> hn_session h'' = hn_session h'
    \<and> hn_messages h'' = hn_messages h' \<and> hn_boundary h'' = hn_boundary h'
    \<and> hn_messages h' = compaction_summary_message (co_summary r) now # co_retained_tail r \<and> hn_boundary h' = Some now"
proof -
  obtain path p where p: "get_branch bk (hn_session h) = Inr path"
    "compact_prepared bk ev new_id now ci reason will_retry path (harness_cut ev h) p h = (Inr r, h')"
    using compact_Inr [OF assms(2)] by metis
  obtain summary first_kept usage details tail from_hook i and tokens :: "64 word" where
    ap: "append_compaction bk new_id now summary first_kept (unat tokens) usage (details, from_hook) (Some tail) (hn_session h)
      = (Inr (i, now), hn_session h')"
    and ms: "hn_messages h' = compaction_summary_message summary now # tail" "hn_boundary h' = Some now"
    and r: "co_summary r = summary" "co_retained_tail r = tail"
    using compact_prepared_Inr [OF p(2)] by blast
  obtain c where c: "build_session_context bk (hn_session h') = Inr c" "inv (hn_session h')"
    "cx_messages c = compaction_summary_message summary now # tail"
    using compaction_context [OF assms(1) p(1) ap] by auto
  let ?b = "Compaction summary first_kept (unat tokens) (Some tail) usage details (Some from_hook)"
  have "append_body bk False new_id now ?b (hn_session h) = (Inr i, hn_session h')"
    using ap by (auto simp: append_compaction_def split: prod.splits sum.splits)
  then obtain parent where b: "get_branch bk (hn_session h') = Inr (path @ [Entry new_id parent now ?b])"
    using branch_grows [OF assms(1) p(1), of False new_id now ?b] by (auto simp: moves_leaf_def)
  have "build_context_entries (path @ [Entry new_id parent now ?b]) = [Entry new_id parent now ?b]"
    using build_context_boundary [of "Entry new_id parent now ?b" summary first_kept "unat tokens" "Some tail" usage details
        "Some from_hook" "[]" path] by simp
  then have "latest_compaction_timestamp bk (hn_session h') = Inr (Some now)"
    using b by (simp add: latest_compaction_timestamp_def context_entries_def is_compaction_def)
  then show ?thesis
    using c ms r by (intro exI [of _ "(restored ev c h')\<lparr>hn_boundary := Some now\<rparr>"])
      (simp add: restore_def recover_boundary_def restored_def Let_def)
qed

lemma compact_twice:
  assumes "inv (hn_session h)" "compact_internal bk ev new_id now ci reason will_retry h = (Inr r, h')"
    and "\<forall>p path. snd (ev_hook ev p path ci) = None"
  shows "compact_internal bk ev new_id2 now2 ci2 reason2 will_retry2 h' = (Inl NothingToCompact, h')"
proof -
  obtain path p where p: "get_branch bk (hn_session h) = Inr path" "harness_prepares ev path h = Some p" "\<not> hn_shutdown h"
    "compact_prepared bk ev new_id now ci reason will_retry path (harness_cut ev h) p h = (Inr r, h')"
    using compact_Inr [OF assms(2)] by metis
  obtain summary first_kept usage details tail from_hook i and tokens :: "64 word" where
    ap: "append_compaction bk new_id now summary first_kept (unat tokens) usage (details, from_hook) (Some tail) (hn_session h)
      = (Inr (i, now), hn_session h')"
    and ms: "hn_messages h' = compaction_summary_message summary now # tail" "hn_phase h' = PhaseIdle" "same_setup h h'"
    and hook: "snd (ev_hook ev p path ci) = None \<longrightarrow> \<not> from_hook \<and> tail = pr_retained_tail p"
    using compact_prepared_Inr [OF p(4)] by (elim exE conjE) (rule that)
  let ?b = "Compaction summary first_kept (unat tokens) (Some tail) usage details (Some from_hook)"
  have "append_body bk False new_id now ?b (hn_session h) = (Inr i, hn_session h')"
    using ap by (auto simp: append_compaction_def split: prod.splits sum.splits)
  then obtain parent where b: "get_branch bk (hn_session h') = Inr (path @ [Entry new_id parent now ?b])"
    using branch_grows [OF assms(1) p(1), of False new_id now ?b] by (auto simp: moves_leaf_def)
  have s1: "summarized_before (path @ [Entry new_id parent now ?b]) = 1"
    by (simp add: summarized_before_def find_map_def summary_of_def)
  let ?keep = "cs_keep_recent_tokens (hn_settings h)"
  have ok: "cut_ok (ev_json ev) (hn_messages h) ?keep (length (hn_messages h) - length (pr_retained_tail p))"
    and sp: "\<exists>xs. hn_messages h = xs @ pr_retained_tail p"
    using preparation_splits [OF p(2) [unfolded harness_prepares_def harness_cut_def]] by (blast, metis append_assoc)
  then have "tail = drop (length (hn_messages h) - length (pr_retained_tail p)) (hn_messages h)"
    using hook assms(3) by auto
  then have "harness_prepares ev (path @ [Entry new_id parent now ?b]) h' = None"
    unfolding harness_prepares_def harness_cut_def
    using nothing_left_to_compact [OF ok s1] ms(1,3) by (simp add: same_setup_def)
  then show ?thesis
    using b ms p(3) by (simp add: compact_internal_eq same_setup_def)
qed

end

section \<open>A harness that compacts\<close>

definition demo_assistant :: "stop_reason \<Rightarrow> str \<Rightarrow> str option \<Rightarrow> token_usage \<Rightarrow> int \<Rightarrow> message" where
  "demo_assistant stop t err u now = AssistantMsg (Assistant [TextBlock t None] ''m'' ''p'' [] None None None (Some stop) None u err now)"

definition demo_env :: harness_env where
  "demo_env = \<lparr>ev_json = (\<lambda>_. []), ev_ask = (\<lambda>_ _. Inr (demo_assistant StopTurn ''sum'' None no_usage 0)),
     ev_hook = (\<lambda>_ _ _. (False, None)), ev_add_cost = (\<lambda>a _. a), ev_resolve_model = (\<lambda>_. None), ev_default_tools = None,
     ev_mounted = {}\<rparr>"

definition demo_storage :: "storage \<times> disk_file" where
  "demo_storage =
     (fresh_storage demo_head False (length (session_header_line demo_wire demo_head)), Some (file_of demo_wire demo_head []))"

definition demo_model :: model where
  "demo_model =
     \<lparr>md_provider = ''p'', md_api = [], md_id = ''m'', md_window = 100, md_max_tokens = 50, md_thinking = NoThinking, md_metadata = []\<rparr>"

definition demo_harness :: "message list \<Rightarrow> (storage \<times> disk_file) harness" where
  "demo_harness ms =
     \<lparr>hn_session = demo_storage, hn_shutdown = False, hn_cancelled = False, hn_phase = PhaseIdle, hn_messages = ms,
       hn_ids = [], hn_boundary = None,
       hn_settings = \<lparr>cs_enabled = True, cs_reserve_tokens = 0, cs_keep_recent_tokens = 0\<rparr>,
       hn_model = demo_model, hn_thinking = None, hn_tools = None,
       hn_overflow_tried = False, hn_retry_attempt = 0, hn_turn_ids = [], hn_events = []\<rparr>"

lemma demo_storage_sole: "sole demo_wire demo_storage"
  unfolding demo_storage_def by (rule demo_sole)

lemma demo_storage_branch: "bk_leaf (jsonl demo_wire) demo_storage = Inr None" "get_branch (jsonl demo_wire) demo_storage = Inr []"
proof -
  show l: "bk_leaf (jsonl demo_wire) demo_storage = Inr None"
    by (simp add: jsonl_def get_leaf_id_def fresh_storage_def demo_storage_def)
  show "get_branch (jsonl demo_wire) demo_storage = Inr []"
    using l by (simp add: get_branch_def) (simp add: jsonl_def get_path_def demo_storage_def)
qed

lemma demo_prepares:
  "\<exists>p. harness_prepares demo_env [] (demo_harness demo_messages) = Some p \<and> \<not> pr_split p \<and> pr_file_ops p = no_files"
proof -
  have m: "demo_messages = [demo_messages ! 0, demo_messages ! 1]" "is_user (demo_messages ! 1)"
    "extract_file_ops_from_message (demo_messages ! 0) no_files = no_files"
    by (simp_all add: demo_messages_def user_message_def extract_file_ops_from_message_def)
  have cut: "harness_cut demo_env (demo_harness demo_messages) = \<lparr>cp_first_kept = 1, cp_turn_start = None, cp_split = False\<rparr>"
    using demo_cut [of "ev_json demo_env"] m(2) by (simp add: harness_cut_def demo_harness_def find_cut_point_split_def Let_def)
  have "sub_slice 0 1 demo_messages = [demo_messages ! 0]" by (simp add: sub_slice_def demo_messages_def)
  then show ?thesis
    using m(3) by (simp add: harness_prepares_def cut build_preparation_def Let_def find_map_def
        extract_file_operations_def) (simp add: demo_harness_def)
qed

lemma demo_trim: "trim ''sum'' \<noteq> []"
  by code_simp

lemma demo_resolves:
  assumes "\<not> pr_split p" "pr_file_ops p = no_files"
  shows "\<exists>res. resolve_compaction demo_env None p ci = Inr res"
proof -
  have "summarize_prompt demo_env k t = Inr (''sum'', Some no_usage)" for k t
    using demo_trim by (simp add: summarize_prompt_def demo_env_def demo_assistant_def extract_summary_def find_map_def block_text_def
        stop_of_def try_then_def)
  then show ?thesis
    using assms by (simp add: resolve_compaction_def summarize_via_model_def try_then_def case_prod_beta Let_def) blast
qed

lemma demo_compacts:
  "\<exists>r h'. compact_internal (jsonl demo_wire) demo_env ''c'' 5 None ManualCompaction False (demo_harness demo_messages) = (Inr r, h')"
proof -
  let ?h = "demo_harness demo_messages"
  obtain p where p: "harness_prepares demo_env [] ?h = Some p" "\<not> pr_split p" "pr_file_ops p = no_files"
    using demo_prepares by blast
  obtain summary first_kept tokens usage details tail from_hook where
    r: "resolve_compaction demo_env None p None = Inr (summary, first_kept, tokens, usage, details, tail, from_hook)"
    using demo_resolves [OF p(2,3)] by (metis prod_cases7)
  let ?b = "Compaction summary first_kept (unat tokens) (Some tail) usage details (Some from_hook)"
  obtain s' where "bk_append (jsonl demo_wire) False (Entry ''c'' None 5 ?b) demo_storage = (Inr (), s')"
    using demo_first_append [of "Entry ''c'' None 5 ?b" False] by (auto simp: demo_storage_def)
  then have a: "append_compaction (jsonl demo_wire) ''c'' 5 summary first_kept (unat tokens) usage (details, from_hook) (Some tail)
      demo_storage = (Inr (''c'', 5), s')"
    using demo_storage_branch(1) by (simp add: append_compaction_def append_body_def)
  have h: "hn_session ?h = demo_storage" "\<not> hn_shutdown ?h" "hn_phase ?h = PhaseIdle" "hn_messages ?h \<noteq> []"
    by (simp_all add: demo_harness_def demo_messages_def)
  have hook: "ev_hook demo_env p [] None = (False, None)" by (simp add: demo_env_def)
  have "\<exists>r h'. compact_prepared (jsonl demo_wire) demo_env ''c'' 5 None ManualCompaction False [] (harness_cut demo_env ?h) p ?h = (Inr r, h')"
    by (simp add: compact_prepared_def hook r a h(1) rebuild_def Let_def)
  then show ?thesis
    unfolding compact_internal_eq h(1) demo_storage_branch(2) using h(2-4) p(1) by simp
qed

section \<open>Over the JSONL storage\<close>





section \<open>Failures\<close>

lemma append_compaction_sole:
  assumes "sole w (st, f)" "append_compaction (jsonl w) new_id now summary fk n u a tail (st, f) = (Inl e, s')"
  shows "s' = (st, f)"
proof -
  let ?b = "Compaction summary fk n tail u (fst a) (Some (snd a))"
  have *: "append_body (jsonl w) False new_id now ?b (st, f) = (Inl e, s')"
    using assms(2) by (auto simp: append_compaction_def split: prod.splits sum.splits)
  show ?thesis
  proof (cases "get_leaf_id st")
    case (Inl err)
    then show ?thesis using * by (simp add: append_body_def jsonl_def)
  next
    case (Inr parent)
    obtain r st' f' where l: "append_entry_locked w False (Entry new_id parent now ?b) st f = (r, st', f')"
      by (metis prod_cases3)
    then show ?thesis using append_sole [OF assms(1) l] * Inr by (auto simp: append_body_def jsonl_def split: sum.splits)
  qed
qed



text \<open>A split turn without history of its own is persisted as one without prior history, whatever the previous summary.\<close>

lemma split_turn_drops_previous_summary:
  assumes "pr_split p" "pr_to_summarize p = []" "summarize_via_model ev p ci = Inr (summary, usage, details)"
  shows "\<exists>rest. summary = ''No prior history.'' @ rest"
proof -
  obtain r m where "compute_file_lists (pr_file_ops p) = (r, m)" by fastforce
  then show ?thesis using assms by (auto simp: summarize_via_model_def try_then_Inr_iff Let_def)
qed

end
