(* ===== verification/Provider_Retry.thy ===== *)
theory Provider_Retry
  imports Agent_Message
begin

text \<open>
  Failures of a provider: which are a context overflow (\<^verbatim>\<open>core/provider/overflow.rs\<close>), which are worth another
  attempt, and the loop that sends a request (\<^verbatim>\<open>core/provider/retry.rs\<close>). The regular expressions are matched by a
  third-party crate and are parameters; so are the answers to the requests, the jitter of the backoff and the
  cancellations.
\<close>

section \<open>Context overflow\<close>

record patterns =
  pt_excluded :: "str \<Rightarrow> bool"
  pt_overflow :: "str \<Rightarrow> bool"
  pt_non_retryable :: "str \<Rightarrow> bool"
  pt_retryable :: "str \<Rightarrow> bool"

datatype provider_error =
    Overflow str
  | Http nat str
  | MidStream str
  | SseFrame str
  | JsonError str
  | Transport str
  | RequestAborted

definition classify :: "patterns \<Rightarrow> nat option \<Rightarrow> str \<Rightarrow> bool" where
  "classify pt status body =
     (if pt_excluded pt body then False else if status = Some 413 then True else pt_overflow pt body)"

definition terminal :: "patterns \<Rightarrow> nat \<Rightarrow> str \<Rightarrow> provider_error" where
  "terminal pt status body =
     (if classify pt (Some status) body then Overflow (''http '' @ show_nat status @ '': '' @ body) else Http status body)"

definition mid_stream :: "patterns \<Rightarrow> str \<Rightarrow> provider_error" where
  "mid_stream pt msg = (if classify pt None msg then Overflow msg else MidStream msg)"

definition is_context_overflow :: "patterns \<Rightarrow> message \<Rightarrow> 64 word \<Rightarrow> bool" where
  "is_context_overflow pt m window =
     (case m of
        AssistantMsg a \<Rightarrow>
          if as_stop a = Some StopError \<and> (case as_error a of Some e \<Rightarrow> classify pt None e | None \<Rightarrow> False) then True
          else if window > 0
          then let input = us_input (as_usage a) + us_cache_read (as_usage a) in
            as_stop a = Some StopTurn \<and> input > window
            \<or> as_stop a = Some StopLength \<and> us_output (as_usage a) = 0 \<and> input \<ge> window * 99 div 100
          else False
      | _ \<Rightarrow> False)"

section \<open>Retryable failures\<close>

definition is_retryable_status :: "nat \<Rightarrow> bool" where
  "is_retryable_status status \<longleftrightarrow> status \<in> {408, 429, 500, 502, 503, 504, 520, 521, 522, 523, 524, 529}"

definition is_retryable_assistant_error :: "patterns \<Rightarrow> message \<Rightarrow> bool" where
  "is_retryable_assistant_error pt m =
     (case m of
        AssistantMsg a \<Rightarrow>
          if as_stop a \<noteq> Some StopError then False
          else (case as_error a of
              None \<Rightarrow> False
            | Some e \<Rightarrow> if pt_non_retryable pt e then False else pt_retryable pt e)
      | _ \<Rightarrow> False)"

section \<open>The send loop\<close>

definition MAX_ATTEMPTS :: nat where "MAX_ATTEMPTS = 6"
definition MAX_DELAY_MS :: nat where "MAX_DELAY_MS = 30000"
definition MAX_RETRY_AFTER_MS :: nat where "MAX_RETRY_AFTER_MS = 60000"

text \<open>One answer: a response with its status, body and the headers \<^verbatim>\<open>retry-after-ms\<close> and \<^verbatim>\<open>Retry-After\<close>, or a send
  error with its chain and whether it is of the transport class.\<close>

datatype answer =
    Response nat str "str option" "str option"
  | SendError bool str

definition is_success :: "nat \<Rightarrow> bool" where
  "is_success status \<longleftrightarrow> 200 \<le> status \<and> status < 300"

definition parse_retry_after :: "str option \<Rightarrow> str option \<Rightarrow> nat option" where
  "parse_retry_after after_ms after =
     (case Option.bind after_ms (\<lambda>s. parse_unsigned (trim s)) of
        Some ms \<Rightarrow> Some ms
      | None \<Rightarrow> Option.bind after (\<lambda>s. map_option (\<lambda>secs. 1000 * secs) (parse_unsigned (trim s))))"

text \<open>The backoff in milliseconds: \<open>jitter\<close> is the factor in thousandths, between 800 and 1200, read off the clock.\<close>

definition backoff :: "(nat \<Rightarrow> nat) \<Rightarrow> nat \<Rightarrow> nat" where
  "backoff jitter attempt = min (max (1000 * 2 ^ (attempt - 1) * jitter attempt div 1000) 50) MAX_DELAY_MS"

definition retry_delay :: "(nat \<Rightarrow> nat) \<Rightarrow> nat \<Rightarrow> nat option \<Rightarrow> nat" where
  "retry_delay jitter attempt retry_after =
     (let bo = backoff jitter attempt; raw = (case retry_after of None \<Rightarrow> bo | Some ra \<Rightarrow> max bo ra) in
      min raw MAX_RETRY_AFTER_MS)"

record send_env =
  se_answer :: "nat \<Rightarrow> answer"
  se_cancelled_send :: "nat \<Rightarrow> bool"
  se_cancelled_sleep :: "nat \<Rightarrow> bool"
  se_jitter :: "nat \<Rightarrow> nat"

text \<open>What one answer means: the end, or another attempt after a delay.\<close>

datatype verdict = Finished "(provider_error, str) result" | RetryAfter nat

definition judge_answer :: "patterns \<Rightarrow> (nat \<Rightarrow> nat) \<Rightarrow> nat \<Rightarrow> answer \<Rightarrow> verdict" where
  "judge_answer pt jitter attempt a =
     (case a of
        Response status body after_ms after \<Rightarrow>
          if is_success status then Finished (Inr body)
          else if \<not> is_retryable_status status \<or> attempt \<ge> MAX_ATTEMPTS then Finished (Inl (terminal pt status body))
          else RetryAfter (retry_delay jitter attempt (parse_retry_after after_ms after))
      | SendError retryable chain \<Rightarrow>
          if \<not> retryable \<or> attempt \<ge> MAX_ATTEMPTS then Finished (Inl (Transport chain))
          else RetryAfter (backoff jitter attempt))"

text \<open>The result, the number of the last attempt and the delays slept.\<close>

type_synonym sent = "(provider_error, str) result \<times> nat \<times> nat list"

function send_from :: "patterns \<Rightarrow> send_env \<Rightarrow> nat \<Rightarrow> nat list \<Rightarrow> sent" where
  "send_from pt ev previous slept =
     (let attempt = previous + 1 in
      if se_cancelled_send ev attempt then (Inl RequestAborted, attempt, slept)
      else case judge_answer pt (se_jitter ev) attempt (se_answer ev attempt) of
        Finished r \<Rightarrow> (r, attempt, slept)
      | RetryAfter delay \<Rightarrow>
          if se_cancelled_sleep ev attempt then (Inl RequestAborted, attempt, slept)
          else send_from pt ev attempt (slept @ [delay]))"
  by pat_completeness auto
termination
  by (relation "measure (\<lambda>(pt, ev, previous, slept). MAX_ATTEMPTS - previous)")
    (auto simp: judge_answer_def split: answer.splits if_splits)

declare send_from.simps [simp del]

definition send_with_retry :: "patterns \<Rightarrow> send_env \<Rightarrow> sent" where
  "send_with_retry pt ev = send_from pt ev 0 []"

section \<open>Bounds\<close>

lemma backoff_bounds: "50 \<le> backoff jitter attempt" "backoff jitter attempt \<le> MAX_DELAY_MS"
  by (simp_all add: backoff_def MAX_DELAY_MS_def)

lemma retry_delay_bounds:
  "backoff jitter attempt \<le> retry_delay jitter attempt ra" "retry_delay jitter attempt ra \<le> MAX_RETRY_AFTER_MS"
  using backoff_bounds [of jitter attempt]
  by (auto simp: retry_delay_def Let_def MAX_DELAY_MS_def MAX_RETRY_AFTER_MS_def split: option.splits)

definition delay_ok :: "nat \<Rightarrow> bool" where
  "delay_ok d \<longleftrightarrow> 50 \<le> d \<and> d \<le> MAX_RETRY_AFTER_MS"

lemma judge_retry:
  assumes "judge_answer pt jitter attempt a = RetryAfter d"
  shows "attempt < MAX_ATTEMPTS \<and> delay_ok d"
  using assms backoff_bounds [of jitter attempt] retry_delay_bounds [of jitter attempt]
  by (auto simp: judge_answer_def delay_ok_def MAX_RETRY_AFTER_MS_def MAX_DELAY_MS_def split: answer.splits if_splits
      intro: order_trans)

text \<open>The first attempt that ends the loop.\<close>

definition ends_at :: "patterns \<Rightarrow> send_env \<Rightarrow> nat \<Rightarrow> bool" where
  "ends_at pt ev k \<longleftrightarrow> se_cancelled_send ev k \<or> se_cancelled_sleep ev k
     \<or> (case judge_answer pt (se_jitter ev) k (se_answer ev k) of Finished _ \<Rightarrow> True | RetryAfter _ \<Rightarrow> False)"

definition ending :: "patterns \<Rightarrow> send_env \<Rightarrow> nat \<Rightarrow> (provider_error, str) result" where
  "ending pt ev k =
     (if se_cancelled_send ev k then Inl RequestAborted
      else case judge_answer pt (se_jitter ev) k (se_answer ev k) of Finished r \<Rightarrow> r | RetryAfter _ \<Rightarrow> Inl RequestAborted)"

lemma send_from_spec:
  assumes "send_from pt ev previous slept = (r, k, delays)" "previous < MAX_ATTEMPTS"
  shows "\<exists>ds. previous < k \<and> k \<le> MAX_ATTEMPTS \<and> ends_at pt ev k \<and> r = ending pt ev k \<and> delays = slept @ ds
    \<and> length ds = k - Suc previous \<and> list_all delay_ok ds \<and> (\<forall>j. previous < j \<and> j < k \<longrightarrow> \<not> ends_at pt ev j)"
  using assms
proof (induction pt ev previous slept rule: send_from.induct)
  case (1 pt ev previous slept)
  let ?k = "previous + 1"
  show ?case
  proof (cases "ends_at pt ev ?k")
    case True
    then show ?thesis
      using 1(2,3) by (subst (asm) send_from.simps) (auto simp: Let_def ends_at_def ending_def split: if_splits verdict.splits)
  next
    case False
    then obtain d where d: "judge_answer pt (se_jitter ev) ?k (se_answer ev ?k) = RetryAfter d"
      and n: "\<not> se_cancelled_send ev ?k" "\<not> se_cancelled_sleep ev ?k"
      by (auto simp: ends_at_def split: verdict.splits)
    have e: "send_from pt ev ?k (slept @ [d]) = (r, k, delays)"
      using 1(2) d n by (subst (asm) send_from.simps) (simp add: Let_def)
    have j: "?k < MAX_ATTEMPTS" "delay_ok d" using judge_retry [OF d] by auto
    obtain ds where ds: "?k < k" "k \<le> MAX_ATTEMPTS" "ends_at pt ev k" "r = ending pt ev k" "delays = (slept @ [d]) @ ds"
      "length ds = k - Suc ?k" "list_all delay_ok ds" "\<forall>j. ?k < j \<and> j < k \<longrightarrow> \<not> ends_at pt ev j"
      using 1(1) [OF refl n(1) d n(2) e j(1)] by blast
    have "\<not> ends_at pt ev j" if "previous < j" "j < k" for j
      using that ds(8) False by (cases "j = ?k") auto
    then show ?thesis using ds j(2) by (intro exI [of _ "d # ds"]) auto
  qed
qed

text \<open>C32: Sending ends after at most six requests, at the first one that succeeds, fails for good or is cancelled, and
  with that one's outcome; between two requests it waits, at least fifty milliseconds and at most a minute.\<close>

theorem send_is_bounded:
  "case send_with_retry pt ev of (r, k, delays) \<Rightarrow>
     1 \<le> k \<and> k \<le> MAX_ATTEMPTS \<and> k = (LEAST j. 0 < j \<and> ends_at pt ev j) \<and> r = ending pt ev k
     \<and> length delays = k - 1 \<and> list_all delay_ok delays"
proof -
  obtain r k delays where s: "send_from pt ev 0 [] = (r, k, delays)" by (metis prod_cases3)
  have p: "0 < k" "k \<le> MAX_ATTEMPTS" "ends_at pt ev k" "r = ending pt ev k" "length delays = k - 1" "list_all delay_ok delays"
    "\<forall>j. 0 < j \<and> j < k \<longrightarrow> \<not> ends_at pt ev j"
    using send_from_spec [OF s] by (auto simp: MAX_ATTEMPTS_def)
  have "k \<le> j" if "0 < j \<and> ends_at pt ev j" for j using that p(7) by (meson not_le)
  moreover have "0 < k \<and> ends_at pt ev k" using p(1,3) by simp
  ultimately have "(LEAST j. 0 < j \<and> ends_at pt ev j) = k" by (rule Least_equality [rotated])
  note least = this [symmetric]
  show ?thesis unfolding send_with_retry_def s prod.case using p least by (simp only: Suc_le_eq One_nat_def simp_thms)
qed

end
