(* ===== verification/Harness_Recovery.thy ===== *)
theory Harness_Recovery
  imports Harness_Restart Provider_Retry
begin

text \<open>
  What the harness does after a run (\<^verbatim>\<open>core/harness.rs\<close>, \<^verbatim>\<open>settle_after_run\<close>): retries of transient failures, the
  recovery from a context overflow by compaction, compaction at the threshold, and the delivery of queued messages.
  The run of the agent is a parameter: a function of the session and the transcript that returns what it produced,
  or an error, and the new session, transcript and recorded ids. Entry ids and the clock are functions of a counter;
  the loops run on fuel.
\<close>

section \<open>The agent\<close>

type_synonym 's agent =
  "'s \<Rightarrow> message list \<Rightarrow> (harness_error, message list) result \<times> 's \<times> message list \<times> str option list"

record retry_settings =
  rt_enabled :: bool
  rt_max_retries :: nat
  rt_base_delay_ms :: "64 word"

record 's recovery_env =
  re_backend :: "'s backend"
  re_harness :: harness_env
  re_patterns :: patterns
  re_agent :: "'s agent"
  re_stamp :: "'s harness \<Rightarrow> str \<times> int"
  re_retry :: retry_settings
  re_sleeps :: "nat \<Rightarrow> bool"
  re_queued :: "'s harness \<Rightarrow> bool"
  re_next_turns :: "'s harness \<Rightarrow> nat"

definition continue_agent :: "'s recovery_env \<Rightarrow> 's harness \<Rightarrow> (harness_error, message list) result \<times> 's harness" where
  "continue_agent re h =
     (case re_agent re (hn_session h) (hn_messages h) of (r, s, ms, recorded) \<Rightarrow>
        (r, h\<lparr>hn_session := s, hn_messages := ms, hn_turn_ids := hn_turn_ids h @ recorded, hn_phase := PhaseIdle\<rparr>))"

definition succeeded :: "message \<Rightarrow> bool" where
  "succeeded m = (case m of AssistantMsg a \<Rightarrow> as_stop a \<noteq> Some StopError | _ \<Rightarrow> False)"

definition note_run_outcome :: "message list \<Rightarrow> 's harness \<Rightarrow> 's harness" where
  "note_run_outcome ms h =
     (if list_ex succeeded ms
      then let h1 = h\<lparr>hn_overflow_tried := False\<rparr> in
        if hn_retry_attempt h > 0
        then emit_event (RetryEnded TurnRetry True (hn_retry_attempt h) None) (h1\<lparr>hn_retry_attempt := 0\<rparr>)
        else h1
      else h)"

definition drain_turn_entry_ids :: "'s harness \<Rightarrow> 's harness" where
  "drain_turn_entry_ids h = h\<lparr>hn_ids := hn_ids h @ hn_turn_ids h, hn_turn_ids := []\<rparr>"

definition pop_last :: "'s harness \<Rightarrow> 's harness" where
  "pop_last h = h\<lparr>hn_messages := butlast (hn_messages h), hn_ids := butlast (hn_ids h)\<rparr>"

section \<open>Recovery from an overflow\<close>

definition overflow_will_retry :: "patterns \<Rightarrow> 's harness \<Rightarrow> bool option" where
  "overflow_will_retry pt h =
     (if hn_messages h = [] then None
      else case last (hn_messages h) of
        AssistantMsg a \<Rightarrow>
          if as_stop a = Some StopAborted then None
          else if as_provider a \<noteq> md_provider (hn_model h) \<or> as_model a \<noteq> md_id (hn_model h) then None
          else if (case hn_boundary h of Some at \<Rightarrow> as_time a \<le> at | None \<Rightarrow> False) then None
          else if is_context_overflow pt (AssistantMsg a) (md_window (hn_model h))
          then Some (as_stop a \<noteq> Some StopTurn) else None
      | _ \<Rightarrow> None)"

definition compact_now ::
  "'s recovery_env \<Rightarrow> compaction_reason \<Rightarrow> bool \<Rightarrow> 's harness \<Rightarrow> (harness_error, compaction_result) result \<times> 's harness" where
  "compact_now re reason will_retry h =
     compact_internal (re_backend re) (re_harness re) (fst (re_stamp re h)) (snd (re_stamp re h)) None reason will_retry h"

definition recover_overflow_once ::
  "'s recovery_env \<Rightarrow> 's harness \<Rightarrow> (harness_error, message list option) result \<times> 's harness" where
  "recover_overflow_once re h =
     (case overflow_will_retry (re_patterns re) h of
        None \<Rightarrow> (Inr None, h)
      | Some False \<Rightarrow>
          (case compact_now re OverflowCompaction False h of
             (Inr _, h') \<Rightarrow> (Inr None, h')
           | (Inl e, h') \<Rightarrow> if e = NothingToCompact then (Inr None, h') else (Inl e, h'))
      | Some True \<Rightarrow>
          if hn_overflow_tried h then (Inr None, h)
          else (case compact_now re OverflowCompaction True (pop_last (h\<lparr>hn_overflow_tried := True\<rparr>)) of
             (Inl e, h') \<Rightarrow> if e = NothingToCompact then (Inr None, h') else (Inl e, h')
           | (Inr _, h') \<Rightarrow>
               (case continue_agent re h' of
                  (Inl e, h'') \<Rightarrow> (Inl e, h'')
                | (Inr ms, h'') \<Rightarrow> (Inr (Some ms), h''))))"

fun run_overflow_recovery ::
  "nat \<Rightarrow> 's recovery_env \<Rightarrow> message list \<Rightarrow> 's harness \<Rightarrow> ((harness_error, message list) result \<times> 's harness) option" where
  "run_overflow_recovery 0 re produced h = None"
| "run_overflow_recovery (Suc fuel) re produced h =
     (case recover_overflow_once re h of
        (Inl e, h') \<Rightarrow> Some (Inl e, h')
      | (Inr None, h') \<Rightarrow> Some (Inr produced, h')
      | (Inr (Some ms), h') \<Rightarrow>
          run_overflow_recovery fuel re (produced @ ms) (drain_turn_entry_ids (note_run_outcome ms h')))"

section \<open>Threshold, retries, continuation\<close>

definition ends_aborted :: "'s harness \<Rightarrow> bool" where
  "ends_aborted h \<longleftrightarrow> hn_messages h \<noteq> [] \<and> stop_of (last (hn_messages h)) = Some StopAborted"

definition run_threshold_compaction :: "'s recovery_env \<Rightarrow> 's harness \<Rightarrow> 's harness" where
  "run_threshold_compaction re h =
     (if ends_aborted h then h
      else if \<not> needs_compaction (re_harness re) h then h
      else snd (compact_now re ThresholdCompaction False h))"

definition retry_candidate :: "'s recovery_env \<Rightarrow> 's harness \<Rightarrow> message option" where
  "retry_candidate re h =
     (if \<not> rt_enabled (re_retry re) \<or> hn_retry_attempt h \<ge> rt_max_retries (re_retry re) then None
      else if hn_messages h = [] then None
      else let m = last (hn_messages h) in
        if is_context_overflow (re_patterns re) m (md_window (hn_model h)) \<or> \<not> is_retryable_assistant_error (re_patterns re) m
        then None else Some m)"

definition error_text :: "message \<Rightarrow> str option" where
  "error_text m = (case m of AssistantMsg a \<Rightarrow> as_error a | _ \<Rightarrow> None)"

text \<open>The delay is \<^verbatim>\<open>base * 2^(attempt - 1)\<close> in 64 bits.\<close>

definition prepare_auto_retry :: "'s recovery_env \<Rightarrow> 's harness \<Rightarrow> bool \<times> 's harness" where
  "prepare_auto_retry re h =
     (case retry_candidate re h of
        None \<Rightarrow> (False, h)
      | Some m \<Rightarrow>
          let attempt = hn_retry_attempt h + 1;
              delay = rt_base_delay_ms (re_retry re) * 2 ^ (attempt - 1);
              h1 = pop_last (emit_event (RetryStarted TurnRetry attempt (rt_max_retries (re_retry re)) (unat delay)
                (case error_text m of Some e \<Rightarrow> e | None \<Rightarrow> ''Unknown error'')) (h\<lparr>hn_retry_attempt := attempt, hn_phase := PhaseIdle\<rparr>)) in
          if re_sleeps re attempt then (True, emit_event (RetryAttempt TurnRetry attempt) h1)
          else (False, emit_event (RetryEnded TurnRetry False attempt (Some ''Retry cancelled'')) (h1\<lparr>hn_retry_attempt := 0\<rparr>)))"

definition run_continuation_turn :: "'s recovery_env \<Rightarrow> 's harness \<Rightarrow> (harness_error, message list) result \<times> 's harness" where
  "run_continuation_turn re h =
     (case continue_agent re h of
        (Inl e, h') \<Rightarrow> (Inl e, h')
      | (Inr ms, h') \<Rightarrow> (Inr ms, drain_turn_entry_ids (note_run_outcome ms h')))"

definition close_retry :: "'s harness \<Rightarrow> 's harness" where
  "close_retry h =
     (if hn_retry_attempt h > 0 \<and> hn_messages h \<noteq> [] \<and> stop_of (last (hn_messages h)) = Some StopError
      then emit_event (RetryEnded TurnRetry False (hn_retry_attempt h) (error_text (last (hn_messages h)))) (h\<lparr>hn_retry_attempt := 0\<rparr>)
      else h)"

fun settle_after_run ::
  "nat \<Rightarrow> 's recovery_env \<Rightarrow> message list \<Rightarrow> 's harness \<Rightarrow> ((harness_error, message list) result \<times> 's harness) option" where
  "settle_after_run 0 re produced h = None"
| "settle_after_run (Suc fuel) re produced h =
     (case prepare_auto_retry re h of
        (True, h1) \<Rightarrow>
          (case run_continuation_turn re h1 of
             (Inl e, h2) \<Rightarrow> Some (Inl e, h2)
           | (Inr ms, h2) \<Rightarrow> settle_after_run fuel re (produced @ ms) h2)
      | (False, h1) \<Rightarrow>
          (case run_overflow_recovery (Suc fuel) re [] (close_retry h1) of
             None \<Rightarrow> None
           | Some (Inl e, h2) \<Rightarrow> Some (Inl e, h2)
           | Some (Inr recovered, h2) \<Rightarrow>
               let h3 = run_threshold_compaction re h2 in
               if \<not> re_queued re h3 then Some (Inr (produced @ recovered), emit_event (Settled (re_next_turns re h3)) h3)
               else (case run_continuation_turn re h3 of
                  (Inl e, h4) \<Rightarrow> Some (Inl e, h4)
                | (Inr ms, h4) \<Rightarrow> settle_after_run fuel re (produced @ recovered @ ms) h4)))"

section \<open>Termination\<close>

text \<open>An outage: no run produces an assistant message that is no error.\<close>

definition outage :: "'s agent \<Rightarrow> bool" where
  "outage ag \<longleftrightarrow> (\<forall>s ms. case ag s ms of (Inr out, _) \<Rightarrow> \<not> list_ex succeeded out | (Inl _, _) \<Rightarrow> True)"

lemma continue_outage:
  assumes "outage (re_agent re)" "continue_agent re h = (Inr ms, h')"
  shows "\<not> list_ex succeeded ms \<and> hn_retry_attempt h' = hn_retry_attempt h \<and> hn_overflow_tried h' = hn_overflow_tried h"
proof -
  obtain s ms' recorded where a: "re_agent re (hn_session h) (hn_messages h) = (Inr ms, s, ms', recorded)"
    using assms(2) by (auto simp: continue_agent_def split: prod.splits)
  have "\<not> list_ex succeeded ms" using assms(1) a unfolding outage_def by (metis (mono_tags, lifting) case_prod_conv sum.case(2))
  then show ?thesis using assms(2) a by (auto simp: continue_agent_def)
qed

lemma compact_keeps_flags:
  "compact_internal bk ev new_id now ci reason will_retry h = (r, h')
     \<Longrightarrow> hn_retry_attempt h' = hn_retry_attempt h \<and> hn_overflow_tried h' = hn_overflow_tried h"
  unfolding compact_internal_eq
  by (auto simp: compact_prepared_def compaction_failed_def emit_compaction_failure_def rebuild_def Let_def
      split: prod.splits sum.splits if_splits option.splits)

lemma recover_tried:
  assumes "hn_overflow_tried h"
  shows "\<exists>r h'. recover_overflow_once re h = (r, h') \<and> (r = Inr None \<or> (\<exists>e. r = Inl e))"
  using assms by (auto simp: recover_overflow_once_def split: option.splits bool.splits sum.splits prod.splits)

lemma recover_outage:
  assumes "outage (re_agent re)" "recover_overflow_once re h = (Inr (Some ms), h')"
  shows "hn_overflow_tried h' \<and> \<not> list_ex succeeded ms"
proof -
  obtain r h1 where c: "compact_now re OverflowCompaction True (pop_last (h\<lparr>hn_overflow_tried := True\<rparr>)) = (Inr r, h1)"
    "continue_agent re h1 = (Inr ms, h')"
    using assms(2) by (auto simp: recover_overflow_once_def split: option.splits bool.splits sum.splits prod.splits if_splits)
  have "hn_overflow_tried h1" using compact_keeps_flags c(1) unfolding compact_now_def by (fastforce simp: pop_last_def)
  then show ?thesis using continue_outage [OF assms(1) c(2)] by simp
qed

lemma overflow_recovery_ends:
  assumes "outage (re_agent re)"
  shows "run_overflow_recovery (Suc (Suc fuel)) re produced h \<noteq> None"
proof -
  obtain r h' where r: "recover_overflow_once re h = (r, h')" by fastforce
  show ?thesis
  proof (cases "\<exists>ms. r = Inr (Some ms)")
    case False
    then show ?thesis using r by (auto split: sum.splits option.splits)
  next
    case True
    then obtain ms where ms: "r = Inr (Some ms)" by blast
    have o: "hn_overflow_tried h'" "\<not> list_ex succeeded ms" using recover_outage [OF assms] r ms by auto
    then have "hn_overflow_tried (drain_turn_entry_ids (note_run_outcome ms h'))"
      by (simp add: note_run_outcome_def drain_turn_entry_ids_def)
    then show ?thesis
      using recover_tried [of "drain_turn_entry_ids (note_run_outcome ms h')" re] r ms by auto
  qed
qed

lemma prepare_auto_retry_attempts:
  assumes "prepare_auto_retry re h = (True, h')"
  shows "hn_retry_attempt h' = hn_retry_attempt h + 1 \<and> hn_retry_attempt h < rt_max_retries (re_retry re)"
  using assms
  by (auto simp: prepare_auto_retry_def retry_candidate_def Let_def pop_last_def split: option.splits if_splits)


definition demo_outage :: "storage \<times> disk_file \<Rightarrow> message list \<Rightarrow>
    (harness_error, message list) result \<times> (storage \<times> disk_file) \<times> message list \<times> str option list" where
  "demo_outage s ms =
     (let m = demo_assistant StopError [] (Some ''overloaded'') no_usage 9 in (Inr [m], s, ms @ [m], [Some ''e'']))"

definition demo_recovery :: "(storage \<times> disk_file) recovery_env" where
  "demo_recovery =
     \<lparr>re_backend = jsonl demo_wire, re_harness = demo_env,
       re_patterns = \<lparr>pt_excluded = (\<lambda>_. False), pt_overflow = (\<lambda>_. False), pt_non_retryable = (\<lambda>_. False), pt_retryable = (\<lambda>_. True)\<rparr>,
       re_agent = demo_outage, re_stamp = (\<lambda>_. (''c'', 5)),
       re_retry = \<lparr>rt_enabled = True, rt_max_retries = 2, rt_base_delay_ms = 1000\<rparr>, re_sleeps = (\<lambda>_. True), re_queued = (\<lambda>_. False), re_next_turns = (\<lambda>_. 0)\<rparr>"


text \<open>A reply cut off because the input filled the window is no error: it rearms the recovery it comes from, and the
  next round compacts and retries again.\<close>

lemma length_overflow_rearms:
  assumes "hn_messages h = ms @ [AssistantMsg a]" "as_stop a = Some StopLength"
    and "is_context_overflow pt (AssistantMsg a) (md_window (hn_model h))"
    and "as_provider a = md_provider (hn_model h)" "as_model a = md_id (hn_model h)"
    and "case hn_boundary h of Some at \<Rightarrow> at < as_time a | None \<Rightarrow> True"
  shows "\<not> hn_overflow_tried (note_run_outcome [AssistantMsg a] h)
    \<and> overflow_will_retry pt (note_run_outcome [AssistantMsg a] h) = Some True"
  using assms by (auto simp: note_run_outcome_def succeeded_def Let_def overflow_will_retry_def split: option.splits)

end
