(* ===== verification/Branch_Summary.thy ===== *)
theory Branch_Summary
  imports Compaction_Plan Provider_Retry
begin

text \<open>
  The summary of an abandoned branch (\<^verbatim>\<open>core/compaction/branch_summarization.rs\<close>): which messages fit the budget,
  the prompt, and the run. The model is a function of the prompt.
\<close>

section \<open>Preparation\<close>

definition get_message_from_entry :: "entry \<Rightarrow> message option" where
  "get_message_from_entry e =
     (case en_body e of
        Message m _ \<Rightarrow> (case m of ToolResultMsg _ \<Rightarrow> None | _ \<Rightarrow> Some m)
      | CustomMessage custom_type content details display \<Rightarrow> Some (CustomMsg custom_type content details display (en_time e))
      | BranchSummary _ summary _ _ _ \<Rightarrow> Some (branch_summary_message summary (en_time e))
      | Compaction summary _ _ _ _ _ _ \<Rightarrow> Some (compaction_summary_message summary (en_time e))
      | _ \<Rightarrow> None)"

definition seed_from_entry :: "entry \<Rightarrow> file_ops \<Rightarrow> file_ops" where
  "seed_from_entry e ops =
     (case en_body e of
        BranchSummary _ _ (Some d) _ from_hook \<Rightarrow> if from_hook \<noteq> Some True then seed_files d ops else ops
      | _ \<Rightarrow> ops)"

definition is_carrier :: "entry \<Rightarrow> bool" where
  "is_carrier e = (case en_body e of Compaction _ _ _ _ _ _ _ \<Rightarrow> True | BranchSummary _ _ _ _ _ \<Rightarrow> True | _ \<Rightarrow> False)"

text \<open>The walk over the entries, newest first.\<close>

fun select_messages ::
  "(json \<Rightarrow> str) \<Rightarrow> nat \<Rightarrow> entry list \<Rightarrow> message list \<Rightarrow> nat \<Rightarrow> file_ops \<Rightarrow> message list \<times> nat \<times> file_ops" where
  "select_messages js budget [] ms used ops = (ms, used, ops)"
| "select_messages js budget (e # older) ms used ops =
     (case get_message_from_entry e of
        None \<Rightarrow> select_messages js budget older ms used ops
      | Some m \<Rightarrow>
          let ops' = extract_file_ops_from_message m ops; tokens = estimate_tokens js m in
          if budget > 0 \<and> used + tokens > budget
          then (if is_carrier e \<and> used < budget * 9 div 10 then (m # ms, used + tokens, ops') else (ms, used, ops'))
          else select_messages js budget older (m # ms) (used + tokens) ops')"

record branch_preparation =
  bp_messages :: "message list"
  bp_read_files :: "str list"
  bp_modified_files :: "str list"
  bp_total_tokens :: nat

definition prepare_branch_entries :: "(json \<Rightarrow> str) \<Rightarrow> entry list \<Rightarrow> nat \<Rightarrow> branch_preparation" where
  "prepare_branch_entries js es budget =
     (case select_messages js budget (rev es) [] 0 (fold seed_from_entry es no_files) of (ms, used, ops) \<Rightarrow>
        case compute_file_lists ops of (read_files, modified_files) \<Rightarrow>
          \<lparr>bp_messages = ms, bp_read_files = read_files, bp_modified_files = modified_files, bp_total_tokens = used\<rparr>)"

definition build_branch_summary_prompt :: "(json \<Rightarrow> str) \<Rightarrow> message list \<Rightarrow> str option \<Rightarrow> bool \<Rightarrow> str" where
  "build_branch_summary_prompt js ms custom_instructions replace_instructions =
     in_conversation_tags (serialize_conversation js ms)
     @ (case custom_instructions of
          Some extra \<Rightarrow>
            if replace_instructions then extra else BRANCH_SUMMARY_PROMPT @ [NL, NL] @ ''Additional focus: '' @ extra
        | None \<Rightarrow> BRANCH_SUMMARY_PROMPT)"

section \<open>The run\<close>

record branch_result =
  br_summary :: "str option"
  br_usage :: "token_usage option"
  br_read_files :: "str list"
  br_modified_files :: "str list"
  br_aborted :: bool

definition aborted_result :: branch_result where
  "aborted_result = \<lparr>br_summary = None, br_usage = None, br_read_files = [], br_modified_files = [], br_aborted = True\<rparr>"

text \<open>A failed run: the provider's error, or the message of a reply that reports one.\<close>

datatype branch_error = ProviderFailed provider_error | BranchSummaryError str

definition summarize_branch ::
  "(json \<Rightarrow> str) \<Rightarrow> (str \<Rightarrow> (provider_error, message) result) \<Rightarrow> entry list \<Rightarrow> nat \<Rightarrow> str option \<Rightarrow> bool
    \<Rightarrow> (branch_error, branch_result) result" where
  "summarize_branch js ask es budget custom_instructions replace_instructions =
     (let p = prepare_branch_entries js es budget in
      if bp_messages p = []
      then Inr \<lparr>br_summary = Some ''No content to summarize'', br_usage = None, br_read_files = [], br_modified_files = [],
        br_aborted = False\<rparr>
      else case ask (build_branch_summary_prompt js (bp_messages p) custom_instructions replace_instructions) of
        Inl e \<Rightarrow> Inl (ProviderFailed e)
      | Inr response \<Rightarrow>
          let (t, usage, stop, err) = (case response of
              AssistantMsg a \<Rightarrow> (content_text (as_content a), as_usage a, as_stop a, as_error a)
            | _ \<Rightarrow> ([], no_usage, None, None)) in
          if stop = Some StopAborted then Inr aborted_result
          else if stop = Some StopError
          then Inl (BranchSummaryError (''branch summary failed: '' @ (case err of Some e \<Rightarrow> e | None \<Rightarrow> ''unknown error'')))
          else Inr \<lparr>br_summary = Some (BRANCH_SUMMARY_PREAMBLE @ t
                @ format_file_operations (bp_read_files p) (bp_modified_files p)),
              br_usage = Some usage, br_read_files = bp_read_files p, br_modified_files = bp_modified_files p,
              br_aborted = False\<rparr>)"

section \<open>What fits the budget\<close>

text \<open>A selection of the newest messages: everything fits, or the next older one does not; a carrier of an earlier
  summary may exceed the budget where the rest is below nine tenths of it.\<close>

definition newest_within :: "(json \<Rightarrow> str) \<Rightarrow> nat \<Rightarrow> (entry \<times> message) list \<Rightarrow> nat \<Rightarrow> bool" where
  "newest_within js budget all k \<longleftrightarrow>
     k \<le> length all \<and>
     (let tokens = (\<lambda>j. tokens_of js (map snd (drop j all))) in
      (budget = 0 \<longrightarrow> k = 0)
      \<and> (tokens k \<le> budget \<or> budget = 0
         \<or> k < length all \<and> is_carrier (fst (all ! k)) \<and> tokens (Suc k) < budget * 9 div 10)
      \<and> (0 < k \<longrightarrow> tokens (k - 1) > budget))"

definition messages_of :: "entry list \<Rightarrow> (entry \<times> message) list" where
  "messages_of es = filter_map (\<lambda>e. map_option (Pair e) (get_message_from_entry e)) es"

lemma tokens_of_simps [simp]:
  "tokens_of js [] = 0" "tokens_of js (m # ms) = estimate_tokens js m + tokens_of js ms"
  "tokens_of js (xs @ ys) = tokens_of js xs + tokens_of js ys"
  by (simp_all add: tokens_of_def)

lemma filter_map_rev: "filter_map f (rev xs) = rev (filter_map f xs)"
  by (induction xs) (auto split: option.splits)

lemma messages_of_simps [simp]:
  "messages_of [] = []"
  "messages_of (es @ [e]) = messages_of es @ (case get_message_from_entry e of None \<Rightarrow> [] | Some m \<Rightarrow> [(e, m)])"
  by (auto simp: messages_of_def split: option.splits)

lemma select_messages_spec:
  assumes "select_messages js budget (rev older) (map snd newer) (tokens_of js (map snd newer)) ops = (ms, used, ops')"
    and "budget = 0 \<or> tokens_of js (map snd newer) \<le> budget"
  shows "used = tokens_of js ms \<and> (\<exists>k. newest_within js budget (messages_of older @ newer) k
    \<and> ms = map snd (drop k (messages_of older @ newer)))"
  using assms
proof (induction older arbitrary: newer ops rule: rev_induct)
  case Nil
  then show ?case by (intro conjI exI [of _ 0]) (auto simp: newest_within_def)
next
  case (snoc e older)
  show ?case
  proof (cases "get_message_from_entry e")
    case None
    then show ?thesis using snoc by simp
  next
    case (Some m)
    let ?all = "messages_of (older @ [e]) @ newer"
    let ?n = "length (messages_of older)"
    have all: "?all = messages_of older @ (e, m) # newer" using Some by simp
    show ?thesis
    proof (cases "budget > 0 \<and> tokens_of js (map snd newer) + estimate_tokens js m > budget")
      case False
      then have "select_messages js budget (rev older) (map snd ((e, m) # newer)) (tokens_of js (map snd ((e, m) # newer)))
          (extract_file_ops_from_message m ops) = (ms, used, ops')"
        using snoc.prems(1) Some by (auto simp: Let_def add.commute split: if_splits)
      from snoc.IH [OF this] show ?thesis using False unfolding all by (auto simp: add.commute)
    next
      case over: True
      show ?thesis
      proof (cases "is_carrier e \<and> tokens_of js (map snd newer) < budget * 9 div 10")
        case True
        then have r: "ms = m # map snd newer" "used = tokens_of js (map snd newer) + estimate_tokens js m"
          using snoc.prems(1) Some over by (auto simp: Let_def)
        have "newest_within js budget ?all ?n"
          unfolding all newest_within_def using True over by (auto simp: Let_def nth_append Suc_diff_le drop_Cons')
        then show ?thesis using r unfolding all by (intro conjI exI [of _ ?n]) simp_all
      next
        case False
        then have r: "ms = map snd newer" "used = tokens_of js (map snd newer)"
          using snoc.prems(1) Some over by (auto simp: Let_def)
        have "newest_within js budget ?all (Suc ?n)"
          unfolding all newest_within_def using snoc.prems(2) over by (auto simp: Let_def)
        then show ?thesis using r unfolding all by (intro conjI exI [of _ "Suc ?n"]) simp_all
      qed
    qed
  qed
qed

text \<open>What the summary of a branch is made from are its newest messages without tool results, as many as fit the
  budget, counted right; all of them without a budget.\<close>

lemma branch_selection:
  "bp_total_tokens (prepare_branch_entries js es budget) = tokens_of js (bp_messages (prepare_branch_entries js es budget))
   \<and> (\<exists>k. newest_within js budget (messages_of es) k
     \<and> bp_messages (prepare_branch_entries js es budget) = map snd (drop k (messages_of es)))"
proof -
  obtain ms used ops' where s: "select_messages js budget (rev es) [] 0 (fold seed_from_entry es no_files) = (ms, used, ops')"
    by (metis prod_cases3)
  then show ?thesis
    using select_messages_spec [of js budget es "[]" "fold seed_from_entry es no_files" ms used ops']
    by (simp add: prepare_branch_entries_def case_prod_beta)
qed

end
