(* ===== verification/Harness_Navigate.thy ===== *)
theory Harness_Navigate
  imports Harness_Recovery Branch_Summary
begin

text \<open>
  Navigation in the session tree (\<^verbatim>\<open>navigate_tree\<close> of \<^verbatim>\<open>core/harness.rs\<close>): the abandoned branch, its summary with
  retries, the move of the cursor, the summary entry and the label on the new branch, and the rebuilt transcript.
  The hook's answer, the model, the display of an error, ids and clock are parameters.
\<close>

section \<open>The abandoned branch\<close>

definition common_ancestor :: "entry list \<Rightarrow> entry list \<Rightarrow> str option" where
  "common_ancestor old_path target_path =
     map_option en_id (find (\<lambda>e. en_id e \<in> set (map en_id old_path)) (rev target_path))"

definition abandoned_branch :: "entry list \<Rightarrow> entry list \<Rightarrow> entry list" where
  "abandoned_branch old_path target_path =
     rev (takeWhile (\<lambda>e. common_ancestor old_path target_path \<noteq> Some (en_id e)) (rev old_path))"

definition editor_text :: "entry \<Rightarrow> str option" where
  "editor_text e =
     (case en_body e of
        Message m _ \<Rightarrow> (case m of UserMsg content _ _ \<Rightarrow> Some (content_text content) | _ \<Rightarrow> None)
      | CustomMessage _ content _ _ \<Rightarrow> Some (content_text content)
      | _ \<Rightarrow> None)"

text \<open>A user or custom target focuses its parent.\<close>

definition leaf_for :: "entry \<Rightarrow> str option" where
  "leaf_for e =
     (case en_body e of
        Message m _ \<Rightarrow> (case m of UserMsg _ _ _ \<Rightarrow> en_parent e | _ \<Rightarrow> Some (en_id e))
      | CustomMessage _ _ _ _ \<Rightarrow> en_parent e
      | _ \<Rightarrow> Some (en_id e))"

section \<open>The summary of the branch\<close>

definition lower_ascii :: "str \<Rightarrow> str" where
  "lower_ascii = map (\<lambda>c. if 65 \<le> (of_char c :: nat) \<and> (of_char c :: nat) \<le> 90 then char_of (of_char c + 32 :: nat) else c)"

text \<open>The keywords are ASCII, so only the case of ASCII letters matters.\<close>

definition is_quota_or_billing :: "str \<Rightarrow> bool" where
  "is_quota_or_billing body =
     list_ex (str_contains (lower_ascii body)) [''quota'', ''billing'', ''credit'', ''insufficient'', ''payment'', ''plan limit'']"

definition is_transient_error :: "branch_error \<Rightarrow> bool" where
  "is_transient_error e =
     (case e of
        ProviderFailed pe \<Rightarrow>
          (case pe of
             Http status body \<Rightarrow> is_retryable_status status \<and> \<not> is_quota_or_billing body
           | Transport _ \<Rightarrow> True
           | _ \<Rightarrow> False)
      | BranchSummaryError _ \<Rightarrow> False)"

record navigate_options =
  nv_summarize :: bool
  nv_custom_instructions :: "str option"
  nv_replace_instructions :: bool
  nv_label :: "str option"

record tree_hook =
  th_cancel :: bool
  th_custom_instructions :: "str option"
  th_label :: "str option"
  th_replace_instructions :: "bool option"
  th_summary :: "branch_result option"

record navigate_result =
  nr_cancelled :: bool
  nr_aborted :: bool
  nr_editor_text :: "str option"
  nr_summary_entry :: "str option"

record 's navigate_env =
  nt_backend :: "'s backend"
  nt_harness :: harness_env
  nt_ask :: "nat \<Rightarrow> str \<Rightarrow> (provider_error, message) result"
  nt_hook :: "entry list \<Rightarrow> tree_hook"
  nt_stamp :: "nat \<Rightarrow> str \<times> int"
  nt_retry :: retry_settings
  nt_sleeps :: "nat \<Rightarrow> bool"
  nt_reserve :: nat
  nt_show :: "branch_error \<Rightarrow> str"

definition branch_delay :: "retry_settings \<Rightarrow> nat \<Rightarrow> nat" where
  "branch_delay rt attempt =
     min (unat (rt_base_delay_ms rt) * (if attempt - 1 < 64 then 2 ^ (attempt - 1) else 2 ^ 64 - 1)) (2 ^ 64 - 1)"

text \<open>The attempts; \<open>events\<close> has the lifecycle so far, and is empty before the first retry.\<close>

function branch_attempts ::
  "'s navigate_env \<Rightarrow> entry list \<Rightarrow> nat \<Rightarrow> str option \<Rightarrow> bool \<Rightarrow> nat \<Rightarrow> harness_event list
    \<Rightarrow> (branch_error, branch_result) result \<times> harness_event list" where
  "branch_attempts nt es budget custom replace previous events =
     (let attempt = previous + 1; rt = nt_retry nt in
      case summarize_branch (ev_json (nt_harness nt)) (nt_ask nt attempt) es budget custom replace of
        Inr r \<Rightarrow> (Inr r, if events \<noteq> [] then events @ [RetryEnded BranchSummaryRetry True attempt None] else events)
      | Inl e \<Rightarrow>
          if \<not> rt_enabled rt \<or> \<not> is_transient_error e \<or> attempt > rt_max_retries rt
          then (Inl e, if events \<noteq> [] then events @ [RetryEnded BranchSummaryRetry False attempt (Some (nt_show nt e))] else events)
          else
            let started = events @ [RetryStarted BranchSummaryRetry attempt (rt_max_retries rt) (branch_delay rt attempt) (nt_show nt e)] in
            if nt_sleeps nt attempt
            then branch_attempts nt es budget custom replace attempt (started @ [RetryAttempt BranchSummaryRetry attempt])
            else (Inr aborted_result, started @ [RetryEnded BranchSummaryRetry False attempt (Some ''branch summary cancelled'')]))"
  by pat_completeness auto
termination
  by (relation "measure (\<lambda>(nt, es, budget, custom, replace, previous, events). rt_max_retries (nt_retry nt) + 1 - previous)") auto

declare branch_attempts.simps [simp del]

text \<open>The summary with its provenance, where one is asked for.\<close>

definition navigate_summary ::
  "'s navigate_env \<Rightarrow> navigate_options \<Rightarrow> tree_hook \<Rightarrow> entry list \<Rightarrow> 's harness
    \<Rightarrow> (branch_error, (branch_result \<times> bool) option) result \<times> harness_event list" where
  "navigate_summary nt opts hook abandoned h =
     (let custom = (case th_custom_instructions hook of Some i \<Rightarrow> Some i | None \<Rightarrow> nv_custom_instructions opts);
          replace = (case th_replace_instructions hook of Some r \<Rightarrow> r | None \<Rightarrow> nv_replace_instructions opts);
          budget = unat (md_window (hn_model h)) - nt_reserve nt in
      if nv_summarize opts \<and> th_summary hook \<noteq> None then (Inr (Some (the (th_summary hook), True)), [])
      else if nv_summarize opts \<and> abandoned \<noteq> []
      then (case branch_attempts nt abandoned budget custom replace 0 [] of
          (Inl e, events) \<Rightarrow> (Inl e, events)
        | (Inr r, events) \<Rightarrow> (Inr (Some (r, False)), events))
      else (Inr None, []))"

section \<open>The navigation\<close>

definition append_summary ::
  "'s navigate_env \<Rightarrow> str option \<Rightarrow> (branch_result \<times> bool) option \<Rightarrow> 's \<Rightarrow> (session_error, str option) result \<times> 's" where
  "append_summary nt leaf summary s =
     (case summary of
        None \<Rightarrow> (Inr None, s)
      | Some (r, from_hook) \<Rightarrow>
          (case append_branch_summary (nt_backend nt) (fst (nt_stamp nt 1)) (snd (nt_stamp nt 1))
              (case leaf of Some l \<Rightarrow> l | None \<Rightarrow> ''root'') (case br_summary r of Some t \<Rightarrow> t | None \<Rightarrow> [])
              (br_read_files r) (br_modified_files r) (br_usage r) from_hook s of
             (Inl e, s') \<Rightarrow> (Inl e, s')
           | (Inr i, s') \<Rightarrow> (Inr (Some i), s')))"

definition append_tree_label ::
  "'s navigate_env \<Rightarrow> str option \<Rightarrow> str \<Rightarrow> str option \<Rightarrow> 's \<Rightarrow> (session_error, unit) result \<times> 's" where
  "append_tree_label nt summary_entry target label s =
     (case label of
        None \<Rightarrow> (Inr (), s)
      | Some l \<Rightarrow>
          (case append_label (nt_backend nt) (fst (nt_stamp nt 2)) (snd (nt_stamp nt 2))
              (case summary_entry of Some i \<Rightarrow> i | None \<Rightarrow> target) (Some l) s of
             (Inl e, s') \<Rightarrow> (Inl e, s')
           | (Inr _, s') \<Rightarrow> (Inr (), s')))"

definition apply_navigation ::
  "'s navigate_env \<Rightarrow> entry \<Rightarrow> str option \<Rightarrow> (branch_result \<times> bool) option \<Rightarrow> 's harness
    \<Rightarrow> (harness_error, navigate_result) result \<times> 's harness" where
  "apply_navigation nt target label summary h =
     (case move_to (nt_backend nt) (fst (nt_stamp nt 0)) (snd (nt_stamp nt 0)) (leaf_for target) (hn_session h) of
        (Inl e, s1) \<Rightarrow> (Inl (SessionFailed e), h\<lparr>hn_session := s1\<rparr>)
      | (Inr _, s1) \<Rightarrow>
          (case append_summary nt (leaf_for target) summary s1 of
             (Inl e, s2) \<Rightarrow> (Inl (SessionFailed e), h\<lparr>hn_session := s2\<rparr>)
           | (Inr summary_entry, s2) \<Rightarrow>
               (case append_tree_label nt summary_entry (en_id target) label s2 of
                  (Inl e, s3) \<Rightarrow> (Inl (SessionFailed e), h\<lparr>hn_session := s3\<rparr>)
                | (Inr _, s3) \<Rightarrow>
                    (case restore (nt_backend nt) (nt_harness nt) (h\<lparr>hn_session := s3\<rparr>) of
                       (Inl e, h') \<Rightarrow> (Inl e, h')
                     | (Inr _, h') \<Rightarrow>
                         (case bk_leaf (nt_backend nt) (hn_session h') of
                            Inl e \<Rightarrow> (Inl (SessionFailed e), h')
                          | Inr _ \<Rightarrow>
                              (Inr \<lparr>nr_cancelled = False, nr_aborted = False, nr_editor_text = editor_text target,
                                 nr_summary_entry = summary_entry\<rparr>, emit_event (HookRan ''session_tree'') h'))))))"

definition no_navigation :: "bool \<Rightarrow> bool \<Rightarrow> navigate_result" where
  "no_navigation cancelled aborted =
     \<lparr>nr_cancelled = cancelled, nr_aborted = aborted, nr_editor_text = None, nr_summary_entry = None\<rparr>"

definition navigate_from ::
  "'s navigate_env \<Rightarrow> entry \<Rightarrow> navigate_options \<Rightarrow> entry list \<Rightarrow> 's harness
    \<Rightarrow> (harness_error, navigate_result) result \<times> 's harness" where
  "navigate_from nt target opts abandoned h =
     (let hook = nt_hook nt abandoned; h1 = emit_event (HookRan ''session_before_tree'') h in
      if th_cancel hook then (Inr (no_navigation True False), h1)
      else case navigate_summary nt opts hook abandoned h of
        (Inl e, events) \<Rightarrow> (Inl (BranchSummaryFailed (nt_show nt e)), h1\<lparr>hn_events := hn_events h1 @ events\<rparr>)
      | (Inr summary, events) \<Rightarrow>
          let h2 = h1\<lparr>hn_events := hn_events h1 @ events\<rparr> in
          if (case summary of Some (r, from_hook) \<Rightarrow> br_aborted r \<and> \<not> from_hook | None \<Rightarrow> False)
          then (Inr (no_navigation True True), h2)
          else apply_navigation nt target (case th_label hook of Some l \<Rightarrow> Some l | None \<Rightarrow> nv_label opts) summary h2)"

definition navigate_tree_inner ::
  "'s navigate_env \<Rightarrow> str \<Rightarrow> navigate_options \<Rightarrow> 's harness \<Rightarrow> (harness_error, navigate_result) result \<times> 's harness" where
  "navigate_tree_inner nt target_id opts h =
     (let bk = nt_backend nt; s = hn_session h in
      case bk_leaf bk s of
        Inl e \<Rightarrow> (Inl (SessionFailed e), h)
      | Inr old_leaf \<Rightarrow>
          if old_leaf = Some target_id then (Inr (no_navigation False False), h)
          else case bk_entry bk s target_id of
            None \<Rightarrow> (Inl (EntryNotFound target_id), h)
          | Some target \<Rightarrow>
              (case bk_path bk s old_leaf of
                 Inl e \<Rightarrow> (Inl (SessionFailed e), h)
               | Inr old_path \<Rightarrow>
                   (case bk_path bk s (Some target_id) of
                      Inl e \<Rightarrow> (Inl (SessionFailed e), h)
                    | Inr target_path \<Rightarrow> navigate_from nt target opts (abandoned_branch old_path target_path) h)))"

definition navigate_tree ::
  "'s navigate_env \<Rightarrow> str \<Rightarrow> navigate_options \<Rightarrow> 's harness \<Rightarrow> (harness_error, navigate_result) result \<times> 's harness" where
  "navigate_tree nt target_id opts h =
     (if hn_shutdown h then (Inl ShutDown, h)
      else if hn_phase h \<noteq> PhaseIdle then (Inl (NotIdle (hn_phase h)), h)
      else case navigate_tree_inner nt target_id opts (h\<lparr>hn_cancelled := False, hn_phase := PhaseBranchSummary\<rparr>) of
        (r, h') \<Rightarrow> (r, h'\<lparr>hn_phase := PhaseIdle\<rparr>))"

section \<open>What is abandoned\<close>

lemma path_distinct:
  assumes "rows h es st" "branch (st_entries st) i path" "k < length path" "j < length path" "en_id (path ! k) = en_id (path ! j)"
  shows "k = j"
  using branch_seq [OF assms(1,2,3)] branch_seq [OF assms(1,2,4)] unfolding assms(5) by simp

lemma branch_prefix:
  assumes b: "branch es i path" and k: "k < length path"
  shows "branch es (en_id (path ! k)) (take (Suc k) path)"
proof -
  have "rev (take (Suc k) path) = drop (length path - Suc k) (rev path)" by (rule rev_take)
  then have "chain_up (rev (take (Suc k) path))" using b k chain_up_drop [of "rev path" "length path - Suc k"] by (simp add: branch_def)
  moreover have "take (Suc k) path = take k path @ [path ! k]" using k by (rule take_Suc_conv_app_nth)
  moreover have "set (take (Suc k) path) \<subseteq> set es" using b set_take_subset [of "Suc k" path] by (auto simp: branch_def)
  ultimately show ?thesis by (simp add: branch_def)
qed

lemma branches_meet:
  assumes "rows h es st" "branch (st_entries st) i p" "branch (st_entries st) j q"
    and "k < length p" "m < length q" "en_id (p ! k) = en_id (q ! m)"
  shows "k = m \<and> take (Suc k) p = take (Suc k) q"
proof -
  have "k = m" using branch_seq [OF assms(1,2,4)] branch_seq [OF assms(1,3,5)] assms(6) by simp
  then show ?thesis
    using branch_unique [OF rows_unique [OF assms(1)] branch_prefix [OF assms(2,4)]] branch_prefix [OF assms(3,5)] assms(6) by simp
qed

lemma abandoned_suffix:
  assumes "distinct (map en_id old)" "k < length old" "common_ancestor old target = Some (en_id (old ! k))"
  shows "abandoned_branch old target = drop (Suc k) old"
proof -
  have split: "old = take k old @ old ! k # drop (Suc k) old" using assms(2) by (simp add: id_take_nth_drop [symmetric])
  have "en_id (old ! k) \<noteq> en_id e" if "e \<in> set (drop (Suc k) old)" for e
  proof
    assume "en_id (old ! k) = en_id e"
    then have "en_id (old ! k) \<in> set (map en_id (drop (Suc k) old))" using that by (metis image_eqI list.set_map)
    moreover have "distinct (map en_id (take k old @ old ! k # drop (Suc k) old))" using assms(1) split by metis
    ultimately show False by simp
  qed
  then have "takeWhile (\<lambda>e. en_id (old ! k) \<noteq> en_id e) (rev (drop (Suc k) old) @ old ! k # rev (take k old)) = rev (drop (Suc k) old)"
    by (subst takeWhile_append2) simp_all
  moreover have "rev old = rev (drop (Suc k) old) @ old ! k # rev (take k old)"
    by (subst (1) split) simp
  ultimately show ?thesis by (simp add: abandoned_branch_def assms(3))
qed

lemma abandoned_divergence:
  assumes r: "rows h es st" and old: "branch (st_entries st) i old" and target: "branch (st_entries st) j target"
  shows "\<exists>k. take k old = take k target \<and> abandoned_branch old target = drop k old
    \<and> set (map en_id (abandoned_branch old target)) \<inter> set (map en_id target) = {}"
proof -
  have dist: "distinct (map en_id old)"
    unfolding distinct_conv_nth using path_distinct [OF r old] by auto
  let ?shared = "\<lambda>e. en_id e \<in> set (map en_id old)"
  show ?thesis
  proof (cases "find ?shared (rev target)")
    case None
    then have "common_ancestor old target = None" by (simp add: common_ancestor_def)
    then have "abandoned_branch old target = old" by (simp add: abandoned_branch_def takeWhile_eq_all_conv [THEN iffD2])
    then show ?thesis using None by (intro exI [of _ 0]) (auto simp: find_None_iff, metis imageI)
  next
    case (Some c)
    then obtain n where n: "n < length target" "rev target ! n = c" "?shared c" "\<forall>l < n. \<not> ?shared (rev target ! l)"
      by (auto simp: find_Some_iff)
    let ?m = "length target - Suc n"
    have m: "?m < length target" "target ! ?m = c" using n(1,2) by (simp_all add: rev_nth)
    obtain k where k: "k < length old" "en_id (old ! k) = en_id c" using n(3) by (auto simp: in_set_conv_nth)
    have meet: "k = ?m" "take (Suc k) old = take (Suc k) target"
      using branches_meet [OF r old target k(1) m(1)] k(2) m(2) by auto
    have a: "abandoned_branch old target = drop (Suc k) old"
      using abandoned_suffix [OF dist k(1)] Some k(2) by (simp add: common_ancestor_def)
    have "en_id e \<notin> set (map en_id target)" if e: "e \<in> set (drop (Suc k) old)" for e
    proof
      assume "en_id e \<in> set (map en_id target)"
      then obtain x where x: "x < length target" "en_id (target ! x) = en_id e" by (auto simp: in_set_conv_nth)
      obtain y where "y < length (drop (Suc k) old)" "drop (Suc k) old ! y = e" using e by (metis in_set_conv_nth)
      then have y: "Suc k + y < length old" "old ! (Suc k + y) = e" by simp_all
      have "Suc k + y = x" using branches_meet [OF r old target y(1) x(1)] x(2) y(2) by simp
      then have "length target - Suc x < n" using meet(1) n(1) x(1) by simp
      moreover have "rev target ! (length target - Suc x) = target ! x" using x(1) by (simp add: rev_nth)
      moreover have "?shared (target ! x)" using x(2) e by (auto dest: in_set_dropD)
      ultimately show False using n(4) by metis
    qed
    then show ?thesis using meet(2) a by (intro exI [of _ "Suc k"]) auto
  qed
qed

text \<open>C31: What a navigation abandons, and summarizes, is the part of the old branch behind the last entry it shares
  with the target's branch: up to there the two are equal, and nothing of the rest is on the target's branch.\<close>

theorem abandoned_is_divergence:
  assumes "sole w (st, f)" and "get_path st (Some i) = Inr old" and "get_path st (Some j) = Inr target"
  shows "\<exists>k. take k old = take k target \<and> abandoned_branch old target = drop k old
    \<and> set (map en_id (abandoned_branch old target)) \<inter> set (map en_id target) = {}"
proof -
  obtain h es where r: "rows h es st" using sole_rows [OF assms(1)] by auto
  show ?thesis using abandoned_divergence [OF r] assms(2,3) get_path_iff [OF r] by blast
qed

section \<open>Where a navigation ends\<close>

definition summary_carrier :: "int \<Rightarrow> (branch_result \<times> bool) option \<Rightarrow> message list" where
  "summary_carrier now summary =
     (case summary of
        None \<Rightarrow> []
      | Some (r, _) \<Rightarrow>
          (case br_summary r of Some t \<Rightarrow> if t \<noteq> [] then [branch_summary_message t now] else [] | None \<Rightarrow> []))"

lemma apply_navigation_Inr:
  assumes "apply_navigation nt target label summary h = (Inr r, h')"
  shows "\<exists>s1 s2 s3 i h2.
    move_to (nt_backend nt) (fst (nt_stamp nt 0)) (snd (nt_stamp nt 0)) (leaf_for target) (hn_session h) = (Inr (), s1)
    \<and> append_summary nt (leaf_for target) summary s1 = (Inr i, s2)
    \<and> append_tree_label nt i (en_id target) label s2 = (Inr (), s3)
    \<and> restore (nt_backend nt) (nt_harness nt) (h\<lparr>hn_session := s3\<rparr>) = (Inr (), h2) \<and> h' = emit_event (HookRan ''session_tree'') h2
    \<and> r = \<lparr>nr_cancelled = False, nr_aborted = False, nr_editor_text = editor_text target, nr_summary_entry = i\<rparr>"
  using assms unfolding apply_navigation_def by (auto split: prod.splits sum.splits)

context session_store
begin

lemma summary_context:
  assumes "inv s" "build_session_context bk s = Inr c" "append_summary nt leaf summary s = (Inr i, s')" "nt_backend nt = bk"
  shows "\<exists>c'. build_session_context bk s' = Inr c' \<and> inv s' \<and> (i = None \<longleftrightarrow> summary = None)
    \<and> cx_messages c' = cx_messages c @ summary_carrier (snd (nt_stamp nt 1)) summary"
proof (cases summary)
  case None
  then show ?thesis using assms by (simp add: append_summary_def summary_carrier_def)
next
  case (Some a)
  obtain r from_hook where a: "a = (r, from_hook)" by fastforce
  let ?t = "case br_summary r of Some t \<Rightarrow> t | None \<Rightarrow> []"
  let ?b = "BranchSummary (case leaf of Some l \<Rightarrow> l | None \<Rightarrow> ''root'') ?t
      (Some (JObj [(''readFiles'', JArr (map JStr (br_read_files r))), (''modifiedFiles'', JArr (map JStr (br_modified_files r)))]))
      (br_usage r) (Some from_hook)"
  obtain i' where ap: "append_body bk False (fst (nt_stamp nt 1)) (snd (nt_stamp nt 1)) ?b s = (Inr i', s')" "i = Some i'"
    using assms(3) Some a assms(4) by (auto simp: append_summary_def append_branch_summary_def split: prod.splits sum.splits)
  obtain c' parent where c': "build_session_context bk s' = Inr c'" "inv s'"
    "cx_messages c' = cx_messages c @ session_entry_to_context_messages (Entry (fst (nt_stamp nt 1)) parent (snd (nt_stamp nt 1)) ?b)"
    using context_grows [OF assms(1,2) ap(1)] by (auto simp: moves_leaf_def is_compaction_def)
  then show ?thesis
    using Some a ap(2) by (auto simp: session_entry_to_context_messages_def summary_carrier_def split: option.splits)
qed

lemma label_context:
  assumes "inv s" "build_session_context bk s = Inr c" "append_tree_label nt i target label s = (Inr u, s')" "nt_backend nt = bk"
  shows "\<exists>c'. build_session_context bk s' = Inr c' \<and> inv s' \<and> cx_messages c' = cx_messages c"
proof (cases label)
  case None
  then show ?thesis using assms by (simp add: append_tree_label_def)
next
  case (Some l)
  then obtain i' where "append_body bk False (fst (nt_stamp nt 2)) (snd (nt_stamp nt 2))
      (Label (case i of Some i \<Rightarrow> i | None \<Rightarrow> target) (Some l)) s = (Inr i', s')"
    using assms(3,4) by (auto simp: append_tree_label_def append_label_def split: prod.splits sum.splits)
  from context_grows [OF assms(1,2) this] show ?thesis
    by (auto simp: moves_leaf_def is_compaction_def session_entry_to_context_messages_def)
qed

lemma apply_navigation_context:
  assumes "inv (hn_session h)" "bk_path bk (hn_session h) (leaf_for target) = Inr path" "nt_backend nt = bk"
    and "apply_navigation nt target label summary h = (Inr r, h')"
  shows "inv (hn_session h') \<and> \<not> nr_cancelled r \<and> (nr_summary_entry r = None \<longleftrightarrow> summary = None)
    \<and> hn_messages h' = cx_messages (context_of path) @ summary_carrier (snd (nt_stamp nt 1)) summary"
proof -
  obtain s1 s2 s3 i u h2 where mv: "move_to bk (fst (nt_stamp nt 0)) (snd (nt_stamp nt 0)) (leaf_for target) (hn_session h) = (Inr (), s1)"
    and su: "append_summary nt (leaf_for target) summary s1 = (Inr i, s2)"
    and la: "append_tree_label nt i (en_id target) label s2 = (Inr u, s3)"
    and re: "restore bk (nt_harness nt) (h\<lparr>hn_session := s3\<rparr>) = (Inr (), h2)" "h' = emit_event (HookRan ''session_tree'') h2"
    and r: "r = \<lparr>nr_cancelled = False, nr_aborted = False, nr_editor_text = editor_text target, nr_summary_entry = i\<rparr>"
    using apply_navigation_Inr [OF assms(4)] unfolding assms(3) by blast
  have c1: "inv s1" "build_session_context bk s1 = Inr (context_of path)"
    using move_branch [OF assms(1,2) mv] by (simp_all add: build_session_context_def)
  obtain c2 where c2: "build_session_context bk s2 = Inr c2" "inv s2" "i = None \<longleftrightarrow> summary = None"
    "cx_messages c2 = cx_messages (context_of path) @ summary_carrier (snd (nt_stamp nt 1)) summary"
    using summary_context [OF c1 su assms(3)] by blast
  obtain c3 where c3: "build_session_context bk s3 = Inr c3" "inv s3" "cx_messages c3 = cx_messages c2"
    using label_context [OF c2(2,1) la assms(3)] by blast
  have "hn_session h2 = s3 \<and> hn_messages h2 = cx_messages c3"
    using re(1) c3(1) by (simp add: restore_def recover_boundary_def) (auto simp: restored_def Let_def split: sum.splits)
  then show ?thesis using c3 c2 r re(2) by simp
qed

end

section \<open>Over the JSONL storage\<close>

lemma get_path_parent:
  assumes "rows h es st" "get_path st (Some i) = Inr p"
  shows "get_path st (en_parent (last p)) = Inr (butlast p)"
proof -
  have b: "branch (st_entries st) i p" using assms get_path_iff by blast
  then obtain e q where p: "p = q @ [e]" by (metis branch_def rev_exhaust)
  have c: "chain_up (e # rev q)" "set q \<subseteq> set (st_entries st)" using b p by (auto simp: branch_def)
  show ?thesis
  proof (cases "q = []")
    case True
    then show ?thesis using c(1) p by (simp add: get_path_def)
  next
    case False
    then have "en_parent e = Some (en_id (last q))" "branch (st_entries st) (en_id (last q)) q"
      using c by (simp_all add: chain_up_Cons hd_rev branch_def)
    then show ?thesis using p get_path_iff [OF assms(1)] by simp
  qed
qed

lemma leaf_for_path:
  assumes "rows h es st" "get_entry st i = Some e" "get_path st (Some i) = Inr p"
  shows "\<exists>q. get_path st (leaf_for e) = Inr q"
proof -
  have e: "e \<in> set (st_entries st)" "en_id e = i"
    using assms(2) by (auto simp: get_entry_def find_Some_iff in_set_conv_nth) 
  have b: "branch (st_entries st) i p" using assms(1,3) get_path_iff by blast
  then have l: "last p \<in> set (st_entries st)" "en_id (last p) = i" by (auto simp: branch_def)
  have "last p = e" using rows_unique [OF assms(1)] e l by (auto simp: unique_ids_def distinct_map dest: inj_onD)
  then have "get_path st (en_parent e) = Inr (butlast p)" using get_path_parent [OF assms(1,3)] by simp
  moreover have "leaf_for e \<in> {en_parent e, Some (en_id e)}"
    by (cases "en_body e") (auto simp: leaf_for_def split: message.splits)
  ultimately show ?thesis using assms(3) e(2) by auto
qed

text \<open>The navigation behind its guards.\<close>

lemma navigate_tree_Inr:
  assumes "navigate_tree nt target_id opts h = (Inr r, h')" "bk_leaf (nt_backend nt) (hn_session h) \<noteq> Inr (Some target_id)"
  shows "\<exists>target abandoned h2. bk_entry (nt_backend nt) (hn_session h) target_id = Some target
    \<and> (\<exists>p. bk_path (nt_backend nt) (hn_session h) (Some target_id) = Inr p)
    \<and> navigate_from nt target opts abandoned (h\<lparr>hn_cancelled := False, hn_phase := PhaseBranchSummary\<rparr>) = (Inr r, h2)
    \<and> h' = h2\<lparr>hn_phase := PhaseIdle\<rparr>"
  using assms unfolding navigate_tree_def navigate_tree_inner_def Let_def
  by (auto split: if_splits sum.splits option.splits prod.splits)

lemma navigate_from_Inr:
  assumes "navigate_from nt target opts abandoned h = (Inr r, h')"
  shows "(nr_cancelled r \<and> hn_session h' = hn_session h \<and> hn_messages h' = hn_messages h \<and> hn_ids h' = hn_ids h
      \<and> hn_boundary h' = hn_boundary h \<and> hn_model h' = hn_model h)
    \<or> (\<exists>label summary h2. apply_navigation nt target label summary h2 = (Inr r, h') \<and> hn_session h2 = hn_session h)"
proof (cases "th_cancel (nt_hook nt abandoned)")
  case True
  then show ?thesis using assms by (auto simp: navigate_from_def no_navigation_def)
next
  case False
  obtain x events where x: "navigate_summary nt opts (nt_hook nt abandoned) abandoned h = (x, events)" by fastforce
  obtain summary where s: "x = Inr summary"
    using assms False x by (cases x) (simp_all add: navigate_from_def Let_def)
  show ?thesis
  proof (cases "case summary of Some (r, from_hook) \<Rightarrow> br_aborted r \<and> \<not> from_hook | None \<Rightarrow> False")
    case True
    then show ?thesis using assms False x s by (auto simp: navigate_from_def Let_def no_navigation_def)
  next
    case no: False
    let ?h2 = "(emit_event (HookRan ''session_before_tree'') h)\<lparr>hn_events := hn_events (emit_event (HookRan ''session_before_tree'') h) @ events\<rparr>"
    have "apply_navigation nt target (case th_label (nt_hook nt abandoned) of Some l \<Rightarrow> Some l | None \<Rightarrow> nv_label opts) summary ?h2
        = (Inr r, h')"
      using assms False x s no by (simp add: navigate_from_def Let_def)
    moreover have "hn_session ?h2 = hn_session h" by simp
    ultimately show ?thesis by blast
  qed
qed


section \<open>A navigation\<close>

lemma sole_append_ok:
  assumes "sole w (st, f)" "follows (st_entries st) e"
  shows "\<exists>s'. bk_append (jsonl w) forced e (st, f) = (Inr (), s') \<and> sole w s' \<and> st_entries (fst s') = st_entries st @ [e]
    \<and> st_leaf (fst s') = leaf_cursor_after e"
proof -
  from assms(1) obtain h es where w: "wire_ok w"
    and s: "current w h es st \<and> f = Some (file_of w h es) \<or> pending_view h es st \<and> f = None" by (auto simp: sole_def)
  have r: "rows h es st" using s by (auto simp: current_def pending_view_def)
  have "map durable (st_entries st) = map durable es" using r by (simp add: rows_def)
  from arg_cong [OF this, of "map en_id"] have "map en_id (st_entries st) = map en_id es" by (simp only: durable_ids)
  from arg_cong [OF this, of set] have "ids (st_entries st) = ids es" by (simp add: ids_def)
  then have e: "follows es e" using assms(2) by (simp add: follows_def)
  have new: "en_id e \<noteq> []" "\<not> has_id st (en_id e)" using e rows_has_id [OF r] by (auto simp: follows_def)
  have ref: "refresh w e st f = (Inr e, st)" using s by (auto simp: refresh_def current_def)
  have "append_entry_locked w forced e st f = (Inr (), stamped w h es forced e st f)"
    using new ref stamp_rows [OF w r e] by (simp add: append_entry_locked_def)
  then show ?thesis
    using append_sole [OF assms(1), of forced e "Inr ()"] by (cases "stamped w h es forced e st f") (auto simp: jsonl_def)
qed

lemma demo_two_entries:
  "\<exists>st f. sole demo_wire (st, f) \<and> st_entries st = [demo_note ''a'' None, demo_note ''b'' (Some ''a'')] \<and> st_leaf st = Some ''b''"
proof -
  obtain st0 f0 where s0: "demo_storage = (st0, f0)" by fastforce
  have e0: "st_entries st0 = []" using s0 unfolding demo_storage_def fresh_storage_def by auto
  have "follows (st_entries st0) (demo_note ''a'' None)" by (simp add: e0 follows_def demo_note_def)
  from sole_append_ok [OF demo_storage_sole [unfolded s0] this] obtain st1 f1 where s1: "sole demo_wire (st1, f1)"
    "st_entries st1 = [demo_note ''a'' None]" using e0 by (metis append_Nil prod.collapse)
  have "follows (st_entries st1) (demo_note ''b'' (Some ''a''))" by (simp add: s1(2) follows_def demo_note_def)
  from sole_append_ok [OF s1(1) this] obtain st2 f2 where "sole demo_wire (st2, f2)"
    "st_entries st2 = [demo_note ''a'' None, demo_note ''b'' (Some ''a'')]" "st_leaf st2 = leaf_cursor_after (demo_note ''b'' (Some ''a''))"
    using s1(2) by (metis append_Cons append_Nil prod.collapse)
  then show ?thesis by (auto simp: leaf_cursor_after_def demo_note_def)
qed

lemma demo_path_a:
  assumes "st_entries st = [demo_note ''a'' None, demo_note ''b'' (Some ''a'')]" "sole w (st, f)"
  shows "get_path st (Some ''a'') = Inr [demo_note ''a'' None]"
    "get_path st (Some ''b'') = Inr [demo_note ''a'' None, demo_note ''b'' (Some ''a'')]"
proof -
  obtain h es where r: "rows h es st" using sole_rows [OF assms(2)] by auto
  show "get_path st (Some ''a'') = Inr [demo_note ''a'' None]"
    unfolding get_path_iff [OF r] by (simp add: branch_def assms(1) demo_note_def)
  show "get_path st (Some ''b'') = Inr [demo_note ''a'' None, demo_note ''b'' (Some ''a'')]"
    unfolding get_path_iff [OF r] by (simp add: branch_def assms(1) demo_note_def)
qed

theorem abandoned_is_divergence_witness:
  "\<exists>old target. abandoned_branch old target = [demo_note ''b'' (Some ''a'')] \<and> (\<exists>k. abandoned_branch old target = drop k old)"
proof -
  obtain st f where s: "sole demo_wire (st, f)" "st_entries st = [demo_note ''a'' None, demo_note ''b'' (Some ''a'')]"
    using demo_two_entries by blast
  have "abandoned_branch [demo_note ''a'' None, demo_note ''b'' (Some ''a'')] [demo_note ''a'' None] = [demo_note ''b'' (Some ''a'')]"
    by (simp add: abandoned_branch_def common_ancestor_def demo_note_def)
  then show ?thesis
    using abandoned_is_divergence [OF s(1) demo_path_a(2) [OF s(2,1)] demo_path_a(1) [OF s(2,1)]] by blast
qed

definition demo_navigate :: "(storage \<times> disk_file) navigate_env" where
  "demo_navigate =
     \<lparr>nt_backend = jsonl demo_wire, nt_harness = demo_env, nt_ask = (\<lambda>_ _. Inl RequestAborted),
       nt_hook = (\<lambda>_. \<lparr>th_cancel = False, th_custom_instructions = None, th_label = None, th_replace_instructions = None, th_summary = None\<rparr>),
       nt_stamp = (\<lambda>_. (''l'', 3)), nt_retry = \<lparr>rt_enabled = False, rt_max_retries = 0, rt_base_delay_ms = 0\<rparr>,
       nt_sleeps = (\<lambda>_. True), nt_reserve = 0, nt_show = (\<lambda>_. [])\<rparr>"

lemma restore_ok:
  "get_branch bk (hn_session h) = Inr path \<Longrightarrow> \<exists>h2. restore bk ev h = (Inr (), h2) \<and> hn_session h2 = hn_session h"
  by (simp add: restore_def build_session_context_def recover_boundary_def latest_compaction_timestamp_def context_entries_def
      restored_def Let_def)


end
