(* ===== verification/Agent_Types.thy ===== *)
theory Agent_Types
  imports Agent_Message
begin

text \<open>
  What the agent loop and the tool pipeline share (\<^verbatim>\<open>core/types.rs\<close>, \<^verbatim>\<open>core/tool.rs\<close>): events, tool results, tools, the
  context of a run and its configuration. \<open>'w\<close> is the world outside the run: whatever the sink, the tools, the
  provider, the hooks and the queues read and change. The stream options, the cache retention and the metadata of
  a context are only handed to the provider and are left out.
\<close>

section \<open>Effects\<close>

text \<open>\<^verbatim>\<open>f().await?\<close>: an error ends the function, the world keeps what was done.\<close>

type_synonym ('w, 'a) act = "'w \<Rightarrow> (str, 'a) result \<times> 'w"

definition and_then :: "('w, 'a) act \<Rightarrow> ('a \<Rightarrow> ('w, 'b) act) \<Rightarrow> ('w, 'b) act" where
  "and_then m f = (\<lambda>w. case m w of (Inl e, w') \<Rightarrow> (Inl e, w') | (Inr a, w') \<Rightarrow> f a w')"

definition done_with :: "'a \<Rightarrow> ('w, 'a) act" where
  "done_with a = (\<lambda>w. (Inr a, w))"

lemma and_then_Inr:
  "and_then m f w = (Inr b, w') \<longleftrightarrow> (\<exists>a w1. m w = (Inr a, w1) \<and> f a w1 = (Inr b, w'))"
  by (auto simp: and_then_def split: prod.splits sum.splits)

lemma done_with_Inr [simp]: "done_with a w = (Inr b, w') \<longleftrightarrow> b = a \<and> w' = w"
  by (auto simp: done_with_def)

section \<open>Tool results and events\<close>

record tool_output =
  to_content :: "content_block list"
  to_details :: "json option"
  to_is_error :: bool
  to_usage :: "token_usage option"
  to_added :: "str list option"
  to_terminate :: bool

definition output_text :: "str \<Rightarrow> tool_output" where
  "output_text t =
     \<lparr>to_content = [TextBlock t None], to_details = None, to_is_error = False, to_usage = None, to_added = None,
       to_terminate = False\<rparr>"

definition output_error :: "str \<Rightarrow> tool_output" where
  "output_error t = (output_text t)\<lparr>to_is_error := True\<rparr>"

datatype delta_event =
    TextStart nat
  | TextDelta nat str
  | TextEnd nat str
  | ThinkingStart nat
  | ThinkingDelta nat str
  | ThinkingEnd nat str
  | ToolCallStart nat
  | ToolCallDelta nat str
  | ToolCallEnd nat content_block

datatype agent_event =
    AgentStarted
  | TurnStarted
  | MessageStarted message
  | MessageUpdated message delta_event
  | MessageEnded message
  | ToolStarted str str json
  | ToolUpdated str str json json
  | ToolEnded str str tool_output bool
  | TurnEnded message "message list"
  | SendRetried nat nat nat str "str option"
  | AgentEnded "message list"

section \<open>Tools\<close>

datatype execution_mode = ParallelMode | SequentialMode

text \<open>How an execution settles: with a result, with the text of an error, or dropped because the run was cancelled.\<close>

datatype tool_outcome = ToolReturned tool_output | ToolFailed str | ToolDropped

text \<open>A tool: its schema is a validator (a third-party crate compiles it), its execution a step of the world with
  the reports it makes on the way.\<close>

record 'w tool =
  tl_name :: str
  tl_read_only :: bool
  tl_mode :: execution_mode
  tl_invalid :: "json \<Rightarrow> str option"
  tl_execute :: "str \<Rightarrow> json \<Rightarrow> 'w \<Rightarrow> (tool_outcome \<times> json list) \<times> 'w"

type_synonym call = "str \<times> str \<times> json"

section \<open>The context and the configuration of a run\<close>

record 'w run_context =
  ct_system_prompt :: str
  ct_messages :: "message list"
  ct_tools :: "'w tool list"
  ct_model :: model
  ct_thinking :: "str option"
  ct_session_id :: "str option"

record turn_update =
  tu_model :: model
  tu_thinking :: "str option"
  tu_tools :: "str list option"
  tu_messages :: "message list"

text \<open>A stream sends events and ends with a message, an error or a crash of its task.\<close>

datatype stream_end = StreamReturned message | StreamFailed str | StreamCrashed str

record 'w stream =
  sm_api :: str
  sm_run :: "'w run_context \<Rightarrow> 'w \<Rightarrow> (agent_event list \<times> stream_end) \<times> 'w"

text \<open>The callbacks of \<^verbatim>\<open>AgentLoopConfig\<close>, with the sink, the cancellation token, the clock, the printer of JSON and
  the fixed stream the loop is called with.\<close>

record 'w run_config =
  rc_emit :: "agent_event \<Rightarrow> ('w, unit) act"
  rc_cancelled :: "'w \<Rightarrow> bool"
  rc_now :: "'w \<Rightarrow> int"
  rc_json :: "json \<Rightarrow> str"
  rc_priority :: "'w \<Rightarrow> nat \<Rightarrow> nat"
  rc_stream :: "'w stream"
  rc_steering :: "('w \<Rightarrow> message list \<times> 'w) option"
  rc_follow_up :: "('w \<Rightarrow> message list \<times> 'w) option"
  rc_prepare :: "('w, turn_update option) act option"
  rc_resolver :: "(model \<Rightarrow> (str, 'w stream) result) option"
  rc_should_stop :: "(message \<Rightarrow> message list \<Rightarrow> 'w run_context \<Rightarrow> message list \<Rightarrow> bool) option"
  rc_before_tool :: "(str \<Rightarrow> str \<Rightarrow> json \<Rightarrow> str option) option"
  rc_after_tool :: "(tool_output \<Rightarrow> tool_output) option"
  rc_before_request :: "('w run_context \<Rightarrow> 'w run_context) option"
  rc_before_turn_end :: "(str list \<Rightarrow> str list \<Rightarrow> 'w \<Rightarrow> str option \<times> 'w) option"
  rc_max_bounces :: "nat option"
  rc_sequential :: bool
  rc_max_turns :: "nat option"

fun emit_all :: "'w run_config \<Rightarrow> agent_event list \<Rightarrow> ('w, unit) act" where
  "emit_all rc [] = done_with ()"
| "emit_all rc (e # es) = and_then (rc_emit rc e) (\<lambda>_. emit_all rc es)"

end
