(* ===== verification/Tool_Pipeline.thy ===== *)
theory Tool_Pipeline
  imports Agent_Types Hashline_Parser Path_Utils
begin

text \<open>
  The execution pipeline of a batch of tool calls (\<^verbatim>\<open>core/tool.rs\<close>): one call with its validation, hooks, execution
  and events, and the schedule of a batch by the paths its calls work on. The calls of one round run concurrently;
  they are taken here one after the other, in an order the world chooses.
\<close>

section \<open>One call\<close>

record executed =
  ec_id :: str
  ec_name :: str
  ec_result :: tool_output
  ec_message :: message
  ec_blocked :: bool
  ec_reason :: "str option"

definition make_tool_result_message :: "int \<Rightarrow> str \<Rightarrow> str \<Rightarrow> tool_output \<Rightarrow> message" where
  "make_tool_result_message now i name r =
     ToolResultMsg (ToolResult i name (to_content r) (to_is_error r) (to_details r) (to_usage r) (to_added r) now)"

definition executed_call :: "int \<Rightarrow> str \<Rightarrow> str \<Rightarrow> tool_output \<Rightarrow> str option \<Rightarrow> executed" where
  "executed_call now i name r reason =
     \<lparr>ec_id = i, ec_name = name, ec_result = r, ec_message = make_tool_result_message now i name r,
       ec_blocked = (reason \<noteq> None), ec_reason = reason\<rparr>"

text \<open>The tail of every branch: the message, the end event, the outcome.\<close>

definition settle_call :: "'w run_config \<Rightarrow> str \<Rightarrow> str \<Rightarrow> tool_output \<Rightarrow> str option \<Rightarrow> ('w, executed) act" where
  "settle_call rc i name r reason = (\<lambda>w.
     and_then (rc_emit rc (ToolEnded i name r (to_is_error r))) (\<lambda>_. done_with (executed_call (rc_now rc w) i name r reason)) w)"

definition CWD_REQUIRED_DOC :: str where
  "CWD_REQUIRED_DOC =
     ''cwd is required: pass [anchor, ...route] '' @ [CHR 0xE2, CHR 0x80, CHR 0x94]
     @ '' the first element is the session'' @ [CHR 0x27] @ ''s new anchor directory (\"\" keeps the current one; a relative anchor ''
     @ ''resolves against the current anchor, so use an absolute path to start from a known root), ''
     @ ''later elements locate this call without re-anchoring. Example: [\"~/projects/dspo/manox\", \"crates/manox-harness\"]''"

definition is_object :: "json \<Rightarrow> bool" where
  "is_object v = (case v of JObj _ \<Rightarrow> True | _ \<Rightarrow> False)"

definition invalid_arguments :: "json \<Rightarrow> str \<Rightarrow> str" where
  "invalid_arguments args e =
     ''Invalid arguments: ''
     @ (if json_get ''cwd'' args \<noteq> None \<and> \<not> cwd_is_shaped (json_get ''cwd'' args) then CWD_REQUIRED_DOC else e)"

text \<open>The progress reports are forwarded; a dead sink does not stop them.\<close>

fun forward_progress :: "'w run_config \<Rightarrow> call \<Rightarrow> json list \<Rightarrow> 'w \<Rightarrow> 'w" where
  "forward_progress rc c [] w = w"
| "forward_progress rc (i, name, args) (p # ps) w =
     forward_progress rc (i, name, args) ps (snd (rc_emit rc (ToolUpdated i name args p) w))"

definition outcome_result :: "tool_outcome \<Rightarrow> tool_output" where
  "outcome_result oc =
     (case oc of ToolReturned r \<Rightarrow> r | ToolFailed e \<Rightarrow> output_error e | ToolDropped \<Rightarrow> output_error ''aborted'')"

text \<open>The execution, behind all checks.\<close>

definition run_tool :: "'w run_config \<Rightarrow> 'w tool \<Rightarrow> call \<Rightarrow> ('w, executed) act" where
  "run_tool rc t c = (\<lambda>w. case c of (i, name, args) \<Rightarrow>
     (case tl_execute t i args w of ((oc, progress), w1) \<Rightarrow>
        let r = outcome_result oc;
            r' = (case rc_after_tool rc of Some f \<Rightarrow> f r | None \<Rightarrow> r) in
        settle_call rc i name r' None (forward_progress rc c progress w1)))"

text \<open>The checks in order; the cancellation is read after the start event.\<close>

definition call_refusal :: "'w run_config \<Rightarrow> 'w tool list \<Rightarrow> call \<Rightarrow> 'w \<Rightarrow> (tool_output \<times> str option) option" where
  "call_refusal rc tools c w = (case c of (i, name, args) \<Rightarrow>
     (case find (\<lambda>t. tl_name t = name) tools of
        None \<Rightarrow> Some (output_error (''Tool not found: '' @ name), None)
      | Some t \<Rightarrow>
          if \<not> is_object args
          then Some (output_error (''Invalid arguments: arguments must be a JSON object, got ''
            @ (if args = JNull then ''null'' else rc_json rc args)), None)
          else (case tl_invalid t args of
              Some e \<Rightarrow> Some (output_error (invalid_arguments args e), None)
            | None \<Rightarrow>
                (case Option.bind (rc_before_tool rc) (\<lambda>before. before i name args) of
                   Some reason \<Rightarrow> Some (output_error (''blocked: '' @ reason), Some reason)
                 | None \<Rightarrow> if rc_cancelled rc w then Some (output_error ''aborted'', None) else None))))"

definition execute_one :: "'w run_config \<Rightarrow> 'w tool list \<Rightarrow> call \<Rightarrow> ('w, executed) act" where
  "execute_one rc tools c = (case c of (i, name, args) \<Rightarrow>
     and_then (rc_emit rc (ToolStarted i name args)) (\<lambda>_ w.
       case call_refusal rc tools c w of
         Some (r, reason) \<Rightarrow> settle_call rc i name r reason w
       | None \<Rightarrow> run_tool rc (the (find (\<lambda>t. tl_name t = name) tools)) c w))"

section \<open>Dependencies\<close>

record call_meta =
  cm_read_only :: bool
  cm_conflicts :: bool
  cm_paths :: "str list"

definition paths_overlap :: "str list \<Rightarrow> str list \<Rightarrow> bool" where
  "paths_overlap ps qs \<longleftrightarrow> ps = [] \<or> qs = [] \<or> list_ex (\<lambda>p. list_ex (path_eq p) qs) ps"

definition should_depend :: "call_meta \<Rightarrow> call_meta \<Rightarrow> bool" where
  "should_depend a b =
     (if cm_conflicts b \<or> cm_conflicts a then True
      else if cm_read_only a \<and> cm_read_only b then False
      else if cm_paths a = [] \<and> cm_paths b = [] then True
      else paths_overlap (cm_paths a) (cm_paths b))"

definition path_argument :: "json \<Rightarrow> str list" where
  "path_argument params = (case Option.bind (json_get ''path'' params) as_str of Some p \<Rightarrow> [p] | None \<Rightarrow> [])"

definition extract_call_paths :: "str \<Rightarrow> json \<Rightarrow> str list" where
  "extract_call_paths name params =
     (if name = ''Write'' then path_argument params
      else if name = ''Edit''
      then (case Option.bind (json_get ''patch'' params) as_str of
          Some patch \<Rightarrow> (case parse_patch patch of Inr p \<Rightarrow> map fp_path (pp_files p) | Inl _ \<Rightarrow> [])
        | None \<Rightarrow> [])
      else if name \<in> {''Read'', ''Grep'', ''Glob'', ''Ls''} then path_argument params
      else [])"

definition meta_of :: "'w tool list \<Rightarrow> call \<Rightarrow> call_meta" where
  "meta_of tools c = (case c of (_, name, args) \<Rightarrow>
     let t = find (\<lambda>t. tl_name t = name) tools in
     \<lparr>cm_read_only = (case t of Some t \<Rightarrow> tl_read_only t | None \<Rightarrow> False),
       cm_conflicts = (case t of Some t \<Rightarrow> tl_mode t = SequentialMode | None \<Rightarrow> False),
       cm_paths = extract_call_paths name args\<rparr>)"

section \<open>A batch\<close>

fun execute_sequential :: "'w run_config \<Rightarrow> 'w tool list \<Rightarrow> call list \<Rightarrow> ('w, executed list) act" where
  "execute_sequential rc tools [] = done_with []"
| "execute_sequential rc tools (c # cs) =
     and_then (execute_one rc tools c) (\<lambda>e. and_then (execute_sequential rc tools cs) (\<lambda>es. done_with (e # es)))"

text \<open>One round of concurrent calls: each settles, then the first failure in the order of the round counts.\<close>

fun run_each :: "'w run_config \<Rightarrow> 'w tool list \<Rightarrow> call list \<Rightarrow> nat list \<Rightarrow> 'w \<Rightarrow> (nat \<times> (str, executed) result) list \<times> 'w" where
  "run_each rc tools calls [] w = ([], w)"
| "run_each rc tools calls (i # order) w =
     (case execute_one rc tools (calls ! i) w of (r, w1) \<Rightarrow>
        case run_each rc tools calls order w1 of (rs, w2) \<Rightarrow> ((i, r) # rs, w2))"

definition run_round :: "'w run_config \<Rightarrow> 'w tool list \<Rightarrow> call list \<Rightarrow> nat list \<Rightarrow> ('w, executed list) act" where
  "run_round rc tools calls ready = (\<lambda>w.
     case run_each rc tools calls (sort_key (rc_priority rc w) ready) w of (rs, w1) \<Rightarrow>
       (try_map (\<lambda>i. case map_of rs i of Some r \<Rightarrow> r | None \<Rightarrow> Inl []) ready, w1))"

definition execute_parallel :: "'w run_config \<Rightarrow> 'w tool list \<Rightarrow> call list \<Rightarrow> ('w, executed list) act" where
  "execute_parallel rc tools calls = run_round rc tools calls [0..<length calls]"

definition fill :: "nat list \<Rightarrow> 'a list \<Rightarrow> 'a option list \<Rightarrow> 'a option list" where
  "fill ready outs results =
     map (\<lambda>i. case map_of (zip ready outs) i of Some x \<Rightarrow> Some x | None \<Rightarrow> results ! i) [0..<length results]"

definition degrees :: "call_meta list \<Rightarrow> nat list" where
  "degrees ms = map (\<lambda>j. length (filter (\<lambda>i. should_depend (ms ! i) (ms ! j)) [0..<j])) [0..<length ms]"

definition lower_degrees :: "call_meta list \<Rightarrow> nat list \<Rightarrow> nat list \<Rightarrow> nat list" where
  "lower_degrees ms ready degs =
     map (\<lambda>j. degs ! j - length (filter (\<lambda>i. i < j \<and> should_depend (ms ! i) (ms ! j)) ready)) [0..<length degs]"

definition aborted_call :: "'w run_config \<Rightarrow> 'w \<Rightarrow> call \<Rightarrow> executed" where
  "aborted_call rc w c = (case c of (i, name, _) \<Rightarrow> executed_call (rc_now rc w) i name (output_error ''aborted'') None)"

definition abort_rest :: "'w run_config \<Rightarrow> 'w \<Rightarrow> call list \<Rightarrow> executed option list \<Rightarrow> executed list" where
  "abort_rest rc w calls results =
     map (\<lambda>i. case results ! i of Some e \<Rightarrow> e | None \<Rightarrow> aborted_call rc w (calls ! i)) [0..<length results]"

definition ready_calls :: "executed option list \<Rightarrow> nat list \<Rightarrow> nat list" where
  "ready_calls results degs = filter (\<lambda>i. results ! i = None \<and> degs ! i = 0) [0..<length results]"

definition open_calls :: "executed option list \<Rightarrow> nat" where
  "open_calls results = length (filter (\<lambda>r. r = None) results)"

lemma run_each_fst: "map fst (fst (run_each rc tools calls order w)) = order"
  by (induction rc tools calls order w rule: run_each.induct) (auto split: prod.splits)

lemma run_round_length: "run_round rc tools calls ready w = (Inr outs, w') \<Longrightarrow> length outs = length ready"
  by (auto simp: run_round_def try_map_Inr_iff split: prod.splits dest: list_all2_lengthD)

lemma open_calls_fill:
  assumes "length outs = length ready" "ready \<noteq> []" "set ready \<subseteq> {i. i < length results \<and> results ! i = None}"
  shows "open_calls (fill ready outs results) < open_calls results"
proof -
  have eq: "open_calls rs = card {i. i < length rs \<and> rs ! i = None}" for rs
    by (simp add: open_calls_def length_filter_conv_card)
  have mem: "map_of (zip ready outs) i = None \<longleftrightarrow> i \<notin> set ready" for i
    using assms(1) by (simp add: map_of_zip_is_None)
  have "{i. i < length (fill ready outs results) \<and> fill ready outs results ! i = None}
      = {i. i < length results \<and> results ! i = None} - set ready"
    using mem by (auto simp: fill_def split: option.splits)
  moreover have "{i. i < length results \<and> results ! i = None} - set ready \<subset> {i. i < length results \<and> results ! i = None}"
    using assms(2,3) by (cases ready) auto
  ultimately show ?thesis unfolding eq by (simp add: psubset_card_mono)
qed

text \<open>The rounds of the scheduler.\<close>

function kahn ::
  "'w run_config \<Rightarrow> 'w tool list \<Rightarrow> call list \<Rightarrow> call_meta list \<Rightarrow> executed option list \<Rightarrow> nat list \<Rightarrow> ('w, executed list) act" where
  "kahn rc tools calls ms results degs w =
     (if list_all (\<lambda>r. r \<noteq> None) results then (Inr (map the results), w)
      else let ready = ready_calls results degs in
        if ready = [] then execute_sequential rc tools calls w
        else if rc_cancelled rc w then (Inr (abort_rest rc w calls results), w)
        else case run_round rc tools calls ready w of
            (Inl e, w1) \<Rightarrow> (Inl e, w1)
          | (Inr outs, w1) \<Rightarrow> kahn rc tools calls ms (fill ready outs results) (lower_degrees ms ready degs) w1)"
  by pat_completeness auto
termination
  by (relation "measure (\<lambda>(rc, tools, calls, ms, results, degs, w). open_calls results)")
    (auto intro!: open_calls_fill dest: run_round_length [OF sym] simp: ready_calls_def)

declare kahn.simps [simp del]

definition execute_tool_calls :: "'w run_config \<Rightarrow> 'w tool list \<Rightarrow> call list \<Rightarrow> ('w, executed list \<times> message list) act" where
  "execute_tool_calls rc tools calls =
     and_then
       (if rc_sequential rc then execute_sequential rc tools calls
        else if length calls \<le> 1 then execute_parallel rc tools calls
        else let ms = map (meta_of tools) calls in
          kahn rc tools calls ms (replicate (length calls) None) (degrees ms))
       (\<lambda>es. done_with (es, map ec_message es))"

end
