(* ===== verification/Tool_Schedule.thy ===== *)
theory Tool_Schedule
  imports Tool_Pipeline
begin

text \<open>
  What the pipeline guarantees: every call is answered once and in order, and the rounds of a batch are the levels
  of its dependencies, so calls that conflict run one after the other as they were emitted.
\<close>

section \<open>Answers\<close>

definition answers_call :: "call \<Rightarrow> executed \<Rightarrow> bool" where
  "answers_call c e \<longleftrightarrow>
     ec_id e = fst c \<and> ec_name e = fst (snd c)
     \<and> (\<exists>now. ec_message e = make_tool_result_message now (fst c) (fst (snd c)) (ec_result e))"

lemma answers_executed [simp]: "answers_call (i, name, args) (executed_call now i name r reason)"
  by (auto simp: answers_call_def executed_call_def)

lemma settle_call_Inr:
  "settle_call rc i name r reason w = (Inr e, w') \<Longrightarrow> \<exists>now. e = executed_call now i name r reason"
  by (auto simp: settle_call_def and_then_Inr)

lemma execute_one_answers:
  assumes "execute_one rc tools c w = (Inr e, w')"
  shows "answers_call c e"
proof -
  obtain i name args where c: "c = (i, name, args)" by (metis prod_cases3)
  have "\<exists>now r reason. e = executed_call now i name r reason"
    using assms unfolding c
    by (auto simp: execute_one_def and_then_Inr run_tool_def Let_def split: option.splits prod.splits dest!: settle_call_Inr) blast+
  then show ?thesis unfolding c by auto
qed

lemma execute_sequential_answers:
  "execute_sequential rc tools calls w = (Inr es, w') \<Longrightarrow> list_all2 answers_call calls es"
proof (induction rc tools calls arbitrary: w es w' rule: execute_sequential.induct)
  case (2 rc tools c cs)
  then show ?case by (auto simp: and_then_Inr dest: execute_one_answers)
qed simp

lemma run_each_answers:
  "\<lbrakk>run_each rc tools calls order w = (rs, w'); (i, Inr e) \<in> set rs\<rbrakk> \<Longrightarrow> answers_call (calls ! i) e"
proof (induction rc tools calls order w arbitrary: rs w' rule: run_each.induct)
  case (2 rc tools calls j order w)
  then show ?case by (auto split: prod.splits dest: execute_one_answers)
qed simp

lemma run_round_answers:
  assumes "run_round rc tools calls ready w = (Inr outs, w')"
  shows "list_all2 (\<lambda>i e. answers_call (calls ! i) e) ready outs"
proof -
  obtain rs where rs: "run_each rc tools calls (sort_key (rc_priority rc w) ready) w = (rs, w')"
    "list_all2 (\<lambda>i e. (case map_of rs i of Some r \<Rightarrow> r | None \<Rightarrow> Inl []) = Inr e) ready outs"
    using assms by (auto simp: run_round_def try_map_Inr_iff split: prod.splits)
  show ?thesis
    using rs(2) by (rule list_all2_mono) (auto split: option.splits dest!: map_of_SomeD run_each_answers [OF rs(1)])
qed

text \<open>The results found so far are answers.\<close>

definition answered :: "call list \<Rightarrow> executed option list \<Rightarrow> bool" where
  "answered calls results \<longleftrightarrow>
     length results = length calls \<and> (\<forall>i < length calls. \<forall>e. results ! i = Some e \<longrightarrow> answers_call (calls ! i) e)"

lemma fill_length [simp]: "length (fill ready outs results) = length results"
  by (simp add: fill_def)

lemma answered_fill:
  assumes "answered calls results" "list_all2 (\<lambda>i e. answers_call (calls ! i) e) ready outs"
  shows "answered calls (fill ready outs results)"
proof -
  have "answers_call (calls ! i) e" if "map_of (zip ready outs) i = Some e" for i e
    using assms(2) map_of_SomeD [OF that] by (auto simp: list_all2_iff)
  then show ?thesis using assms(1) by (auto simp: answered_def fill_def split: option.splits)
qed

lemma answered_all:
  assumes "answered calls results" "list_all (\<lambda>r. r \<noteq> None) results"
  shows "list_all2 answers_call calls (map the results)"
proof (rule list_all2_all_nthI)
  show "length calls = length (map the results)" using assms(1) by (simp add: answered_def)
  fix i assume i: "i < length calls"
  then obtain e where "results ! i = Some e" using assms by (auto simp: answered_def list_all_length)
  then show "answers_call (calls ! i) (map the results ! i)" using assms(1) i by (simp add: answered_def)
qed

lemma answered_abort:
  assumes "answered calls results"
  shows "list_all2 answers_call calls (abort_rest rc w calls results)"
  using assms
  by (auto simp: list_all2_conv_all_nth answered_def abort_rest_def aborted_call_def split: option.splits prod.splits)

lemma kahn_answers:
  "\<lbrakk>kahn rc tools calls ms results degs w = (Inr es, w'); answered calls results\<rbrakk> \<Longrightarrow> list_all2 answers_call calls es"
proof (induction rc tools calls ms results degs w rule: kahn.induct)
  case (1 rc tools calls ms results degs w)
  show ?case
  proof (cases "list_all (\<lambda>r. r \<noteq> None) results")
    case True
    then have "es = map the results" using 1(2) by (subst (asm) kahn.simps) simp
    then show ?thesis using answered_all [OF 1(3) True] by simp
  next
    case open_: False
    show ?thesis
    proof (cases "ready_calls results degs = [] \<or> rc_cancelled rc w")
      case True
      then show ?thesis using 1(2,3) open_ execute_sequential_answers answered_abort
        by (subst (asm) kahn.simps) (auto simp: Let_def split: if_splits)
    next
      case False
      then obtain outs w1 where o: "run_round rc tools calls (ready_calls results degs) w = (Inr outs, w1)"
        "kahn rc tools calls ms (fill (ready_calls results degs) outs results)
           (lower_degrees ms (ready_calls results degs) degs) w1 = (Inr es, w')"
        using 1(2) open_ by (subst (asm) kahn.simps) (auto simp: Let_def split: prod.splits sum.splits)
      have "answered calls (fill (ready_calls results degs) outs results)"
        by (rule answered_fill [OF 1(3) run_round_answers [OF o(1)]])
      then show ?thesis using 1(1) [OF open_ refl] False o by simp
    qed
  qed
qed

section \<open>Levels\<close>

text \<open>The level of a call is the length of the longest chain of conflicts before it.\<close>

fun level :: "call_meta list \<Rightarrow> nat \<Rightarrow> nat" where
  "level ms j = Max (set (0 # map (\<lambda>i. Suc (level ms i)) (filter (\<lambda>i. should_depend (ms ! i) (ms ! j)) [0..<j])))"

declare level.simps [simp del]

lemma level_le_iff:
  "level ms j \<le> k \<longleftrightarrow> (\<forall>i < j. should_depend (ms ! i) (ms ! j) \<longrightarrow> level ms i < k)"
  by (subst level.simps) auto

lemma level_less: "\<lbrakk>i < j; should_depend (ms ! i) (ms ! j)\<rbrakk> \<Longrightarrow> level ms i < level ms j"
  using level_le_iff [of ms j "level ms j"] by blast

definition height :: "call_meta list \<Rightarrow> nat" where
  "height ms = Max (set (0 # map (\<lambda>i. Suc (level ms i)) [0..<length ms]))"

lemma height_less_iff: "k < height ms \<longleftrightarrow> (\<exists>i < length ms. k \<le> level ms i)"
proof -
  have "height ms \<le> k \<longleftrightarrow> (\<forall>i < length ms. level ms i < k)" by (auto simp: height_def Suc_le_eq)
  then show ?thesis by (meson leD leI)
qed

definition layer :: "call_meta list \<Rightarrow> nat \<Rightarrow> nat list" where
  "layer ms k = filter (\<lambda>i. level ms i = k) [0..<length ms]"

definition layers :: "call_meta list \<Rightarrow> nat list list" where
  "layers ms = map (layer ms) [0..<height ms]"

text \<open>The reference: layer after layer, unless the run is cancelled.\<close>

fun run_layers ::
  "'w run_config \<Rightarrow> 'w tool list \<Rightarrow> call list \<Rightarrow> nat list list \<Rightarrow> executed option list \<Rightarrow> ('w, executed list) act" where
  "run_layers rc tools calls [] results w = (Inr (map the results), w)"
| "run_layers rc tools calls (l # ls) results w =
     (if rc_cancelled rc w then (Inr (abort_rest rc w calls results), w)
      else case run_round rc tools calls l w of
          (Inl e, w1) \<Rightarrow> (Inl e, w1)
        | (Inr outs, w1) \<Rightarrow> run_layers rc tools calls ls (fill l outs results) w1)"

text \<open>At the start of round \<open>k\<close> exactly the calls below level \<open>k\<close> are done, and a degree counts the open
  predecessors.\<close>

definition at_round :: "call_meta list \<Rightarrow> nat \<Rightarrow> executed option list \<Rightarrow> nat list \<Rightarrow> bool" where
  "at_round ms k results degs \<longleftrightarrow>
     length results = length ms \<and> length degs = length ms
     \<and> (\<forall>i < length ms. results ! i \<noteq> None \<longleftrightarrow> level ms i < k)
     \<and> (\<forall>j < length ms. degs ! j = length (filter (\<lambda>i. should_depend (ms ! i) (ms ! j) \<and> k \<le> level ms i) [0..<j]))"

lemma at_round_ready:
  assumes "at_round ms k results degs"
  shows "ready_calls results degs = layer ms k"
proof -
  have "results ! i = None \<and> degs ! i = 0 \<longleftrightarrow> level ms i = k" if i: "i < length ms" for i
  proof -
    have "degs ! i = 0 \<longleftrightarrow> level ms i \<le> k"
      using assms i unfolding level_le_iff by (auto simp: at_round_def filter_empty_conv not_le)
    then show ?thesis using assms i by (auto simp: at_round_def)
  qed
  moreover have "length results = length ms" using assms by (simp add: at_round_def)
  ultimately show ?thesis unfolding ready_calls_def layer_def by (intro filter_cong) auto
qed

lemma length_filter_split:
  "length (filter P xs) = length (filter (\<lambda>x. P x \<and> Q x) xs) + length (filter (\<lambda>x. P x \<and> \<not> Q x) xs)"
  by (induction xs) auto

lemma at_round_next:
  assumes "at_round ms k results degs" "length outs = length (layer ms k)"
  shows "at_round ms (Suc k) (fill (layer ms k) outs results) (lower_degrees ms (layer ms k) degs)"
proof -
  have m: "map_of (zip (layer ms k) outs) i = None \<longleftrightarrow> i \<notin> set (layer ms k)" for i
    using assms(2) by (simp add: map_of_zip_is_None)
  have r: "fill (layer ms k) outs results ! i \<noteq> None \<longleftrightarrow> level ms i < Suc k" if "i < length ms" for i
    using assms(1) that m [of i] by (auto simp: at_round_def fill_def layer_def split: option.splits)
  have d: "lower_degrees ms (layer ms k) degs ! j
      = length (filter (\<lambda>i. should_depend (ms ! i) (ms ! j) \<and> Suc k \<le> level ms i) [0..<j])" if j: "j < length ms" for j
  proof -
    let ?dep = "\<lambda>i. should_depend (ms ! i) (ms ! j)"
    have "filter (\<lambda>i. i < j \<and> ?dep i) (layer ms k) = filter (\<lambda>i. ?dep i \<and> level ms i = k) [0..<j]"
    proof -
      have "[0..<length ms] = [0..<j] @ [j..<length ms]" using j upt_add_eq_append [of 0 j "length ms - j"] by simp
      then show ?thesis by (auto simp: layer_def filter_empty_conv intro!: filter_cong)
    qed
    moreover have "degs ! j = length (filter (\<lambda>i. ?dep i \<and> level ms i = k) [0..<j])
        + length (filter (\<lambda>i. ?dep i \<and> Suc k \<le> level ms i) [0..<j])"
    proof -
      have "degs ! j = length (filter (\<lambda>i. ?dep i \<and> k \<le> level ms i) [0..<j])" using assms(1) j by (simp add: at_round_def)
      also have "\<dots> = length (filter (\<lambda>i. (?dep i \<and> k \<le> level ms i) \<and> level ms i = k) [0..<j])
          + length (filter (\<lambda>i. (?dep i \<and> k \<le> level ms i) \<and> level ms i \<noteq> k) [0..<j])"
        by (rule length_filter_split)
      also have "filter (\<lambda>i. (?dep i \<and> k \<le> level ms i) \<and> level ms i = k) [0..<j] = filter (\<lambda>i. ?dep i \<and> level ms i = k) [0..<j]"
        by (rule filter_cong) auto
      also have "filter (\<lambda>i. (?dep i \<and> k \<le> level ms i) \<and> level ms i \<noteq> k) [0..<j]
          = filter (\<lambda>i. ?dep i \<and> Suc k \<le> level ms i) [0..<j]"
        by (rule filter_cong) auto
      finally show ?thesis .
    qed
    ultimately show ?thesis using assms(1) j by (simp add: lower_degrees_def at_round_def)
  qed
  show ?thesis using assms(1) r d by (simp add: at_round_def lower_degrees_def)
qed

lemma layer_nonempty:
  assumes "at_round ms k results degs" "\<not> list_all (\<lambda>r. r \<noteq> None) results"
  shows "layer ms k \<noteq> []"
proof -
  obtain j where j: "j < length ms \<and> results ! j = None"
    using assms by (auto simp: list_all_length at_round_def)
  define m where "m = (LEAST j. j < length ms \<and> results ! j = None)"
  have m: "m < length ms" "results ! m = None" using LeastI [of "\<lambda>j. j < length ms \<and> results ! j = None", OF j] by (simp_all add: m_def)
  have "results ! i \<noteq> None" if "i < m" for i
    using not_less_Least [of i "\<lambda>j. j < length ms \<and> results ! j = None"] that m(1) by (simp add: m_def)
  then have "level ms m \<le> k" unfolding level_le_iff using assms(1) m(1) by (auto simp: at_round_def)
  moreover have "k \<le> level ms m" using assms(1) m by (auto simp: at_round_def not_less [symmetric])
  ultimately show ?thesis using m(1) by (auto simp: layer_def filter_empty_conv)
qed

lemma all_done_iff:
  assumes "at_round ms k results degs"
  shows "list_all (\<lambda>r. r \<noteq> None) results \<longleftrightarrow> \<not> k < height ms"
  using assms unfolding height_less_iff by (auto simp: at_round_def list_all_length not_le)

lemma kahn_layers:
  "at_round ms k results degs \<Longrightarrow>
     kahn rc tools calls ms results degs w = run_layers rc tools calls (map (layer ms) [k..<height ms]) results w"
proof (induction rc tools calls ms results degs w arbitrary: k rule: kahn.induct)
  case (1 rc tools calls ms results degs w)
  show ?case
  proof (cases "list_all (\<lambda>r. r \<noteq> None) results")
    case True
    then have u: "[k..<height ms] = []" using all_done_iff [OF 1(2)] by simp
    show ?thesis unfolding u using True by (subst kahn.simps) simp
  next
    case open_: False
    then have u: "[k..<height ms] = k # [Suc k..<height ms]" using all_done_iff [OF 1(2)] by (simp add: upt_conv_Cons)
    have ready: "ready_calls results degs = layer ms k" "layer ms k \<noteq> []"
      using at_round_ready [OF 1(2)] layer_nonempty [OF 1(2) open_] by auto
    show ?thesis
    proof (cases "rc_cancelled rc w")
      case True
      then show ?thesis using open_ ready u by (subst kahn.simps) simp
    next
      case False
      obtain r w1 where rr: "run_round rc tools calls (layer ms k) w = (r, w1)" by fastforce
      show ?thesis
      proof (cases r)
        case (Inl e)
        then show ?thesis using open_ ready u False rr by (subst kahn.simps) simp
      next
        case (Inr outs)
        have next_: "at_round ms (Suc k) (fill (layer ms k) outs results) (lower_degrees ms (layer ms k) degs)"
          using run_round_length [of rc tools calls "layer ms k" w outs w1] rr Inr by (intro at_round_next [OF 1(2)]) simp
        have "kahn rc tools calls ms (fill (layer ms k) outs results) (lower_degrees ms (layer ms k) degs) w1
            = run_layers rc tools calls (map (layer ms) [Suc k..<height ms]) (fill (layer ms k) outs results) w1"
          using 1(1) [OF open_ refl _ False] ready rr Inr next_ by simp
        then show ?thesis using open_ ready u False rr Inr by (subst kahn.simps) simp
      qed
    qed
  qed
qed

lemma at_round_start: "at_round ms 0 (replicate (length ms) None) (degrees ms)"
  by (auto simp: at_round_def degrees_def)

section \<open>A sink that accepts every event\<close>

definition sink_ok :: "'w run_config \<Rightarrow> bool" where
  "sink_ok rc \<longleftrightarrow> (\<forall>e w. fst (rc_emit rc e w) = Inr ())"

lemma sink_okE:
  assumes "sink_ok rc"
  obtains w' where "rc_emit rc e w = (Inr (), w')"
  using assms unfolding sink_ok_def by (metis prod.collapse)

lemma settle_call_total: "sink_ok rc \<Longrightarrow> \<exists>e w'. settle_call rc i name r reason w = (Inr e, w')"
  by (erule sink_okE [of rc "ToolEnded i name r (to_is_error r)" w]) (auto simp: settle_call_def and_then_def done_with_def)

lemma execute_one_total:
  assumes "sink_ok rc"
  shows "\<exists>e w'. execute_one rc tools c w = (Inr e, w')"
proof -
  obtain i name args where c: "c = (i, name, args)" by (metis prod_cases3)
  obtain w1 where s: "rc_emit rc (ToolStarted i name args) w = (Inr (), w1)" using sink_okE [OF assms] .
  have "\<exists>e w'. run_tool rc (the (find (\<lambda>t. tl_name t = name) tools)) c w1 = (Inr e, w')"
    using settle_call_total [OF assms] by (auto simp: run_tool_def Let_def c split: prod.splits)
  then show ?thesis using settle_call_total [OF assms] s
    by (auto simp: execute_one_def c and_then_def split: option.splits prod.splits)
qed

lemma execute_sequential_total: "sink_ok rc \<Longrightarrow> \<exists>es w'. execute_sequential rc tools calls w = (Inr es, w')"
proof (induction calls arbitrary: w)
  case (Cons c cs)
  obtain e w1 where e: "execute_one rc tools c w = (Inr e, w1)" using execute_one_total [OF Cons.prems] by blast
  obtain es w2 where "execute_sequential rc tools cs w1 = (Inr es, w2)" using Cons by blast
  then show ?case using e by (simp add: and_then_def done_with_def)
qed (simp add: done_with_def)

lemma run_each_total:
  "\<lbrakk>sink_ok rc; run_each rc tools calls order w = (rs, w'); x \<in> set rs\<rbrakk> \<Longrightarrow> \<exists>e. snd x = Inr e"
proof (induction rc tools calls order w arbitrary: rs w' rule: run_each.induct)
  case (2 rc tools calls i order w)
  obtain e w1 where "execute_one rc tools (calls ! i) w = (Inr e, w1)" using execute_one_total [OF 2(2)] by blast
  then show ?case using 2 by (fastforce split: prod.splits)
qed simp

lemma run_round_total:
  assumes "sink_ok rc"
  shows "\<exists>outs w'. run_round rc tools calls ready w = (Inr outs, w')"
proof -
  obtain rs w' where rs: "run_each rc tools calls (sort_key (rc_priority rc w) ready) w = (rs, w')" by fastforce
  have "\<exists>e. (case map_of rs i of Some r \<Rightarrow> r | None \<Rightarrow> Inl []) = Inr e" if "i \<in> set ready" for i
  proof -
    have "i \<in> fst ` set rs" using that run_each_fst [of rc tools calls "sort_key (rc_priority rc w) ready" w] rs
      by (metis fst_conv list.set_map set_sort)
    then obtain r where r: "map_of rs i = Some r" by (metis domD dom_map_of_conv_image_fst)
    then show ?thesis using run_each_total [OF assms rs map_of_SomeD [OF r]] by auto
  qed
  then obtain outs where "try_map (\<lambda>i. case map_of rs i of Some r \<Rightarrow> r | None \<Rightarrow> Inl []) ready = Inr outs"
    using try_map_Inr_iff_all [of "\<lambda>i. case map_of rs i of Some r \<Rightarrow> r | None \<Rightarrow> Inl []" ready] by blast
  then show ?thesis using rs by (simp add: run_round_def)
qed

lemma run_layers_total: "sink_ok rc \<Longrightarrow> \<exists>es w'. run_layers rc tools calls ls results w = (Inr es, w')"
proof (induction ls arbitrary: results w)
  case (Cons l ls)
  obtain outs w1 where "run_round rc tools calls l w = (Inr outs, w1)" using run_round_total [OF Cons.prems] by blast
  then show ?case using Cons by simp
qed simp

section \<open>The batch\<close>

lemma batch_layers:
  assumes "\<not> rc_sequential rc" "1 < length calls"
  shows "execute_tool_calls rc tools calls
    = and_then (run_layers rc tools calls (layers (map (meta_of tools) calls)) (replicate (length calls) None))
        (\<lambda>es. done_with (es, map ec_message es))"
proof -
  let ?ms = "map (meta_of tools) calls"
  have "kahn rc tools calls ?ms (replicate (length calls) None) (degrees ?ms)
      = run_layers rc tools calls (layers ?ms) (replicate (length calls) None)"
    by (intro ext) (simp add: layers_def kahn_layers [OF at_round_start [of ?ms], simplified])
  then show ?thesis using assms by (simp add: execute_tool_calls_def Let_def)
qed

lemma and_then_total:
  "\<exists>a w1. m w = (Inr a, w1) \<Longrightarrow> \<exists>a w1. and_then m (\<lambda>a. done_with (f a)) w = (Inr (f a), w1)"
  by (auto simp: and_then_def done_with_def)

lemma batch_total:
  assumes "sink_ok rc"
  shows "\<exists>es w'. execute_tool_calls rc tools calls w = (Inr (es, map ec_message es), w')"
proof (cases "rc_sequential rc \<or> length calls \<le> 1")
  case True
  then show ?thesis
    unfolding execute_tool_calls_def execute_parallel_def
    using execute_sequential_total [OF assms, of tools calls w] run_round_total [OF assms, of tools calls "[0..<length calls]" w]
    by (intro and_then_total) auto
next
  case False
  then have c: "\<not> rc_sequential rc" "1 < length calls" by auto
  show ?thesis unfolding batch_layers [OF c] using run_layers_total [OF assms] by (intro and_then_total) blast
qed

lemma layers_nth: "k < length (layers ms) \<Longrightarrow> layers ms ! k = layer ms k"
  by (simp add: layers_def)

lemma layers_order:
  assumes "i < j" "j < length ms" "should_depend (ms ! i) (ms ! j)"
  shows "\<exists>a b. a < b \<and> b < length (layers ms) \<and> i \<in> set (layers ms ! a) \<and> j \<in> set (layers ms ! b)"
proof -
  have l: "level ms i < level ms j" using level_less assms(1,3) .
  have h: "level ms j < height ms" unfolding height_less_iff using assms(2) by blast
  then show ?thesis using l assms
    by (intro exI [of _ "level ms i"] exI [of _ "level ms j"]) (auto simp: layers_def layer_def)
qed

lemma layers_below: "mset (concat (map (layer ms) [0..<k])) = mset (filter (\<lambda>i. level ms i < k) [0..<length ms])"
proof (induction k)
  case (Suc k)
  have step: "mset (filter (\<lambda>i. level ms i < Suc k) xs) = mset (filter (\<lambda>i. level ms i < k) xs) + mset (filter (\<lambda>i. level ms i = k) xs)" for xs
    by (induction xs) (auto simp: less_Suc_eq)
  have "mset (concat (map (layer ms) [0..<Suc k])) = mset (concat (map (layer ms) [0..<k])) + mset (layer ms k)" by simp
  also have "\<dots> = mset (filter (\<lambda>i. level ms i < Suc k) [0..<length ms])" unfolding Suc layer_def by (rule step [symmetric])
  finally show ?case .
qed simp

lemma layers_all: "mset (concat (layers ms)) = mset [0..<length ms]"
proof -
  have "filter (\<lambda>i. level ms i < height ms) [0..<length ms] = [0..<length ms]"
    using height_less_iff [of _ ms] by (auto simp: filter_id_conv)
  then show ?thesis unfolding layers_def layers_below by simp
qed

text \<open>A batch that succeeds answers every call exactly once, in the order of the calls, under its id and name, with the
  message made of its result.\<close>

lemma batch_answered:
  assumes "execute_tool_calls rc tools calls w = (Inr (es, ms), w')"
  shows "list_all2 answers_call calls es \<and> ms = map ec_message es"
proof -
  have "answered calls (replicate (length calls) None)" by (simp add: answered_def)
  moreover have "list_all2 answers_call calls es" if "execute_parallel rc tools calls w = (Inr es, w')" for w'
    using run_round_answers [OF that [unfolded execute_parallel_def]] by (auto simp: list_all2_conv_all_nth)
  ultimately show ?thesis
    using assms
    by (auto simp: execute_tool_calls_def and_then_Inr Let_def intro: execute_sequential_answers kahn_answers split: if_splits)
qed

text \<open>C30: A batch of several calls runs its layers in turn: every call is in exactly one layer, and two calls that conflict
  are in different layers, the earlier call in the earlier one.\<close>

theorem conflicts_run_in_order:
  assumes "\<not> rc_sequential rc" and "1 < length calls" and "ms = map (meta_of tools) calls"
  shows "execute_tool_calls rc tools calls
      = and_then (run_layers rc tools calls (layers ms) (replicate (length calls) None)) (\<lambda>es. done_with (es, map ec_message es))
    \<and> mset (concat (layers ms)) = mset [0..<length calls]
    \<and> (\<forall>i j. i < j \<and> j < length calls \<and> should_depend (ms ! i) (ms ! j)
        \<longrightarrow> (\<exists>a b. a < b \<and> b < length (layers ms) \<and> i \<in> set (layers ms ! a) \<and> j \<in> set (layers ms ! b)))"
proof -
  have len: "length ms = length calls" using assms(3) by simp
  show ?thesis
    using batch_layers [OF assms(1,2), of tools] layers_all [of ms] layers_order [of _ _ ms] unfolding len assms(3) [symmetric] by blast
qed

section \<open>Concrete batches\<close>

text \<open>A world that is the log of the events, and a tool that returns its own name.\<close>

definition demo_tool :: "str \<Rightarrow> bool \<Rightarrow> agent_event list tool" where
  "demo_tool name read_only =
     \<lparr>tl_name = name, tl_read_only = read_only, tl_mode = ParallelMode, tl_invalid = (\<lambda>_. None),
       tl_execute = (\<lambda>_ _ w. ((ToolReturned (output_text name), []), w))\<rparr>"

definition demo_run :: "agent_event list stream \<Rightarrow> agent_event list run_config" where
  "demo_run sm =
     \<lparr>rc_emit = (\<lambda>e w. (Inr (), w @ [e])), rc_cancelled = (\<lambda>_. False), rc_now = (\<lambda>_. 0), rc_json = (\<lambda>_. []),
       rc_priority = (\<lambda>_ i. i), rc_stream = sm, rc_steering = None, rc_follow_up = None, rc_prepare = None, rc_resolver = None,
       rc_should_stop = None, rc_before_tool = None, rc_after_tool = None, rc_before_request = None, rc_before_turn_end = None,
       rc_max_bounces = None, rc_sequential = False, rc_max_turns = None\<rparr>"

definition no_stream :: "agent_event list stream" where
  "no_stream = \<lparr>sm_api = [], sm_run = (\<lambda>_ w. (([], StreamFailed []), w))\<rparr>"

definition demo_call :: "str \<Rightarrow> str \<Rightarrow> str \<Rightarrow> call" where
  "demo_call i name p = (i, name, JObj [(''path'', JStr p)])"

definition demo_batch :: "call list" where
  "demo_batch = [demo_call ''1'' ''Write'' ''a'', demo_call ''2'' ''Read'' ''b'', demo_call ''3'' ''Read'' ''a'']"

definition demo_tools :: "agent_event list tool list" where
  "demo_tools = [demo_tool ''Write'' False, demo_tool ''Read'' True]"

lemma demo_sink: "sink_ok (demo_run sm)"
  by (simp add: sink_ok_def demo_run_def)

lemma demo_metas:
  "map (meta_of demo_tools) demo_batch =
     [\<lparr>cm_read_only = False, cm_conflicts = False, cm_paths = [''a'']\<rparr>,
      \<lparr>cm_read_only = True, cm_conflicts = False, cm_paths = [''b'']\<rparr>,
      \<lparr>cm_read_only = True, cm_conflicts = False, cm_paths = [''a'']\<rparr>]"
  by (simp add: demo_tools_def demo_batch_def demo_tool_def demo_call_def meta_of_def extract_call_paths_def path_argument_def
      Let_def)

theorem conflicts_run_in_order_witness:
  "\<exists>a b. a < b \<and> b < length (layers (map (meta_of demo_tools) demo_batch))
     \<and> 0 \<in> set (layers (map (meta_of demo_tools) demo_batch) ! a)
     \<and> 2 \<in> set (layers (map (meta_of demo_tools) demo_batch) ! b)"
proof -
  have c: "\<not> rc_sequential (demo_run no_stream)" "1 < length demo_batch" by (simp_all add: demo_run_def demo_batch_def)
  have d: "should_depend (map (meta_of demo_tools) demo_batch ! 0) (map (meta_of demo_tools) demo_batch ! 2)"
    unfolding demo_metas by (simp add: should_depend_def paths_overlap_def numeral_2_eq_2)
  have "0 < (2 :: nat) \<and> 2 < length demo_batch \<and> should_depend (map (meta_of demo_tools) demo_batch ! 0) (map (meta_of demo_tools) demo_batch ! 2)"
    using d by (simp add: demo_batch_def)
  then show ?thesis using conflicts_run_in_order [OF c refl, of demo_tools] by blast
qed

text \<open>Two spellings of one file do not conflict: a write and a read behind it can run at once.\<close>

lemma spellings_do_not_conflict:
  "\<not> should_depend (meta_of demo_tools (demo_call ''1'' ''Write'' ''a'')) (meta_of demo_tools (demo_call ''2'' ''Read'' ''./a''))"
proof -
  have "\<not> path_eq ''a'' ''./a''" by code_simp
  then show ?thesis
    by (simp add: demo_tools_def demo_tool_def demo_call_def meta_of_def extract_call_paths_def path_argument_def Let_def
        should_depend_def paths_overlap_def)
qed

end
