(* ===== verification/Agent_Loop.thy ===== *)
theory Agent_Loop
  imports Tool_Schedule Transcript
begin

text \<open>
  The agent loop (\<^verbatim>\<open>core/agent_loop.rs\<close>): a run streams an assistant turn, executes its tool calls, applies the
  update for the next turn and polls the queues, until the turn ends on its own, fails, is cancelled or hits a limit.
  A run may go on for ever, so the loop has fuel. An error of the sink ends a run where it stands.
\<close>

section \<open>Messages of a run\<close>

definition announce :: "'w run_config \<Rightarrow> message \<Rightarrow> ('w, unit) act" where
  "announce rc m = and_then (rc_emit rc (MessageStarted m)) (\<lambda>_. rc_emit rc (MessageEnded m))"

fun announce_all :: "'w run_config \<Rightarrow> message list \<Rightarrow> ('w, unit) act" where
  "announce_all rc [] = done_with ()"
| "announce_all rc (m # ms) = and_then (announce rc m) (\<lambda>_. announce_all rc ms)"

definition terminal_stop :: "'w run_config \<Rightarrow> 'w \<Rightarrow> stop_reason" where
  "terminal_stop rc w = (if rc_cancelled rc w then StopAborted else StopError)"

definition terminal_message :: "'w run_config \<Rightarrow> 'w run_context \<Rightarrow> str \<Rightarrow> str \<Rightarrow> 'w \<Rightarrow> message" where
  "terminal_message rc ctx api e w =
     AssistantMsg (Assistant [] (md_id (ct_model ctx)) (md_provider (ct_model ctx)) api None None None
       (Some (terminal_stop rc w)) None no_usage (Some e) (rc_now rc w))"

definition terminal_message_from_partial ::
  "'w run_config \<Rightarrow> message option \<Rightarrow> 'w run_context \<Rightarrow> str \<Rightarrow> str \<Rightarrow> 'w \<Rightarrow> message" where
  "terminal_message_from_partial rc partial ctx api e w =
     (case partial of
        Some (AssistantMsg a) \<Rightarrow>
          AssistantMsg (Assistant (as_content a) (as_model a) (as_provider a) (as_api a) (as_response_model a)
            (as_response_id a) (as_diagnostics a) (Some (terminal_stop rc w)) (as_raw_stop a) (as_usage a) (Some e) (as_time a))
      | _ \<Rightarrow> terminal_message rc ctx api e w)"

section \<open>The assistant's turn\<close>

definition last_snapshot :: "agent_event list \<Rightarrow> message option" where
  "last_snapshot es =
     fold (\<lambda>e last. case e of MessageStarted m \<Rightarrow> Some m | MessageUpdated m _ \<Rightarrow> Some m | _ \<Rightarrow> last) es None"

definition is_start :: "agent_event \<Rightarrow> bool" where
  "is_start e = (case e of MessageStarted _ \<Rightarrow> True | _ \<Rightarrow> False)"

definition is_end :: "agent_event \<Rightarrow> bool" where
  "is_end e = (case e of MessageEnded _ \<Rightarrow> True | _ \<Rightarrow> False)"

definition streamed_message ::
  "'w run_config \<Rightarrow> 'w run_context \<Rightarrow> str \<Rightarrow> agent_event list \<Rightarrow> stream_end \<Rightarrow> 'w \<Rightarrow> message" where
  "streamed_message rc ctx api es end w =
     (case end of
        StreamReturned m \<Rightarrow> m
      | StreamFailed e \<Rightarrow> terminal_message_from_partial rc (last_snapshot es) ctx api e w
      | StreamCrashed e \<Rightarrow> terminal_message_from_partial rc (last_snapshot es) ctx api (''stream task failed: '' @ e) w)"

definition emit_if :: "'w run_config \<Rightarrow> bool \<Rightarrow> agent_event \<Rightarrow> ('w, unit) act" where
  "emit_if rc b e = (if b then rc_emit rc e else done_with ())"

text \<open>The lifecycle events the stream never sent are sent for it.\<close>

definition stream_assistant_response :: "'w run_config \<Rightarrow> 'w stream \<Rightarrow> 'w run_context \<Rightarrow> ('w, message) act" where
  "stream_assistant_response rc sm ctx = (\<lambda>w.
     let asked = (case rc_before_request rc of Some f \<Rightarrow> f ctx | None \<Rightarrow> ctx) in
     case sm_run sm asked w of ((es, end), w1) \<Rightarrow>
       and_then (emit_all rc es) (\<lambda>_ w2.
         let m = streamed_message rc ctx (sm_api sm) es end w2 in
         and_then (emit_if rc (\<not> list_ex is_start es) (MessageStarted m)) (\<lambda>_.
         and_then (emit_if rc (\<not> list_ex is_end es) (MessageEnded m)) (\<lambda>_.
         done_with m)) w2) w1)"

definition respond :: "'w run_config \<Rightarrow> 'w run_context \<Rightarrow> ('w, message) act" where
  "respond rc ctx = (\<lambda>w.
     case rc_resolver rc of
       None \<Rightarrow> stream_assistant_response rc (rc_stream rc) ctx w
     | Some resolver \<Rightarrow>
         (case resolver (ct_model ctx) of
            Inr sm \<Rightarrow> stream_assistant_response rc sm ctx w
          | Inl e \<Rightarrow>
              let m = terminal_message rc ctx (md_api (ct_model ctx)) (''failed to resolve provider runtime: '' @ e) w in
              and_then (announce rc m) (\<lambda>_. done_with m) w))"

section \<open>Calls that never run\<close>

definition truncated_text :: "str \<Rightarrow> str" where
  "truncated_text name =
     ''Tool call \"'' @ name @ ''\" was not executed: the response hit the output token limit, ''
     @ ''so its arguments may be truncated. Re-issue the tool call with complete arguments.''"

text \<open>One failed call: its two events around its result.\<close>

definition fail_call :: "'w run_config \<Rightarrow> str \<Rightarrow> str \<Rightarrow> json \<Rightarrow> str \<Rightarrow> ('w, executed) act" where
  "fail_call rc i name args t =
     and_then (rc_emit rc (ToolStarted i name args)) (\<lambda>_ w.
       let r = output_error t in
       and_then (rc_emit rc (ToolEnded i name r True)) (\<lambda>_. done_with (executed_call (rc_now rc w) i name r None)) w)"

fun fail_tool_calls_from_truncated :: "'w run_config \<Rightarrow> call list \<Rightarrow> ('w, executed list \<times> message list) act" where
  "fail_tool_calls_from_truncated rc [] = done_with ([], [])"
| "fail_tool_calls_from_truncated rc ((i, name, args) # cs) =
     and_then (fail_call rc i name args (truncated_text name)) (\<lambda>e.
     and_then (fail_tool_calls_from_truncated rc cs) (\<lambda>(es, ms). done_with (e # es, ec_message e # ms)))"

definition terminated_text :: "str option \<Rightarrow> str \<Rightarrow> str" where
  "terminated_text truncated name =
     ''Tool call \"'' @ name @ ''\" was not executed: ''
     @ (case truncated of
          Some e \<Rightarrow> ''its arguments were truncated mid-stream ('' @ e
            @ '') at the model output limit. Re-issuing the same payload will truncate again. Re-issue with a materially ''
            @ ''smaller argument payload (fewer/shorter fields), or split the work across multiple smaller tool calls.''
        | None \<Rightarrow> ''the turn ended (stream error or abort) before this call ran, so its arguments may be incomplete. ''
            @ ''Re-issue the tool call with complete arguments.'')"

text \<open>The calls of a turn with their arguments.\<close>

definition block_tool_use :: "content_block \<Rightarrow> call option" where
  "block_tool_use b = (case b of ToolUseBlock i name args _ \<Rightarrow> Some (i, name, args) | _ \<Rightarrow> None)"

definition calls_of :: "message \<Rightarrow> call list" where
  "calls_of m = (case m of AssistantMsg a \<Rightarrow> filter_map block_tool_use (as_content a) | _ \<Rightarrow> [])"

definition truncated_arguments :: "message \<Rightarrow> str option" where
  "truncated_arguments m =
     (case m of
        AssistantMsg a \<Rightarrow> (case as_error a of Some e \<Rightarrow> if starts_with e ''json error:'' then Some e else None | None \<Rightarrow> None)
      | _ \<Rightarrow> None)"

fun fail_terminated :: "'w run_config \<Rightarrow> str option \<Rightarrow> call list \<Rightarrow> ('w, message list) act" where
  "fail_terminated rc truncated [] = done_with []"
| "fail_terminated rc truncated ((i, name, args) # cs) =
     and_then (fail_call rc i name JNull (terminated_text truncated name)) (\<lambda>e.
     and_then (fail_terminated rc truncated cs) (\<lambda>ms. done_with (ec_message e # ms)))"

definition fail_tool_calls_from_terminated :: "'w run_config \<Rightarrow> message \<Rightarrow> ('w, message list) act" where
  "fail_tool_calls_from_terminated rc m = fail_terminated rc (truncated_arguments m) (calls_of m)"

section \<open>One turn\<close>

record 'w run_state =
  rs_context :: "'w run_context"
  rs_new :: "message list"
  rs_turns :: nat
  rs_escalations :: nat
  rs_bounces :: nat
  rs_pending :: "message list"

definition push_messages :: "message list \<Rightarrow> 'w run_state \<Rightarrow> 'w run_state" where
  "push_messages ms st =
     st\<lparr>rs_context := (rs_context st)\<lparr>ct_messages := ct_messages (rs_context st) @ ms\<rparr>, rs_new := rs_new st @ ms\<rparr>"

text \<open>The turn starts: the first announces the prompts, every one injects what is pending.\<close>

definition open_turn :: "'w run_config \<Rightarrow> 'w run_state \<Rightarrow> ('w, 'w run_state) act" where
  "open_turn rc st =
     and_then (rc_emit rc TurnStarted) (\<lambda>_.
     and_then (announce_all rc (if rs_turns st = 0 then rs_new st else [])) (\<lambda>_.
     and_then (announce_all rc (rs_pending st)) (\<lambda>_.
     done_with (push_messages (rs_pending st) (st\<lparr>rs_turns := rs_turns st + 1, rs_pending := []\<rparr>)))))"

definition message_stop :: "message \<Rightarrow> stop_reason option" where
  "message_stop m = (case m of AssistantMsg a \<Rightarrow> as_stop a | _ \<Rightarrow> None)"

text \<open>half as much more, rounded up, below the context window less 1024; the code computes in floating point, which
  is exact below \<open>2^52\<close>.\<close>

definition raised_budget :: "model \<Rightarrow> 64 word" where
  "raised_budget md =
     of_nat (min ((3 * unat (md_max_tokens md) + 1) div 2) (max (unat (md_window md) - 1024) (unat (md_max_tokens md))))"

definition raise_budget :: "'w run_context \<Rightarrow> 'w run_context" where
  "raise_budget ctx = ctx\<lparr>ct_model := (ct_model ctx)\<lparr>md_max_tokens := raised_budget (ct_model ctx)\<rparr>\<rparr>"

definition escalate :: "message \<Rightarrow> 'w run_state \<Rightarrow> 'w run_state" where
  "escalate m st =
     (if message_stop m = Some StopLength
      then (if rs_escalations st < 3
        then st\<lparr>rs_escalations := rs_escalations st + 1, rs_context := raise_budget (rs_context st)\<rparr> else st)
      else st\<lparr>rs_escalations := 0\<rparr>)"

definition stops_run :: "message \<Rightarrow> bool" where
  "stops_run m \<longleftrightarrow> message_stop m = Some StopError \<or> message_stop m = Some StopAborted"

definition NUDGE :: str where
  "NUDGE = ''[harness] Your previous response was cut off at the output limit. ''
     @ ''Continue from where it stopped; keep tool-call arguments compact.''"

text \<open>A truncated turn without calls is nudged on; calls are executed, or failed where the turn was truncated. The
  result: the tool results and whether the model is to continue.\<close>

definition nudge :: "'w run_config \<Rightarrow> 'w run_state \<Rightarrow> ('w, 'w run_state \<times> message list \<times> bool) act" where
  "nudge rc st = (\<lambda>w.
     let m = user_message NUDGE (rc_now rc w) in
     and_then (announce rc m) (\<lambda>_. done_with (push_messages [m] st, [], True)) w)"

definition run_calls :: "'w run_config \<Rightarrow> message \<Rightarrow> 'w run_state \<Rightarrow> ('w, 'w run_state \<times> message list \<times> bool) act" where
  "run_calls rc m st =
     and_then
       (if message_stop m = Some StopLength then fail_tool_calls_from_truncated rc (calls_of m)
        else execute_tool_calls rc (ct_tools (rs_context st)) (calls_of m))
       (\<lambda>(es, results). and_then (announce_all rc results) (\<lambda>_.
         done_with (push_messages results st, results, \<not> list_ex (\<lambda>e. to_terminate (ec_result e)) es)))"

definition work_turn :: "'w run_config \<Rightarrow> message \<Rightarrow> 'w run_state \<Rightarrow> ('w, 'w run_state \<times> message list \<times> bool) act" where
  "work_turn rc m st =
     (if calls_of m \<noteq> [] then run_calls rc m st
      else if message_stop m = Some StopLength \<and> rs_escalations st \<le> 3 then nudge rc st
      else done_with (st, [], False))"

definition apply_update :: "turn_update option \<Rightarrow> 'w run_state \<Rightarrow> 'w run_state" where
  "apply_update update st =
     (case update of
        None \<Rightarrow> st
      | Some u \<Rightarrow>
          let ctx = rs_context st in
          st\<lparr>rs_context := ctx\<lparr>ct_model := tu_model u, ct_thinking := tu_thinking u,
            ct_tools := (case tu_tools u of Some names \<Rightarrow> filter (\<lambda>t. tl_name t \<in> set names) (ct_tools ctx) | None \<Rightarrow> ct_tools ctx),
            ct_messages := ct_messages ctx @ tu_messages u\<rparr>\<rparr>)"

definition prepare_turn :: "'w run_config \<Rightarrow> 'w run_state \<Rightarrow> ('w, 'w run_state) act" where
  "prepare_turn rc st =
     (case rc_prepare rc of
        None \<Rightarrow> done_with st
      | Some prepare \<Rightarrow> and_then prepare (\<lambda>update. done_with (apply_update update st)))"

definition poll :: "('w \<Rightarrow> message list \<times> 'w) option \<Rightarrow> ('w, message list) act" where
  "poll queue = (\<lambda>w. case queue of None \<Rightarrow> (Inr [], w) | Some f \<Rightarrow> (case f w of (ms, w') \<Rightarrow> (Inr ms, w')))"

definition executed_tool_call_names :: "message list \<Rightarrow> str list" where
  "executed_tool_call_names ms = concat (map (\<lambda>m. map (\<lambda>c. fst (snd c)) (calls_of m)) ms)"

text \<open>The batch handed to the gate: the first component of every call.\<close>

definition last_batch :: "message \<Rightarrow> str list" where
  "last_batch m = map fst (calls_of m)"

definition turn_end_gate :: "'w run_config \<Rightarrow> message \<Rightarrow> bool \<Rightarrow> 'w run_state \<Rightarrow> ('w, 'w run_state \<times> bool) act" where
  "turn_end_gate rc m again st = (\<lambda>w.
     case rc_before_turn_end rc of
       None \<Rightarrow> (Inr (st, again), w)
     | Some before \<Rightarrow>
         if again \<or> rs_pending st \<noteq> [] then (Inr (st, again), w)
         else (case before (executed_tool_call_names (rs_new st)) (last_batch m) w of
             (None, w1) \<Rightarrow> (Inr (st, False), w1)
           | (Some bounce, w1) \<Rightarrow>
               if rs_bounces st < (case rc_max_bounces rc of Some n \<Rightarrow> n | None \<Rightarrow> 2)
               then let veto = user_message bounce (rc_now rc w1) in
                 and_then (announce rc veto) (\<lambda>_. done_with (push_messages [veto] (st\<lparr>rs_bounces := rs_bounces st + 1\<rparr>), True)) w1
               else (Inr (st, False), w1)))"

text \<open>What follows a turn: the run goes on, or has ended.\<close>

datatype 'w turn_end = Goes "'w run_state" bool | Ended "'w run_state"

definition end_run :: "'w run_config \<Rightarrow> 'w run_state \<Rightarrow> ('w, 'w turn_end) act" where
  "end_run rc st = and_then (rc_emit rc (AgentEnded (rs_new st))) (\<lambda>_. done_with (Ended st))"

definition fail_turn :: "'w run_config \<Rightarrow> message \<Rightarrow> 'w run_state \<Rightarrow> ('w, 'w turn_end) act" where
  "fail_turn rc m st =
     and_then (fail_tool_calls_from_terminated rc m) (\<lambda>results.
     and_then (rc_emit rc (TurnEnded m [])) (\<lambda>_. end_run rc (push_messages results st)))"

definition close_turn :: "'w run_config \<Rightarrow> message \<Rightarrow> 'w run_state \<times> message list \<times> bool \<Rightarrow> ('w, 'w turn_end) act" where
  "close_turn rc m r = (case r of (st, results, again) \<Rightarrow>
     and_then (rc_emit rc (TurnEnded m results)) (\<lambda>_.
     and_then (prepare_turn rc st) (\<lambda>st1.
       if (case rc_should_stop rc of Some f \<Rightarrow> f m results (rs_context st1) (rs_new st1) | None \<Rightarrow> False) then end_run rc st1
       else if (case rc_max_turns rc of Some n \<Rightarrow> n \<le> rs_turns st1 | None \<Rightarrow> False) then end_run rc st1
       else and_then (poll (rc_steering rc)) (\<lambda>steering.
         and_then (turn_end_gate rc m again (st1\<lparr>rs_pending := steering\<rparr>)) (\<lambda>(st2, again2). done_with (Goes st2 again2))))))"

definition run_turn :: "'w run_config \<Rightarrow> 'w run_state \<Rightarrow> ('w, 'w turn_end) act" where
  "run_turn rc st =
     and_then (open_turn rc st) (\<lambda>st1.
     and_then (respond rc (rs_context st1)) (\<lambda>m.
       let st2 = escalate m (push_messages [m] st1) in
       if stops_run m then fail_turn rc m st2
       else and_then (work_turn rc m st2) (close_turn rc m)))"

section \<open>The run\<close>

text \<open>Behind the loops: a cancelled run gets its terminal message.\<close>

definition finish_run :: "'w run_config \<Rightarrow> 'w run_state \<Rightarrow> ('w, message list) act" where
  "finish_run rc st = (\<lambda>w.
     and_then
       (if rc_cancelled rc w
        then let m = terminal_message rc (rs_context st) (md_api (ct_model (rs_context st))) ''aborted'' w in
          and_then (rc_emit rc TurnStarted) (\<lambda>_.
          and_then (announce rc m) (\<lambda>_.
          and_then (rc_emit rc (TurnEnded m [])) (\<lambda>_. done_with (push_messages [m] st))))
        else done_with st)
       (\<lambda>st'. and_then (rc_emit rc (AgentEnded (rs_new st'))) (\<lambda>_. done_with (rs_new st'))) w)"

text \<open>Both loops in one: \<open>again\<close> is \<^verbatim>\<open>has_more_tool_calls\<close>; the inner loop is left when nothing is to be done or the run
  is cancelled, and follow-up messages enter it again.\<close>

fun run_turns :: "nat \<Rightarrow> 'w run_config \<Rightarrow> 'w run_state \<Rightarrow> bool \<Rightarrow> 'w \<Rightarrow> ((str, message list) result \<times> 'w) option" where
  "run_turns 0 rc st again w = None"
| "run_turns (Suc fuel) rc st again w =
     (if (again \<or> rs_pending st \<noteq> []) \<and> \<not> rc_cancelled rc w
      then (case run_turn rc st w of
          (Inl e, w1) \<Rightarrow> Some (Inl e, w1)
        | (Inr (Ended st1), w1) \<Rightarrow> Some (Inr (rs_new st1), w1)
        | (Inr (Goes st1 again1), w1) \<Rightarrow> run_turns fuel rc st1 again1 w1)
      else (case poll (rc_follow_up rc) w of
          (Inl e, w1) \<Rightarrow> Some (Inl e, w1)
        | (Inr follow_up, w1) \<Rightarrow>
            if follow_up = [] \<or> rc_cancelled rc w1 then Some (finish_run rc st w1)
            else run_turns fuel rc (st\<lparr>rs_pending := follow_up\<rparr>) True w1))"

definition run_loop_inner ::
  "nat \<Rightarrow> 'w run_config \<Rightarrow> 'w run_context \<Rightarrow> message list \<Rightarrow> 'w \<Rightarrow> ((str, message list) result \<times> 'w) option" where
  "run_loop_inner fuel rc ctx new w =
     (case and_then (rc_emit rc AgentStarted) (\<lambda>_. poll (rc_steering rc)) w of
        (Inl e, w1) \<Rightarrow> Some (Inl e, w1)
      | (Inr steering, w1) \<Rightarrow>
          let st = \<lparr>rs_context = ctx, rs_new = new, rs_turns = 0, rs_escalations = 0, rs_bounces = 0, rs_pending = steering\<rparr> in
          if rc_cancelled rc w1 then Some (finish_run rc st w1) else run_turns fuel rc st True w1)"

definition run_loop ::
  "nat \<Rightarrow> 'w run_config \<Rightarrow> 'w run_context \<Rightarrow> message list \<Rightarrow> 'w \<Rightarrow> ((str, message list) result \<times> 'w) option" where
  "run_loop fuel rc ctx prompts w = run_loop_inner fuel rc (ctx\<lparr>ct_messages := ct_messages ctx @ prompts\<rparr>) prompts w"

definition run_loop_continue ::
  "nat \<Rightarrow> 'w run_config \<Rightarrow> 'w run_context \<Rightarrow> 'w \<Rightarrow> ((str, message list) result \<times> 'w) option" where
  "run_loop_continue fuel rc ctx w =
     (if ct_messages ctx = [] then Some (Inl ''Cannot continue: no messages in context'', w)
      else case last (ct_messages ctx) of
        AssistantMsg _ \<Rightarrow> Some (Inl ''Cannot continue from message role: assistant'', w)
      | _ \<Rightarrow> run_loop_inner fuel rc ctx [] w)"

end
