(* ===== verification/Agent_Run.thy ===== *)
theory Agent_Run
  imports Agent_Loop
begin

text \<open>
  What a run of the loop guarantees: what it announces is what it returns, every call of a turn is followed by its
  results, and a limit on the turns ends it.
\<close>

section \<open>Every turn answers its calls\<close>

definition result_of :: "call \<Rightarrow> message \<Rightarrow> bool" where
  "result_of c m = (case m of ToolResultMsg r \<Rightarrow> tr_call r = fst c \<and> tr_tool r = fst (snd c) | _ \<Rightarrow> False)"

lemma answers_result: "answers_call c e \<Longrightarrow> result_of c (ec_message e)"
  by (auto simp: answers_call_def result_of_def make_tool_result_message_def)

lemma fail_call_Inr: "fail_call rc i name args t w = (Inr e, w') \<Longrightarrow> \<exists>now r. e = executed_call now i name r None"
  by (auto simp: fail_call_def and_then_Inr Let_def)

lemma result_executed: "result_of (i, name, args) (ec_message (executed_call now i name r reason))"
  by (simp add: result_of_def executed_call_def make_tool_result_message_def)

lemma truncated_results:
  "fail_tool_calls_from_truncated rc cs w = (Inr (es, ms), w') \<Longrightarrow> list_all2 result_of cs ms"
proof (induction rc cs arbitrary: w es ms w' rule: fail_tool_calls_from_truncated.induct)
  case (2 rc i name args cs)
  then show ?case by (auto simp: and_then_Inr result_executed split: prod.splits dest!: fail_call_Inr)
qed simp

lemma terminated_results: "fail_terminated rc tr cs w = (Inr ms, w') \<Longrightarrow> list_all2 result_of cs ms"
proof (induction rc tr cs arbitrary: w ms w' rule: fail_terminated.induct)
  case (2 rc tr i name args cs)
  then show ?case by (auto simp: and_then_Inr result_executed dest!: fail_call_Inr)
qed simp

lemma executed_results:
  assumes "execute_tool_calls rc tools cs w = (Inr (es, ms), w')"
  shows "list_all2 result_of cs ms"
proof -
  have "list_all2 answers_call cs es \<and> ms = map ec_message es"
    using batch_answered [OF assms] .
  then show ?thesis by (auto simp: list_all2_conv_all_nth answers_result)
qed

lemma push_messages_simps [simp]:
  "rs_new (push_messages ms st) = rs_new st @ ms" "rs_turns (push_messages ms st) = rs_turns st"
  "rs_pending (push_messages ms st) = rs_pending st" "rs_bounces (push_messages ms st) = rs_bounces st"
  "rs_escalations (push_messages ms st) = rs_escalations st"
  "ct_tools (rs_context (push_messages ms st)) = ct_tools (rs_context st)"
  by (simp_all add: push_messages_def)

lemma escalate_simps [simp]:
  "rs_new (escalate m st) = rs_new st" "rs_turns (escalate m st) = rs_turns st" "rs_pending (escalate m st) = rs_pending st"
  "ct_tools (rs_context (escalate m st)) = ct_tools (rs_context st)"
  by (simp_all add: escalate_def raise_budget_def)

lemma apply_update_simps [simp]:
  "rs_new (apply_update u st) = rs_new st" "rs_turns (apply_update u st) = rs_turns st"
  "rs_pending (apply_update u st) = rs_pending st"
  by (simp_all add: apply_update_def Let_def split: option.splits)

lemma prepare_turn_simps:
  assumes "prepare_turn rc st w = (Inr st', w')"
  shows "rs_new st' = rs_new st \<and> rs_turns st' = rs_turns st \<and> rs_pending st' = rs_pending st
    \<and> set (ct_tools (rs_context st')) \<subseteq> set (ct_tools (rs_context st))"
  using assms
  by (auto simp: prepare_turn_def and_then_Inr apply_update_def Let_def split: option.splits)

text \<open>What the work of a turn adds: the results of its calls, or the nudge.\<close>

lemma work_turn_adds:
  assumes "work_turn rc m st w = (Inr (st', results, again), w')"
  shows "\<exists>rest. rs_new st' = rs_new st @ results @ rest \<and> list_all2 result_of (calls_of m) results \<and> length rest \<le> 1
    \<and> list_all is_user rest \<and> rs_turns st' = rs_turns st \<and> rs_pending st' = rs_pending st
    \<and> ct_tools (rs_context st') = ct_tools (rs_context st)"
proof (cases "calls_of m = []")
  case True
  then show ?thesis using assms
    by (auto simp: work_turn_def nudge_def and_then_Inr Let_def user_message_def split: if_splits)
next
  case False
  then show ?thesis using assms
    by (auto simp: work_turn_def run_calls_def and_then_Inr split: prod.splits if_splits
        dest: truncated_results executed_results)
qed

lemma gate_adds:
  assumes "turn_end_gate rc m again st w = (Inr (st', again'), w')"
  shows "\<exists>rest. rs_new st' = rs_new st @ rest \<and> length rest \<le> 1 \<and> list_all is_user rest \<and> rs_turns st' = rs_turns st
    \<and> ct_tools (rs_context st') = ct_tools (rs_context st)"
  using assms
  by (auto simp: turn_end_gate_def and_then_Inr Let_def user_message_def push_messages_def split: option.splits if_splits prod.splits)

definition end_state :: "'w turn_end \<Rightarrow> 'w run_state" where
  "end_state te = (case te of Goes st _ \<Rightarrow> st | Ended st \<Rightarrow> st)"

lemma close_turn_adds:
  assumes "close_turn rc m (st, results, again) w = (Inr te, w')"
  shows "\<exists>rest. rs_new (end_state te) = rs_new st @ rest \<and> length rest \<le> 1 \<and> list_all is_user rest
    \<and> rs_turns (end_state te) = rs_turns st \<and> set (ct_tools (rs_context (end_state te))) \<subseteq> set (ct_tools (rs_context st))"
proof -
  obtain st1 w1 w2 where p: "prepare_turn rc st w1 = (Inr st1, w2)"
    and r: "end_run rc st1 w2 = (Inr te, w') \<or>
      (\<exists>steering w3 st2 again2. turn_end_gate rc m again (st1\<lparr>rs_pending := steering\<rparr>) w3 = (Inr (st2, again2), w') \<and> te = Goes st2 again2)"
    using assms by (fastforce simp: close_turn_def and_then_Inr split: if_splits prod.splits)
  show ?thesis using r
  proof
    assume "end_run rc st1 w2 = (Inr te, w')"
    then show ?thesis using prepare_turn_simps [OF p] by (auto simp: end_run_def and_then_Inr end_state_def)
  next
    assume "\<exists>steering w3 st2 again2. turn_end_gate rc m again (st1\<lparr>rs_pending := steering\<rparr>) w3 = (Inr (st2, again2), w') \<and> te = Goes st2 again2"
    then show ?thesis using prepare_turn_simps [OF p] by (fastforce simp: end_state_def dest: gate_adds)
  qed
qed

lemma open_turn_Inr:
  assumes "open_turn rc st w = (Inr st1, w')"
  shows "rs_new st1 = rs_new st @ rs_pending st \<and> rs_turns st1 = rs_turns st + 1 \<and> rs_pending st1 = []
    \<and> ct_tools (rs_context st1) = ct_tools (rs_context st)"
  using assms by (auto simp: open_turn_def and_then_Inr push_messages_def)

text \<open>A turn adds what was pending, the assistant's message, exactly one result for each of its calls in order, and at
  most two user messages of the harness.\<close>

lemma turn_adds:
  assumes "run_turn rc st w = (Inr te, w')"
  shows "\<exists>m results rest. rs_new (end_state te) = rs_new st @ rs_pending st @ m # results @ rest
    \<and> list_all2 result_of (calls_of m) results \<and> list_all is_user rest \<and> length rest \<le> 2
    \<and> rs_turns (end_state te) = rs_turns st + 1 \<and> set (ct_tools (rs_context (end_state te))) \<subseteq> set (ct_tools (rs_context st))"
proof -
  obtain st1 w1 m w2 where o: "open_turn rc st w = (Inr st1, w1)" and m: "respond rc (rs_context st1) w1 = (Inr m, w2)"
    and r: "(let st2 = escalate m (push_messages [m] st1) in
       if stops_run m then fail_turn rc m st2 else and_then (work_turn rc m st2) (close_turn rc m)) w2 = (Inr te, w')"
    using assms by (auto simp: run_turn_def and_then_Inr)
  let ?st2 = "escalate m (push_messages [m] st1)"
  have st2: "rs_new ?st2 = rs_new st @ rs_pending st @ [m]" "rs_turns ?st2 = rs_turns st + 1"
    "ct_tools (rs_context ?st2) = ct_tools (rs_context st)"
    using open_turn_Inr [OF o] by simp_all
  show ?thesis
  proof (cases "stops_run m")
    case True
    then obtain results w3 where "fail_terminated rc (truncated_arguments m) (calls_of m) w2 = (Inr results, w3)"
      "te = Ended (push_messages results ?st2)"
      using r by (auto simp: fail_turn_def fail_tool_calls_from_terminated_def end_run_def and_then_Inr)
    then show ?thesis using st2 terminated_results
      by (intro exI [of _ m] exI [of _ results] exI [of _ "[]"]) (auto simp: end_state_def)
  next
    case False
    then obtain st3 results again w3 where s: "work_turn rc m ?st2 w2 = (Inr (st3, results, again), w3)"
      "close_turn rc m (st3, results, again) w3 = (Inr te, w')"
      using r by (auto simp: and_then_Inr)
    obtain r1 where r1: "rs_new st3 = rs_new ?st2 @ results @ r1" "list_all2 result_of (calls_of m) results" "length r1 \<le> 1"
      "list_all is_user r1" "rs_turns st3 = rs_turns ?st2" "ct_tools (rs_context st3) = ct_tools (rs_context ?st2)"
      using work_turn_adds [OF s(1)] by blast
    obtain r2 where r2: "rs_new (end_state te) = rs_new st3 @ r2" "length r2 \<le> 1" "list_all is_user r2"
      "rs_turns (end_state te) = rs_turns st3" "set (ct_tools (rs_context (end_state te))) \<subseteq> set (ct_tools (rs_context st3))"
      using close_turn_adds [OF s(2)] by blast
    show ?thesis using st2 r1 r2
      by (intro exI [of _ m] exI [of _ results] exI [of _ "r1 @ r2"]) auto
  qed
qed

section \<open>The limit on the turns\<close>

lemma turn_counts: "run_turn rc st w = (Inr (Goes st' again), w') \<Longrightarrow> rs_turns st' = rs_turns st + 1"
  using turn_adds [of rc st w "Goes st' again" w'] by (auto simp: end_state_def)

lemma turn_below_limit:
  assumes "run_turn rc st w = (Inr (Goes st' again), w')" "rc_max_turns rc = Some n"
  shows "rs_turns st' < n"
proof -
  have "\<exists>st3 results again3 w3. close_turn rc m (st3, results, again3) w3 = (Inr (Goes st' again), w')"
    if "and_then (work_turn rc m st2) (close_turn rc m) w2 = (Inr (Goes st' again), w')" for m st2 w2
    using that by (auto simp: and_then_Inr)
  moreover have "rs_turns st' < n" if "close_turn rc m (st3, results, again3) w3 = (Inr (Goes st' again), w')" for m st3 results again3 w3
    using that assms(2)
    by (auto simp: close_turn_def and_then_Inr end_run_def split: if_splits prod.splits dest: gate_adds)
  ultimately show ?thesis using assms(1)
    by (auto simp: run_turn_def and_then_Inr Let_def fail_turn_def end_run_def split: if_splits)
qed

lemma poll_Inr: "\<exists>ms w'. poll q w = (Inr ms, w')"
  by (cases q) (auto simp: poll_def split: prod.splits)

lemma run_turns_turn:
  "(again \<or> rs_pending st \<noteq> []) \<and> \<not> rc_cancelled rc w \<Longrightarrow>
   run_turns (Suc fuel) rc st again w =
     (case run_turn rc st w of
        (Inl e, w1) \<Rightarrow> Some (Inl e, w1)
      | (Inr (Ended st1), w1) \<Rightarrow> Some (Inr (rs_new st1), w1)
      | (Inr (Goes st1 again1), w1) \<Rightarrow> run_turns fuel rc st1 again1 w1)"
  by (subst run_turns.simps) (simp only: if_True simp_thms)

lemma run_turns_idle:
  "\<lbrakk>\<not> ((again \<or> rs_pending st \<noteq> []) \<and> \<not> rc_cancelled rc w); poll (rc_follow_up rc) w = (Inr fs, w1)\<rbrakk> \<Longrightarrow>
   run_turns (Suc fuel) rc st again w =
     (if fs = [] \<or> rc_cancelled rc w1 then Some (finish_run rc st w1)
      else run_turns fuel rc (st\<lparr>rs_pending := fs\<rparr>) True w1)"
  by (subst run_turns.simps) (simp only: if_False prod.case sum.case)

text \<open>Every turn takes one step of the loop and at most one more, which polls the follow-up messages.\<close>

lemma run_turns_ends:
  "\<lbrakk>rc_max_turns rc = Some n; 2 * (n - rs_turns st) + (if (again \<or> rs_pending st \<noteq> []) \<and> \<not> rc_cancelled rc w then 2 else 3) \<le> fuel;
    rs_turns st < n \<or> rs_turns st = 0\<rbrakk>
   \<Longrightarrow> run_turns fuel rc st again w \<noteq> None"
proof (induction fuel rc st again w rule: run_turns.induct)
  case (2 fuel rc st again w)
  show ?case
  proof (cases "(again \<or> rs_pending st \<noteq> []) \<and> \<not> rc_cancelled rc w")
    case True
    obtain r w1 where t: "run_turn rc st w = (r, w1)" by fastforce
    show ?thesis
    proof (cases "\<exists>st1 again1. r = Inr (Goes st1 again1)")
      case False
      then show ?thesis using True t by (auto split: sum.splits turn_end.splits)
    next
      case g: True
      then obtain st1 again1 where r: "r = Inr (Goes st1 again1)" by blast
      have n: "rs_turns st1 < n" "rs_turns st1 = rs_turns st + 1"
        using turn_below_limit [of rc st w st1 again1 w1 n] turn_counts [of rc st w st1 again1 w1] t r 2(3) by simp_all
      have f: "2 * (n - rs_turns st1) + (if (again1 \<or> rs_pending st1 \<noteq> []) \<and> \<not> rc_cancelled rc w1 then 2 else 3) \<le> fuel"
        using 2(4) True n by (auto split: if_splits)
      show ?thesis using 2(1) [OF True t [symmetric] r refl 2(3) f] n(1) True t r by simp
    qed
  next
    case False
    obtain fs w1 where p: "poll (rc_follow_up rc) w = (Inr fs, w1)"
      using poll_Inr by metis
    show ?thesis
    proof (cases "fs = [] \<or> rc_cancelled rc w1")
      case True
      then show ?thesis using False p by (auto split: if_splits)
    next
      case go: False
      have f: "2 * (n - rs_turns st) + (if (True \<or> rs_pending (st\<lparr>rs_pending := fs\<rparr>) \<noteq> []) \<and> \<not> rc_cancelled rc w1 then 2 else 3) \<le> fuel"
        using 2(4) False go by (auto split: if_splits)
      show ?thesis using 2(2) [OF False p [symmetric] refl go 2(3)] f 2(5) run_turns_idle [OF False p] go by simp
    qed
  qed
qed (auto split: if_splits)

section \<open>Every call of a run is answered\<close>

text \<open>Behind every message with calls stand their results, in the order of the calls.\<close>

fun calls_answered :: "message list \<Rightarrow> bool" where
  "calls_answered [] = True"
| "calls_answered (m # ms) \<longleftrightarrow> list_all2 result_of (calls_of m) (take (length (calls_of m)) ms) \<and> calls_answered ms"

definition no_calls :: "message list \<Rightarrow> bool" where
  "no_calls ms \<longleftrightarrow> list_all (\<lambda>m. calls_of m = []) ms"

definition queues_without_calls :: "'w run_config \<Rightarrow> bool" where
  "queues_without_calls rc \<longleftrightarrow>
     (\<forall>w. case poll (rc_steering rc) w of (Inr ms, _) \<Rightarrow> no_calls ms | _ \<Rightarrow> True)
     \<and> (\<forall>w. case poll (rc_follow_up rc) w of (Inr ms, _) \<Rightarrow> no_calls ms | _ \<Rightarrow> True)"

lemma queues_without_callsD:
  assumes "queues_without_calls rc"
  shows "poll (rc_steering rc) w = (Inr ms, w') \<Longrightarrow> no_calls ms" "poll (rc_follow_up rc) w = (Inr ms, w') \<Longrightarrow> no_calls ms"
  using assms unfolding queues_without_calls_def by (fastforce dest: spec [of _ w])+

lemma no_calls_simps [simp]:
  "no_calls []" "no_calls (m # ms) \<longleftrightarrow> calls_of m = [] \<and> no_calls ms" "no_calls (ms @ ms') \<longleftrightarrow> no_calls ms \<and> no_calls ms'"
  by (simp_all add: no_calls_def)

lemma calls_answered_no_calls: "no_calls ms \<Longrightarrow> calls_answered ms"
  by (induction ms) auto

lemma calls_answered_append: "\<lbrakk>calls_answered xs; calls_answered ys\<rbrakk> \<Longrightarrow> calls_answered (xs @ ys)"
proof (induction xs)
  case (Cons m xs)
  have "length (calls_of m) \<le> length xs" using Cons.prems(1) by (auto dest: list_all2_lengthD)
  then show ?case using Cons by simp
qed simp

lemma result_no_calls: "result_of c m \<Longrightarrow> calls_of m = []"
  by (auto simp: result_of_def calls_of_def split: message.splits)

lemma results_no_calls: "list_all2 result_of cs ms \<Longrightarrow> no_calls ms"
  by (induction rule: list_all2_induct) (auto dest: result_no_calls)

lemma users_no_calls: "list_all is_user ms \<Longrightarrow> no_calls ms"
  by (induction ms) (auto simp: calls_of_def elim!: is_user.elims)

lemma turn_answered:
  assumes "run_turn rc st w = (Inr te, w')" "calls_answered (rs_new st)" "no_calls (rs_pending st)"
  shows "calls_answered (rs_new (end_state te))"
proof -
  obtain m results rest where n: "rs_new (end_state te) = rs_new st @ rs_pending st @ m # results @ rest"
    "list_all2 result_of (calls_of m) results" "list_all is_user rest"
    using turn_adds [OF assms(1)] by blast
  have "no_calls (results @ rest)" using n(2,3) by (simp add: results_no_calls users_no_calls)
  then have "calls_answered (m # results @ rest)"
    using n(2) list_all2_lengthD [OF n(2)] by (simp add: calls_answered_no_calls)
  then show ?thesis unfolding n(1)
    using assms(2,3) by (intro calls_answered_append) (auto intro: calls_answered_no_calls)
qed

lemma close_turn_pending:
  assumes "close_turn rc m (st, results, again) w = (Inr (Goes st' again'), w')" "queues_without_calls rc"
  shows "no_calls (rs_pending st')"
proof -
  have gate: "rs_pending st3 = rs_pending st2" if "turn_end_gate rc m again st2 w2 = (Inr (st3, b), w3)" for st2 st3 b w2 w3
    using that by (auto simp: turn_end_gate_def and_then_Inr Let_def split: option.splits if_splits prod.splits)
  show ?thesis using assms
    by (auto simp: close_turn_def and_then_Inr end_run_def split: if_splits prod.splits dest!: gate dest: queues_without_callsD)
qed

lemma turn_pending:
  assumes "run_turn rc st w = (Inr (Goes st' again), w')" "queues_without_calls rc"
  shows "no_calls (rs_pending st')"
proof -
  obtain m r w1 where "close_turn rc m r w1 = (Inr (Goes st' again), w')"
    using assms(1) by (auto simp: run_turn_def and_then_Inr Let_def fail_turn_def end_run_def split: if_splits)
  then show ?thesis using close_turn_pending assms(2) by (metis prod_cases3)
qed

lemma finish_run_Inr:
  assumes "finish_run rc st w = (Inr new, w')"
  shows "\<exists>tail. new = rs_new st @ tail \<and> no_calls tail"
  using assms
  by (auto simp: finish_run_def and_then_Inr Let_def terminal_message_def calls_of_def filter_map_def split: if_splits)

lemma run_turns_answered:
  "\<lbrakk>run_turns fuel rc st again w = Some (Inr new, w'); queues_without_calls rc; calls_answered (rs_new st); no_calls (rs_pending st)\<rbrakk>
   \<Longrightarrow> calls_answered new"
proof (induction fuel rc st again w rule: run_turns.induct)
  case (2 fuel rc st again w)
  show ?case
  proof (cases "(again \<or> rs_pending st \<noteq> []) \<and> \<not> rc_cancelled rc w")
    case True
    obtain r w1 where t: "run_turn rc st w = (r, w1)" by fastforce
    show ?thesis
    proof (cases r)
      case (Inl e)
      then show ?thesis using 2(3) True t by simp
    next
      case (Inr te)
      then have a: "calls_answered (rs_new (end_state te))" using turn_answered [of rc st w te w1] t 2(5,6) by simp
      show ?thesis
      proof (cases te)
        case (Goes st1 again1)
        then show ?thesis using 2(1) [OF True t [symmetric] Inr Goes] 2(3,4) True t Inr a turn_pending [of rc st w st1 again1 w1]
          by (simp add: end_state_def)
      next
        case (Ended st1)
        then show ?thesis using 2(3) True t Inr a by (simp add: end_state_def)
      qed
    qed
  next
    case False
    obtain fs w1 where p: "poll (rc_follow_up rc) w = (Inr fs, w1)" using poll_Inr by metis
    show ?thesis
    proof (cases "fs = [] \<or> rc_cancelled rc w1")
      case True
      then have "finish_run rc st w1 = (Inr new, w')" using 2(3) False p by (simp split: if_splits)
      then show ?thesis using finish_run_Inr 2(5) calls_answered_append calls_answered_no_calls by metis
    next
      case go: False
      then show ?thesis using 2(2) [OF False p [symmetric] refl] 2(3-5) False p queues_without_callsD(2) [OF 2(4) p] by simp
    qed
  qed
qed simp

text \<open>More fuel does not change a result.\<close>

lemma run_turns_more: "\<lbrakk>run_turns fuel rc st again w = Some r; fuel \<le> fuel'\<rbrakk> \<Longrightarrow> run_turns fuel' rc st again w = Some r"
proof (induction fuel rc st again w arbitrary: fuel' rule: run_turns.induct)
  case (2 fuel rc st again w)
  obtain f where f: "fuel' = Suc f" "fuel \<le> f" using 2(4) by (cases fuel') auto
  show ?case
  proof (cases "(again \<or> rs_pending st \<noteq> []) \<and> \<not> rc_cancelled rc w")
    case True
    obtain t w1 where t: "run_turn rc st w = (t, w1)" by fastforce
    show ?thesis
    proof (cases "\<exists>st1 again1. t = Inr (Goes st1 again1)")
      case True
      then obtain st1 again1 where g: "t = Inr (Goes st1 again1)" by blast
      show ?thesis using 2(1) [OF \<open>_ \<and> _\<close> t [symmetric] g refl _ f(2)] 2(3) \<open>_ \<and> _\<close> t g f(1) by simp
    next
      case False
      then show ?thesis using 2(3) \<open>_ \<and> _\<close> t f(1) by (cases t) (auto split: turn_end.splits)
    qed
  next
    case False
    obtain fs w1 where p: "poll (rc_follow_up rc) w = (Inr fs, w1)" using poll_Inr by metis
    show ?thesis
    proof (cases "fs = [] \<or> rc_cancelled rc w1")
      case True
      then show ?thesis using 2(3) False p f(1) by auto
    next
      case go: False
      show ?thesis using 2(2) [OF False p [symmetric] refl go _ f(2)] 2(3) go f(1) run_turns_idle [OF False p] by simp
    qed
  qed
qed simp


text \<open>C29: With a limit of \<open>n\<close> turns a run ends, whatever the provider, the tools, the queues and the hooks do: fuel for
  two steps a turn is enough, and more does not change the result.\<close>

theorem limited_run_ends:
  assumes "rc_max_turns rc = Some n"
  shows "\<exists>r. \<forall>fuel \<ge> 2 * n + 2. run_loop fuel rc ctx prompts w = Some r"
proof -
  obtain r w1 where p: "and_then (rc_emit rc AgentStarted) (\<lambda>_. poll (rc_steering rc)) w = (r, w1)" by fastforce
  show ?thesis
  proof (cases r)
    case (Inl e)
    then show ?thesis using p by (simp add: run_loop_def run_loop_inner_def)
  next
    case (Inr steering)
    let ?st = "\<lparr>rs_context = ctx\<lparr>ct_messages := ct_messages ctx @ prompts\<rparr>, rs_new = prompts, rs_turns = 0, rs_escalations = 0,
      rs_bounces = 0, rs_pending = steering\<rparr>"
    show ?thesis
    proof (cases "rc_cancelled rc w1")
      case True
      then show ?thesis using p Inr by (simp add: run_loop_def run_loop_inner_def)
    next
      case False
      then have "run_turns (2 * n + 2) rc ?st True w1 \<noteq> None" by (intro run_turns_ends [OF assms]) simp_all
      then obtain r' where r: "run_turns (2 * n + 2) rc ?st True w1 = Some r'" by blast
      have "run_turns fuel rc ?st True w1 = Some r'" if "2 * n + 2 \<le> fuel" for fuel using run_turns_more [OF r that] .
      then show ?thesis using p Inr False by (simp add: run_loop_def run_loop_inner_def)
    qed
  qed
qed

section \<open>Concrete runs\<close>

definition loop_model :: model where
  "loop_model =
     \<lparr>md_provider = ''p'', md_api = ''a'', md_id = ''m'', md_window = 8192, md_max_tokens = 1024, md_thinking = NoThinking,
       md_metadata = []\<rparr>"

definition loop_context :: "agent_event list run_context" where
  "loop_context =
     \<lparr>ct_system_prompt = [], ct_messages = [], ct_tools = demo_tools, ct_model = loop_model, ct_thinking = None,
       ct_session_id = None\<rparr>"

definition loop_answer :: "stop_reason \<Rightarrow> content_block list \<Rightarrow> message" where
  "loop_answer stop content = AssistantMsg (Assistant content ''m'' ''p'' ''a'' None None None (Some stop) None no_usage None 0)"

definition loop_call :: content_block where
  "loop_call = ToolUseBlock ''1'' ''Read'' (JObj [(''path'', JStr ''a'')]) None"

definition loop_prompt :: message where
  "loop_prompt = user_message ''hi'' 0"

text \<open>A provider that calls a tool and then ends, one that always stops at the output limit without a call, and one
  that fails behind a call.\<close>

definition calling_stream :: "agent_event list stream" where
  "calling_stream =
     \<lparr>sm_api = [], sm_run = (\<lambda>ctx w.
        (([], StreamReturned (case last (ct_messages ctx) of
            ToolResultMsg _ \<Rightarrow> loop_answer StopTurn []
          | _ \<Rightarrow> loop_answer StopToolUse [loop_call])), w))\<rparr>"

definition cut_off_stream :: "agent_event list stream" where
  "cut_off_stream = \<lparr>sm_api = [], sm_run = (\<lambda>_ w. (([], StreamReturned (loop_answer StopLength [])), w))\<rparr>"

definition failing_stream :: "agent_event list stream" where
  "failing_stream =
     \<lparr>sm_api = [], sm_run = (\<lambda>_ w. (([MessageStarted (loop_answer StopTurn [loop_call])], StreamFailed ''reset''), w))\<rparr>"

definition ended_messages :: "agent_event list \<Rightarrow> message list" where
  "ended_messages es = filter_map (\<lambda>e. case e of MessageEnded m \<Rightarrow> Some m | _ \<Rightarrow> None) es"

lemmas loop_demo_defs = calling_stream_def cut_off_stream_def failing_stream_def loop_answer_def loop_call_def loop_prompt_def
  loop_context_def loop_model_def demo_run_def demo_tools_def demo_tool_def

lemmas loop_step_defs = and_then_def done_with_def announce_def stream_assistant_response_def respond_def emit_if_def
  streamed_message_def is_start_def is_end_def calls_of_def block_tool_use_def filter_map_def push_messages_def open_turn_def
  message_stop_def escalate_def stops_run_def run_calls_def work_turn_def prepare_turn_def poll_def turn_end_gate_def
  end_run_def fail_turn_def close_turn_def run_turn_def finish_run_def run_loop_def run_loop_inner_def Let_def

lemmas tool_step_defs = execute_tool_calls_def execute_parallel_def run_round_def execute_one_def call_refusal_def run_tool_def
  settle_call_def executed_call_def outcome_result_def is_object_def output_text_def output_error_def

lemma calling_run:
  "\<exists>r log. run_loop 5 (demo_run calling_stream) loop_context [loop_prompt] [] =
     Some (Inr [loop_prompt, loop_answer StopToolUse [loop_call], ToolResultMsg r, loop_answer StopTurn []], log)"
  by (simp add: loop_demo_defs loop_step_defs tool_step_defs user_message_def make_tool_result_message_def eval_nat_numeral)


theorem limited_run_ends_witness:
  "\<exists>r. \<forall>fuel \<ge> 8. run_loop fuel ((demo_run cut_off_stream)\<lparr>rc_max_turns := Some 3\<rparr>) loop_context [loop_prompt] [] = Some r"
  using limited_run_ends [of "(demo_run cut_off_stream)\<lparr>rc_max_turns := Some 3\<rparr>" 3 loop_context "[loop_prompt]" "[]"] by simp

section \<open>Where the loop differs from its comments\<close>

text \<open>Three strikes do not settle a model that always stops at the output limit: without a limit of turns the run never
  ends.\<close>

lemma announce_all_total: "sink_ok rc \<Longrightarrow> \<exists>w'. announce_all rc ms w = (Inr (), w')"
proof (induction ms arbitrary: w)
  case (Cons m ms)
  obtain w1 where 1: "rc_emit rc (MessageStarted m) w = (Inr (), w1)" using sink_okE [OF Cons.prems] .
  obtain w2 where "rc_emit rc (MessageEnded m) w1 = (Inr (), w2)" using sink_okE [OF Cons.prems] .
  then show ?case using 1 Cons by (simp add: announce_def and_then_def)
qed (simp add: done_with_def)

lemma open_turn_total:
  assumes "sink_ok rc"
  shows "\<exists>st' w'. open_turn rc st w = (Inr st', w') \<and> rs_escalations st' = rs_escalations st"
proof -
  obtain w1 where 1: "rc_emit rc TurnStarted w = (Inr (), w1)" using sink_okE [OF assms] .
  obtain w2 where 2: "announce_all rc (if rs_turns st = 0 then rs_new st else []) w1 = (Inr (), w2)"
    using announce_all_total [OF assms] by blast
  obtain w3 where "announce_all rc (rs_pending st) w2 = (Inr (), w3)" using announce_all_total [OF assms] by blast
  then show ?thesis using 1 2 by (simp add: open_turn_def and_then_def done_with_def)
qed

lemma cut_off_turn:
  assumes "rs_escalations st \<le> 3"
  shows "\<exists>st' w'. run_turn (demo_run cut_off_stream) st w = (Inr (Goes st' True), w') \<and> rs_escalations st' \<le> 3"
proof -
  let ?rc = "demo_run cut_off_stream"
  obtain st1 w1 where o: "open_turn ?rc st w = (Inr st1, w1)" "rs_escalations st1 \<le> 3"
    using open_turn_total [OF demo_sink] assms by metis
  have "\<exists>st' w'. and_then (respond ?rc (rs_context st1)) (\<lambda>m.
       let st2 = escalate m (push_messages [m] st1) in
       if stops_run m then fail_turn ?rc m st2 else and_then (work_turn ?rc m st2) (close_turn ?rc m)) w1
     = (Inr (Goes st' True), w') \<and> rs_escalations st' \<le> 3"
    using o(2)
    by (cases "rs_escalations st1 < 3") (simp_all add: loop_demo_defs loop_step_defs nudge_def raise_budget_def user_message_def)
  then show ?thesis using o(1) by (simp add: run_turn_def and_then_def [of "open_turn ?rc st"])
qed

lemma cut_off_turns: "rs_escalations st \<le> 3 \<Longrightarrow> run_turns fuel (demo_run cut_off_stream) st True w = None"
proof (induction fuel arbitrary: st w)
  case (Suc fuel)
  obtain st' w' where t: "run_turn (demo_run cut_off_stream) st w = (Inr (Goes st' True), w')" "rs_escalations st' \<le> 3"
    using cut_off_turn [OF Suc.prems] by blast
  have "\<not> rc_cancelled (demo_run cut_off_stream) w" by (simp add: demo_run_def)
  then show ?case using run_turns_turn [of True st "demo_run cut_off_stream" w fuel] t Suc.IH by simp
qed simp

lemma cut_off_never_ends: "run_loop fuel (demo_run cut_off_stream) loop_context [loop_prompt] [] = None"
proof -
  have "rc_emit (demo_run cut_off_stream) e w = (Inr (), w @ [e])" "\<not> rc_cancelled (demo_run cut_off_stream) w"
    "rc_steering (demo_run cut_off_stream) = None" for e w
    by (simp_all add: demo_run_def)
  then show ?thesis by (simp add: run_loop_def run_loop_inner_def Let_def cut_off_turns and_then_def poll_def)
qed

text \<open>An update replaces the model with its raised budget.\<close>

lemma update_drops_raised_budget:
  "ct_model (rs_context (apply_update (Some u) (escalate m st))) = tu_model u"
  by (simp add: apply_update_def Let_def)

text \<open>The gate gets the ids of the last batch beside the names of the run.\<close>

lemma last_batch_has_ids:
  "last_batch (loop_answer StopToolUse [loop_call]) = [''1'']
   \<and> executed_tool_call_names [loop_answer StopToolUse [loop_call]] = [''Read'']"
  by (simp add: last_batch_def executed_tool_call_names_def loop_answer_def loop_call_def calls_of_def block_tool_use_def filter_map_def)

text \<open>The results of a failed turn are returned, never announced.\<close>

lemma failed_results_unannounced:
  "\<exists>m r log. run_loop 5 (demo_run failing_stream) loop_context [loop_prompt] [] = Some (Inr [loop_prompt, m, ToolResultMsg r], log)
     \<and> ended_messages log = [loop_prompt, m]"
  by (simp add: loop_demo_defs loop_step_defs fail_tool_calls_from_terminated_def fail_call_def executed_call_def
      last_snapshot_def terminal_message_from_partial_def terminal_stop_def truncated_arguments_def starts_with_def
      user_message_def make_tool_result_message_def ended_messages_def eval_nat_numeral)

text \<open>A run cancelled before its first turn never announces its prompts.\<close>

lemma cancelled_prompts_unannounced:
  "\<exists>m log. run_loop 5 ((demo_run calling_stream)\<lparr>rc_cancelled := \<lambda>_. True\<rparr>) loop_context [loop_prompt] []
       = Some (Inr [loop_prompt, m], log)
     \<and> ended_messages log = [m]"
  by (simp add: loop_demo_defs loop_step_defs terminal_message_def ended_messages_def eval_nat_numeral)

end
