(* ===== verification/Agent_Report.thy ===== *)
theory Agent_Report
  imports Agent_Run
begin

text \<open>
  What a run reports: the messages its events end, against the messages it returns. The world is observed through
  the list of the messages ended so far; hooks, tools and streams leave it alone, and a stream ends at most the
  message it returns, as the trait asks.
\<close>

section \<open>Observing a run\<close>

definition ended_by :: "agent_event \<Rightarrow> message list" where
  "ended_by e = (case e of MessageEnded m \<Rightarrow> [m] | _ \<Rightarrow> [])"

definition keeps :: "('w \<Rightarrow> 'l) \<Rightarrow> ('w \<Rightarrow> 'a \<times> 'w) \<Rightarrow> bool" where
  "keeps L f \<longleftrightarrow> (\<forall>w. L (snd (f w)) = L w)"

definition keeps_optional :: "('w \<Rightarrow> 'l) \<Rightarrow> ('w \<Rightarrow> 'a \<times> 'w) option \<Rightarrow> bool" where
  "keeps_optional L f = (case f of None \<Rightarrow> True | Some g \<Rightarrow> keeps L g)"

definition stream_owns_end :: "('w \<Rightarrow> 'l) \<Rightarrow> 'w stream \<Rightarrow> bool" where
  "stream_owns_end L sm \<longleftrightarrow>
     (\<forall>ctx w. case sm_run sm ctx w of ((es, end), w') \<Rightarrow>
        L w' = L w \<and> (concat (map ended_by es) = [] \<or> (\<exists>m. end = StreamReturned m \<and> concat (map ended_by es) = [m])))"

definition tools_keep :: "('w \<Rightarrow> 'l) \<Rightarrow> 'w tool list \<Rightarrow> bool" where
  "tools_keep L tools \<longleftrightarrow> (\<forall>t \<in> set tools. \<forall>i args. keeps L (tl_execute t i args))"

text \<open>What the callbacks of a run do to the observation; a cancellation stays.\<close>

definition observed :: "('w \<Rightarrow> message list) \<Rightarrow> 'w run_config \<Rightarrow> bool" where
  "observed L rc \<longleftrightarrow>
     (\<forall>e w w'. rc_emit rc e w = (Inr (), w') \<longrightarrow> L w' = L w @ ended_by e)
     \<and> (\<forall>e. ended_by e = [] \<longrightarrow> keeps L (rc_emit rc e))
     \<and> stream_owns_end L (rc_stream rc)
     \<and> (\<forall>f md sm. rc_resolver rc = Some f \<and> f md = Inr sm \<longrightarrow> stream_owns_end L sm)
     \<and> keeps_optional L (rc_steering rc) \<and> keeps_optional L (rc_follow_up rc) \<and> keeps_optional L (rc_prepare rc)
     \<and> (\<forall>f cs last. rc_before_turn_end rc = Some f \<longrightarrow> keeps L (f cs last))
     \<and> (\<forall>w. rc_cancelled rc w \<longrightarrow> rc_cancelled rc (snd (poll (rc_follow_up rc) w)))"

named_theorems keeping

lemma keepsD: "\<lbrakk>keeps L f; f w = (a, w')\<rbrakk> \<Longrightarrow> L w' = L w"
  by (metis keeps_def snd_conv)

lemma keeps_done [keeping]: "keeps L (done_with a)"
  by (simp add: keeps_def done_with_def)

lemma keeps_and_then [keeping]: "\<lbrakk>keeps L m; \<And>a. keeps L (f a)\<rbrakk> \<Longrightarrow> keeps L (and_then m f)"
  by (auto simp: keeps_def and_then_def split: prod.splits sum.splits) (metis snd_conv)+

lemma keeps_poll: "keeps_optional L q \<Longrightarrow> keeps L (poll q)"
  by (auto simp: keeps_def poll_def keeps_optional_def split: option.splits prod.splits) (metis snd_conv)

lemma observed_emit: "\<lbrakk>observed L rc; rc_emit rc e w = (Inr (), w')\<rbrakk> \<Longrightarrow> L w' = L w @ ended_by e"
  by (simp add: observed_def)

lemma observed_quiet: "\<lbrakk>observed L rc; ended_by e = []\<rbrakk> \<Longrightarrow> keeps L (rc_emit rc e)"
  by (simp add: observed_def)

lemma tool_events_quiet [simp]:
  "ended_by (ToolStarted i n a) = []" "ended_by (ToolUpdated i n a p) = []" "ended_by (ToolEnded i n r b) = []"
  "ended_by TurnStarted = []" "ended_by AgentStarted = []" "ended_by (TurnEnded m ms) = []" "ended_by (AgentEnded ms) = []"
  "ended_by (MessageStarted m) = []" "ended_by (MessageEnded m) = [m]"
  by (simp_all add: ended_by_def)

section \<open>Tool execution reports no message\<close>

lemma keeps_at: "\<lbrakk>\<And>w. keeps L (f w)\<rbrakk> \<Longrightarrow> keeps L (\<lambda>w. f w w)"
  by (simp add: keeps_def)

lemma settle_call_keeps: "observed L rc \<Longrightarrow> keeps L (settle_call rc i name r reason)"
  unfolding settle_call_def by (rule keeps_at) (auto intro!: keeping observed_quiet)

lemma forward_progress_keeps: "observed L rc \<Longrightarrow> L (forward_progress rc c ps w) = L w"
proof (induction rc c ps w rule: forward_progress.induct)
  case (2 rc i name args p ps w)
  then show ?case using observed_quiet [of L rc "ToolUpdated i name args p"] by (simp add: keeps_def)
qed simp

lemma run_tool_keeps:
  assumes "observed L rc" "\<And>i args. keeps L (tl_execute t i args)"
  shows "keeps L (run_tool rc t c)"
proof -
  have "L (snd (run_tool rc t c w)) = L w" for w
  proof -
    obtain i name args where c: "c = (i, name, args)" by (metis prod_cases3)
    obtain oc progress w1 where e: "tl_execute t i args w = ((oc, progress), w1)" by (metis prod.exhaust)
    have "L w1 = L w" using keepsD [OF assms(2) e] .
    then show ?thesis
      using settle_call_keeps [OF assms(1)] forward_progress_keeps [OF assms(1)] by (simp add: run_tool_def c e Let_def keeps_def)
  qed
  then show ?thesis by (simp add: keeps_def)
qed

lemma found_in: "find P xs = Some x \<Longrightarrow> x \<in> set xs"
  by (auto simp: find_Some_iff)

lemma execute_one_keeps:
  assumes "observed L rc" "tools_keep L tools"
  shows "keeps L (execute_one rc tools c)"
proof -
  obtain i name args where c: "c = (i, name, args)" by (metis prod_cases3)
  have "keeps L (\<lambda>w. case call_refusal rc tools c w of Some (r, reason) \<Rightarrow> settle_call rc i name r reason w
       | None \<Rightarrow> run_tool rc (the (find (\<lambda>t. tl_name t = name) tools)) c w)"
  proof -
    have "L (snd (run_tool rc (the (find (\<lambda>t. tl_name t = name) tools)) c w)) = L w" if refusal: "call_refusal rc tools c w = None" for w
    proof -
      obtain t where t: "find (\<lambda>t. tl_name t = name) tools = Some t"
        using refusal by (cases "find (\<lambda>t. tl_name t = name) tools") (auto simp: call_refusal_def c)
      then have "keeps L (run_tool rc t c)" using run_tool_keeps assms found_in [OF t] by (metis tools_keep_def)
      then show ?thesis by (simp add: t keeps_def)
    qed
    then show ?thesis using settle_call_keeps [OF assms(1)] by (auto simp: keeps_def split: option.splits)
  qed
  then show ?thesis unfolding execute_one_def c by (auto intro!: keeping observed_quiet assms(1))
qed

lemma execute_sequential_keeps:
  "\<lbrakk>observed L rc; tools_keep L tools\<rbrakk> \<Longrightarrow> keeps L (execute_sequential rc tools calls)"
  by (induction calls) (auto intro!: keeping execute_one_keeps)

lemma run_each_keeps:
  "\<lbrakk>observed L rc; tools_keep L tools\<rbrakk> \<Longrightarrow> L (snd (run_each rc tools calls order w)) = L w"
proof (induction order arbitrary: w)
  case (Cons j order)
  then show ?case using execute_one_keeps [of L rc tools "calls ! j"] by (auto simp: keeps_def split: prod.splits) (metis snd_conv)
qed simp

lemma run_round_keeps:
  assumes "observed L rc" "tools_keep L tools"
  shows "keeps L (run_round rc tools calls ready)"
proof -
  have "L (snd (run_round rc tools calls ready w)) = L w" for w
    using run_each_keeps [OF assms, of calls "sort_key (rc_priority rc w) ready" w]
    by (cases "run_each rc tools calls (sort_key (rc_priority rc w) ready) w") (simp add: run_round_def)
  then show ?thesis by (simp add: keeps_def)
qed

lemma kahn_keeps:
  "\<lbrakk>observed L rc; tools_keep L tools\<rbrakk> \<Longrightarrow> L (snd (kahn rc tools calls ms results degs w)) = L w"
proof (induction rc tools calls ms results degs w rule: kahn.induct)
  case (1 rc tools calls ms results degs w)
  show ?case
  proof (cases "list_all (\<lambda>r. r \<noteq> None) results")
    case True
    then show ?thesis by (subst kahn.simps) simp
  next
    case open_: False
    show ?thesis
    proof (cases "ready_calls results degs = [] \<or> rc_cancelled rc w")
      case True
      then show ?thesis
        using open_ execute_sequential_keeps [OF 1(2,3), of calls] by (subst kahn.simps) (auto simp: Let_def keeps_def)
    next
      case False
      obtain r w1 where rr: "run_round rc tools calls (ready_calls results degs) w = (r, w1)" by fastforce
      have "L w1 = L w" using keepsD [OF run_round_keeps [OF 1(2,3)] rr] .
      then show ?thesis
        using 1(1) [OF open_ refl] 1(2,3) open_ False rr by (subst kahn.simps) (auto simp: Let_def split: sum.splits)
    qed
  qed
qed

lemma execute_tool_calls_keeps:
  assumes "observed L rc" "tools_keep L tools"
  shows "keeps L (execute_tool_calls rc tools calls)"
proof -
  have "keeps L (kahn rc tools calls ms results degs)" for ms results degs
    using kahn_keeps [OF assms] by (simp add: keeps_def)
  then show ?thesis
    unfolding execute_tool_calls_def execute_parallel_def Let_def
    by (auto intro!: keeping execute_sequential_keeps run_round_keeps assms)
qed

lemma fail_call_keeps: "observed L rc \<Longrightarrow> keeps L (fail_call rc i name args t)"
proof -
  assume o: "observed L rc"
  have "keeps L (\<lambda>w. let r = output_error t in
      and_then (rc_emit rc (ToolEnded i name r True)) (\<lambda>_. done_with (executed_call (rc_now rc w) i name r None)) w)"
    unfolding Let_def by (rule keeps_at) (auto intro!: keeping observed_quiet o)
  then show ?thesis unfolding fail_call_def by (auto intro!: keeping observed_quiet o)
qed

lemma truncated_keeps: "observed L rc \<Longrightarrow> keeps L (fail_tool_calls_from_truncated rc cs)"
  by (induction rc cs rule: fail_tool_calls_from_truncated.induct) (auto intro!: keeping fail_call_keeps split: prod.splits)

lemma terminated_keeps: "observed L rc \<Longrightarrow> keeps L (fail_terminated rc tr cs)"
  by (induction rc tr cs rule: fail_terminated.induct) (auto intro!: keeping fail_call_keeps)

section \<open>What a turn reports\<close>

lemma announce_reports:
  assumes "observed L rc" "announce rc m w = (Inr (), w')"
  shows "L w' = L w @ [m]"
  using assms(2) by (auto simp: announce_def and_then_Inr dest!: observed_emit [OF assms(1)])

lemma announce_all_reports:
  assumes "observed L rc"
  shows "announce_all rc ms w = (Inr (), w') \<Longrightarrow> L w' = L w @ ms"
  by (induction ms arbitrary: w) (auto simp: and_then_Inr dest!: announce_reports [OF assms])

lemma emit_all_reports:
  assumes "observed L rc"
  shows "emit_all rc es w = (Inr (), w') \<Longrightarrow> L w' = L w @ concat (map ended_by es)"
  by (induction es arbitrary: w) (auto simp: and_then_Inr dest!: observed_emit [OF assms])

lemma no_end_iff: "list_ex is_end es \<longleftrightarrow> concat (map ended_by es) \<noteq> []"
  by (induction es) (auto simp: is_end_def ended_by_def split: agent_event.splits)

text \<open>A streamed turn is reported exactly once, by the stream or by the loop.\<close>

lemma stream_reports:
  assumes "observed L rc" "stream_owns_end L sm" "stream_assistant_response rc sm ctx w = (Inr m, w')"
  shows "L w' = L w @ [m]"
proof -
  let ?asked = "case rc_before_request rc of Some f \<Rightarrow> f ctx | None \<Rightarrow> ctx"
  obtain es fin w1 where s: "sm_run sm ?asked w = ((es, fin), w1)" by (metis prod.exhaust)
  have own: "L w1 = L w" "concat (map ended_by es) = [] \<or> (\<exists>m. fin = StreamReturned m \<and> concat (map ended_by es) = [m])"
    using assms(2) s by (auto simp: stream_owns_end_def dest!: spec [of _ ?asked] spec [of _ w])
  obtain w2 w3 where m: "m = streamed_message rc ctx (sm_api sm) es fin w2"
    and e: "emit_all rc es w1 = (Inr (), w2)" "emit_if rc (\<not> list_ex is_start es) (MessageStarted m) w2 = (Inr (), w3)"
      "emit_if rc (\<not> list_ex is_end es) (MessageEnded m) w3 = (Inr (), w')"
    using assms(3) s by (auto simp: stream_assistant_response_def and_then_Inr Let_def)
  have "L w2 = L w @ concat (map ended_by es)" using emit_all_reports [OF assms(1) e(1)] own(1) by simp
  moreover have "L w3 = L w2" using e(2) by (auto simp: emit_if_def split: if_splits dest!: observed_emit [OF assms(1)])
  moreover have "L w' = L w3 @ (if list_ex is_end es then [] else [m])"
    using e(3) by (auto simp: emit_if_def split: if_splits dest!: observed_emit [OF assms(1)])
  ultimately show ?thesis using own(2) m unfolding no_end_iff by (auto simp: streamed_message_def)
qed

lemma respond_reports:
  assumes "observed L rc" "respond rc ctx w = (Inr m, w')"
  shows "L w' = L w @ [m]"
proof (cases "rc_resolver rc")
  case None
  then show ?thesis using assms stream_reports [of L rc "rc_stream rc" ctx w m w'] by (auto simp: respond_def observed_def)
next
  case (Some f)
  show ?thesis
  proof (cases "f (ct_model ctx)")
    case (Inl e)
    then show ?thesis using assms Some by (auto simp: respond_def Let_def and_then_Inr dest!: announce_reports)
  next
    case (Inr sm)
    then have "stream_owns_end L sm" using assms(1) Some by (auto simp: observed_def)
    then show ?thesis using assms Some Inr stream_reports [of L rc sm ctx w m w'] by (simp add: respond_def)
  qed
qed

lemma open_turn_reports:
  assumes "observed L rc" "open_turn rc st w = (Inr st', w')"
  shows "L w' = L w @ (if rs_turns st = 0 then rs_new st else []) @ rs_pending st"
  using assms(2)
  by (auto simp: open_turn_def and_then_Inr dest!: observed_emit [OF assms(1)] announce_all_reports [OF assms(1)])

text \<open>What the work and the end of a turn add is reported.\<close>

lemma work_turn_reports:
  assumes "observed L rc" "tools_keep L (ct_tools (rs_context st))" "work_turn rc m st w = (Inr (st', results, again), w')"
  shows "\<exists>add. rs_new st' = rs_new st @ add \<and> L w' = L w @ add"
proof (cases "calls_of m = []")
  case True
  then show ?thesis using assms(3)
    by (auto simp: work_turn_def nudge_def and_then_Inr Let_def split: if_splits dest!: announce_reports [OF assms(1)])
next
  case False
  obtain es w1 where e: "(if message_stop m = Some StopLength then fail_tool_calls_from_truncated rc (calls_of m)
        else execute_tool_calls rc (ct_tools (rs_context st)) (calls_of m)) w = (Inr (es, results), w1)"
    "announce_all rc results w1 = (Inr (), w')" "st' = push_messages results st"
    using assms(3) False by (auto simp: work_turn_def run_calls_def and_then_Inr split: prod.splits)
  have "L w1 = L w"
    using e(1) keepsD [OF truncated_keeps [OF assms(1)]] keepsD [OF execute_tool_calls_keeps [OF assms(1,2)]]
    by (auto split: if_splits)
  then show ?thesis using announce_all_reports [OF assms(1) e(2)] e(3) by auto
qed

lemma gate_reports:
  assumes "observed L rc" "turn_end_gate rc m again st w = (Inr (st', again'), w')"
  shows "\<exists>add. rs_new st' = rs_new st @ add \<and> L w' = L w @ add"
proof (cases "rc_before_turn_end rc")
  case None
  then show ?thesis using assms(2) by (auto simp: turn_end_gate_def)
next
  case (Some before)
  obtain verdict w1 where b: "before (executed_tool_call_names (rs_new st)) (last_batch m) w = (verdict, w1)" by fastforce
  have "keeps L (before (executed_tool_call_names (rs_new st)) (last_batch m))" using assms(1) Some by (auto simp: observed_def)
  then have "L w1 = L w" using keepsD b by metis
  then show ?thesis using assms(2) Some b
    by (auto simp: turn_end_gate_def Let_def and_then_Inr push_messages_def split: if_splits option.splits
        dest!: announce_reports [OF assms(1)])
qed

lemma prepare_turn_reports: "\<lbrakk>observed L rc; prepare_turn rc st w = (Inr st', w')\<rbrakk> \<Longrightarrow> L w' = L w"
  by (auto simp: prepare_turn_def and_then_Inr observed_def keeps_optional_def split: option.splits dest: keepsD)

lemma close_turn_reports:
  assumes "observed L rc" "close_turn rc m (st, results, again) w = (Inr te, w')"
  shows "\<exists>add. rs_new (end_state te) = rs_new st @ add \<and> L w' = L w @ add"
proof -
  obtain st1 w1 w2 where e: "rc_emit rc (TurnEnded m results) w = (Inr (), w1)" and p: "prepare_turn rc st w1 = (Inr st1, w2)"
    and r: "end_run rc st1 w2 = (Inr te, w') \<or>
      (\<exists>steering w3 st2 again2. poll (rc_steering rc) w2 = (Inr steering, w3)
        \<and> turn_end_gate rc m again (st1\<lparr>rs_pending := steering\<rparr>) w3 = (Inr (st2, again2), w') \<and> te = Goes st2 again2)"
    using assms(2) by (fastforce simp: close_turn_def and_then_Inr split: if_splits prod.splits)
  have l: "L w2 = L w" "rs_new st1 = rs_new st"
    using observed_emit [OF assms(1) e] prepare_turn_reports [OF assms(1) p] prepare_turn_simps [OF p] by simp_all
  show ?thesis using r
  proof
    assume "end_run rc st1 w2 = (Inr te, w')"
    then show ?thesis using l by (auto simp: end_run_def and_then_Inr end_state_def dest!: observed_emit [OF assms(1)])
  next
    assume "\<exists>steering w3 st2 again2. poll (rc_steering rc) w2 = (Inr steering, w3)
        \<and> turn_end_gate rc m again (st1\<lparr>rs_pending := steering\<rparr>) w3 = (Inr (st2, again2), w') \<and> te = Goes st2 again2"
    then obtain steering w3 st2 again2 where g: "poll (rc_steering rc) w2 = (Inr steering, w3)"
      "turn_end_gate rc m again (st1\<lparr>rs_pending := steering\<rparr>) w3 = (Inr (st2, again2), w')" "te = Goes st2 again2" by blast
    have "keeps L (poll (rc_steering rc))" using assms(1) keeps_poll by (auto simp: observed_def)
    then have "L w3 = L w2" using keepsD g(1) by fast
    then show ?thesis using gate_reports [OF assms(1) g(2)] l g(3) by (auto simp: end_state_def)
  qed
qed

text \<open>A turn reports what it adds, but for the results of the calls of a turn that failed.\<close>

lemma turn_reports:
  assumes "observed L rc" "tools_keep L (ct_tools (rs_context st))" "run_turn rc st w = (Inr te, w')"
  defines "old \<equiv> if rs_turns st = 0 then rs_new st else []"
  shows "\<exists>add. rs_new (end_state te) = rs_new st @ add
    \<and> (L w' = L w @ old @ add
      \<or> (\<exists>st' said m results. te = Ended st' \<and> add = said @ m # results \<and> L w' = L w @ old @ said @ [m]
          \<and> stops_run m \<and> list_all2 result_of (calls_of m) results))"
proof -
  obtain st1 w1 m w2 where o: "open_turn rc st w = (Inr st1, w1)" and m: "respond rc (rs_context st1) w1 = (Inr m, w2)"
    and r: "(let st2 = escalate m (push_messages [m] st1) in
       if stops_run m then fail_turn rc m st2 else and_then (work_turn rc m st2) (close_turn rc m)) w2 = (Inr te, w')"
    using assms(3) by (auto simp: run_turn_def and_then_Inr)
  let ?st2 = "escalate m (push_messages [m] st1)"
  have st2: "rs_new ?st2 = rs_new st @ rs_pending st @ [m]" "ct_tools (rs_context ?st2) = ct_tools (rs_context st)"
    using open_turn_Inr [OF o] by simp_all
  have l: "L w2 = L w @ old @ rs_pending st @ [m]"
    using open_turn_reports [OF assms(1) o] respond_reports [OF assms(1) m] by (simp add: old_def)
  show ?thesis
  proof (cases "stops_run m")
    case True
    then obtain results w3 w4 where f: "fail_terminated rc (truncated_arguments m) (calls_of m) w2 = (Inr results, w3)"
      "rc_emit rc (TurnEnded m []) w3 = (Inr (), w4)" "rc_emit rc (AgentEnded (rs_new (push_messages results ?st2))) w4 = (Inr (), w')"
      "te = Ended (push_messages results ?st2)"
      using r by (auto simp: fail_turn_def fail_tool_calls_from_terminated_def end_run_def and_then_Inr)
    have "L w' = L w2"
      using keepsD [OF terminated_keeps [OF assms(1)] f(1)] observed_emit [OF assms(1) f(2)] observed_emit [OF assms(1) f(3)] by simp
    then show ?thesis using st2 l f(1,4) True terminated_results [OF f(1)]
      by (intro exI [of _ "rs_pending st @ m # results"]) (auto simp: end_state_def)
  next
    case False
    then obtain st3 results again w3 where s: "work_turn rc m ?st2 w2 = (Inr (st3, results, again), w3)"
      "close_turn rc m (st3, results, again) w3 = (Inr te, w')"
      using r by (auto simp: and_then_Inr)
    have "tools_keep L (ct_tools (rs_context ?st2))" using assms(2) st2(2) by simp
    then obtain a where "rs_new st3 = rs_new ?st2 @ a" "L w3 = L w2 @ a" using work_turn_reports [OF assms(1) _ s(1)] by blast
    moreover obtain b where "rs_new (end_state te) = rs_new st3 @ b" "L w' = L w3 @ b" using close_turn_reports [OF assms(1) s(2)] by blast
    ultimately show ?thesis using st2(1) l by (intro exI [of _ "rs_pending st @ [m] @ a @ b"]) auto
  qed
qed

section \<open>What a run reports\<close>

lemma finish_reports:
  assumes "observed L rc" "finish_run rc st w = (Inr new, w')"
  shows "\<exists>add. new = rs_new st @ add \<and> L w' = L w @ add \<and> (rc_cancelled rc w \<longrightarrow> (\<exists>m. add = [m] \<and> stops_run m))"
proof (cases "rc_cancelled rc w")
  case True
  let ?m = "terminal_message rc (rs_context st) (md_api (ct_model (rs_context st))) ''aborted'' w"
  obtain w1 w2 w3 where e: "rc_emit rc TurnStarted w = (Inr (), w1)" "announce rc ?m w1 = (Inr (), w2)"
    "rc_emit rc (TurnEnded ?m []) w2 = (Inr (), w3)" "rc_emit rc (AgentEnded (rs_new st @ [?m])) w3 = (Inr (), w')" "new = rs_new st @ [?m]"
    using assms(2) True by (auto simp: finish_run_def and_then_Inr Let_def)
  have "stops_run ?m" by (simp add: stops_run_def message_stop_def terminal_message_def terminal_stop_def)
  then show ?thesis
    using e(5) observed_emit [OF assms(1) e(1)] announce_reports [OF assms(1) e(2)] observed_emit [OF assms(1) e(3)] observed_emit [OF assms(1) e(4)]
    by auto
next
  case False
  then show ?thesis using assms(2) by (auto simp: finish_run_def and_then_Inr dest!: observed_emit [OF assms(1)])
qed

text \<open>How a run that started at \<open>old\<close> ends: everything it returns was reported, but for the results of a turn that
  failed, and for the prompts when it was cancelled before its first turn.\<close>

definition reported :: "message list \<Rightarrow> message list \<Rightarrow> message list \<Rightarrow> message list \<Rightarrow> bool" where
  "reported old prompts new seen \<longleftrightarrow>
     seen = old @ new
     \<or> (\<exists>said m results. new = said @ m # results \<and> seen = old @ said @ [m] \<and> stops_run m
         \<and> list_all2 result_of (calls_of m) results)
     \<or> (\<exists>m. new = prompts @ [m] \<and> seen = old @ [m] \<and> stops_run m)"

definition at_turn :: "message list \<Rightarrow> message list \<Rightarrow> 'w run_state \<Rightarrow> message list \<Rightarrow> bool" where
  "at_turn old prompts st seen \<longleftrightarrow> (if rs_turns st = 0 then seen = old \<and> rs_new st = prompts else seen = old @ rs_new st)"

lemma turn_reported:
  assumes "observed L rc" "tools_keep L (ct_tools (rs_context st))" "run_turn rc st w = (Inr te, w')" "at_turn old prompts st (L w)"
  shows "(case te of Ended st' \<Rightarrow> reported old prompts (rs_new st') (L w')
    | Goes st' again \<Rightarrow> at_turn old prompts st' (L w') \<and> tools_keep L (ct_tools (rs_context st')))"
proof -
  obtain add where a: "rs_new (end_state te) = rs_new st @ add"
    "L w' = L w @ (if rs_turns st = 0 then rs_new st else []) @ add
      \<or> (\<exists>st' said m results. te = Ended st' \<and> add = said @ m # results
          \<and> L w' = L w @ (if rs_turns st = 0 then rs_new st else []) @ said @ [m]
          \<and> stops_run m \<and> list_all2 result_of (calls_of m) results)"
    using turn_reports [OF assms(1-3)] by blast
  have t: "rs_turns (end_state te) = rs_turns st + 1" "set (ct_tools (rs_context (end_state te))) \<subseteq> set (ct_tools (rs_context st))"
    using turn_adds [OF assms(3)] by auto
  have l: "L w @ (if rs_turns st = 0 then rs_new st else []) = old @ rs_new st" using assms(4) by (auto simp: at_turn_def)
  show ?thesis
  proof (cases te)
    case (Goes st' again)
    then have "L w' = old @ rs_new st'" using a l by (auto simp: end_state_def)
    then show ?thesis using Goes t assms(2) by (auto simp: at_turn_def end_state_def tools_keep_def)
  next
    case (Ended st')
    show ?thesis using a(2)
    proof
      assume "L w' = L w @ (if rs_turns st = 0 then rs_new st else []) @ add"
      then have "L w' = old @ rs_new st'" using a(1) l Ended by (metis append.assoc end_state_def turn_end.simps(6))
      then show ?thesis using Ended by (simp add: reported_def)
    next
      assume "\<exists>st' said m results. te = Ended st' \<and> add = said @ m # results
          \<and> L w' = L w @ (if rs_turns st = 0 then rs_new st else []) @ said @ [m]
          \<and> stops_run m \<and> list_all2 result_of (calls_of m) results"
      then obtain said m results where f: "add = said @ m # results" "stops_run m" "list_all2 result_of (calls_of m) results"
        "L w' = L w @ (if rs_turns st = 0 then rs_new st else []) @ said @ [m]" by blast
      have "L w' = old @ (rs_new st @ said) @ [m]" using f(4) l by (metis append.assoc)
      moreover have "rs_new st' = (rs_new st @ said) @ m # results" using a(1) f(1) Ended by (simp add: end_state_def)
      ultimately show ?thesis using f(2,3) Ended by (auto simp: reported_def)
    qed
  qed
qed

lemma finish_reported:
  assumes "observed L rc" "finish_run rc st w = (Inr new, w')" "at_turn old prompts st (L w)" "rs_turns st = 0 \<longrightarrow> rc_cancelled rc w"
  shows "reported old prompts new (L w')"
  using finish_reports [OF assms(1,2)] assms(3,4) by (auto simp: reported_def at_turn_def split: if_splits)

lemma run_turns_reports:
  "\<lbrakk>run_turns fuel rc st again w = Some (Inr new, w'); observed L rc; tools_keep L (ct_tools (rs_context st));
    at_turn old prompts st (L w); rs_turns st = 0 \<longrightarrow> again\<rbrakk>
   \<Longrightarrow> reported old prompts new (L w')"
proof (induction fuel rc st again w rule: run_turns.induct)
  case (2 fuel rc st again w)
  show ?case
  proof (cases "(again \<or> rs_pending st \<noteq> []) \<and> \<not> rc_cancelled rc w")
    case True
    obtain r w1 where t: "run_turn rc st w = (r, w1)" by fastforce
    show ?thesis
    proof (cases r)
      case (Inl e)
      then show ?thesis using 2(3) run_turns_turn [OF True] t by simp
    next
      case (Inr te)
      note step = turn_reported [OF 2(4,5) t [unfolded Inr] 2(6)]
      show ?thesis
      proof (cases te)
        case (Goes st1 again1)
        have "rs_turns st1 \<noteq> 0" using turn_counts [of rc st w st1 again1 w1] t Inr Goes by simp
        then show ?thesis using 2(1) [OF True t [symmetric] Inr Goes] 2(3,4) run_turns_turn [OF True] t Inr Goes step by simp
      next
        case (Ended st1)
        then show ?thesis using 2(3) run_turns_turn [OF True] t Inr step by simp
      qed
    qed
  next
    case False
    obtain fs w1 where p: "poll (rc_follow_up rc) w = (Inr fs, w1)" using poll_Inr by metis
    have k: "L w1 = L w" "rc_cancelled rc w \<longrightarrow> rc_cancelled rc w1"
      using 2(4) keepsD [OF keeps_poll p] p by (auto simp: observed_def dest!: spec [of _ w])
    show ?thesis
    proof (cases "fs = [] \<or> rc_cancelled rc w1")
      case True
      then have f: "finish_run rc st w1 = (Inr new, w')" using 2(3) run_turns_idle [OF False p] by simp
      have "at_turn old prompts st (L w1)" using 2(6) k(1) by simp
      moreover have "rs_turns st = 0 \<longrightarrow> rc_cancelled rc w1" using 2(7) False k(2) by blast
      ultimately show ?thesis by (rule finish_reported [OF 2(4) f])
    next
      case go: False
      show ?thesis
        using 2(2) [OF False p [symmetric] refl go] 2(3-6) go run_turns_idle [OF False p] k(1) by (simp add: at_turn_def)
    qed
  qed
qed simp

text \<open>The whole run.\<close>

lemma run_reports:
  assumes "observed L rc" "tools_keep L (ct_tools ctx)" "run_loop_inner fuel rc ctx prompts w = Some (Inr new, w')"
  shows "reported (L w) prompts new (L w')"
proof -
  obtain w1 w2 steering where p: "rc_emit rc AgentStarted w = (Inr (), w1)" "poll (rc_steering rc) w1 = (Inr steering, w2)"
    and r: "and_then (rc_emit rc AgentStarted) (\<lambda>_. poll (rc_steering rc)) w = (Inr steering, w2)"
    using assms(3) by (auto simp: run_loop_inner_def and_then_Inr split: prod.splits sum.splits)
  have "keeps L (poll (rc_steering rc))" using assms(1) by (intro keeps_poll) (simp add: observed_def)
  then have "L w2 = L w1" using keepsD p(2) by metis
  then have l: "L w2 = L w" using observed_emit [OF assms(1) p(1)] by simp
  let ?st = "\<lparr>rs_context = ctx, rs_new = prompts, rs_turns = 0, rs_escalations = 0, rs_bounces = 0, rs_pending = steering\<rparr>"
  have a: "at_turn (L w) prompts ?st (L w2)" using l by (simp add: at_turn_def)
  show ?thesis
  proof (cases "rc_cancelled rc w2")
    case True
    then have "finish_run rc ?st w2 = (Inr new, w')" using assms(3) r by (simp add: run_loop_inner_def)
    then show ?thesis using finish_reported [OF assms(1) _ a] True by blast
  next
    case False
    then have "run_turns fuel rc ?st True w2 = Some (Inr new, w')" using assms(3) r by (simp add: run_loop_inner_def)
    then show ?thesis using run_turns_reports [OF _ assms(1) _ a] assms(2) by simp
  qed
qed

end
