(* ===== verification/Agent.thy ===== *)
theory Agent
  imports Agent_Report
begin

text \<open>
  The agent around the loop (\<^verbatim>\<open>core/agent.rs\<close>): its queues, the reduction of events into its state, and the lifecycle of a
  run. The world of a run holds the agent's state and queues beside what lies outside; the events go through one
  reducer, so a middleware's error ends the run. Listeners and middlewares are looked up outside for every event.
\<close>

section \<open>Queues\<close>

datatype queue_mode = DrainAll | OneAtATime

record pending_queue =
  pq_messages :: "(str \<times> message) list"
  pq_mode :: queue_mode

definition queue_new :: "queue_mode \<Rightarrow> pending_queue" where
  "queue_new mode = \<lparr>pq_messages = [], pq_mode = mode\<rparr>"

text \<open>The id is a fresh one, or the caller's.\<close>

definition enqueue :: "str \<Rightarrow> message \<Rightarrow> pending_queue \<Rightarrow> pending_queue" where
  "enqueue i m q = q\<lparr>pq_messages := pq_messages q @ [(i, m)]\<rparr>"

definition queue_cancel :: "str \<Rightarrow> pending_queue \<Rightarrow> bool \<times> pending_queue" where
  "queue_cancel i q =
     (let kept = filter (\<lambda>e. fst e \<noteq> i) (pq_messages q) in
      (length kept \<noteq> length (pq_messages q), q\<lparr>pq_messages := kept\<rparr>))"

definition queue_drain :: "pending_queue \<Rightarrow> message list \<times> pending_queue" where
  "queue_drain q =
     (case pq_mode q of
        DrainAll \<Rightarrow> (map snd (pq_messages q), q\<lparr>pq_messages := []\<rparr>)
      | OneAtATime \<Rightarrow>
          (case pq_messages q of
             [] \<Rightarrow> ([], q)
           | e # es \<Rightarrow> ([snd e], q\<lparr>pq_messages := es\<rparr>)))"

definition queue_take_all :: "pending_queue \<Rightarrow> message list \<times> pending_queue" where
  "queue_take_all q = (map snd (pq_messages q), q\<lparr>pq_messages := []\<rparr>)"

definition queue_snapshot :: "pending_queue \<Rightarrow> message list" where
  "queue_snapshot q = map snd (pq_messages q)"

definition queue_has_items :: "pending_queue \<Rightarrow> bool" where
  "queue_has_items q \<longleftrightarrow> pq_messages q \<noteq> []"

lemma queue_drain_split: "queue_drain q = (ms, q') \<Longrightarrow> queue_snapshot q = ms @ queue_snapshot q'"
  by (auto simp: queue_drain_def queue_snapshot_def split: queue_mode.splits list.splits)

section \<open>State and parts\<close>

record agent_state =
  st_system_prompt :: str
  st_model :: model
  st_thinking :: "str option"
  st_messages :: "message list"
  st_streaming :: bool
  st_streaming_message :: "message option"
  st_pending_calls :: "str list"
  st_error :: "str option"

text \<open>\<open>aw_active\<close> is the token of the run in flight, cancelled or not; \<open>aw_failed\<close> the error of a middleware that ended the
  run.\<close>

record 'x agent_world =
  aw_state :: agent_state
  aw_steering :: pending_queue
  aw_follow_up :: pending_queue
  aw_active :: "bool option"
  aw_failed :: "str option"
  aw_outside :: 'x

text \<open>What an agent is built of.\<close>

record 'x agent =
  ag_tools :: "'x agent_world tool list"
  ag_stream :: "'x agent_world stream"
  ag_resolver :: "(model \<Rightarrow> (str, 'x agent_world stream) result) option"
  ag_session_id :: "str option"
  ag_before_request :: "('x agent_world run_context \<Rightarrow> 'x agent_world run_context) option"
  ag_before_tool :: "(str \<Rightarrow> str \<Rightarrow> json \<Rightarrow> str option) option"
  ag_after_tool :: "(tool_output \<Rightarrow> tool_output) option"
  ag_prepare :: "('x agent_world, turn_update option) act option"
  ag_should_stop :: "(message \<Rightarrow> message list \<Rightarrow> 'x agent_world run_context \<Rightarrow> message list \<Rightarrow> bool) option"
  ag_before_turn_end :: "(str list \<Rightarrow> str list \<Rightarrow> 'x agent_world \<Rightarrow> str option \<times> 'x agent_world) option"
  ag_max_turns :: "nat option"
  ag_middlewares :: "'x \<Rightarrow> (agent_event \<Rightarrow> ('x agent_world, unit) act) list"
  ag_listeners :: "'x \<Rightarrow> (agent_event \<Rightarrow> 'x agent_world \<Rightarrow> 'x agent_world) list"
  ag_now :: "'x agent_world \<Rightarrow> int"
  ag_json :: "json \<Rightarrow> str"
  ag_priority :: "'x agent_world \<Rightarrow> nat \<Rightarrow> nat"

definition agent_state_new :: "str \<Rightarrow> model \<Rightarrow> agent_state" where
  "agent_state_new prompt md =
     \<lparr>st_system_prompt = prompt, st_model = md, st_thinking = None, st_messages = [], st_streaming = False,
       st_streaming_message = None, st_pending_calls = [], st_error = None\<rparr>"

definition agent_new :: "str \<Rightarrow> model \<Rightarrow> 'x \<Rightarrow> 'x agent_world" where
  "agent_new prompt md x =
     \<lparr>aw_state = agent_state_new prompt md, aw_steering = queue_new OneAtATime, aw_follow_up = queue_new OneAtATime,
       aw_active = None, aw_failed = None, aw_outside = x\<rparr>"

section \<open>Operations beside a run\<close>

definition steer :: "str \<Rightarrow> message \<Rightarrow> 'x agent_world \<Rightarrow> 'x agent_world" where
  "steer i m w = w\<lparr>aw_steering := enqueue i m (aw_steering w)\<rparr>"

definition follow_up :: "str \<Rightarrow> message \<Rightarrow> 'x agent_world \<Rightarrow> 'x agent_world" where
  "follow_up i m w = w\<lparr>aw_follow_up := enqueue i m (aw_follow_up w)\<rparr>"

definition cancel_steer :: "str \<Rightarrow> 'x agent_world \<Rightarrow> bool \<times> 'x agent_world" where
  "cancel_steer i w = (case queue_cancel i (aw_steering w) of (b, q) \<Rightarrow> (b, w\<lparr>aw_steering := q\<rparr>))"

definition clear_queues :: "'x agent_world \<Rightarrow> (message list \<times> message list) \<times> 'x agent_world" where
  "clear_queues w =
     (case queue_take_all (aw_steering w) of (s, q1) \<Rightarrow>
        case queue_take_all (aw_follow_up w) of (f, q2) \<Rightarrow> ((s, f), w\<lparr>aw_steering := q1, aw_follow_up := q2\<rparr>))"

definition clear_steering_queue :: "'x agent_world \<Rightarrow> 'x agent_world" where
  "clear_steering_queue w = w\<lparr>aw_steering := (aw_steering w)\<lparr>pq_messages := []\<rparr>\<rparr>"

definition clear_follow_up_queue :: "'x agent_world \<Rightarrow> 'x agent_world" where
  "clear_follow_up_queue w = w\<lparr>aw_follow_up := (aw_follow_up w)\<lparr>pq_messages := []\<rparr>\<rparr>"

definition set_steering_mode :: "queue_mode \<Rightarrow> 'x agent_world \<Rightarrow> 'x agent_world" where
  "set_steering_mode mode w = w\<lparr>aw_steering := (aw_steering w)\<lparr>pq_mode := mode\<rparr>\<rparr>"

definition set_follow_up_mode :: "queue_mode \<Rightarrow> 'x agent_world \<Rightarrow> 'x agent_world" where
  "set_follow_up_mode mode w = w\<lparr>aw_follow_up := (aw_follow_up w)\<lparr>pq_mode := mode\<rparr>\<rparr>"

definition has_queued_messages :: "'x agent_world \<Rightarrow> bool" where
  "has_queued_messages w \<longleftrightarrow> queue_has_items (aw_steering w) \<or> queue_has_items (aw_follow_up w)"

definition abort_run :: "'x agent_world \<Rightarrow> 'x agent_world" where
  "abort_run w = (case aw_active w of Some _ \<Rightarrow> w\<lparr>aw_active := Some True\<rparr> | None \<Rightarrow> w)"

definition is_running :: "'x agent_world \<Rightarrow> bool" where
  "is_running w \<longleftrightarrow> aw_active w \<noteq> None"

definition clear_transcript_state :: "'x agent_world \<Rightarrow> 'x agent_world" where
  "clear_transcript_state w =
     w\<lparr>aw_state := (aw_state w)\<lparr>st_messages := [], st_streaming := False, st_streaming_message := None,
       st_pending_calls := [], st_error := None\<rparr>\<rparr>"

definition agent_reset :: "'x agent_world \<Rightarrow> 'x agent_world" where
  "agent_reset w = clear_follow_up_queue (clear_steering_queue (clear_transcript_state w))"

definition replace_transcript :: "message list \<Rightarrow> 'x agent_world \<Rightarrow> 'x agent_world" where
  "replace_transcript ms w = w\<lparr>aw_state := (aw_state w)\<lparr>st_messages := ms\<rparr>\<rparr>"

definition append_to_transcript :: "message \<Rightarrow> 'x agent_world \<Rightarrow> 'x agent_world" where
  "append_to_transcript m w = w\<lparr>aw_state := (aw_state w)\<lparr>st_messages := st_messages (aw_state w) @ [m]\<rparr>\<rparr>"

section \<open>Events\<close>

definition message_error :: "message \<Rightarrow> str option" where
  "message_error m = (case m of AssistantMsg a \<Rightarrow> as_error a | _ \<Rightarrow> None)"

definition reduce_event :: "agent_event \<Rightarrow> agent_state \<Rightarrow> agent_state" where
  "reduce_event e s =
     (case e of
        MessageStarted m \<Rightarrow> s\<lparr>st_streaming_message := Some m\<rparr>
      | MessageUpdated m _ \<Rightarrow> s\<lparr>st_streaming_message := Some m\<rparr>
      | MessageEnded m \<Rightarrow> s\<lparr>st_streaming_message := None, st_messages := st_messages s @ [m]\<rparr>
      | ToolStarted i _ _ \<Rightarrow> (if i \<in> set (st_pending_calls s) then s else s\<lparr>st_pending_calls := st_pending_calls s @ [i]\<rparr>)
      | ToolEnded i _ _ _ \<Rightarrow> s\<lparr>st_pending_calls := filter (\<lambda>j. j \<noteq> i) (st_pending_calls s)\<rparr>
      | TurnEnded m _ \<Rightarrow> (case message_error m of Some e \<Rightarrow> s\<lparr>st_error := Some e\<rparr> | None \<Rightarrow> s)
      | AgentEnded _ \<Rightarrow> s\<lparr>st_streaming_message := None\<rparr>
      | _ \<Rightarrow> s)"

fun run_middlewares :: "(agent_event \<Rightarrow> ('x agent_world, unit) act) list \<Rightarrow> agent_event \<Rightarrow> ('x agent_world, unit) act" where
  "run_middlewares [] e = done_with ()"
| "run_middlewares (m # ms) e = and_then (m e) (\<lambda>_. run_middlewares ms e)"

text \<open>The reduction comes first, and stands when a middleware fails.\<close>

definition process_event :: "'x agent \<Rightarrow> agent_event \<Rightarrow> ('x agent_world, unit) act" where
  "process_event ag e = (\<lambda>w.
     let w1 = w\<lparr>aw_state := reduce_event e (aw_state w)\<rparr> in
     and_then (run_middlewares (ag_middlewares ag (aw_outside w1)) e)
       (\<lambda>_ w2. (Inr (), fold (\<lambda>listener. listener e) (ag_listeners ag (aw_outside w2)) w2)) w1)"

text \<open>The sink of a run: behind a failed middleware nothing is delivered any more, the run is dropped.\<close>

definition channel_emit :: "'x agent \<Rightarrow> agent_event \<Rightarrow> ('x agent_world, unit) act" where
  "channel_emit ag e = (\<lambda>w.
     case aw_failed w of
       Some err \<Rightarrow> (Inl err, w)
     | None \<Rightarrow> (case process_event ag e w of
           (Inl err, w1) \<Rightarrow> (Inl err, w1\<lparr>aw_failed := Some err\<rparr>)
         | (Inr _, w1) \<Rightarrow> (Inr (), w1)))"

section \<open>Runs\<close>

definition drain_steering :: "'x agent_world \<Rightarrow> message list \<times> 'x agent_world" where
  "drain_steering w = (case queue_drain (aw_steering w) of (ms, q) \<Rightarrow> (ms, w\<lparr>aw_steering := q\<rparr>))"

definition drain_follow_up :: "'x agent_world \<Rightarrow> message list \<times> 'x agent_world" where
  "drain_follow_up w = (case queue_drain (aw_follow_up w) of (ms, q) \<Rightarrow> (ms, w\<lparr>aw_follow_up := q\<rparr>))"

definition create_context_snapshot :: "'x agent \<Rightarrow> 'x agent_world \<Rightarrow> 'x agent_world run_context" where
  "create_context_snapshot ag w =
     \<lparr>ct_system_prompt = st_system_prompt (aw_state w), ct_messages = st_messages (aw_state w), ct_tools = ag_tools ag,
       ct_model = st_model (aw_state w), ct_thinking = st_thinking (aw_state w), ct_session_id = ag_session_id ag\<rparr>"

definition create_loop_config :: "'x agent \<Rightarrow> 'x agent_world run_config" where
  "create_loop_config ag =
     \<lparr>rc_emit = channel_emit ag, rc_cancelled = (\<lambda>w. aw_active w = Some True), rc_now = ag_now ag, rc_json = ag_json ag,
       rc_priority = ag_priority ag, rc_stream = ag_stream ag, rc_steering = Some drain_steering,
       rc_follow_up = Some drain_follow_up, rc_prepare = ag_prepare ag, rc_resolver = ag_resolver ag,
       rc_should_stop = ag_should_stop ag, rc_before_tool = ag_before_tool ag, rc_after_tool = ag_after_tool ag,
       rc_before_request = ag_before_request ag, rc_before_turn_end = ag_before_turn_end ag, rc_max_bounces = None,
       rc_sequential = False, rc_max_turns = ag_max_turns ag\<rparr>"

text \<open>The run in flight is registered, and cleared with what belongs to it when the run has settled.\<close>

definition begin_run :: "'x agent_world \<Rightarrow> 'x agent_world" where
  "begin_run w =
     w\<lparr>aw_active := Some False, aw_failed := None,
       aw_state := (aw_state w)\<lparr>st_streaming := True, st_streaming_message := None, st_error := None\<rparr>\<rparr>"

definition settle_run :: "'x agent_world \<Rightarrow> 'x agent_world" where
  "settle_run w =
     w\<lparr>aw_active := None,
       aw_state := (aw_state w)\<lparr>st_streaming := False, st_streaming_message := None, st_pending_calls := []\<rparr>\<rparr>"

definition run_with_lifecycle ::
  "('x agent_world \<Rightarrow> ((str, message list) result \<times> 'x agent_world) option) \<Rightarrow> 'x agent_world
   \<Rightarrow> ((str, message list) result \<times> 'x agent_world) option" where
  "run_with_lifecycle executor w =
     (if is_running w then Some (Inl ''Agent is already processing.'', w)
      else case executor (begin_run w) of
          None \<Rightarrow> None
        | Some (r, w1) \<Rightarrow> Some (case aw_failed w1 of Some e \<Rightarrow> Inl e | None \<Rightarrow> r, settle_run w1))"

definition run_prompt_messages ::
  "nat \<Rightarrow> 'x agent \<Rightarrow> message list \<Rightarrow> 'x agent_world \<Rightarrow> ((str, message list) result \<times> 'x agent_world) option" where
  "run_prompt_messages fuel ag ms w =
     run_with_lifecycle (run_loop fuel (create_loop_config ag) (create_context_snapshot ag w) ms) w"

definition run_continuation ::
  "nat \<Rightarrow> 'x agent \<Rightarrow> 'x agent_world \<Rightarrow> ((str, message list) result \<times> 'x agent_world) option" where
  "run_continuation fuel ag w =
     run_with_lifecycle (run_loop_continue fuel (create_loop_config ag) (create_context_snapshot ag w)) w"

definition prompt_messages ::
  "nat \<Rightarrow> 'x agent \<Rightarrow> message list \<Rightarrow> 'x agent_world \<Rightarrow> ((str, message list) result \<times> 'x agent_world) option" where
  "prompt_messages fuel ag ms w =
     (if is_running w then Some (Inl ''Agent is already processing a prompt.'', w) else run_prompt_messages fuel ag ms w)"

definition prompt_text ::
  "nat \<Rightarrow> 'x agent \<Rightarrow> str \<Rightarrow> 'x agent_world \<Rightarrow> ((str, message list) result \<times> 'x agent_world) option" where
  "prompt_text fuel ag t w =
     (if is_running w then Some (Inl ''Agent is already processing a prompt.'', w)
      else run_prompt_messages fuel ag [user_message t (ag_now ag w)] w)"

definition continue_run :: "nat \<Rightarrow> 'x agent \<Rightarrow> 'x agent_world \<Rightarrow> ((str, message list) result \<times> 'x agent_world) option" where
  "continue_run fuel ag w =
     (if is_running w then Some (Inl ''Agent is already processing.'', w)
      else if st_messages (aw_state w) = [] then Some (Inl ''No messages to continue from'', w)
      else case last (st_messages (aw_state w)) of
          AssistantMsg _ \<Rightarrow>
            (case drain_steering w of (steering, w1) \<Rightarrow>
               if steering \<noteq> [] then run_prompt_messages fuel ag steering w1
               else case drain_follow_up w1 of (follow, w2) \<Rightarrow>
                 if follow \<noteq> [] then run_prompt_messages fuel ag follow w2
                 else Some (Inl ''Cannot continue from message role: assistant'', w2))
        | _ \<Rightarrow> run_continuation fuel ag w)"

section \<open>The transcript is what the runs reported\<close>

definition agent_transcript :: "'x agent_world \<Rightarrow> message list" where
  "agent_transcript w = st_messages (aw_state w)"

text \<open>The state belongs to the reducer: tools, streams, hooks, middlewares and listeners work on the world outside and
  on the queues, and a stream ends at most the message it returns.\<close>

definition state_is_exclusive :: "'x agent \<Rightarrow> bool" where
  "state_is_exclusive ag \<longleftrightarrow>
     tools_keep agent_transcript (ag_tools ag) \<and> stream_owns_end agent_transcript (ag_stream ag)
     \<and> (\<forall>f md sm. ag_resolver ag = Some f \<and> f md = Inr sm \<longrightarrow> stream_owns_end agent_transcript sm)
     \<and> keeps_optional agent_transcript (ag_prepare ag)
     \<and> (\<forall>f cs last. ag_before_turn_end ag = Some f \<longrightarrow> keeps agent_transcript (f cs last))
     \<and> (\<forall>x. \<forall>m \<in> set (ag_middlewares ag x). \<forall>e. keeps agent_transcript (m e))
     \<and> (\<forall>x. \<forall>l \<in> set (ag_listeners ag x). \<forall>e w. agent_transcript (l e w) = agent_transcript w)"

lemma transcript_simps [simp]:
  "agent_transcript (begin_run w) = agent_transcript w" "agent_transcript (settle_run w) = agent_transcript w"
  "agent_transcript (w\<lparr>aw_failed := f\<rparr>) = agent_transcript w" "agent_transcript (w\<lparr>aw_steering := q\<rparr>) = agent_transcript w"
  "agent_transcript (w\<lparr>aw_follow_up := q\<rparr>) = agent_transcript w"
  "agent_transcript (w\<lparr>aw_state := s\<rparr>) = st_messages s"
  by (simp_all add: agent_transcript_def begin_run_def settle_run_def)

lemma reduce_event_messages: "st_messages (reduce_event e s) = st_messages s @ ended_by e"
  by (simp add: reduce_event_def ended_by_def split: agent_event.split option.split)

lemma run_middlewares_keep: "\<forall>m \<in> set ms. keeps L (m e) \<Longrightarrow> keeps L (run_middlewares ms e)"
  by (induction ms) (auto intro!: keeping)

lemma listeners_keep: "\<forall>l \<in> set ls. \<forall>w. L (l e w) = L w \<Longrightarrow> L (fold (\<lambda>listener. listener e) ls w) = L w"
  by (induction ls arbitrary: w) auto

lemma process_event_reduces:
  assumes "state_is_exclusive ag"
  shows "agent_transcript (snd (process_event ag e w)) = agent_transcript w @ ended_by e"
proof -
  define w1 where "w1 = w\<lparr>aw_state := reduce_event e (aw_state w)\<rparr>"
  define mws where "mws = run_middlewares (ag_middlewares ag (aw_outside w1)) e"
  obtain r w2 where m: "mws w1 = (r, w2)" by fastforce
  have "keeps agent_transcript mws"
    unfolding mws_def using assms by (intro run_middlewares_keep) (simp add: state_is_exclusive_def)
  then have k: "agent_transcript w2 = agent_transcript w @ ended_by e"
    using m unfolding keeps_def by (metis agent_transcript_def reduce_event_messages snd_conv transcript_simps(6) w1_def)
  have l: "agent_transcript (fold (\<lambda>listener. listener e) (ag_listeners ag (aw_outside w2)) w2) = agent_transcript w2"
    using assms by (intro listeners_keep) (simp add: state_is_exclusive_def)
  have "process_event ag e w
      = and_then mws (\<lambda>_ w2. (Inr (), fold (\<lambda>listener. listener e) (ag_listeners ag (aw_outside w2)) w2)) w1"
    by (simp add: process_event_def Let_def mws_def w1_def)
  then show ?thesis using m k l by (cases r) (simp_all add: and_then_def)
qed

lemma channel_emit_reduces:
  assumes "state_is_exclusive ag"
  shows "aw_failed w = None \<Longrightarrow> agent_transcript (snd (channel_emit ag e w)) = agent_transcript w @ ended_by e"
    and "aw_failed w = Some err \<Longrightarrow> channel_emit ag e w = (Inl err, w)"
proof -
  obtain r w1 where p: "process_event ag e w = (r, w1)" by fastforce
  then have "agent_transcript w1 = agent_transcript w @ ended_by e" using process_event_reduces [OF assms, of e w] by simp
  then show "agent_transcript (snd (channel_emit ag e w)) = agent_transcript w @ ended_by e" if "aw_failed w = None"
    using that p by (cases r) (simp_all add: channel_emit_def)
qed (simp add: channel_emit_def)

lemma channel_emit_observed:
  assumes "state_is_exclusive ag"
  shows "channel_emit ag e w = (Inr (), w') \<Longrightarrow> agent_transcript w' = agent_transcript w @ ended_by e"
    and "ended_by e = [] \<Longrightarrow> keeps agent_transcript (channel_emit ag e)"
proof -
  assume "channel_emit ag e w = (Inr (), w')"
  then show "agent_transcript w' = agent_transcript w @ ended_by e"
    using channel_emit_reduces(1) [OF assms, of w e] channel_emit_reduces(2) [OF assms, of w _ e] by (cases "aw_failed w") simp_all
next
  assume "ended_by e = []"
  then have "agent_transcript (snd (channel_emit ag e v)) = agent_transcript v" for v
    using channel_emit_reduces(1) [OF assms, of v e] channel_emit_reduces(2) [OF assms, of v _ e] by (cases "aw_failed v") simp_all
  then show "keeps agent_transcript (channel_emit ag e)" by (simp add: keeps_def)
qed

lemma drains_keep:
  "keeps agent_transcript drain_steering" "keeps agent_transcript drain_follow_up"
  "drain_follow_up w = (ms, w') \<Longrightarrow> aw_active w' = aw_active w"
  by (auto simp add: keeps_def drain_steering_def drain_follow_up_def split: prod.splits)

lemma agent_observed:
  assumes "state_is_exclusive ag"
  shows "observed agent_transcript (create_loop_config ag)"
  using assms channel_emit_observed [OF assms] drains_keep
  by (auto simp: observed_def create_loop_config_def state_is_exclusive_def keeps_optional_def poll_def split: prod.split dest!: drains_keep(3))

definition agent_idle :: "'x agent_world \<Rightarrow> bool" where
  "agent_idle w \<longleftrightarrow>
     \<not> is_running w \<and> \<not> st_streaming (aw_state w) \<and> st_streaming_message (aw_state w) = None \<and> st_pending_calls (aw_state w) = []"

lemma settled_idle: "agent_idle (settle_run w)"
  by (simp add: agent_idle_def settle_run_def is_running_def)

lemma lifecycle_reports:
  assumes "state_is_exclusive ag" "run_with_lifecycle (run_loop_inner fuel (create_loop_config ag) ctx ms) w = Some (Inr new, w')"
    "ct_tools ctx = ag_tools ag"
  shows "reported (agent_transcript w) ms new (agent_transcript w') \<and> agent_idle w'"
proof -
  obtain w1 where r: "run_loop_inner fuel (create_loop_config ag) ctx ms (begin_run w) = Some (Inr new, w1)" "w' = settle_run w1"
    using assms(2) by (auto simp: run_with_lifecycle_def split: if_splits option.splits)
  have "tools_keep agent_transcript (ct_tools ctx)" using assms(1,3) by (simp add: state_is_exclusive_def)
  then show ?thesis using run_reports [OF agent_observed [OF assms(1)] _ r(1)] r(2) settled_idle by simp
qed

text \<open>C28: A prompt that succeeds leaves the agent idle, its transcript grown by exactly the messages of the run, each once
  and in order; a failed turn's unexecuted calls have their results in the run alone, and a run cancelled before its
  first turn leaves only its terminal message.\<close>

theorem transcript_is_what_runs_report:
  assumes "state_is_exclusive ag" and "prompt_messages fuel ag ms w = Some (Inr new, w')"
  shows "reported (agent_transcript w) ms new (agent_transcript w') \<and> agent_idle w'"
proof -
  let ?ctx = "create_context_snapshot ag w"
  have "run_with_lifecycle (run_loop_inner fuel (create_loop_config ag) (?ctx\<lparr>ct_messages := ct_messages ?ctx @ ms\<rparr>) ms) w
      = Some (Inr new, w')"
    using assms(2) by (simp add: prompt_messages_def run_prompt_messages_def run_loop_def [abs_def] split: if_splits)
  then show ?thesis by (rule lifecycle_reports [OF assms(1)]) (simp add: create_context_snapshot_def)
qed

section \<open>A concrete agent\<close>

definition one_turn_stream :: "agent_event list agent_world stream" where
  "one_turn_stream =
     \<lparr>sm_api = [], sm_run = (\<lambda>_ w.
        (([MessageStarted (loop_answer StopTurn []), MessageEnded (loop_answer StopTurn [])], StreamReturned (loop_answer StopTurn [])), w))\<rparr>"

text \<open>Its listener keeps a log outside.\<close>

definition demo_agent :: "agent_event list agent" where
  "demo_agent =
     \<lparr>ag_tools = [], ag_stream = one_turn_stream, ag_resolver = None, ag_session_id = None, ag_before_request = None,
       ag_before_tool = None, ag_after_tool = None, ag_prepare = None, ag_should_stop = None, ag_before_turn_end = None,
       ag_max_turns = None, ag_middlewares = (\<lambda>_. []),
       ag_listeners = (\<lambda>_. [\<lambda>e w. w\<lparr>aw_outside := aw_outside w @ [e]\<rparr>]),
       ag_now = (\<lambda>_. 0), ag_json = (\<lambda>_. []), ag_priority = (\<lambda>_ i. i)\<rparr>"

definition demo_world :: "agent_event list agent_world" where
  "demo_world = agent_new [] loop_model []"

lemma demo_exclusive: "state_is_exclusive demo_agent"
  by (simp add: state_is_exclusive_def demo_agent_def one_turn_stream_def tools_keep_def stream_owns_end_def keeps_optional_def
      agent_transcript_def)

lemma demo_prompt:
  "\<exists>w'. prompt_messages 3 demo_agent [loop_prompt] demo_world = Some (Inr [loop_prompt, loop_answer StopTurn []], w')"
  by (simp add: prompt_messages_def run_prompt_messages_def run_with_lifecycle_def is_running_def demo_world_def agent_new_def
      begin_run_def create_loop_config_def demo_agent_def one_turn_stream_def channel_emit_def process_event_def
      drain_steering_def drain_follow_up_def queue_drain_def queue_new_def loop_step_defs loop_answer_def loop_prompt_def
      eval_nat_numeral)

theorem transcript_is_what_runs_report_witness:
  "\<exists>w'. prompt_messages 3 demo_agent [loop_prompt] demo_world = Some (Inr [loop_prompt, loop_answer StopTurn []], w')
     \<and> reported [] [loop_prompt] [loop_prompt, loop_answer StopTurn []] (agent_transcript w') \<and> agent_idle w'"
proof -
  obtain w' where p: "prompt_messages 3 demo_agent [loop_prompt] demo_world = Some (Inr [loop_prompt, loop_answer StopTurn []], w')"
    using demo_prompt by blast
  have "agent_transcript demo_world = []" by (simp add: agent_transcript_def demo_world_def agent_new_def agent_state_new_def)
  then show ?thesis using transcript_is_what_runs_report [OF demo_exclusive p] p by simp
qed

end
