(* ===== verification/Spec2Isabelle.thy ===== *)
theory Spec2Isabelle
  imports Hashline_Apply Hashline_Render Hashline_Display Hashline_Recovery Path_Utils File_Mutation_Queue Tool_Session Net_Policy Goal_Driver Session_Ops Session_Repair Harness_Navigate Agent
begin

text \<open>
  A verification library for manox, a coding agent written in Rust (\<^verbatim>\<open>src/crates\<close>). It models the parts whose
  mistakes lose work: the text edits a language model asks for, the session log, the sandbox's network gate and
  the rounds an agent takes on its own. The crates are \<^verbatim>\<open>manox-harness\<close> (the agent, its tools and sessions),
  \<^verbatim>\<open>manox-agent\<close> (engine, goals, sandbox, threads) and the protocol and server crates around them.

  \<^bold>\<open>How the parts interact.\<close> A tool call reads or displays a file; the display numbers the lines and carries a tag,
  the store keeps the version behind the tag with the lines that were shown. An edit names a file and a tag; it is
  parsed, checked against what was shown, applied to the tagged version or replayed on the drifted file, and
  written under the file's lock. Every message and state change of the conversation is an entry of the session
  log, from which a restart rebuilds the agent's context; the goal journal is folded from such rows. The harness
  keeps that context within the model's window: it compacts the older part into a summary, an entry of the log too,
  retries failed requests, and moves between branches of the log. Before a request the context is projected to the
  roles a provider knows. Commands of the sandbox reach the network through a proxy that judges every host.

  \<^bold>\<open>Theories and the code they model.\<close>

  \<^item> \<open>Manox_Prelude\<close>: Rust strings as UTF-8 bytes, results as sums, trimming, splitting and joining of lines,
    decimal numbers, insertion into sorted lists, JSON values.
  \<^item> \<open>Hashline_Hash\<close> (\<^verbatim>\<open>core/hashline/hash.rs\<close>): normalization and the six-digit content tag; the 32-bit hash is a
    parameter. \<open>Hashline_Ops\<close> (\<^verbatim>\<open>hashline/parser.rs\<close>, \<^verbatim>\<open>mod.rs\<close>): operations, sections, anchor lines.
  \<^item> \<open>Hashline_Block\<close> (\<^verbatim>\<open>hashline/block.rs\<close>): bracket blocks; the resolved block is the shortest balanced one.
  \<^item> \<open>Hashline_Apply\<close> (\<^verbatim>\<open>hashline/apply.rs\<close>): \<open>apply_ops\<close> with its conflict checks and boundary repair; an access
    out of range is the error \<open>Panicked\<close>. A successful application refines the simultaneous replacement.
  \<^item> \<open>Hashline_Parser\<close>, \<open>Hashline_Render\<close> (\<^verbatim>\<open>hashline/parser.rs\<close>): the parser as a state machine over lines with all
    its recoveries; accepted patches are well formed, and the strict grammar, as a printer, parses back.
  \<^item> \<open>Hashline_Snapshot\<close> (\<^verbatim>\<open>hashline/snapshot.rs\<close>): version histories, eviction, disk tier; the reachable stores keep
    their bounds. \<open>Hashline_Display\<close> (\<^verbatim>\<open>hashline/mod.rs\<close>): displays, provenance, the gate on unseen lines.
  \<^item> \<open>Hashline_Recovery\<close> (\<^verbatim>\<open>hashline/recovery.rs\<close>): replay of a stale edit; it changes what the edit meant to change.
  \<^item> \<open>Path_Utils\<close>, \<open>Tool_Env\<close>, \<open>Truncate\<close>, \<open>File_Mutation_Queue\<close>, \<open>Edit_Tool\<close>, \<open>File_Tools\<close>, \<open>Tool_Session\<close>
    (\<^verbatim>\<open>core/tools/*.rs\<close>, \<^verbatim>\<open>core/tool.rs\<close>, \<^verbatim>\<open>core/env.rs\<close>): the file tools. The file system is a map with failing writes;
    \<open>edit\<close> writes all files or none, only what a display or a replay justifies; the locks never deadlock; a
    session of calls keeps the store's invariant (the locale \<open>store_invariant\<close>, interpreted on the store).
  \<^item> \<open>Agent_Types\<close> (\<^verbatim>\<open>core/types.rs\<close>): events, tools and the configuration of a run over a world \<open>'w\<close>.
    \<open>Tool_Pipeline\<close>, \<open>Tool_Schedule\<close> (\<^verbatim>\<open>core/tool.rs\<close>): one call with its checks and hooks, and a batch. Every call
    is answered once and in order, and the scheduler's rounds are the levels of the conflicts between calls. The
    calls of a round are taken one after the other, in an order the world chooses.
  \<^item> \<open>Agent_Loop\<close>, \<open>Agent_Run\<close> (\<^verbatim>\<open>core/agent_loop.rs\<close>): the loop over the turns of a run, with streaming, failed and
    truncated calls, updates, limits, queues, the turn-end gate and cancellation. Both nested loops are one function
    with fuel; with a limit of \<open>n\<close> turns \<open>2 n + 2\<close> steps are enough, without a limit a run may go on for ever. Every
    call of a run is followed by its result. \<open>Agent_Report\<close>, \<open>Agent\<close> (\<^verbatim>\<open>core/agent.rs\<close>): what a run reports, and the agent
    around it with its queues, the reduction of events and the lifecycle of a run; the transcript grows by exactly
    what the runs report.
  \<^item> \<open>Net_Policy\<close> (\<^verbatim>\<open>manox-agent/src/sandbox/netpolicy.rs\<close>): allowlist, CONNECT requests, private addresses, approvals,
    the switch of the proxy. Its judgement equals the documented meaning; a tunnel is authorized.
  \<^item> \<open>Goal\<close>, \<open>Goal_Bridge\<close>, \<open>Goal_Driver\<close> (\<^verbatim>\<open>manox-agent/src/goal.rs\<close>, \<^verbatim>\<open>goal_tools.rs\<close>, \<^verbatim>\<open>goal_driver.rs\<close>, the goal
    functions of \<^verbatim>\<open>engine/run.rs\<close>): the fold of goal events, the bridge and its journal, the loop of automatic
    rounds. The loop runs on fuel; a round limit is enough fuel, so it ends.
  \<^item> \<open>Session_Log\<close>, \<open>Session_Storage\<close> (\<^verbatim>\<open>core/session/jsonl.rs\<close>, \<^verbatim>\<open>event.rs\<close>): entries, the lines of a session file, the
    loader with its memoized depths, and every operation of one storage instance; \<open>storage\<close> is
    \<^verbatim>\<open>JsonlSessionStorage\<close>, the file is an optional byte list. \<open>Session_Tree\<close>, \<open>Session_Ops\<close> (\<^verbatim>\<open>core/session/mod.rs\<close>):
    restored context, branch queries, and the appends of a session over a \<open>backend\<close>, the storage trait.
  \<^item> \<open>Session_File\<close>, \<open>Session_Append\<close>, \<open>Session_Repair\<close>, \<open>Session_Path\<close>: what the loader makes of written files, the
    linearization of all instances over one file, crashes and disorder, the paths. The locale \<open>session_store\<close>
    is what the trait promises, interpreted on the JSONL storage. \<open>Session_Wire\<close> is one concrete serialization,
    for the witnesses.
  \<^item> \<open>Agent_Message\<close> (\<^verbatim>\<open>core/types.rs\<close>): messages, content blocks, usage. \<open>Transcript\<close> (\<^verbatim>\<open>provider/transform.rs\<close>): the
    projection to wire roles and the repair of the tool flow; what is sent has no unanswered call.
    \<open>Provider_Retry\<close> (\<^verbatim>\<open>provider/overflow.rs\<close>, \<^verbatim>\<open>retry.rs\<close>): which failures mean what, and the bounded send loop.
  \<^item> \<open>Compaction\<close>, \<open>Compaction_Cut\<close>, \<open>Compaction_Plan\<close>, \<open>Summary_Prompts\<close> (\<^verbatim>\<open>core/compaction/mod.rs\<close>): token
    estimates, the cut (the least safe one), the preparation and its partition of the transcript, prompts, file
    lists. \<open>Branch_Summary\<close> (\<^verbatim>\<open>compaction/branch_summarization.rs\<close>): the selection for the summary of a branch.
  \<^item> \<open>Harness_Compact\<close>, \<open>Harness_Restart\<close>, \<open>Harness_Recovery\<close>, \<open>Harness_Navigate\<close> (\<^verbatim>\<open>core/harness.rs\<close>): the record
    \<open>harness\<close> over a session's storage with compaction, restore, the settling after a run and tree navigation.
    A compaction survives a restart, a failed one changes nothing; a navigation leaves what the session rebuilds.
    The settling runs on fuel: in an outage the configured retries and two rounds are enough.

  \<^bold>\<open>Parameters.\<close> Code outside the repository is an argument with its documented behaviour as laws: the hash behind the
  tags, the structural diff, path canonicalization and the file system's answers, name resolution and the user's
  answers, clocks and generated ids, JSON text and the derived serializations (\<open>wire_ok\<close>: texts parse back and
  hold no newline, no proper prefix of an object's text parses, entries and headers read back as written).
  The runs of the agent, the model's replies, hooks, regular expressions, cancellations and the printing of JSON are
  functions, so every answer and every order of answers is covered. JSON numbers are integers; a floating-point number is inside an uninterpreted value.

  \<^bold>\<open>Bounds.\<close> Lengths are \<open>nat\<close> where 64 bits cannot be exceeded; token counters saturate and hashes wrap as in the code.
  A session has at most \<open>2^64\<close> entries. An operation that holds a lock for its whole run is one step, and
  interleavings are sequences of such steps.

  \<^bold>\<open>Not modelled.\<close> Search, shell and web tools, provider clients, the prompt handler of
  the harness with its queues and hook registration, subagents, SQL
  stores, the host protocol, servers, language servers, operating-system isolation and configuration loading:
  processes, sockets, third-party types or glue. Of the session log, usage statistics, directory scans and
  process probes; of a crash, only the torn line it leaves; deleting the file under an open session is modelled
  by the operations but not part of the runs of \<open>reach\<close>.
\<close>

end
